(* ===== verification/Prelude.thy ===== *)
theory Prelude
  imports Main "HOL-Library.Word" "HOL-Library.Monad_Syntax"
begin

text \<open>
  Shared vocabulary of the development: the machine types of the code (\<open>size_t\<close> and pointers
  are 64-bit words), the exceptions the code throws, memory as a function from addresses to
  eight-byte cells, and the lemma collections that carry the component proofs.

  Ghost quantities (block addresses and sizes, slot numbers) are natural numbers.  The constant
  \<open>adr\<close> turns such a number into the machine address it stands for; the rules in
  \<open>adr_simps\<close> move machine arithmetic under \<open>adr\<close>, where it becomes linear arithmetic.
\<close>

unbundle bit_operations_syntax

section \<open>Machine types\<close>

type_synonym u64 = "64 word"
type_synonym ptr = "64 word"
type_synonym memory = "ptr \<Rightarrow> u64"

text \<open>The null pointer and the largest \<open>size_t\<close>.\<close>

abbreviation (input) nullptr :: ptr where
  "nullptr \<equiv> 0"

definition size_max :: u64 where
  "size_max = - 1"

text \<open>What the code throws; the string is the message of the source.\<close>

datatype exn = Bad_alloc | Bad_array_new_length | Invalid_argument string

named_theorems adr_simps \<open>machine addresses as natural numbers\<close>
named_theorems word_nat \<open>machine words read as natural numbers\<close>

section \<open>Words and natural numbers\<close>

lemma unat_size_max [simp, word_nat]: "unat size_max = 2 ^ 64 - 1"
  by (simp add: size_max_def unsigned_minus_1_eq_mask mask_eq_exp_minus_1)

lemma unat_lt_64: "unat (x :: u64) < 2 ^ 64"
  using unsigned_less[where 'a = nat and w = x] by simp

lemma unat_le_64: "unat (x :: u64) \<le> 18446744073709551615"
  using unat_lt_64[of x] by simp

lemma word_clear_low_eq: "x AND NOT (mask k) = x - take_bit k x" for x :: "'a::len word"
proof -
  have "x AND NOT (mask k) = push_bit k (drop_bit k x)"
    by (rule bit_word_eqI) (auto simp: bit_simps)
  then show ?thesis
    using bits_ident[of k x] by (metis add_diff_cancel_right')
qed

lemma unat_take_bit: "unat (take_bit k x) = unat x mod 2 ^ k" for x :: "'a::len word"
  by (simp flip: take_bit_eq_mod add: unsigned_take_bit_eq)

lemma unat_clear_low: "unat (x AND NOT (mask k)) = unat x - unat x mod 2 ^ k" for x :: "'a::len word"
proof -
  have "take_bit k x \<le> x"
    by (simp add: word_le_nat_alt unat_take_bit)
  then show ?thesis
    by (simp add: word_clear_low_eq unat_sub unat_take_bit)
qed

lemma unat_and_mask: "unat (x AND mask k) = unat x mod 2 ^ k" for x :: "'a::len word"
  by (simp add: unat_take_bit flip: take_bit_eq_mask)

lemma unat_plus_le: "unat (a :: u64) + unat b < 2 ^ 64 \<Longrightarrow> unat (a + b) = unat a + unat b"
  by (simp add: unat_word_ariths)

lemma unat_times_le: "unat (a :: u64) * unat b < 2 ^ 64 \<Longrightarrow> unat (a * b) = unat a * unat b"
  by (simp add: unat_word_ariths)

lemma unat_minus_le: "b \<le> a \<Longrightarrow> unat (a - b) = unat a - unat b" for a b :: u64
  by (rule unat_sub)

lemma unat_max: "unat (max a b) = max (unat a) (unat b)" for a b :: u64
  by (simp add: max_def word_le_nat_alt)

lemma unat_2p: "k < 64 \<Longrightarrow> unat ((2 :: u64) ^ k) = 2 ^ k"
proof -
  assume "k < 64"
  then have "(2::nat) ^ k < 2 ^ 64"
    by (intro power_strict_increasing) auto
  then show ?thesis
    using unat_of_nat[of "2 ^ k", where 'a = 64] by simp
qed

lemmas u64_nat = word_le_nat_alt word_less_nat_alt word_unat_eq_iff unat_word_ariths

section \<open>Ghost addresses\<close>

definition adr :: "nat \<Rightarrow> u64" where
  "adr n = word_of_nat n"

lemma adr_eq_iff [adr_simps]: "a < 2 ^ 64 \<Longrightarrow> b < 2 ^ 64 \<Longrightarrow> adr a = adr b \<longleftrightarrow> a = b"
  by (auto simp: adr_def word_of_nat_eq_iff take_bit_nat_eq_self_iff take_bit_eq_mod)

lemma unat_adr [adr_simps, word_nat]: "a < 2 ^ 64 \<Longrightarrow> unat (adr a) = a"
  by (simp add: adr_def unat_of_nat)

lemma adr_unat [simp]: "adr (unat x) = x"
  by (simp add: adr_def)

lemma adr_0 [simp]: "adr 0 = 0"
  by (simp add: adr_def)

lemma adr_plus [adr_simps]: "adr a + adr b = adr (a + b)"
  by (simp add: adr_def)

lemma adr_plus_numeral [adr_simps]: "adr a + numeral k = adr (a + numeral k)"
  by (simp add: adr_def)

lemma adr_minus [adr_simps]: "b \<le> a \<Longrightarrow> adr a - adr b = adr (a - b)"
  by (simp add: adr_def of_nat_diff)

lemma adr_minus_numeral [adr_simps]: "numeral k \<le> a \<Longrightarrow> adr a - numeral k = adr (a - numeral k)"
  by (simp add: adr_def of_nat_diff)

lemma adr_times [adr_simps]: "adr a * adr b = adr (a * b)"
  by (simp add: adr_def)

lemma adr_le_iff [adr_simps]: "a < 2 ^ 64 \<Longrightarrow> b < 2 ^ 64 \<Longrightarrow> adr a \<le> adr b \<longleftrightarrow> a \<le> b"
  by (simp add: word_le_nat_alt unat_adr)

lemma adr_less_iff [adr_simps]: "a < 2 ^ 64 \<Longrightarrow> b < 2 ^ 64 \<Longrightarrow> adr a < adr b \<longleftrightarrow> a < b"
  by (simp add: word_less_nat_alt unat_adr)

lemma adr_eq_0_iff [adr_simps]: "a < 2 ^ 64 \<Longrightarrow> adr a = 0 \<longleftrightarrow> a = 0"
  using adr_eq_iff[of a 0] by simp

lemma adr_numeral: "adr (numeral k) = numeral k"
  by (simp add: adr_def)

lemma adr_cases [case_names adr]:
  obtains n where "n < 2 ^ 64" and "x = adr n"
  using that[of "unat x"] unat_lt_64[of x] by simp

section \<open>Powers of two and alignment\<close>

text \<open>
  The \<open>\<langle>bit\<rangle>\<close> functions of the standard library, by their defining property: a value has a
  single bit when it is a power of two, \<open>bit_ceil\<close> is the least power of two that is not below
  the value, \<open>bit_width\<close> is one more than the base-2 logarithm (an \<open>int\<close>), and \<open>countr_zero\<close>
  counts the low bits that are clear.
\<close>

definition has_single_bit :: "u64 \<Rightarrow> bool" where
  "has_single_bit x \<longleftrightarrow> list_ex (\<lambda>k. x = 2 ^ k) [0..<64]"

definition bit_ceil :: "u64 \<Rightarrow> u64" where
  "bit_ceil x = (case filter (\<lambda>k. x \<le> 2 ^ k) [0..<64] of [] \<Rightarrow> 0 | k # _ \<Rightarrow> 2 ^ k)"

fun nat_width :: "nat \<Rightarrow> nat" where
  "nat_width n = (if n = 0 then 0 else Suc (nat_width (n div 2)))"

declare nat_width.simps [simp del]

definition bit_width :: "u64 \<Rightarrow> int" where
  "bit_width x = int (nat_width (unat x))"

definition countr_zero :: "u64 \<Rightarrow> nat" where
  "countr_zero x = length (takeWhile (\<lambda>i. \<not> bit x i) [0..<64])"

definition is_aligned :: "ptr \<Rightarrow> u64 \<Rightarrow> bool" where
  "is_aligned p alignment \<longleftrightarrow> p AND (alignment - 1) = 0"

text \<open>
  \<open>std::align\<close>: the first address at or after \<open>p\<close> with the alignment, with the space that is
  left behind it, when an object of the given size still fits.
\<close>

definition std_align :: "u64 \<Rightarrow> u64 \<Rightarrow> ptr \<Rightarrow> u64 \<Rightarrow> (ptr \<times> u64) option" where
  "std_align alignment bytes p space =
     (if space < bytes then None
      else let aligned = (p - 1 + alignment) AND (- alignment);
               diff = aligned - p
           in if diff > space - bytes then None else Some (aligned, space - diff))"

lemma has_single_bit_iff: "has_single_bit x \<longleftrightarrow> (\<exists>k < 64. x = 2 ^ k)"
  by (auto simp: has_single_bit_def list_ex_iff)

lemma has_single_bitE:
  assumes "has_single_bit x"
  obtains k where "k < 64" and "x = 2 ^ k" and "unat x = 2 ^ k"
  using assms unat_2p by (auto simp: has_single_bit_iff)

lemma is_aligned_iff:
  assumes "has_single_bit al"
  shows "is_aligned p al \<longleftrightarrow> unat al dvd unat p"
proof -
  from assms obtain k where k: "k < 64" "al = 2 ^ k" "unat al = 2 ^ k"
    by (rule has_single_bitE)
  have "p AND (al - 1) = take_bit k p"
    using k by (simp add: take_bit_eq_mask mask_eq_exp_minus_1)
  then show ?thesis
    using k(3) by (simp add: is_aligned_def unat_take_bit dvd_eq_mod_eq_0 flip: unat_eq_zero)
qed

lemma has_single_bit_pos: "has_single_bit x \<Longrightarrow> 0 < unat x"
  by (auto elim: has_single_bitE)

lemma single_bit_dvd:
  assumes "has_single_bit a" "has_single_bit b" "a \<le> b"
  shows "unat a dvd unat b"
proof -
  from assms(1) obtain i where i: "unat a = 2 ^ i" by (rule has_single_bitE)
  from assms(2) obtain j where j: "unat b = 2 ^ j" by (rule has_single_bitE)
  have "(2::nat) ^ i \<le> 2 ^ j"
    using assms(3) i j by (simp add: word_le_nat_alt)
  then have "i \<le> j"
    using power_increasing_iff[of "2::nat" i j] by simp
  then show ?thesis
    using i j by (simp add: le_imp_power_dvd)
qed

end
