(* ===== verification/Types_Arith.thy ===== *)
theory Types_Arith
  imports Prelude
begin

text \<open>
  The modes, policies and checked arithmetic of \<open>lib/types.hpp\<close>, the configuration constraint
  of \<open>lib/allocazam.hpp\<close> and the page-size detection of \<open>lib/allocazam.cpp\<close>.  A checked
  operation returns \<open>None\<close> where the code returns \<open>false\<close> (and leaves its output parameter
  alone); the lemmas read each one as an exact statement about natural numbers.
\<close>

section \<open>Modes and policies\<close>

datatype memory_mode = Fixed | Dynamic | Noheap

datatype allocation_model = Suballocated | Exclusive

datatype huge_pages = Huge_disabled | Huge_enabled

definition fixed_mode :: "memory_mode \<Rightarrow> bool" where
  "fixed_mode mode \<longleftrightarrow> mode = Fixed"

definition dynamic_mode :: "memory_mode \<Rightarrow> bool" where
  "dynamic_mode mode \<longleftrightarrow> mode = Dynamic"

definition noheap_mode :: "memory_mode \<Rightarrow> bool" where
  "noheap_mode mode \<longleftrightarrow> mode = Noheap"

definition heap_backed_mode :: "memory_mode \<Rightarrow> bool" where
  "heap_backed_mode mode \<longleftrightarrow> fixed_mode mode \<or> dynamic_mode mode"

definition fixed_like_mode :: "memory_mode \<Rightarrow> bool" where
  "fixed_like_mode mode \<longleftrightarrow> fixed_mode mode \<or> noheap_mode mode"

lemmas mode_defs = fixed_mode_def dynamic_mode_def noheap_mode_def heap_backed_mode_def
  fixed_like_mode_def

text \<open>\<open>explicit_huge_pages_supported\<close> is a build constant: true exactly on Linux.\<close>

definition supported_std_allocator_configuration ::
    "bool \<Rightarrow> memory_mode \<Rightarrow> allocation_model \<Rightarrow> huge_pages \<Rightarrow> bool" where
  "supported_std_allocator_configuration explicit_huge_pages_supported Memory Allocation Huge \<longleftrightarrow>
     (Huge = Huge_disabled \<or> explicit_huge_pages_supported) \<and>
     (Memory \<noteq> Noheap \<or> Huge = Huge_disabled) \<and>
     (Allocation = Suballocated \<or>
      (Allocation = Exclusive \<and> (Memory = Fixed \<or> Memory = Noheap)))"

section \<open>Checked arithmetic\<close>

definition round_to_multiple_of :: "u64 \<Rightarrow> u64 \<Rightarrow> u64" where
  "round_to_multiple_of value multiple =
     (let rem = value mod multiple
      in if rem = 0 then value else value + (multiple - rem))"

definition checked_add :: "u64 \<Rightarrow> u64 \<Rightarrow> u64 option" where
  "checked_add lhs rhs = (if lhs > size_max - rhs then None else Some (lhs + rhs))"

definition checked_mul :: "u64 \<Rightarrow> u64 \<Rightarrow> u64 option" where
  "checked_mul lhs rhs =
     (if lhs = 0 \<or> rhs = 0 then Some 0
      else if lhs > size_max div rhs then None
      else Some (lhs * rhs))"

definition checked_round_to_multiple_of :: "u64 \<Rightarrow> u64 \<Rightarrow> u64 option" where
  "checked_round_to_multiple_of value multiple =
     (if multiple = 0 then None
      else let rem = value mod multiple
           in if rem = 0 then Some value else checked_add value (multiple - rem))"

text \<open>\<open>detect_page_size\<close>: what \<open>sysconf(_SC_PAGESIZE)\<close> answers (a \<open>long\<close>), or 4 KiB.\<close>

definition detect_page_size :: "int \<Rightarrow> u64" where
  "detect_page_size sysconf_answer = (if sysconf_answer > 0 then word_of_int sysconf_answer else 4096)"

subsection \<open>The operations on natural numbers\<close>

lemma unat_size_max_minus: "unat (size_max - b) = 2 ^ 64 - 1 - unat b"
proof -
  have "b \<le> size_max"
    using unat_le_64[of b] by (simp add: word_le_nat_alt)
  then show ?thesis by (simp add: unat_sub)
qed

lemma checked_add_eq:
  "checked_add a b = (if unat a + unat b < 2 ^ 64 then Some (a + b) else None)"
proof -
  have "a > size_max - b \<longleftrightarrow> \<not> unat a + unat b < 2 ^ 64"
    using unat_lt_64[of a] unat_lt_64[of b]
    by (simp add: word_less_nat_alt unat_size_max_minus) arith
  then show ?thesis by (simp add: checked_add_def)
qed

lemma checked_add_SomeD:
  assumes "checked_add a b = Some c"
  shows "c = a + b" and "unat c = unat a + unat b"
  using assms by (auto simp: checked_add_eq unat_plus_le split: if_splits)

lemma checked_mul_eq:
  "checked_mul a b = (if unat a * unat b < 2 ^ 64 then Some (a * b) else None)"
proof (cases "a = 0 \<or> b = 0")
  case True
  then show ?thesis by (auto simp: checked_mul_def)
next
  case False
  then have pos: "0 < unat b" by (simp add: unat_gt_0)
  have "\<not> a > size_max div b \<longleftrightarrow> unat a * unat b \<le> 2 ^ 64 - 1"
    using pos by (simp add: not_less word_le_nat_alt unat_div less_eq_div_iff_mult_less_eq)
  then show ?thesis
    using False by (auto simp: checked_mul_def)
qed

lemma checked_mul_SomeD:
  assumes "checked_mul a b = Some c"
  shows "c = a * b" and "unat c = unat a * unat b"
  using assms by (auto simp: checked_mul_eq unat_times_le split: if_splits)

definition nat_round_up :: "nat \<Rightarrow> nat \<Rightarrow> nat" where
  "nat_round_up v m = (if v mod m = 0 then v else v + (m - v mod m))"

lemma nat_round_up_props:
  assumes "0 < m"
  shows "m dvd nat_round_up v m" and "v \<le> nat_round_up v m" and "nat_round_up v m < v + m"
proof -
  have lt: "v mod m < m" using assms by simp
  have "v + (m - v mod m) = m * (v div m + 1)"
    using lt mult_div_mod_eq[of m v] by (simp only: distrib_left mult_1_right)
  then have dvd: "m dvd v + (m - v mod m)" by simp
  show "m dvd nat_round_up v m" "v \<le> nat_round_up v m" "nat_round_up v m < v + m"
    using assms lt dvd by (auto simp: nat_round_up_def)
qed

lemma nat_round_up_least:
  assumes "0 < m" "m dvd w" "v \<le> w"
  shows "nat_round_up v m \<le> w"
proof (rule ccontr)
  assume "\<not> ?thesis"
  then have "w < nat_round_up v m" by simp
  moreover have "nat_round_up v m - w < m"
    using nat_round_up_props(3)[of m v] assms by linarith
  moreover have "m dvd nat_round_up v m - w"
    using nat_round_up_props(1) assms by (simp add: dvd_diff_nat)
  ultimately show False
    by (auto dest: nat_dvd_not_less[rotated])
qed

lemma checked_round_eq:
  assumes "multiple \<noteq> 0"
  shows "checked_round_to_multiple_of value multiple =
    (if nat_round_up (unat value) (unat multiple) < 2 ^ 64
     then Some (adr (nat_round_up (unat value) (unat multiple))) else None)"
proof -
  let ?v = "unat value" and ?m = "unat multiple"
  have m: "0 < ?m" using assms by (simp add: unat_gt_0)
  have lt: "?v mod ?m < ?m" using m by simp
  have rem: "value mod multiple = 0 \<longleftrightarrow> ?v mod ?m = 0"
    by (simp add: unat_mod flip: unat_eq_zero)
  have "value mod multiple \<le> multiple"
    using lt by (simp add: word_le_nat_alt unat_mod)
  then have d: "unat (multiple - value mod multiple) = ?m - ?v mod ?m"
    by (simp add: unat_sub unat_mod)
  show ?thesis
  proof (cases "?v mod ?m = 0")
    case True
    then show ?thesis
      using assms rem unat_lt_64[of "value"]
      by (simp add: checked_round_to_multiple_of_def nat_round_up_def)
  next
    case False
    have "value + (multiple - value mod multiple) = adr (?v + (?m - ?v mod ?m))"
      unfolding adr_plus[symmetric] using d by (simp flip: d)
    then show ?thesis
      using False assms rem d
      by (simp add: checked_round_to_multiple_of_def nat_round_up_def checked_add_eq)
  qed
qed

lemma checked_round_SomeD:
  assumes "checked_round_to_multiple_of value multiple = Some c"
  shows "unat c = nat_round_up (unat value) (unat multiple)" and "multiple \<noteq> 0"
    and "unat multiple dvd unat c" and "value \<le> c"
proof -
  show nz: "multiple \<noteq> 0"
    using assms by (auto simp: checked_round_to_multiple_of_def)
  then have m: "0 < unat multiple" by (simp add: unat_gt_0)
  show c: "unat c = nat_round_up (unat value) (unat multiple)"
    using assms nz by (auto simp: checked_round_eq unat_adr split: if_splits)
  show "unat multiple dvd unat c" "value \<le> c"
    using nat_round_up_props[OF m, of "unat value"] c by (auto simp: word_le_nat_alt)
qed

text \<open>
  C37. The checked arithmetic is exact: an operation answers exactly when the mathematical result
  fits in a \<open>size_t\<close>, the answer is that result, and the checked rounding gives the least
  multiple that is not below the value.
\<close>

theorem checked_arithmetic_exact:
  "map_option unat (checked_add a b) = (if unat a + unat b < 2 ^ 64 then Some (unat a + unat b) else None) \<and>
   map_option unat (checked_mul a b) = (if unat a * unat b < 2 ^ 64 then Some (unat a * unat b) else None) \<and>
   map_option unat (checked_round_to_multiple_of a b) =
     (if b \<noteq> 0 \<and> (LEAST w. unat b dvd w \<and> unat a \<le> w) < 2 ^ 64
      then Some (LEAST w. unat b dvd w \<and> unat a \<le> w) else None)"
proof (intro conjI)
  show "map_option unat (checked_round_to_multiple_of a b) =
     (if b \<noteq> 0 \<and> (LEAST w. unat b dvd w \<and> unat a \<le> w) < 2 ^ 64
      then Some (LEAST w. unat b dvd w \<and> unat a \<le> w) else None)"
  proof (cases "b = 0")
    case True
    then show ?thesis by (simp add: checked_round_to_multiple_of_def)
  next
    case False
    then have m: "0 < unat b" by (simp add: unat_gt_0)
    have "(LEAST w. unat b dvd w \<and> unat a \<le> w) = nat_round_up (unat a) (unat b)"
      by (rule Least_equality)
        (use m in \<open>auto simp: nat_round_up_props intro: nat_round_up_least\<close>)
    then show ?thesis
      using False by (simp add: checked_round_eq unat_adr)
  qed
qed (auto simp: checked_add_eq checked_mul_eq unat_plus_le unat_times_le)

section \<open>Value types\<close>

text \<open>
  A template parameter \<open>T\<close> enters the code through \<open>sizeof(T)\<close> and \<open>alignof(T)\<close> only.  \<open>ty_ok\<close> is
  what the language guarantees of them.
\<close>

record ty =
  sizeof :: u64
  alignof :: u64

definition ty_ok :: "ty \<Rightarrow> bool" where
  "ty_ok t \<longleftrightarrow> sizeof t \<noteq> 0 \<and> has_single_bit (alignof t) \<and> unat (alignof t) dvd unat (sizeof t)"

lemma ty_ok_pos: "ty_ok t \<Longrightarrow> 0 < unat (sizeof t)"
  by (simp add: ty_ok_def unat_gt_0)

lemma has_single_bit_max: "has_single_bit a \<Longrightarrow> has_single_bit b \<Longrightarrow> has_single_bit (max a b)"
  by (simp add: max_def)

lemma le_theoretical_max:
  assumes "0 < unat (sizeof t)"
  shows "n \<le> size_max div sizeof t \<longleftrightarrow> unat n * unat (sizeof t) < 2 ^ 64"
proof -
  have "n \<le> size_max div sizeof t \<longleftrightarrow> unat n * unat (sizeof t) \<le> 2 ^ 64 - 1"
    using assms by (simp add: word_le_nat_alt unat_div less_eq_div_iff_mult_less_eq)
  then show ?thesis by simp linarith
qed

end
