(* ===== verification/System.thy ===== *)
theory System
  imports Types_Arith
begin

text \<open>
  What the library is given from outside: the machine's memory cells, the aligned \<open>operator new\<close>
  and \<open>operator delete\<close>, \<open>mmap\<close> and \<open>munmap\<close>, and \<open>sysconf\<close>.  None of these is code of the
  repository, so they are the fields of a parameter \<open>sys\<close>; \<open>sys_honest\<close> states what the code
  relies on.  The world records the memory, how many requests have been made (so that the answer
  to each request can differ), and the regions that are out, so that leaks and double releases
  are visible.
\<close>

record region =
  r_base :: ptr
  r_bytes :: u64
  r_align :: u64

record world =
  cells :: memory
  calls :: nat
  live :: "region list"

text \<open>
  \<open>sys_new n bytes align\<close> is the answer of the aligned \<open>operator new\<close> to request number \<open>n\<close>
  (null when there is no memory), \<open>sys_mmap n bytes\<close> that of a 2 MiB huge-page mapping (\<open>None\<close>
  for \<open>MAP_FAILED\<close>), \<open>sys_linux\<close> the build constant \<open>__linux__\<close>, \<open>sys_interference\<close> the constant
  \<open>std::hardware_destructive_interference_size\<close> where the standard library has it
  (\<open>__cpp_lib_hardware_interference_size\<close>).
\<close>

record sys =
  sys_new :: "nat \<Rightarrow> u64 \<Rightarrow> u64 \<Rightarrow> ptr"
  sys_mmap :: "nat \<Rightarrow> u64 \<Rightarrow> ptr option"
  sys_linux :: bool
  sys_sysconf :: int
  sys_interference :: "u64 option"

section \<open>Requests to the system\<close>

definition op_new :: "sys \<Rightarrow> u64 \<Rightarrow> u64 \<Rightarrow> world \<Rightarrow> ptr \<times> world" where
  "op_new sys bytes al w =
     (let p = sys_new sys (calls w) bytes al;
          w' = w\<lparr>calls := Suc (calls w)\<rparr>
      in if p = nullptr then (nullptr, w')
         else (p, w'\<lparr>live := \<lparr>r_base = p, r_bytes = bytes, r_align = al\<rparr> # live w\<rparr>))"

definition sys_map_huge :: "sys \<Rightarrow> u64 \<Rightarrow> u64 \<Rightarrow> world \<Rightarrow> ptr option \<times> world" where
  "sys_map_huge sys bytes al w =
     (let w' = w\<lparr>calls := Suc (calls w)\<rparr>
      in case sys_mmap sys (calls w) bytes of
           None \<Rightarrow> (None, w')
         | Some p \<Rightarrow> (Some p, w'\<lparr>live := \<lparr>r_base = p, r_bytes = bytes, r_align = al\<rparr> # live w\<rparr>))"

text \<open>
  Giving a region back: the aligned \<open>operator delete\<close> names the base and the alignment,
  \<open>munmap\<close> the base and the length.  A pair that matches no region that is out is undefined
  behaviour in the code; here it changes nothing, and the release theorems show it never happens.
\<close>

fun drop_first :: "('a \<Rightarrow> bool) \<Rightarrow> 'a list \<Rightarrow> 'a list" where
  "drop_first P [] = []"
| "drop_first P (x # xs) = (if P x then xs else x # drop_first P xs)"

definition op_delete :: "ptr \<Rightarrow> u64 \<Rightarrow> world \<Rightarrow> world" where
  "op_delete p al w = w\<lparr>live := drop_first (\<lambda>r. r_base r = p \<and> r_align r = al) (live w)\<rparr>"

definition sys_unmap :: "ptr \<Rightarrow> u64 \<Rightarrow> world \<Rightarrow> world" where
  "sys_unmap p bytes w = w\<lparr>live := drop_first (\<lambda>r. r_base r = p \<and> r_bytes r = bytes) (live w)\<rparr>"

section \<open>What the code relies on\<close>

definition region_end :: "region \<Rightarrow> nat" where
  "region_end r = unat (r_base r) + unat (r_bytes r)"

definition region_ok :: "region \<Rightarrow> bool" where
  "region_ok r \<longleftrightarrow> r_base r \<noteq> 0 \<and> has_single_bit (r_align r) \<and> is_aligned (r_base r) (r_align r) \<and>
     region_end r < 2 ^ 64"

definition regions_apart :: "region \<Rightarrow> region \<Rightarrow> bool" where
  "regions_apart r r' \<longleftrightarrow> region_end r \<le> unat (r_base r') \<or> region_end r' \<le> unat (r_base r)"

definition fresh_region :: "world \<Rightarrow> region \<Rightarrow> bool" where
  "fresh_region w r \<longleftrightarrow> region_ok r \<and> list_all (regions_apart r) (live w)"

text \<open>
  An honest system answers the next request with null (or \<open>MAP_FAILED\<close>) or with a region that
  has the alignment asked for (2 MiB for a huge-page mapping), does not wrap around the address
  space, and overlaps no region that is out.
\<close>

definition sys_honest :: "sys \<Rightarrow> world \<Rightarrow> bool" where
  "sys_honest sys w \<longleftrightarrow>
     (\<forall>bytes al. has_single_bit al \<longrightarrow> sys_new sys (calls w) bytes al \<noteq> nullptr \<longrightarrow>
        fresh_region w \<lparr>r_base = sys_new sys (calls w) bytes al, r_bytes = bytes, r_align = al\<rparr>) \<and>
     (\<forall>bytes p. sys_mmap sys (calls w) bytes = Some p \<longrightarrow>
        fresh_region w \<lparr>r_base = p, r_bytes = bytes, r_align = 2097152\<rparr>)"

lemma op_new_cells [simp]: "cells (snd (op_new sys bytes al w)) = cells w"
  by (simp add: op_new_def Let_def)

lemma op_delete_simps [simp]:
  "cells (op_delete p al w) = cells w" "calls (op_delete p al w) = calls w"
  by (simp_all add: op_delete_def)

lemma sys_unmap_simps [simp]:
  "cells (sys_unmap p n w) = cells w" "calls (sys_unmap p n w) = calls w"
  by (simp_all add: sys_unmap_def)

lemma drop_first_hd [simp]: "P x \<Longrightarrow> drop_first P (x # xs) = xs"
  by simp

lemma drop_first_append: "\<forall>x \<in> set xs. \<not> P x \<Longrightarrow> drop_first P (xs @ ys) = xs @ drop_first P ys"
  by (induction xs) auto

lemma set_drop_first: "set (drop_first P xs) \<subseteq> set xs"
  by (induction xs) auto

text \<open>Regions that are out have different bases, so that a base identifies the region.\<close>

definition world_ok :: "world \<Rightarrow> bool" where
  "world_ok w \<longleftrightarrow> distinct (map r_base (live w)) \<and> (\<forall>r \<in> set (live w). 0 < unat (r_bytes r))"

lemma world_ok_Cons:
  assumes "world_ok w" "fresh_region w r" "0 < unat (r_bytes r)" "live w' = r # live w"
  shows "world_ok w'"
proof -
  have "r_base r' \<noteq> r_base r" if "r' \<in> set (live w)" for r'
  proof -
    have "regions_apart r r'" "0 < unat (r_bytes r')"
      using assms(1,2) that by (simp_all add: world_ok_def fresh_region_def list_all_iff)
    then show ?thesis using assms(3) by (auto simp: regions_apart_def region_end_def)
  qed
  then have "r_base r \<notin> r_base ` set (live w)" by (metis imageE)
  then show ?thesis using assms(1,3,4) by (simp add: world_ok_def)
qed

lemma drop_first_base:
  assumes "distinct (map r_base rs)" "r \<in> set rs" "P r" "\<And>r'. P r' \<Longrightarrow> r_base r' = r_base r"
  shows "drop_first P rs = filter (\<lambda>r'. r_base r' \<noteq> r_base r) rs"
  using assms
proof (induction rs)
  case Nil
  show ?case by simp
next
  case (Cons a rs)
  show ?case
  proof (cases "r_base a = r_base r")
    case True
    then have "r_base r \<notin> r_base ` set rs" using Cons.prems(1) by simp
    then have "r \<notin> set rs" "\<forall>r' \<in> set rs. r_base r' \<noteq> r_base r" by (blast, metis imageI)
    then have "a = r" "filter (\<lambda>r'. r_base r' \<noteq> r_base r) rs = rs" using Cons.prems(2) by simp_all
    then show ?thesis using Cons.prems(3) by simp
  next
    case False
    then have "r \<in> set rs" using Cons.prems(2) by auto
    moreover have "\<not> P a" using Cons.prems(4) False by blast
    moreover have "distinct (map r_base rs)" using Cons.prems(1) by simp
    ultimately have "drop_first P rs = filter (\<lambda>r'. r_base r' \<noteq> r_base r) rs"
      using Cons.IH Cons.prems(3,4) by blast
    then show ?thesis using \<open>\<not> P a\<close> False by simp
  qed
qed

section \<open>A system that stays honest\<close>

text \<open>The worlds that any further requests, releases and writes lead to.\<close>

inductive later :: "sys \<Rightarrow> world \<Rightarrow> world \<Rightarrow> bool" for sys w where
  now: "later sys w w"
| requested: "later sys w w' \<Longrightarrow> later sys w (snd (op_new sys bytes al w'))"
| mapped: "later sys w w' \<Longrightarrow> later sys w (snd (sys_map_huge sys bytes al w'))"
| returned: "later sys w w' \<Longrightarrow> later sys w (op_delete p al w')"
| unmapped: "later sys w w' \<Longrightarrow> later sys w (sys_unmap p bytes w')"
| written: "later sys w w' \<Longrightarrow> later sys w (w'\<lparr>cells := m\<rparr>)"

definition sys_steady :: "sys \<Rightarrow> world \<Rightarrow> bool" where
  "sys_steady sys w \<longleftrightarrow> (\<forall>w'. later sys w w' \<longrightarrow> sys_honest sys w')"

lemma later_trans:
  assumes "later sys w' w''" "later sys w w'"
  shows "later sys w w''"
  using assms by (induction rule: later.induct) (auto intro: later.intros)

lemma sys_steady_honest: "sys_steady sys w \<Longrightarrow> sys_honest sys w"
  using later.now by (simp add: sys_steady_def)

lemma sys_steady_later: "sys_steady sys w \<Longrightarrow> later sys w w' \<Longrightarrow> sys_steady sys w'"
  unfolding sys_steady_def using later_trans by blast

section \<open>Working in one's own part of memory\<close>

definition live_at :: "world \<Rightarrow> nat \<Rightarrow> bool" where
  "live_at w a \<longleftrightarrow> (\<exists>r \<in> set (live w). unat (r_base r) \<le> a \<and> a < region_end r)"

text \<open>
  A component that owns the addresses \<open>A\<close> does a step: of the memory that is already out, it writes
  only what it owns, and it comes to own none of the rest.
\<close>

definition confined :: "nat set \<Rightarrow> world \<Rightarrow> nat set \<Rightarrow> world \<Rightarrow> bool" where
  "confined A w A' w' \<longleftrightarrow> set (live w) \<subseteq> set (live w') \<and>
     (\<forall>a < 2 ^ 64. live_at w a \<longrightarrow> a \<notin> A \<longrightarrow> a \<notin> A' \<and> cells w' (adr a) = cells w (adr a))"

lemma live_at_mono: "set (live w) \<subseteq> set (live w') \<Longrightarrow> live_at w a \<Longrightarrow> live_at w' a"
  by (auto simp: live_at_def)

lemma confined_refl [simp]: "confined A w A w"
  by (simp add: confined_def)

lemma confined_same: "cells w' = cells w \<Longrightarrow> live w' = live w \<Longrightarrow> confined A w A w'"
  by (simp add: confined_def)

lemma confined_trans:
  assumes "confined A w A' w'" "confined A' w' A'' w''"
  shows "confined A w A'' w''"
  using assms live_at_mono[of w w'] by (fastforce simp: confined_def)

lemma confined_cells:
  "(\<And>a. a < 2 ^ 64 \<Longrightarrow> a \<notin> A \<Longrightarrow> m (adr a) = cells w (adr a)) \<Longrightarrow> confined A w A (w\<lparr>cells := m\<rparr>)"
  by (simp add: confined_def)

lemma confinedD:
  assumes "confined A w A' w'" "a < 2 ^ 64" "live_at w a" "a \<notin> A"
  shows "a \<notin> A'" "cells w' (adr a) = cells w (adr a)"
  using assms by (simp_all add: confined_def)

end
