(* ===== verification/Owned_Memory.thy ===== *)
theory Owned_Memory
  imports System
begin

text \<open>
  \<open>lib/owned_memory.hpp\<close>: acquisition and release of backing memory, from the heap or as explicit
  2 MiB huge pages, and the owner object that couples the two.  The lemmas give the exact region
  an acquisition takes out and show that a release puts exactly it back.
\<close>

definition alignof_max_align :: u64 where
  "alignof_max_align = 16"

definition sizeof_ptr :: u64 where
  "sizeof_ptr = 8"

definition explicit_huge_page_bytes :: u64 where
  "explicit_huge_page_bytes = push_bit 20 2"

datatype owned_memory_error = Out_of_memory | Hugetlb_failed

record owned_memory =
  om_base :: ptr
  om_bytes :: u64
  om_alignment :: u64

definition owned_memory_empty :: owned_memory where
  "owned_memory_empty = \<lparr>om_base = nullptr, om_bytes = 0, om_alignment = alignof_max_align\<rparr>"

definition allocate_owned_memory ::
    "sys \<Rightarrow> huge_pages \<Rightarrow> u64 \<Rightarrow> u64 \<Rightarrow> world \<Rightarrow> (owned_memory_error + owned_memory) \<times> world" where
  "allocate_owned_memory sys Huge bytes alignment w =
     (if bytes = 0 \<or> alignment < sizeof_ptr \<or> \<not> has_single_bit alignment then (Inl Out_of_memory, w)
      else if Huge = Huge_enabled then
        (if sys_linux sys then
           (if alignment > explicit_huge_page_bytes then (Inl Hugetlb_failed, w)
            else case checked_round_to_multiple_of bytes explicit_huge_page_bytes of
                None \<Rightarrow> (Inl Out_of_memory, w)
              | Some mapping_bytes \<Rightarrow>
                  (case sys_map_huge sys mapping_bytes explicit_huge_page_bytes w of
                     (None, w') \<Rightarrow> (Inl Hugetlb_failed, w')
                   | (Some mapping, w') \<Rightarrow>
                       (Inr \<lparr>om_base = mapping, om_bytes = mapping_bytes,
                             om_alignment = explicit_huge_page_bytes\<rparr>, w')))
         else (Inl Hugetlb_failed, w))
      else case op_new sys bytes alignment w of (raw, w') \<Rightarrow>
        if raw = nullptr then (Inl Out_of_memory, w')
        else (Inr \<lparr>om_base = raw, om_bytes = bytes, om_alignment = alignment\<rparr>, w'))"

definition release_owned_memory :: "sys \<Rightarrow> huge_pages \<Rightarrow> owned_memory \<Rightarrow> world \<Rightarrow> world" where
  "release_owned_memory sys Huge memory w =
     (if om_base memory = nullptr then w
      else if Huge = Huge_enabled then
        (if sys_linux sys then sys_unmap (om_base memory) (om_bytes memory) w else w)
      else op_delete (om_base memory) (om_alignment memory) w)"

text \<open>\<open>owned_memory_owner\<close>: the constructor throws where the acquisition fails.\<close>

definition owned_memory_owner_new ::
    "sys \<Rightarrow> huge_pages \<Rightarrow> u64 \<Rightarrow> u64 \<Rightarrow> world \<Rightarrow> (exn + owned_memory) \<times> world" where
  "owned_memory_owner_new sys Huge bytes alignment w =
     (case allocate_owned_memory sys Huge bytes alignment w of
        (Inl _, w') \<Rightarrow> (Inl Bad_alloc, w')
      | (Inr memory, w') \<Rightarrow> (Inr memory, w'))"

definition owned_memory_owner_destroy :: "sys \<Rightarrow> huge_pages \<Rightarrow> owned_memory \<Rightarrow> world \<Rightarrow> world" where
  "owned_memory_owner_destroy sys Huge memory w = release_owned_memory sys Huge memory w"

section \<open>What an acquisition takes out\<close>

definition owned_region :: "owned_memory \<Rightarrow> region" where
  "owned_region om = \<lparr>r_base = om_base om, r_bytes = om_bytes om, r_align = om_alignment om\<rparr>"

lemma huge_page_bytes_nat: "explicit_huge_page_bytes = 2097152"
  by (simp add: explicit_huge_page_bytes_def)

lemma has_single_bit_huge: "has_single_bit explicit_huge_page_bytes"
  unfolding has_single_bit_iff by (rule exI[of _ 21]) (simp add: huge_page_bytes_nat)

lemma has_single_bit_4: "has_single_bit 4"
  unfolding has_single_bit_iff by (rule exI[of _ 2]) simp

lemma has_single_bit_16: "has_single_bit 16"
  unfolding has_single_bit_iff by (rule exI[of _ 4]) simp

lemma allocate_owned_memory_cells [simp]:
  "cells (snd (allocate_owned_memory sys Huge bytes al w)) = cells w"
  by (auto simp: allocate_owned_memory_def sys_map_huge_def op_new_def Let_def split: option.splits)

lemma allocate_owned_memory_failed:
  "allocate_owned_memory sys Huge bytes al w = (Inl e, w') \<Longrightarrow> live w' = live w \<and> cells w' = cells w"
  by (auto simp: allocate_owned_memory_def sys_map_huge_def op_new_def Let_def
      split: option.splits if_splits)

lemma allocate_owned_memory_live:
  "allocate_owned_memory sys Huge bytes al w = (Inr om, w') \<Longrightarrow>
     live w' = owned_region om # live w \<and> cells w' = cells w"
  by (auto simp: allocate_owned_memory_def sys_map_huge_def op_new_def Let_def owned_region_def
      split: option.splits if_splits)

lemma allocate_owned_memory_bytes:
  assumes "allocate_owned_memory sys Huge bytes al w = (Inr om, w')"
  shows "bytes \<noteq> 0" and "has_single_bit al" and "8 \<le> unat al"
    and "unat (om_bytes om) =
           (if Huge = Huge_enabled then nat_round_up (unat bytes) 2097152 else unat bytes)"
    and "om_alignment om = (if Huge = Huge_enabled then explicit_huge_page_bytes else al)"
    and "al \<le> om_alignment om"
  using assms
  by (auto simp: allocate_owned_memory_def sizeof_ptr_def word_less_nat_alt word_le_nat_alt
        huge_page_bytes_nat not_less dest: checked_round_SomeD(1)
      split: option.splits if_splits prod.splits)

lemma allocate_owned_memory_fresh:
  assumes "allocate_owned_memory sys Huge bytes al w = (Inr om, w')" "sys_honest sys w"
  shows "fresh_region w (owned_region om)"
  using assms
  by (auto simp: allocate_owned_memory_def owned_region_def sys_honest_def sys_map_huge_def
        op_new_def Let_def huge_page_bytes_nat split: option.splits if_splits)

text \<open>
  A successful acquisition takes out exactly one region, which overlaps no region that is
  out, has a base with the alignment asked for and room for the bytes asked for: exactly those
  bytes from the heap, the least multiple of 2 MiB for huge pages.
\<close>

theorem allocate_owned_memory_correct:
  assumes "allocate_owned_memory sys Huge bytes al w = (Inr om, w')" and "sys_honest sys w"
  shows "live w' = owned_region om # live w \<and>
    cells w' = cells w \<and>
    fresh_region w (owned_region om) \<and>
    unat al dvd unat (om_base om) \<and>
    (unat (om_bytes om) =
           (if Huge = Huge_enabled then (LEAST n. 2097152 dvd n \<and> unat bytes \<le> n) else unat bytes))"
proof -
  note b = allocate_owned_memory_bytes[OF assms(1)]
  have part1: "live w' = owned_region om # live w" "cells w' = cells w"
    using allocate_owned_memory_live[OF assms(1)] by simp_all
  have f: "fresh_region w (owned_region om)"
    using assms by (rule allocate_owned_memory_fresh)
  have al: "has_single_bit (om_alignment om)" "is_aligned (om_base om) (om_alignment om)"
    using f by (simp_all add: fresh_region_def region_ok_def owned_region_def)
  then have part2: "unat al dvd unat (om_base om)"
    using single_bit_dvd[OF b(2) al(1) b(6)] by (auto simp: is_aligned_iff intro: dvd_trans)
  have "(LEAST n. 2097152 dvd n \<and> unat bytes \<le> n) = nat_round_up (unat bytes) 2097152"
    by (rule Least_equality) (auto simp: nat_round_up_props intro: nat_round_up_least)
  then have part3: "unat (om_bytes om) =
      (if Huge = Huge_enabled then (LEAST n. 2097152 dvd n \<and> unat bytes \<le> n) else unat bytes)"
    using b(4) by simp
  show ?thesis using part1 f part2 part3 by blast
qed

text \<open>
  C36. Nothing leaks and nothing is released twice: a failed construction of the owner leaves the
  regions that are out as they were, and destroying a constructed owner puts back exactly the
  region its construction took.
\<close>

theorem owned_memory_owner_roundtrip:
  assumes "sys_honest sys w"
  shows "case owned_memory_owner_new sys Huge bytes al w of
           (Inl e, w') \<Rightarrow> e = Bad_alloc \<and> live w' = live w \<and> cells w' = cells w
         | (Inr om, w') \<Rightarrow>
             live w' = owned_region om # live w \<and>
             live (owned_memory_owner_destroy sys Huge om w') = live w \<and>
             cells (owned_memory_owner_destroy sys Huge om w') = cells w"
proof (cases "allocate_owned_memory sys Huge bytes al w")
  case (Pair res w')
  show ?thesis
  proof (cases res)
    case (Inl e)
    then show ?thesis
      using Pair allocate_owned_memory_failed[of sys Huge bytes al w e w']
      by (simp add: owned_memory_owner_new_def)
  next
    case (Inr om)
    with Pair have got: "allocate_owned_memory sys Huge bytes al w = (Inr om, w')" by simp
    have "om_base om \<noteq> 0"
      using allocate_owned_memory_fresh[OF got assms]
      by (simp add: fresh_region_def region_ok_def owned_region_def)
    moreover have "Huge = Huge_enabled \<Longrightarrow> sys_linux sys"
      using got by (auto simp: allocate_owned_memory_def split: if_splits)
    ultimately show ?thesis
      using got allocate_owned_memory_live[OF got]
      by (simp add: owned_memory_owner_new_def owned_memory_owner_destroy_def
          release_owned_memory_def sys_unmap_def op_delete_def owned_region_def)
  qed
qed

section \<open>A concrete system\<close>

text \<open>
  A bump system for the witnesses: request number \<open>n\<close> is answered with the region that starts at
  \<open>(n + 1) * 2^32\<close>, and only requests below 4 GiB with an alignment up to 2 MiB succeed.
\<close>

definition bump_sys :: sys where
  "bump_sys =
     \<lparr>sys_new = (\<lambda>n bytes al. if n < 1000 \<and> unat bytes < 2 ^ 32 \<and> al \<le> 2097152
                             then adr ((n + 1) * 2 ^ 32) else nullptr),
      sys_mmap = (\<lambda>n bytes. if n < 1000 \<and> unat bytes < 2 ^ 32 then Some (adr ((n + 1) * 2 ^ 32)) else None),
      sys_linux = True,
      sys_sysconf = 4096,
      sys_interference = Some 64\<rparr>"

definition empty_world :: world where
  "empty_world = \<lparr>cells = (\<lambda>_. 0), calls = 0, live = []\<rparr>"

lemma has_single_bit_4096: "has_single_bit 4096"
  unfolding has_single_bit_iff by (rule exI[of _ 12]) simp

lemma demo_page: "detect_page_size (sys_sysconf bump_sys) = 4096"
  by (simp add: bump_sys_def detect_page_size_def)

lemma empty_world_ok: "world_ok empty_world"
  by (simp add: world_ok_def empty_world_def)

lemma bump_aligned:
  assumes "has_single_bit al" "al \<le> 2097152" "n < 1000"
  shows "is_aligned (adr ((n + 1) * 2 ^ 32)) al"
proof -
  have "has_single_bit 2097152"
    using has_single_bit_huge by (simp add: huge_page_bytes_nat)
  then have "unat al dvd 2097152"
    using single_bit_dvd[OF assms(1) _ assms(2)] by simp
  moreover have "(2097152 :: nat) dvd (n + 1) * 2 ^ 32"
    by (rule dvd_mult) simp
  ultimately have "unat al dvd (n + 1) * 2 ^ 32"
    by (rule dvd_trans)
  then show ?thesis
    using assms by (simp add: is_aligned_iff unat_adr)
qed

lemma bump_sys_honest:
  assumes "calls w < 1000" "\<forall>r \<in> set (live w). region_end r \<le> (calls w + 1) * 2 ^ 32"
  shows "sys_honest bump_sys w"
proof -
  have "has_single_bit 2097152"
    using has_single_bit_huge by (simp add: huge_page_bytes_nat)
  then show ?thesis
    using assms bump_aligned
    by (auto simp: sys_honest_def bump_sys_def fresh_region_def region_ok_def region_end_def
        regions_apart_def list_all_iff unat_adr adr_eq_0_iff split: if_splits)
qed

lemma bump_sys_honest_empty: "sys_honest bump_sys empty_world"
  by (rule bump_sys_honest) (simp_all add: empty_world_def)

text \<open>The bump system stays honest: every region ends before the next request's base.\<close>

lemma bump_sys_steady:
  assumes "\<forall>r \<in> set (live w). region_end r \<le> (calls w + 1) * 2 ^ 32"
  shows "sys_steady bump_sys w"
proof -
  have "\<forall>r \<in> set (live w'). region_end r \<le> (calls w' + 1) * 2 ^ 32" if "later bump_sys w w'" for w'
    using that
  proof (induction rule: later.induct)
    case now
    then show ?case using assms by simp
  next
    case (requested w' bytes al)
    have "region_end r \<le> (calls w' + 2) * 2 ^ 32" if "r \<in> set (live w')" for r
      using requested.IH that by fastforce
    moreover have "unat (adr ((calls w' + 1) * 2 ^ 32)) + unat bytes \<le> (calls w' + 2) * 2 ^ 32"
      if "calls w' < 1000" "unat bytes < 2 ^ 32"
      using that by (simp add: unat_adr)
    ultimately show ?case
      by (auto simp: op_new_def bump_sys_def Let_def region_end_def)
  next
    case (mapped w' bytes al)
    have "region_end r \<le> (calls w' + 2) * 2 ^ 32" if "r \<in> set (live w')" for r
      using mapped.IH that by fastforce
    moreover have "unat (adr ((calls w' + 1) * 2 ^ 32)) + unat bytes \<le> (calls w' + 2) * 2 ^ 32"
      if "calls w' < 1000" "unat bytes < 2 ^ 32"
      using that by (simp add: unat_adr)
    ultimately show ?case
      by (auto simp: sys_map_huge_def bump_sys_def Let_def region_end_def)
  next
    case (returned w' p al)
    then show ?case using set_drop_first[of _ "live w'"] by (fastforce simp: op_delete_def)
  next
    case (unmapped w' p bytes)
    then show ?case using set_drop_first[of _ "live w'"] by (fastforce simp: sys_unmap_def)
  next
    case (written w' m)
    then show ?case by simp
  qed
  moreover have "sys_honest bump_sys w'" if "\<forall>r \<in> set (live w'). region_end r \<le> (calls w' + 1) * 2 ^ 32" for w'
    using bump_sys_honest[OF _ that] by (cases "calls w' < 1000") (auto simp: sys_honest_def bump_sys_def)
  ultimately show ?thesis by (simp add: sys_steady_def)
qed

lemma bump_huge_region:
  "allocate_owned_memory bump_sys Huge_enabled 2097153 16 empty_world =
     (Inr \<lparr>om_base = 4294967296, om_bytes = 4194304, om_alignment = 2097152\<rparr>,
      \<lparr>cells = (\<lambda>_. 0), calls = 1,
       live = [\<lparr>r_base = 4294967296, r_bytes = 4194304, r_align = 2097152\<rparr>]\<rparr>)"
proof -
  have "checked_round_to_multiple_of 2097153 2097152 = Some 4194304"
    by (simp add: checked_round_to_multiple_of_def checked_add_eq)
  then show ?thesis
    using has_single_bit_16
    by (simp add: allocate_owned_memory_def bump_sys_def empty_world_def sizeof_ptr_def
        huge_page_bytes_nat sys_map_huge_def Let_def adr_def)
qed

theorem allocate_owned_memory_correct_witness:
  "sys_honest bump_sys empty_world \<and>
   live \<lparr>cells = (\<lambda>_. 0), calls = 1,
         live = [\<lparr>r_base = 4294967296, r_bytes = 4194304, r_align = 2097152\<rparr>]\<rparr> =
     owned_region \<lparr>om_base = 4294967296, om_bytes = 4194304, om_alignment = 2097152\<rparr> # live empty_world \<and>
   (LEAST n. 2097152 dvd n \<and> unat (2097153 :: u64) \<le> n) = 4194304"
  using allocate_owned_memory_correct[OF bump_huge_region bump_sys_honest_empty]
    bump_sys_honest_empty by simp

theorem owned_memory_owner_roundtrip_witness:
  "case owned_memory_owner_new bump_sys Huge_enabled 2097153 16 empty_world of
     (Inl e, w') \<Rightarrow> False
   | (Inr om, w') \<Rightarrow> live w' \<noteq> [] \<and> live (owned_memory_owner_destroy bump_sys Huge_enabled om w') = []"
  using owned_memory_owner_roundtrip[OF bump_sys_honest_empty, of Huge_enabled 2097153 16]
  by (simp add: owned_memory_owner_new_def bump_huge_region) (simp add: empty_world_def owned_region_def)

end
