(* ===== verification/Exclusive_Resource.thy ===== *)
theory Exclusive_Resource
  imports Owned_Memory
begin

text \<open>
  \<open>lib/exclusive_resource.hpp\<close>: the ledger of the one claim that may be out on a region.  The
  interface that a client relies on is the locale \<open>single_claim\<close>; the class is interpreted as an
  instance of it, so its facts are available as \<open>er.\<dots>\<close>.
\<close>

section \<open>The class\<close>

record exclusive_resource =
  er_base :: ptr
  usable_bytes :: u64
  effective_alignment :: u64
  claimed_min_bytes :: u64
  claimed_max_bytes :: u64
  claimed_alignment :: u64

definition exclusive_resource_new :: "ptr \<Rightarrow> u64 \<Rightarrow> u64 \<Rightarrow> exn + exclusive_resource" where
  "exclusive_resource_new base bytes alignment =
     (if base = nullptr then Inl (Invalid_argument ''exclusive resource base must not be null'')
      else if bytes = 0 then Inl (Invalid_argument ''exclusive resource capacity must not be zero'')
      else if alignment = 0 \<or> \<not> has_single_bit alignment then
        Inl (Invalid_argument ''exclusive resource alignment must be a power of two'')
      else if \<not> is_aligned base alignment then
        Inl (Invalid_argument ''exclusive resource base does not satisfy its alignment'')
      else Inr \<lparr>er_base = base, usable_bytes = bytes, effective_alignment = alignment,
                claimed_min_bytes = 0, claimed_max_bytes = 0, claimed_alignment = 0\<rparr>)"

definition claimed :: "exclusive_resource \<Rightarrow> bool" where
  "claimed r \<longleftrightarrow> claimed_min_bytes r \<noteq> 0"

definition er_owns :: "exclusive_resource \<Rightarrow> ptr \<Rightarrow> bool" where
  "er_owns r p \<longleftrightarrow> p = er_base r"

definition claim :: "u64 \<Rightarrow> u64 \<Rightarrow> u64 \<Rightarrow> exclusive_resource \<Rightarrow> ptr \<times> exclusive_resource" where
  "claim minimum_bytes maximum_bytes alignment r =
     (if claimed r \<or> minimum_bytes = 0 \<or> minimum_bytes > maximum_bytes \<or>
         maximum_bytes > usable_bytes r \<or> alignment = 0 \<or> \<not> has_single_bit alignment \<or>
         alignment > effective_alignment r \<or> \<not> is_aligned (er_base r) alignment
      then (nullptr, r)
      else (er_base r, r\<lparr>claimed_min_bytes := minimum_bytes, claimed_max_bytes := maximum_bytes,
                         claimed_alignment := alignment\<rparr>))"

text \<open>
  An invalid release trips an \<open>assert\<close> in a debug build and is ignored in a release build;
  \<open>release_valid\<close> is the asserted condition, \<open>release\<close> the release build.
\<close>

definition release_valid :: "ptr \<Rightarrow> u64 \<Rightarrow> u64 \<Rightarrow> exclusive_resource \<Rightarrow> bool" where
  "release_valid pointer bytes alignment r \<longleftrightarrow>
     claimed r \<and> pointer = er_base r \<and> claimed_min_bytes r \<le> bytes \<and> bytes \<le> claimed_max_bytes r \<and>
     alignment = claimed_alignment r"

definition release :: "ptr \<Rightarrow> u64 \<Rightarrow> u64 \<Rightarrow> exclusive_resource \<Rightarrow> exclusive_resource" where
  "release pointer bytes alignment r =
     (if \<not> release_valid pointer bytes alignment r then r
      else r\<lparr>claimed_min_bytes := 0, claimed_max_bytes := 0, claimed_alignment := 0\<rparr>)"

definition er_expand :: "ptr \<Rightarrow> u64 \<Rightarrow> u64 \<Rightarrow> exclusive_resource \<Rightarrow> u64 \<times> exclusive_resource" where
  "er_expand pointer minimum_new_bytes representable_capacity_bytes r =
     (if \<not> claimed r \<or> pointer \<noteq> er_base r then (0, r)
      else if minimum_new_bytes \<le> claimed_max_bytes r then (claimed_max_bytes r, r)
      else if representable_capacity_bytes < claimed_max_bytes r \<or>
              representable_capacity_bytes > usable_bytes r \<or>
              minimum_new_bytes > representable_capacity_bytes
      then (claimed_max_bytes r, r)
      else (representable_capacity_bytes, r\<lparr>claimed_max_bytes := representable_capacity_bytes\<rparr>))"

lemmas er_defs = claim_def release_def release_valid_def er_expand_def claimed_def

section \<open>The invariant\<close>

definition er_inv :: "exclusive_resource \<Rightarrow> bool" where
  "er_inv r \<longleftrightarrow>
     er_base r \<noteq> nullptr \<and> usable_bytes r \<noteq> 0 \<and> has_single_bit (effective_alignment r) \<and>
     is_aligned (er_base r) (effective_alignment r) \<and>
     (if claimed r
      then claimed_min_bytes r \<le> claimed_max_bytes r \<and> claimed_max_bytes r \<le> usable_bytes r \<and>
           has_single_bit (claimed_alignment r) \<and> claimed_alignment r \<le> effective_alignment r
      else claimed_max_bytes r = 0 \<and> claimed_alignment r = 0)"

lemma aligned_below:
  assumes "has_single_bit a" "has_single_bit b" "a \<le> b" "is_aligned p b"
  shows "is_aligned p a"
  using assms single_bit_dvd[of a b] by (auto simp: is_aligned_iff intro: dvd_trans)

lemma claim_eq:
  assumes "er_inv r"
  shows "claim lo hi al r =
    (if \<not> claimed r \<and> lo \<noteq> 0 \<and> lo \<le> hi \<and> hi \<le> usable_bytes r \<and> has_single_bit al \<and>
        al \<le> effective_alignment r
     then (er_base r, r\<lparr>claimed_min_bytes := lo, claimed_max_bytes := hi, claimed_alignment := al\<rparr>)
     else (nullptr, r))"
  using assms aligned_below[of al "effective_alignment r" "er_base r"] has_single_bit_pos[of al]
  by (auto simp: claim_def er_inv_def)

lemma er_inv_new:
  "exclusive_resource_new base bytes al = Inr r \<Longrightarrow>
     er_inv r \<and> \<not> claimed r \<and> er_base r = base \<and> usable_bytes r = bytes \<and> effective_alignment r = al"
  by (auto simp: exclusive_resource_new_def er_inv_def claimed_def split: if_splits)

lemma er_inv_claim: "er_inv r \<Longrightarrow> er_inv (snd (claim lo hi al r))"
  by (simp add: claim_eq) (auto simp: er_inv_def claimed_def)

lemma er_inv_release: "er_inv r \<Longrightarrow> er_inv (release p n al r)"
  by (auto simp: release_def er_inv_def claimed_def)

lemma er_inv_expand: "er_inv r \<Longrightarrow> er_inv (snd (er_expand p n cap r))"
  by (auto simp: er_expand_def er_inv_def claimed_def)

section \<open>The interface: one claim at a time\<close>

text \<open>
  \<open>window s\<close> is the claim that is out: the smallest and largest byte count that may be released,
  and the alignment.  The laws say when a claim is granted, that a granted claim is the base and
  is remembered, and that exactly a matching release takes it back.
\<close>

locale single_claim =
  fixes clm :: "u64 \<Rightarrow> u64 \<Rightarrow> u64 \<Rightarrow> 's \<Rightarrow> ptr \<times> 's"
    and rls :: "ptr \<Rightarrow> u64 \<Rightarrow> u64 \<Rightarrow> 's \<Rightarrow> 's"
    and window :: "'s \<Rightarrow> (u64 \<times> u64 \<times> u64) option"
    and fits :: "u64 \<Rightarrow> u64 \<Rightarrow> u64 \<Rightarrow> 's \<Rightarrow> bool"
    and base :: "'s \<Rightarrow> ptr"
    and inv :: "'s \<Rightarrow> bool"
  assumes base_nonnull: "inv s \<Longrightarrow> base s \<noteq> nullptr"
    and clm_granted: "inv s \<Longrightarrow> window s = None \<Longrightarrow> fits lo hi al s \<Longrightarrow>
           fst (clm lo hi al s) = base s \<and> window (snd (clm lo hi al s)) = Some (lo, hi, al)"
    and clm_refused: "inv s \<Longrightarrow> window s \<noteq> None \<or> \<not> fits lo hi al s \<Longrightarrow> clm lo hi al s = (nullptr, s)"
    and clm_frame: "inv s \<Longrightarrow> base (snd (clm lo hi al s)) = base s \<and> fits a b c (snd (clm lo hi al s)) = fits a b c s"
    and rls_matching: "inv s \<Longrightarrow> window s = Some (lo, hi, al) \<Longrightarrow> lo \<le> n \<Longrightarrow> n \<le> hi \<Longrightarrow>
           window (rls (base s) n al s) = None"
    and rls_other: "inv s \<Longrightarrow> \<not> (\<exists>lo hi. window s = Some (lo, hi, al) \<and> p = base s \<and> lo \<le> n \<and> n \<le> hi) \<Longrightarrow>
           rls p n al s = s"
    and rls_frame: "inv s \<Longrightarrow> base (rls p n al s) = base s \<and> fits a b c (rls p n al s) = fits a b c s"
    and inv_clm: "inv s \<Longrightarrow> inv (snd (clm lo hi al s))"
    and inv_rls: "inv s \<Longrightarrow> inv (rls p n al s)"
begin

text \<open>Claims and releases in any order; the trace pairs each step with what it granted.\<close>

fun run :: "(u64 \<times> u64 \<times> u64 + ptr \<times> u64 \<times> u64) list \<Rightarrow> 's \<Rightarrow> 's" where
  "run [] s = s"
| "run (Inl (lo, hi, al) # ops) s = run ops (snd (clm lo hi al s))"
| "run (Inr (p, n, al) # ops) s = run ops (rls p n al s)"

lemma inv_run: "inv s \<Longrightarrow> inv (run ops s)"
  by (induction ops s rule: run.induct) (simp_all add: inv_clm inv_rls)

lemma base_run: "inv s \<Longrightarrow> base (run ops s) = base s"
  by (induction ops s rule: run.induct) (simp_all add: inv_clm inv_rls clm_frame rls_frame)

lemma granted_iff: "inv s \<Longrightarrow> fst (clm lo hi al s) \<noteq> nullptr \<longleftrightarrow> window s = None \<and> fits lo hi al s"
  using clm_granted[of s lo hi al] clm_refused[of s lo hi al] base_nonnull[of s]
  by (cases "window s = None \<and> fits lo hi al s") auto

text \<open>While a claim is out every other claim is refused, whatever was tried in between.\<close>

lemma exclusive:
  assumes "inv s" "fst (clm lo hi al s) \<noteq> nullptr"
  shows "fst (clm lo' hi' al' (snd (clm lo hi al s))) = nullptr"
  using assms granted_iff inv_clm clm_granted clm_refused[of "snd (clm lo hi al s)" lo' hi' al']
  by (metis fst_conv option.distinct(1))

text \<open>After a release of the claim the same claim is granted again.\<close>

lemma reusable:
  assumes "inv s" "fst (clm lo hi al s) \<noteq> nullptr" "lo \<le> n" "n \<le> hi"
  shows "fst (clm lo hi al (rls (base s) n al (snd (clm lo hi al s)))) = base s"
proof -
  let ?s1 = "snd (clm lo hi al s)"
  let ?s2 = "rls (base s) n al ?s1"
  have w: "window s = None" and f: "fits lo hi al s"
    using assms(1,2) granted_iff by auto
  have i1: "inv ?s1" using assms(1) by (rule inv_clm)
  have b1: "base ?s1 = base s" and f1: "fits lo hi al ?s1"
    using clm_frame[OF assms(1)] f by auto
  have w2: "window ?s2 = None"
    using rls_matching[OF i1 _ assms(3,4), of al] clm_granted[OF assms(1) w f] b1 by simp
  have "inv ?s2" using i1 by (rule inv_rls)
  moreover have "fits lo hi al ?s2" "base ?s2 = base s"
    using rls_frame[OF i1] f1 b1 by auto
  ultimately show ?thesis using clm_granted w2 by auto
qed

end

definition er_window :: "exclusive_resource \<Rightarrow> (u64 \<times> u64 \<times> u64) option" where
  "er_window r =
     (if claimed r then Some (claimed_min_bytes r, claimed_max_bytes r, claimed_alignment r) else None)"

definition er_fits :: "u64 \<Rightarrow> u64 \<Rightarrow> u64 \<Rightarrow> exclusive_resource \<Rightarrow> bool" where
  "er_fits lo hi al r \<longleftrightarrow>
     lo \<noteq> 0 \<and> lo \<le> hi \<and> hi \<le> usable_bytes r \<and> has_single_bit al \<and> al \<le> effective_alignment r"

interpretation er: single_claim claim release er_window er_fits er_base er_inv
proof unfold_locales
  show "er_inv s \<Longrightarrow> er_inv (snd (claim lo hi al s))" for s lo hi al
    by (rule er_inv_claim)
  show "er_inv s \<Longrightarrow> er_inv (release p n al s)" for s p n al
    by (rule er_inv_release)
qed (auto simp: claim_eq er_window_def er_fits_def release_def release_valid_def claimed_def er_inv_def
    split: if_splits)

end
