(* ===== verification/Std_Align.thy ===== *)
theory Std_Align
  imports Prelude
begin

text \<open>
  \<open>std::align\<close>, which every constructor over caller-supplied backing calls: the address it
  answers is the first aligned one at or after the start of the span, and it refuses a span only
  when no aligned object fits.
\<close>

section \<open>The standard library's align\<close>

lemma std_align_diff:
  assumes "has_single_bit al"
  shows "unat (((p - 1 + al) AND (- al)) - p) = (unat al - unat p mod unat al) mod unat al"
proof -
  from assms obtain k where k: "k < 64" "al = 2 ^ k" "unat al = 2 ^ k"
    by (rule has_single_bitE)
  have neg: "- al = NOT (mask k)"
    by (simp add: k(2) minus_exp_eq_not_mask)
  let ?x = "p + mask k :: u64"
  have x: "p - 1 + al = ?x"
    by (simp add: k(2) mask_eq_exp_minus_1)
  have "((p - 1 + al) AND (- al)) - p = mask k - take_bit k ?x"
    unfolding x neg by (simp add: word_clear_low_eq)
  moreover have m: "unat (mask k :: u64) = 2 ^ k - 1"
    using k unat_minus_le[of 1 al] unat_gt_0[of al]
    by (simp add: mask_eq_exp_minus_1 word_le_nat_alt)
  moreover have le: "take_bit k ?x \<le> mask k"
    using m less_eq_Suc_le[of "unat ?x mod 2 ^ k"] mod_less_divisor[of "2 ^ k" "unat ?x"]
    by (simp only: word_le_nat_alt unat_take_bit) simp
  ultimately have d: "unat (((p - 1 + al) AND (- al)) - p) = 2 ^ k - 1 - unat ?x mod 2 ^ k"
    by (simp add: unat_sub unat_take_bit)
  have "unat ?x mod 2 ^ k = (unat p + (2 ^ k - 1)) mod 2 ^ k"
    using le_imp_power_dvd[of k 64 "2::nat"] k(1)
    by (simp add: unat_word_ariths m mod_mod_cancel)
  also have "\<dots> = (unat p mod 2 ^ k + (2 ^ k - 1)) mod 2 ^ k"
    by (simp only: mod_add_left_eq)
  finally have e: "unat ?x mod 2 ^ k = (unat p mod 2 ^ k + (2 ^ k - 1)) mod 2 ^ k" .
  define r where "r = unat p mod 2 ^ k"
  define K where "K = (2::nat) ^ k"
  have r: "r < K" by (simp add: r_def K_def)
  have "K - 1 - (r + (K - 1)) mod K = (K - r) mod K"
  proof (cases r)
    case 0
    then show ?thesis using r by simp
  next
    case (Suc n)
    then have "(r + (K - 1)) mod K = n" using r by (simp add: mod_if)
    then show ?thesis using Suc r by simp
  qed
  then show ?thesis
    unfolding d k(3) e r_def K_def .
qed

lemma std_align_SomeD:
  assumes al: "has_single_bit al" and some: "std_align al n p space = Some (q, space')"
    and room: "unat p + unat space \<le> 2 ^ 64" and n: "n \<noteq> 0"
  shows "unat al dvd unat q" and "unat p \<le> unat q" and "unat q < unat p + unat al"
    and "unat q + unat space' = unat p + unat space" and "unat n \<le> unat space'"
proof -
  define d where "d = ((p - 1 + al) AND (- al)) - p"
  have pos: "0 < unat al" using al by (rule has_single_bit_pos)
  have ud: "unat d = (unat al - unat p mod unat al) mod unat al"
    unfolding d_def using al by (rule std_align_diff)
  have q: "q = p + d" and s: "space' = space - d" and dle: "d \<le> space - n" and nle: "n \<le> space"
    using some by (auto simp: std_align_def Let_def d_def not_less split: if_splits)
  have sub: "unat (space - n) = unat space - unat n"
    using nle by (rule unat_minus_le)
  have npos: "0 < unat n" using n by (simp add: unat_gt_0)
  have d2: "unat d + unat n \<le> unat space"
    using dle nle sub by (simp add: word_le_nat_alt)
  then have uq: "unat q = unat p + unat d"
    unfolding q using room npos by (intro unat_plus_le) linarith
  have us: "unat space' = unat space - unat d"
    unfolding s using d2 by (intro unat_minus_le) (simp add: word_le_nat_alt)
  have dlt: "unat d < unat al" unfolding ud using pos by simp
  show "unat p \<le> unat q" "unat q < unat p + unat al"
    "unat q + unat space' = unat p + unat space" "unat n \<le> unat space'"
    using uq us d2 dlt by simp_all
  have "(unat p + unat d) mod unat al = (unat p mod unat al + (unat al - unat p mod unat al)) mod unat al"
    unfolding ud by (simp add: mod_add_eq mod_add_right_eq mod_add_left_eq)
  also have "unat p mod unat al + (unat al - unat p mod unat al) = unat al"
    using mod_less_divisor[OF pos, of "unat p"] by linarith
  finally show "unat al dvd unat q"
    unfolding uq by (simp add: dvd_eq_mod_eq_0)
qed

text \<open>The answer is the first aligned address, so a span is refused only when nothing fits.\<close>

lemma std_align_NoneD:
  assumes al: "has_single_bit al" and none: "std_align al n p space = None"
    and a: "unat al dvd a" "unat p \<le> a" and fits: "a + unat n \<le> unat p + unat space"
  shows False
proof -
  define d where "d = ((p - 1 + al) AND (- al)) - p"
  have pos: "0 < unat al" using al by (rule has_single_bit_pos)
  have ud: "unat d = (unat al - unat p mod unat al) mod unat al"
    unfolding d_def using al by (rule std_align_diff)
  have "space < n \<or> d > space - n"
    using none by (auto simp: std_align_def Let_def d_def split: if_splits)
  then have big: "unat space < unat n + unat d"
    using unat_minus_le[of n space] by (cases "n \<le> space") (auto simp: word_less_nat_alt word_le_nat_alt)
  obtain k where k: "a = unat al * k" using a(1) by (auto elim: dvdE)
  have "unat d \<le> a - unat p"
  proof (cases "unat p mod unat al = 0")
    case True
    then show ?thesis by (simp add: ud)
  next
    case False
    then have dd: "unat d = unat al - unat p mod unat al" using pos by (simp add: ud)
    have "unat p div unat al < k"
    proof (rule ccontr)
      assume "\<not> ?thesis"
      then have "unat al * k \<le> unat al * (unat p div unat al)" by (intro mult_le_mono) simp_all
      also have "\<dots> < unat p" using False mult_div_mod_eq[of "unat al" "unat p"] by linarith
      finally show False using a(2) k by simp
    qed
    then have "unat al * (unat p div unat al + 1) \<le> a"
      unfolding k by (intro mult_le_mono) simp_all
    then show ?thesis
      using dd mult_div_mod_eq[of "unat al" "unat p"] mod_less_divisor[OF pos, of "unat p"]
      by (simp only: distrib_left mult_1_right)
  qed
  then show False using big fits a(2) by linarith
qed

end
