(* ===== verification/Exclusive_Allocator.thy ===== *)
theory Exclusive_Allocator
  imports Exclusive_Resource Std_Align
begin

text \<open>
  The exclusive allocation model of \<open>lib/allocazam.hpp\<close>: the two exclusive states (owned and
  caller-supplied backing) and the allocator handle.  A handle holds nothing but a pointer to the
  resource of its state, so its operations are functions on that resource.
\<close>

section \<open>States\<close>

record fixed_exclusive_state =
  fx_backing :: owned_memory
  fx_resource :: exclusive_resource
  fx_element_capacity :: u64

definition fixed_exclusive_config :: "ty \<Rightarrow> u64 \<Rightarrow> exn + u64 \<times> u64" where
  "fixed_exclusive_config t element_capacity =
     (if element_capacity = 0 then Inl (Invalid_argument ''exclusive state capacity must not be zero'')
      else case checked_mul element_capacity (sizeof t) of
          None \<Rightarrow> Inl Bad_array_new_length
        | Some usable \<Rightarrow> Inr (element_capacity, usable))"

text \<open>Members are built in order; when the resource's constructor throws, the backing is destroyed.\<close>

definition fixed_exclusive_new ::
    "sys \<Rightarrow> huge_pages \<Rightarrow> ty \<Rightarrow> u64 \<Rightarrow> world \<Rightarrow> (exn + fixed_exclusive_state) \<times> world" where
  "fixed_exclusive_new sys Huge t element_capacity w =
     (case fixed_exclusive_config t element_capacity of
        Inl e \<Rightarrow> (Inl e, w)
      | Inr (cap, usable) \<Rightarrow>
          (case owned_memory_owner_new sys Huge usable (max (alignof t) alignof_max_align) w of
             (Inl e, w') \<Rightarrow> (Inl e, w')
           | (Inr om, w') \<Rightarrow>
               (case exclusive_resource_new (om_base om) usable (om_alignment om) of
                  Inl e \<Rightarrow> (Inl e, owned_memory_owner_destroy sys Huge om w')
                | Inr r \<Rightarrow>
                    (Inr \<lparr>fx_backing = om, fx_resource = r, fx_element_capacity = cap\<rparr>, w'))))"

definition fixed_exclusive_destroy ::
    "sys \<Rightarrow> huge_pages \<Rightarrow> fixed_exclusive_state \<Rightarrow> world \<Rightarrow> world" where
  "fixed_exclusive_destroy sys Huge s w = owned_memory_owner_destroy sys Huge (fx_backing s) w"

definition fx_capacity_bytes :: "fixed_exclusive_state \<Rightarrow> u64" where
  "fx_capacity_bytes s = usable_bytes (fx_resource s)"

definition fx_mapping_bytes :: "fixed_exclusive_state \<Rightarrow> u64" where
  "fx_mapping_bytes s = om_bytes (fx_backing s)"

record noheap_exclusive_state =
  nx_resource :: exclusive_resource
  nx_element_capacity :: u64

record noheap_config =
  nc_base :: ptr
  nc_usable_bytes :: u64
  nc_alignment :: u64
  nc_element_capacity :: u64

text \<open>The span is its data pointer and its size in bytes.\<close>

definition noheap_exclusive_config :: "ty \<Rightarrow> ptr \<Rightarrow> u64 \<Rightarrow> exn + noheap_config" where
  "noheap_exclusive_config t data bytes =
     (if bytes = 0 then Inl (Invalid_argument ''exclusive state backing must not be empty'')
      else let required_alignment = max (alignof t) alignof_max_align in
        case std_align required_alignment (sizeof t) data bytes of
          None \<Rightarrow> Inl (Invalid_argument ''exclusive state backing cannot satisfy value alignment'')
        | Some (aligned, space) \<Rightarrow>
            let element_capacity = space div sizeof t in
            if element_capacity = 0
            then Inl (Invalid_argument ''exclusive state backing is too small for one value'')
            else Inr \<lparr>nc_base = aligned, nc_usable_bytes = element_capacity * sizeof t,
                      nc_alignment = required_alignment, nc_element_capacity = element_capacity\<rparr>)"

definition noheap_exclusive_new :: "ty \<Rightarrow> ptr \<Rightarrow> u64 \<Rightarrow> exn + noheap_exclusive_state" where
  "noheap_exclusive_new t data bytes =
     (case noheap_exclusive_config t data bytes of
        Inl e \<Rightarrow> Inl e
      | Inr cfg \<Rightarrow>
          (case exclusive_resource_new (nc_base cfg) (nc_usable_bytes cfg) (nc_alignment cfg) of
             Inl e \<Rightarrow> Inl e
           | Inr r \<Rightarrow> Inr \<lparr>nx_resource = r, nx_element_capacity = nc_element_capacity cfg\<rparr>))"

section \<open>The allocator handle\<close>

definition theoretical_max_size :: "ty \<Rightarrow> u64" where
  "theoretical_max_size t = size_max div sizeof t"

definition excl_allocate :: "ty \<Rightarrow> u64 \<Rightarrow> exclusive_resource \<Rightarrow> (exn + ptr) \<times> exclusive_resource" where
  "excl_allocate t n r =
     (if n = 0 then (Inr nullptr, r)
      else if n > theoretical_max_size t then (Inl Bad_array_new_length, r)
      else case checked_mul n (sizeof t) of
          None \<Rightarrow> (Inl Bad_array_new_length, r)
        | Some bytes \<Rightarrow>
            (case claim bytes bytes (alignof t) r of
               (raw, r') \<Rightarrow> if raw = nullptr then (Inl Bad_alloc, r') else (Inr raw, r')))"

definition excl_allocate_at_least ::
    "ty \<Rightarrow> u64 \<Rightarrow> exclusive_resource \<Rightarrow> (exn + ptr \<times> u64) \<times> exclusive_resource" where
  "excl_allocate_at_least t n r =
     (if n = 0 then (Inr (nullptr, 0), r)
      else if n > theoretical_max_size t then (Inl Bad_array_new_length, r)
      else case checked_mul n (sizeof t) of
          None \<Rightarrow> (Inl Bad_array_new_length, r)
        | Some minimum_bytes \<Rightarrow>
            let returned_count = usable_bytes r div sizeof t in
            if n > returned_count \<or> alignof t > effective_alignment r then (Inl Bad_alloc, r)
            else let maximum_bytes = returned_count * sizeof t in
              (case claim minimum_bytes maximum_bytes (alignof t) r of
                 (raw, r') \<Rightarrow> if raw = nullptr then (Inl Bad_alloc, r') else (Inr (raw, returned_count), r')))"

definition excl_deallocate :: "ty \<Rightarrow> ptr \<Rightarrow> u64 \<Rightarrow> exclusive_resource \<Rightarrow> exclusive_resource" where
  "excl_deallocate t pointer n r =
     (if pointer = nullptr \<and> n = 0 then r
      else if pointer = nullptr \<or> n = 0 then r
      else case checked_mul n (sizeof t) of
          None \<Rightarrow> r
        | Some bytes \<Rightarrow> release pointer bytes (alignof t) r)"

definition excl_expand :: "ty \<Rightarrow> ptr \<Rightarrow> u64 \<Rightarrow> exclusive_resource \<Rightarrow> u64 \<times> exclusive_resource" where
  "excl_expand t pointer minimum_new_bytes r =
     (let representable_capacity_bytes = (usable_bytes r div sizeof t) * sizeof t
      in er_expand pointer minimum_new_bytes representable_capacity_bytes r)"

definition excl_max_size :: "ty \<Rightarrow> exclusive_resource \<Rightarrow> u64" where
  "excl_max_size t r =
     (if alignof t \<le> effective_alignment r then usable_bytes r div sizeof t else 0)"

section \<open>What an allocation grants\<close>

lemma count_bytes:
  assumes "n \<le> theoretical_max_size t" "ty_ok t"
  shows "checked_mul n (sizeof t) = Some (n * sizeof t)"
    and "unat (n * sizeof t) = unat n * unat (sizeof t)"
  using assms le_theoretical_max[OF ty_ok_pos, of t n]
  by (simp_all add: theoretical_max_size_def checked_mul_eq unat_times_le)

lemma count_bytes_nonzero: "n \<noteq> 0 \<Longrightarrow> n \<le> theoretical_max_size t \<Longrightarrow> ty_ok t \<Longrightarrow> n * sizeof t \<noteq> 0"
  using count_bytes(2)[of n t] ty_ok_pos[of t] by (auto simp: unat_gt_0 simp flip: unat_gt_0)

lemma excl_allocate_eq:
  assumes "er_inv r" "ty_ok t"
  shows "excl_allocate t n r =
    (if n = 0 then (Inr nullptr, r)
     else if n > theoretical_max_size t then (Inl Bad_array_new_length, r)
     else if claimed r \<or> usable_bytes r < n * sizeof t \<or> effective_alignment r < alignof t
       then (Inl Bad_alloc, r)
     else (Inr (er_base r), r\<lparr>claimed_min_bytes := n * sizeof t, claimed_max_bytes := n * sizeof t,
                              claimed_alignment := alignof t\<rparr>))"
  using assms count_bytes(1)[of n t] count_bytes_nonzero[of n t] er.base_nonnull[OF assms(1)]
  by (auto simp: excl_allocate_def claim_eq not_less not_le ty_ok_def)

lemma er_inv_excl_allocate: "er_inv r \<Longrightarrow> er_inv (snd (excl_allocate t n r))"
  using er_inv_claim[of r] by (auto simp: excl_allocate_def split: option.split prod.split) (metis snd_conv)+

lemma returned_count_bytes:
  assumes "ty_ok t"
  shows "unat (usable_bytes r div sizeof t * sizeof t) = unat (usable_bytes r) div unat (sizeof t) * unat (sizeof t)"
    and "usable_bytes r div sizeof t * sizeof t \<le> usable_bytes r"
    and "n \<le> usable_bytes r div sizeof t \<longleftrightarrow> unat n * unat (sizeof t) \<le> unat (usable_bytes r)"
proof -
  have le: "unat (usable_bytes r) div unat (sizeof t) * unat (sizeof t) \<le> unat (usable_bytes r)"
    by (rule div_times_less_eq_dividend)
  then have "unat (usable_bytes r) div unat (sizeof t) * unat (sizeof t) < 2 ^ 64"
    using unat_lt_64[of "usable_bytes r"] by linarith
  then show u: "unat (usable_bytes r div sizeof t * sizeof t) =
      unat (usable_bytes r) div unat (sizeof t) * unat (sizeof t)"
    by (subst unat_times_le) (simp_all add: unat_div)
  show "usable_bytes r div sizeof t * sizeof t \<le> usable_bytes r"
    using u le by (simp add: word_le_nat_alt)
  show "n \<le> usable_bytes r div sizeof t \<longleftrightarrow> unat n * unat (sizeof t) \<le> unat (usable_bytes r)"
    using ty_ok_pos[OF assms] by (simp add: word_le_nat_alt unat_div less_eq_div_iff_mult_less_eq)
qed

text \<open>
  C34. An allocation from an exclusive resource, on every branch: nothing for a zero count,
  \<open>bad_array_new_length\<close> exactly when the byte count does not fit in a \<open>size_t\<close>, \<open>bad_alloc\<close>
  exactly when a claim is out, the region is too small or its alignment too weak, and otherwise
  the base of the region, aligned for the value type, with the requested elements inside it.
\<close>

theorem excl_allocate_correct:
  assumes "er_inv r" and "ty_ok t"
  shows "case excl_allocate t n r of (res, r') \<Rightarrow>
     er_inv r' \<and>
     (if n = 0 then res = Inr nullptr \<and> r' = r
      else if 2 ^ 64 \<le> unat n * unat (sizeof t) then res = Inl Bad_array_new_length \<and> r' = r
      else if claimed r \<or> unat (usable_bytes r) < unat n * unat (sizeof t) \<or>
              effective_alignment r < alignof t
        then res = Inl Bad_alloc \<and> r' = r
      else res = Inr (er_base r) \<and> er_base r \<noteq> nullptr \<and> is_aligned (er_base r) (alignof t) \<and>
           claimed r' \<and> er_window r' = Some (n * sizeof t, n * sizeof t, alignof t))"
proof -
  have big: "n > theoretical_max_size t \<longleftrightarrow> 2 ^ 64 \<le> unat n * unat (sizeof t)"
    using le_theoretical_max[OF ty_ok_pos[OF assms(2)], of n]
    by (simp add: theoretical_max_size_def flip: not_le)
  have small: "\<not> theoretical_max_size t < n \<Longrightarrow>
      (usable_bytes r < n * sizeof t) = (unat (usable_bytes r) < unat n * unat (sizeof t))"
    using count_bytes(2)[OF _ assms(2), of n] by (metis word_less_nat_alt not_less)
  have al: "\<not> effective_alignment r < alignof t \<Longrightarrow> is_aligned (er_base r) (alignof t)"
    using assms aligned_below by (auto simp: er_inv_def ty_ok_def not_less)
  have nz: "n \<noteq> 0 \<Longrightarrow> \<not> theoretical_max_size t < n \<Longrightarrow> n * sizeof t \<noteq> 0"
    using count_bytes_nonzero[of n t] assms(2) by (simp add: not_less)
  show ?thesis
    unfolding case_prod_beta
    by (rule conjI[OF er_inv_excl_allocate[OF assms(1)]])
      (use big small al nz er.base_nonnull[OF assms(1)] in
        \<open>auto simp: excl_allocate_eq[OF assms] er_window_def claimed_def\<close>)
qed

text \<open>
  C35. \<open>max_size()\<close> is exact: with no claim out, a nonzero count can be allocated exactly when it
  is at most \<open>max_size()\<close>.
\<close>

theorem excl_max_size_exact:
  assumes "er_inv r" and "ty_ok t" and "\<not> claimed r" and "n \<noteq> 0"
  shows "(\<exists>p. fst (excl_allocate t n r) = Inr p) \<longleftrightarrow> n \<le> excl_max_size t r"
proof -
  have "n \<le> usable_bytes r div sizeof t \<longleftrightarrow> n \<le> theoretical_max_size t \<and> n * sizeof t \<le> usable_bytes r"
  proof (cases "n \<le> theoretical_max_size t")
    case True
    then show ?thesis
      using count_bytes(2)[OF True assms(2)] returned_count_bytes(3)[OF assms(2), of n r]
      by (simp add: word_le_nat_alt)
  next
    case False
    then have "2 ^ 64 \<le> unat n * unat (sizeof t)"
      using le_theoretical_max[OF ty_ok_pos[OF assms(2)], of n] by (simp add: theoretical_max_size_def)
    then show ?thesis
      using False returned_count_bytes(3)[OF assms(2), of n r] unat_lt_64[of "usable_bytes r"]
      by simp
  qed
  then show ?thesis
    using assms by (auto simp: excl_allocate_eq excl_max_size_def not_less not_le)
qed

section \<open>Claims and releases through the handle\<close>

lemma excl_deallocate_eq:
  assumes "ty_ok t" and "er_inv r"
  shows "excl_deallocate t p n r =
    (if n \<le> theoretical_max_size t \<and> release_valid p (n * sizeof t) (alignof t) r
     then r\<lparr>claimed_min_bytes := 0, claimed_max_bytes := 0, claimed_alignment := 0\<rparr> else r)"
proof (cases "n \<le> theoretical_max_size t")
  case True
  have "release_valid p (n * sizeof t) (alignof t) r \<Longrightarrow> p \<noteq> nullptr \<and> n \<noteq> 0"
    using assms(2) by (auto simp: release_valid_def er_inv_def claimed_def)
  then show ?thesis
    using True count_bytes(1)[OF True assms(1)] by (auto simp: excl_deallocate_def release_def)
next
  case False
  then have "checked_mul n (sizeof t) = None"
    using le_theoretical_max[OF ty_ok_pos[OF assms(1)], of n]
    by (simp add: checked_mul_eq theoretical_max_size_def)
  then show ?thesis
    using False by (simp add: excl_deallocate_def)
qed

text \<open>The state of a resource while the claim of a handle is out.\<close>

definition claimed_as :: "u64 \<Rightarrow> u64 \<Rightarrow> u64 \<Rightarrow> exclusive_resource \<Rightarrow> exclusive_resource" where
  "claimed_as lo hi al r =
     r\<lparr>claimed_min_bytes := lo, claimed_max_bytes := hi, claimed_alignment := al\<rparr>"

lemma unclaimed_restore:
  "er_inv r \<Longrightarrow> \<not> claimed r \<Longrightarrow>
     claimed_as lo hi al r\<lparr>claimed_min_bytes := 0, claimed_max_bytes := 0, claimed_alignment := 0\<rparr> = r"
  by (cases r) (auto simp: claimed_as_def er_inv_def claimed_def)

lemma deallocate_claimed:
  assumes "ty_ok t" "er_inv r" "\<not> claimed r" "n \<noteq> 0" "n \<le> theoretical_max_size t"
    and "n * sizeof t \<le> hi" "hi \<le> usable_bytes r" "alignof t \<le> effective_alignment r"
  shows "excl_deallocate t (er_base r) m (claimed_as (n * sizeof t) hi (alignof t) r) =
    (if n \<le> m \<and> unat m * unat (sizeof t) \<le> unat hi then r else claimed_as (n * sizeof t) hi (alignof t) r)"
proof -
  let ?c = "claimed_as (n * sizeof t) hi (alignof t) r"
  have nz: "n * sizeof t \<noteq> 0"
    using count_bytes_nonzero assms by blast
  have inv: "er_inv ?c"
    using assms nz by (auto simp: er_inv_def claimed_as_def claimed_def ty_ok_def)
  have pos: "0 < unat (sizeof t)" using assms(1) by (rule ty_ok_pos)
  have valid: "m \<le> theoretical_max_size t \<and> n * sizeof t \<le> m * sizeof t \<and> m * sizeof t \<le> hi
      \<longleftrightarrow> n \<le> m \<and> unat m * unat (sizeof t) \<le> unat hi"
  proof (cases "m \<le> theoretical_max_size t")
    case True
    then show ?thesis
      using count_bytes(2)[OF True assms(1)] count_bytes(2)[OF assms(5,1)] pos
      by (simp add: word_le_nat_alt)
  next
    case False
    then show ?thesis
      using le_theoretical_max[OF pos, of m] unat_lt_64[of hi] by (simp add: theoretical_max_size_def)
  qed
  have "release_valid (er_base r) (m * sizeof t) (alignof t) ?c \<longleftrightarrow>
      n * sizeof t \<le> m * sizeof t \<and> m * sizeof t \<le> hi"
    using nz by (simp add: release_valid_def claimed_as_def claimed_def)
  then show ?thesis
    unfolding excl_deallocate_eq[OF assms(1) inv] unclaimed_restore[OF assms(2,3)] valid[symmetric]
    by simp
qed

lemma excl_allocate_SomeD:
  assumes "er_inv r" "ty_ok t" "excl_allocate t n r = (Inr p, r')" "n \<noteq> 0"
  shows "p = er_base r" and "r' = claimed_as (n * sizeof t) (n * sizeof t) (alignof t) r"
    and "\<not> claimed r" and "n \<le> theoretical_max_size t" and "n * sizeof t \<le> usable_bytes r"
    and "alignof t \<le> effective_alignment r"
  using assms(3,4) by (auto simp: excl_allocate_eq[OF assms(1,2)] claimed_as_def not_less split: if_splits)

text \<open>
  \<open>allocate_at_least\<close> hands out the whole representable capacity, and the claim can be given
  back with any count from the one asked for to the one returned: every such deallocation restores
  the resource exactly, and any other count changes nothing.
\<close>

theorem excl_allocate_at_least_roundtrip:
  assumes "er_inv r" and "ty_ok t" and "n \<noteq> 0"
    and "excl_allocate_at_least t n r = (Inr (p, c), r')"
  shows "p = er_base r \<and>
    n \<le> c \<and>
    c = excl_max_size t r \<and>
    (excl_deallocate t p m r' = (if n \<le> m \<and> m \<le> c then r else r'))"
proof -
  let ?c = "usable_bytes r div sizeof t"
  have n: "n \<le> theoretical_max_size t" and nc: "n \<le> ?c" and al: "alignof t \<le> effective_alignment r"
    using assms(3,4) by (auto simp: excl_allocate_at_least_def Let_def not_less split: if_splits option.splits)
  have lo: "n * sizeof t \<le> ?c * sizeof t"
    using nc count_bytes(2)[OF n assms(2)] returned_count_bytes(1)[OF assms(2), of r]
    by (simp add: word_le_nat_alt unat_div mult_le_mono1)
  note hi = returned_count_bytes(2)[OF assms(2), of r]
  have res: "\<not> claimed r" "p = er_base r" "c = ?c" "r' = claimed_as (n * sizeof t) (?c * sizeof t) (alignof t) r"
    using assms nc al count_bytes(1)[OF n assms(2)] n
    by (auto simp: excl_allocate_at_least_def Let_def claim_eq claimed_as_def split: if_splits)
  have part1: "p = er_base r" "n \<le> c" "c = excl_max_size t r"
    using res nc al by (simp_all add: excl_max_size_def)
  have "unat m * unat (sizeof t) \<le> unat (?c * sizeof t) \<longleftrightarrow> m \<le> ?c"
    using returned_count_bytes(1)[OF assms(2), of r] ty_ok_pos[OF assms(2)]
    by (simp add: word_le_nat_alt unat_div)
  then have part2: "excl_deallocate t p m r' = (if n \<le> m \<and> m \<le> c then r else r')"
    using deallocate_claimed[OF assms(2,1) res(1) assms(3) n lo hi al, of m] res by simp
  show ?thesis using part1 part2 by blast
qed

text \<open>
  Growing a claim in place: \<open>expand\<close> reports the bytes that are claimed afterwards, which are
  the old ones when they suffice or when the request does not fit in whole elements, and the whole
  representable capacity otherwise; afterwards exactly the element counts from the allocated one
  up to the reported bytes give the claim back.
\<close>

theorem excl_expand_correct:
  assumes "er_inv r" and "ty_ok t" and "n \<noteq> 0" and "excl_allocate t n r = (Inr p, r1)"
    and "excl_expand t p m r1 = (k, r2)"
  shows "(unat k = (if unat m \<le> unat n * unat (sizeof t) \<or>
                      unat (usable_bytes r) div unat (sizeof t) * unat (sizeof t) < unat m
                   then unat n * unat (sizeof t)
                   else unat (usable_bytes r) div unat (sizeof t) * unat (sizeof t))) \<and>
    (excl_deallocate t p j r2 = (if n \<le> j \<and> unat j * unat (sizeof t) \<le> unat k then r else r2))"
proof -
  let ?cap = "usable_bytes r div sizeof t * sizeof t"
  note a = excl_allocate_SomeD[OF assms(1,2,4,3)]
  note bytes = count_bytes(2)[OF a(4) assms(2)] returned_count_bytes(1)[OF assms(2), of r]
  have nz: "n * sizeof t \<noteq> 0"
    using count_bytes_nonzero[OF assms(3) a(4) assms(2)] .
  have ncap: "n * sizeof t \<le> ?cap"
    using a(5) bytes returned_count_bytes(3)[OF assms(2), of n r]
    by (simp add: word_le_nat_alt unat_div mult_le_mono1)
  have k: "k = (if m \<le> n * sizeof t \<or> ?cap < m then n * sizeof t else ?cap)"
    and r2: "r2 = claimed_as (n * sizeof t) k (alignof t) r"
    using assms(5) ncap nz returned_count_bytes(2)[OF assms(2), of r] unfolding a(1,2)
    by (auto simp: excl_expand_def er_expand_def Let_def claimed_def claimed_as_def not_less not_le
        split: if_splits)
  have part1: "unat k = (if unat m \<le> unat n * unat (sizeof t) \<or>
                      unat (usable_bytes r) div unat (sizeof t) * unat (sizeof t) < unat m
                   then unat n * unat (sizeof t)
                   else unat (usable_bytes r) div unat (sizeof t) * unat (sizeof t))"
    unfolding k using bytes by (simp add: word_le_nat_alt word_less_nat_alt)
  have "n * sizeof t \<le> k" "k \<le> usable_bytes r"
    using k ncap a(5) returned_count_bytes(2)[OF assms(2), of r] by auto
  then have part2: "excl_deallocate t p j r2 = (if n \<le> j \<and> unat j * unat (sizeof t) \<le> unat k then r else r2)"
    using deallocate_claimed[OF assms(2,1) a(3) assms(3) a(4) _ _ a(6), of k j] r2 a(1) by simp
  show ?thesis using part1 part2 by blast
qed

section \<open>Sequences of operations\<close>

text \<open>
  Handles of any value type may share one resource (a rebound handle keeps the resource of its
  source), so a run is a list of operations each with its own type.  A step reports whether it
  granted a non-null pointer.
\<close>

datatype excl_op =
    Ex_allocate u64
  | Ex_allocate_at_least u64
  | Ex_deallocate ptr u64
  | Ex_expand ptr u64

fun excl_step :: "ty \<times> excl_op \<Rightarrow> exclusive_resource \<Rightarrow> bool \<times> exclusive_resource" where
  "excl_step (t, Ex_allocate n) r =
     (case excl_allocate t n r of (Inr p, r') \<Rightarrow> (p \<noteq> nullptr, r') | (Inl e, r') \<Rightarrow> (False, r'))"
| "excl_step (t, Ex_allocate_at_least n) r =
     (case excl_allocate_at_least t n r of (Inr (p, c), r') \<Rightarrow> (p \<noteq> nullptr, r') | (Inl e, r') \<Rightarrow> (False, r'))"
| "excl_step (t, Ex_deallocate p n) r = (False, excl_deallocate t p n r)"
| "excl_step (t, Ex_expand p n) r = (False, snd (excl_expand t p n r))"

fun excl_run :: "(ty \<times> excl_op) list \<Rightarrow> exclusive_resource \<Rightarrow> exclusive_resource" where
  "excl_run [] r = r"
| "excl_run (x # xs) r = excl_run xs (snd (excl_step x r))"

definition is_deallocate :: "ty \<times> excl_op \<Rightarrow> bool" where
  "is_deallocate x = (case snd x of Ex_deallocate p n \<Rightarrow> True | _ \<Rightarrow> False)"

lemma er_inv_claim_result: "claim lo hi al r = (p, r') \<Longrightarrow> er_inv r \<Longrightarrow> er_inv r'"
  using er_inv_claim[of r lo hi al] by simp

lemma er_inv_step: "er_inv r \<Longrightarrow> er_inv (snd (excl_step x r))"
  by (induction x r rule: excl_step.induct)
    (auto simp: excl_deallocate_def excl_expand_def Let_def er_inv_release er_inv_expand
      excl_allocate_def excl_allocate_at_least_def
      split: option.split prod.split sum.split dest: er_inv_claim_result)

lemma claimed_claim: "claimed r \<Longrightarrow> claim lo hi al r = (nullptr, r)"
  by (simp add: claim_def)

lemma claimed_expand: "claimed r \<Longrightarrow> claimed (snd (er_expand p n cap r))"
  by (auto simp: er_expand_def claimed_def)

lemma claimed_step:
  assumes "claimed r" "\<not> is_deallocate x"
  shows "\<not> fst (excl_step x r) \<and> claimed (snd (excl_step x r))"
  using assms
  by (induction x r rule: excl_step.induct)
    (auto simp: excl_expand_def claimed_expand excl_allocate_def excl_allocate_at_least_def Let_def
      claimed_claim is_deallocate_def split: option.split)

lemma granted_claimed: "er_inv r \<Longrightarrow> fst (excl_step x r) \<Longrightarrow> claimed (snd (excl_step x r))"
  by (induction x r rule: excl_step.induct)
    (auto simp: excl_allocate_def excl_allocate_at_least_def Let_def claim_eq claimed_def
      split: option.splits if_splits sum.splits prod.splits)

lemma claimed_run:
  "claimed r \<Longrightarrow> list_all (\<lambda>x. \<not> is_deallocate x) xs \<Longrightarrow> claimed (excl_run xs r)"
  by (induction xs arbitrary: r) (simp_all add: claimed_step)

text \<open>
  One live allocation at a time: once an operation has been granted memory, no operation of
  any handle is granted memory again before a deallocation is called, whatever allocations and
  expansions are tried in between.
\<close>

theorem excl_no_second_grant:
  assumes "er_inv r" and "fst (excl_step x r)" and "list_all (\<lambda>y. \<not> is_deallocate y) xs"
  shows "\<not> fst (excl_step z (excl_run xs (snd (excl_step x r))))"
proof -
  have c: "claimed (excl_run xs (snd (excl_step x r)))"
    using claimed_run[OF granted_claimed[OF assms(1,2)] assms(3)] .
  show ?thesis
    using claimed_step[OF c] by (cases z rule: prod.exhaust, cases "is_deallocate z")
      (auto simp: is_deallocate_def split: excl_op.splits)
qed

section \<open>Construction\<close>

lemma has_single_bit_required: "ty_ok t \<Longrightarrow> has_single_bit (max (alignof t) alignof_max_align)"
  unfolding alignof_max_align_def
  by (intro has_single_bit_max) (simp_all add: ty_ok_def has_single_bit_16)

text \<open>
  A \<open>fixed\<close> exclusive state: construction fails only with the exception for its cause and then
  leaks nothing; a constructed state is unclaimed, its capacity is the one asked for (also as the
  handle's \<open>max_size\<close>) inside a mapping that is out for it alone, and destruction gives the
  mapping back.
\<close>

theorem fixed_exclusive_new_correct:
  assumes "sys_honest sys w" and "ty_ok t"
  shows "case fixed_exclusive_new sys Huge t n w of
     (Inl e, w') \<Rightarrow> live w' = live w \<and>
        (if n = 0 then e = Invalid_argument ''exclusive state capacity must not be zero''
         else if 2 ^ 64 \<le> unat n * unat (sizeof t) then e = Bad_array_new_length
         else e = Bad_alloc)
   | (Inr s, w') \<Rightarrow> er_inv (fx_resource s) \<and> \<not> claimed (fx_resource s) \<and>
        excl_max_size t (fx_resource s) = n \<and> fx_element_capacity s = n \<and>
        unat (fx_capacity_bytes s) = unat n * unat (sizeof t) \<and>
        fx_capacity_bytes s \<le> fx_mapping_bytes s \<and>
        live w' = owned_region (fx_backing s) # live w \<and>
        er_base (fx_resource s) = om_base (fx_backing s) \<and>
        live (fixed_exclusive_destroy sys Huge s w') = live w"
proof (cases "fixed_exclusive_config t n")
  case (Inl e)
  then show ?thesis
    by (auto simp: fixed_exclusive_new_def fixed_exclusive_config_def checked_mul_eq
        split: if_splits option.splits)
next
  case (Inr cfg)
  define al where "al = max (alignof t) alignof_max_align"
  have cfg: "cfg = (n, n * sizeof t)" "n \<noteq> 0" and bytes: "unat (n * sizeof t) = unat n * unat (sizeof t)"
    and fits: "unat n * unat (sizeof t) < 2 ^ 64"
    using Inr by (auto simp: fixed_exclusive_config_def checked_mul_eq unat_times_le
        split: if_splits option.splits)
  have pos: "0 < unat (sizeof t)" using assms(2) by (rule ty_ok_pos)
  obtain res w' where own: "owned_memory_owner_new sys Huge (n * sizeof t) al w = (res, w')"
    by fastforce
  note rt = owned_memory_owner_roundtrip[OF assms(1), of Huge "n * sizeof t" al, unfolded own]
  show ?thesis
  proof (cases res)
    case (Inl e)
    then show ?thesis
      using Inr cfg fits rt own by (simp add: fixed_exclusive_new_def al_def)
  next
    case (Inr om)
    then have got: "allocate_owned_memory sys Huge (n * sizeof t) al w = (Inr om, w')"
      using own by (auto simp: owned_memory_owner_new_def split: prod.splits sum.splits)
    note b = allocate_owned_memory_bytes[OF got]
    have fresh: "fresh_region w (owned_region om)"
      using allocate_owned_memory_fresh[OF got assms(1)] .
    have le: "n * sizeof t \<le> om_bytes om"
      using b(4) nat_round_up_props(2)[of 2097152 "unat (n * sizeof t)"]
      by (simp add: word_le_nat_alt split: if_splits)
    define r where "r = \<lparr>er_base = om_base om, usable_bytes = n * sizeof t,
      effective_alignment = om_alignment om, claimed_min_bytes = 0, claimed_max_bytes = 0,
      claimed_alignment = 0\<rparr>"
    have new: "exclusive_resource_new (om_base om) (n * sizeof t) (om_alignment om) = Inr r"
      using fresh b(1) has_single_bit_pos[of "om_alignment om"]
      by (auto simp: exclusive_resource_new_def r_def fresh_region_def region_ok_def owned_region_def)
    have "alignof t \<le> om_alignment om"
      using b(6) by (auto simp: al_def)
    moreover have "(n * sizeof t) div sizeof t = n"
      using bytes pos by (simp add: word_unat_eq_iff unat_div)
    ultimately show ?thesis
      using Inr \<open>fixed_exclusive_config t n = Inr cfg\<close> cfg own new rt er_inv_new[OF new] le bytes
      by (simp add: fixed_exclusive_new_def al_def excl_max_size_def fx_capacity_bytes_def
          fx_mapping_bytes_def fixed_exclusive_destroy_def r_def)
  qed
qed

text \<open>
  A \<open>noheap\<close> exclusive state over a caller's span: construction succeeds exactly when one
  element fits at an aligned address of the span; the region lies inside the span, is aligned for
  the value type, and no aligned placement in the span would hold more elements.
\<close>

theorem noheap_exclusive_new_correct:
  assumes "ty_ok t" and "data \<noteq> nullptr" and "unat data + unat bytes \<le> 2 ^ 64"
  defines "required \<equiv> unat (max (alignof t) alignof_max_align)"
  shows "case noheap_exclusive_new t data bytes of
     Inl e \<Rightarrow> \<not> (\<exists>a. required dvd a \<and> unat data \<le> a \<and> a + unat (sizeof t) \<le> unat data + unat bytes)
   | Inr s \<Rightarrow> er_inv (nx_resource s) \<and> \<not> claimed (nx_resource s) \<and>
        required dvd unat (er_base (nx_resource s)) \<and> unat data \<le> unat (er_base (nx_resource s)) \<and>
        unat (er_base (nx_resource s)) + unat (usable_bytes (nx_resource s)) \<le> unat data + unat bytes \<and>
        excl_max_size t (nx_resource s) = nx_element_capacity s \<and> nx_element_capacity s \<noteq> 0 \<and>
        unat (usable_bytes (nx_resource s)) = unat (nx_element_capacity s) * unat (sizeof t) \<and>
        \<not> (\<exists>a k. required dvd a \<and> unat data \<le> a \<and>
              a + k * unat (sizeof t) \<le> unat data + unat bytes \<and> unat (nx_element_capacity s) < k)"
proof -
  define al where "al = max (alignof t) alignof_max_align"
  have al: "has_single_bit al" unfolding al_def using assms(1) by (rule has_single_bit_required)
  have req: "required = unat al" by (simp add: required_def al_def)
  have pos: "0 < unat (sizeof t)" using assms(1) by (rule ty_ok_pos)
  have sz: "sizeof t \<noteq> 0" using assms(1) by (simp add: ty_ok_def)
  show ?thesis
  proof (cases "std_align al (sizeof t) data bytes")
    case None
    have "\<not> (\<exists>a. required dvd a \<and> unat data \<le> a \<and> a + unat (sizeof t) \<le> unat data + unat bytes)"
      using std_align_NoneD[OF al None] req by blast
    then show ?thesis
      using None by (auto simp: noheap_exclusive_new_def noheap_exclusive_config_def al_def)
  next
    case (Some qs)
    then obtain q sp where qs: "std_align al (sizeof t) data bytes = Some (q, sp)" by force
    note q = std_align_SomeD[OF al qs assms(3) sz]
    define cap where "cap = sp div sizeof t"
    have capn: "unat cap = unat sp div unat (sizeof t)" by (simp add: cap_def unat_div)
    have cap0: "cap \<noteq> 0"
      using q(5) pos by (simp add: word_unat_eq_iff capn div_eq_0_iff)
    have cle: "unat cap * unat (sizeof t) \<le> unat sp" unfolding capn by (rule div_times_less_eq_dividend)
    then have cb: "unat (cap * sizeof t) = unat cap * unat (sizeof t)"
      using unat_lt_64[of sp] by (intro unat_times_le) linarith
    have cb0: "cap * sizeof t \<noteq> 0"
      using cap0 pos cb by (auto simp: word_unat_eq_iff)
    have b0: "bytes \<noteq> 0" using qs sz by (auto simp: std_align_def word_gt_0)
    have q0: "q \<noteq> 0" using q(2) assms(2) by (auto simp: word_unat_eq_iff)
    define r where "r = \<lparr>er_base = q, usable_bytes = cap * sizeof t, effective_alignment = al,
      claimed_min_bytes = 0, claimed_max_bytes = 0, claimed_alignment = 0\<rparr>"
    have new: "exclusive_resource_new q (cap * sizeof t) al = Inr r"
      using q0 cb0 al q(1) has_single_bit_pos[OF al]
      by (auto simp: exclusive_resource_new_def r_def is_aligned_iff)
    have eq: "noheap_exclusive_new t data bytes = Inr \<lparr>nx_resource = r, nx_element_capacity = cap\<rparr>"
      using qs b0 cap0 new
      by (simp add: noheap_exclusive_new_def noheap_exclusive_config_def Let_def cap_def al_def)
    have "(cap * sizeof t) div sizeof t = cap"
      using cb pos by (simp add: word_unat_eq_iff unat_div)
    moreover have "alignof t \<le> al" by (simp add: al_def)
    moreover have "\<not> (\<exists>a k. required dvd a \<and> unat data \<le> a \<and>
        a + k * unat (sizeof t) \<le> unat data + unat bytes \<and> unat cap < k)"
    proof (intro notI, elim exE conjE)
      fix a k assume a: "required dvd a" "unat data \<le> a"
        and fit: "a + k * unat (sizeof t) \<le> unat data + unat bytes" and k: "unat cap < k"
      have "unat q \<le> a"
      proof (rule ccontr)
        assume "\<not> ?thesis"
        then have "a < unat q" by simp
        moreover from this a(1) q(1) have "unat al dvd unat q - a" "unat q - a > 0"
          unfolding req by (auto intro: dvd_diff_nat)
        then have "unat al \<le> unat q - a" by (auto dest: dvd_imp_le)
        ultimately show False using q(3) a(2) by linarith
      qed
      then have "k * unat (sizeof t) \<le> unat sp" using fit q(4) by linarith
      then have "k \<le> unat cap"
        unfolding capn using pos by (simp add: less_eq_div_iff_mult_less_eq)
      then show False using k by simp
    qed
    ultimately show ?thesis
      using eq er_inv_new[OF new] q cle cb cap0 req
      by (simp add: excl_max_size_def)
  qed
qed

section \<open>Witnesses\<close>

text \<open>A 64-byte region at address 4096 and four-byte elements.\<close>

definition demo_resource :: exclusive_resource where
  "demo_resource = \<lparr>er_base = 4096, usable_bytes = 64, effective_alignment = 16,
     claimed_min_bytes = 0, claimed_max_bytes = 0, claimed_alignment = 0\<rparr>"

definition demo_ty :: ty where
  "demo_ty = \<lparr>sizeof = 4, alignof = 4\<rparr>"

lemma demo_inv: "er_inv demo_resource" "ty_ok demo_ty" "\<not> claimed demo_resource"
  using has_single_bit_16 has_single_bit_4
  by (simp_all add: er_inv_def demo_resource_def claimed_def is_aligned_def ty_ok_def demo_ty_def)

lemma demo_fields:
  "er_base demo_resource = 4096" "usable_bytes demo_resource = 64"
  "effective_alignment demo_resource = 16" "sizeof demo_ty = 4" "alignof demo_ty = 4"
  by (simp_all add: demo_resource_def demo_ty_def)

lemma demo_allocate:
  "excl_allocate demo_ty 3 demo_resource = (Inr 4096, claimed_as 12 12 4 demo_resource)"
  unfolding excl_allocate_eq[OF demo_inv(1,2)]
  by (simp add: demo_resource_def demo_ty_def theoretical_max_size_def size_max_def claimed_def claimed_as_def)

lemma demo_allocate_at_least:
  "excl_allocate_at_least demo_ty 3 demo_resource = (Inr (4096, 16), claimed_as 12 64 4 demo_resource)"
  unfolding excl_allocate_at_least_def claim_eq[OF demo_inv(1)]
  using has_single_bit_4
  by (simp add: demo_resource_def demo_ty_def theoretical_max_size_def size_max_def claimed_def
      claimed_as_def checked_mul_eq)

lemma demo_expand:
  "excl_expand demo_ty 4096 40 (claimed_as 12 12 4 demo_resource) = (64, claimed_as 12 64 4 demo_resource)"
  by (simp add: excl_expand_def er_expand_def demo_resource_def demo_ty_def claimed_as_def claimed_def Let_def)

theorem excl_allocate_correct_witness:
  "fst (excl_allocate demo_ty 3 demo_resource) = Inr 4096 \<and>
   er_window (snd (excl_allocate demo_ty 3 demo_resource)) = Some (12, 12, 4)"
  using excl_allocate_correct[OF demo_inv(1,2), of 3] demo_inv(3)
  by (simp add: demo_allocate demo_fields)

theorem excl_max_size_exact_witness:
  "(\<exists>p. fst (excl_allocate demo_ty 16 demo_resource) = Inr p) \<and>
   \<not> (\<exists>p. fst (excl_allocate demo_ty 17 demo_resource) = Inr p)"
  using excl_max_size_exact[OF demo_inv, of 16] excl_max_size_exact[OF demo_inv, of 17]
  by (simp add: excl_max_size_def demo_resource_def demo_ty_def)

theorem excl_allocate_at_least_roundtrip_witness:
  "excl_deallocate demo_ty 4096 10 (claimed_as 12 64 4 demo_resource) = demo_resource \<and>
   excl_deallocate demo_ty 4096 2 (claimed_as 12 64 4 demo_resource) = claimed_as 12 64 4 demo_resource"
  using excl_allocate_at_least_roundtrip[OF demo_inv(1,2) _ demo_allocate_at_least, of 10]
    excl_allocate_at_least_roundtrip[OF demo_inv(1,2) _ demo_allocate_at_least, of 2]
  by simp

theorem excl_expand_correct_witness:
  "unat (64 :: u64) = 16 * unat (sizeof demo_ty) \<and>
   excl_deallocate demo_ty 4096 7 (claimed_as 12 64 4 demo_resource) = demo_resource"
  using excl_expand_correct[OF demo_inv(1,2) _ demo_allocate demo_expand, where j = 7]
  by (simp add: demo_fields)

theorem excl_no_second_grant_witness:
  "\<not> fst (excl_step (demo_ty, Ex_allocate_at_least 1)
     (excl_run [(demo_ty, Ex_expand 4096 40)] (snd (excl_step (demo_ty, Ex_allocate 3) demo_resource))))"
  by (rule excl_no_second_grant) (simp_all add: demo_inv demo_allocate is_deallocate_def)

theorem fixed_exclusive_new_correct_witness:
  "live (snd (fixed_exclusive_new bump_sys Huge_disabled demo_ty 0 empty_world)) = []"
  using fixed_exclusive_new_correct[OF bump_sys_honest_empty demo_inv(2), where Huge = Huge_disabled and n = 0]
  by (simp add: fixed_exclusive_new_def fixed_exclusive_config_def empty_world_def)

theorem noheap_exclusive_new_correct_witness:
  "\<exists>s. noheap_exclusive_new demo_ty 4100 40 = Inr s \<and> er_base (nx_resource s) = 4112 \<and>
       nx_element_capacity s = 7 \<and> er_inv (nx_resource s)"
proof -
  have "is_aligned 4112 16" by (simp add: is_aligned_def)
  then have eq: "\<exists>s. noheap_exclusive_new demo_ty 4100 40 = Inr s \<and> er_base (nx_resource s) = 4112 \<and>
       nx_element_capacity s = 7"
    using has_single_bit_16
    by (simp add: noheap_exclusive_new_def noheap_exclusive_config_def std_align_def Let_def
        exclusive_resource_new_def demo_ty_def alignof_max_align_def max_def)
  then show ?thesis
    using noheap_exclusive_new_correct[OF demo_inv(2), of 4100 40] by auto
qed

end
