(* ===== verification/Exclusive_Handle.thy ===== *)
theory Exclusive_Handle
  imports Exclusive_Allocator
begin

text \<open>
  The handle of the exclusive model: a value type and the address of the resource it draws on.
  Handles of any types, copied and rebound, may share a resource; they compare equal exactly when
  they do.
\<close>

section \<open>The handle\<close>

record excl_handle =
  eh_ty :: ty
  eh_resource :: ptr

text \<open>A state has its resource at a fixed offset, which is a parameter.\<close>

definition excl_handle_new :: "u64 \<Rightarrow> ty \<Rightarrow> ptr \<Rightarrow> excl_handle" where
  "excl_handle_new offset t state = \<lparr>eh_ty = t, eh_resource = state + offset\<rparr>"

definition excl_handle_rebind :: "ty \<Rightarrow> excl_handle \<Rightarrow> excl_handle" where
  "excl_handle_rebind u other = \<lparr>eh_ty = u, eh_resource = eh_resource other\<rparr>"

definition excl_handle_eq :: "excl_handle \<Rightarrow> excl_handle \<Rightarrow> bool" where
  "excl_handle_eq h other \<longleftrightarrow> eh_resource h = eh_resource other"

definition excl_handle_neq :: "excl_handle \<Rightarrow> excl_handle \<Rightarrow> bool" where
  "excl_handle_neq h other \<longleftrightarrow> \<not> excl_handle_eq h other"

section \<open>Several handles on several states\<close>

type_synonym arenas = "ptr \<Rightarrow> exclusive_resource"

definition arenas_step :: "excl_handle \<times> excl_op \<Rightarrow> arenas \<Rightarrow> bool \<times> arenas" where
  "arenas_step x R =
     (case excl_step (eh_ty (fst x), snd x) (R (eh_resource (fst x))) of
        (granted, r) \<Rightarrow> (granted, R(eh_resource (fst x) := r)))"

primrec arenas_run :: "(excl_handle \<times> excl_op) list \<Rightarrow> arenas \<Rightarrow> arenas" where
  "arenas_run [] R = R"
| "arenas_run (x # xs) R = arenas_run xs (snd (arenas_step x R))"

text \<open>The operations that reach the resource of \<open>h\<close>, each at its own type.\<close>

definition aimed_at :: "excl_handle \<Rightarrow> (excl_handle \<times> excl_op) list \<Rightarrow> (ty \<times> excl_op) list" where
  "aimed_at h xs = map (\<lambda>x. (eh_ty (fst x), snd x)) (filter (\<lambda>x. excl_handle_eq (fst x) h) xs)"

lemma arenas_run_aimed: "arenas_run xs R (eh_resource h) = excl_run (aimed_at h xs) (R (eh_resource h))"
  by (induction xs arbitrary: R) (auto simp: aimed_at_def arenas_step_def excl_handle_eq_def split: prod.split)

text \<open>
  C20. Rebinding away and back gives an equal handle, and equality is all that matters: what any run of
  operations through any handles does to the resource of \<open>h\<close> is what the operations of the handles
  equal to \<open>h\<close> do to it, in their order, each at its own value type.  Hence once an operation has been
  granted the arena of \<open>h\<close>, no handle equal to \<open>h\<close> is granted memory before one of them deallocates,
  whatever happens to other arenas.
\<close>

theorem excl_handles_correct:
  fixes h :: excl_handle
  assumes "er_inv (R (eh_resource h))"
  shows "excl_handle_eq (excl_handle_rebind t (excl_handle_rebind u h)) h \<and>
    arenas_run xs R (eh_resource h) = excl_run (aimed_at h xs) (R (eh_resource h)) \<and>
    (fst (arenas_step (h, x) R) \<longrightarrow> list_all (\<lambda>y. \<not> is_deallocate y) (aimed_at h xs) \<longrightarrow> excl_handle_eq g h \<longrightarrow>
       \<not> fst (arenas_step (g, z) (arenas_run xs (snd (arenas_step (h, x) R)))))"
proof (intro conjI impI)
  show "excl_handle_eq (excl_handle_rebind t (excl_handle_rebind u h)) h"
    by (simp add: excl_handle_eq_def excl_handle_rebind_def)
  show "arenas_run xs R (eh_resource h) = excl_run (aimed_at h xs) (R (eh_resource h))" by (rule arenas_run_aimed)
  assume g: "fst (arenas_step (h, x) R)" "list_all (\<lambda>y. \<not> is_deallocate y) (aimed_at h xs)" "excl_handle_eq g h"
  let ?r = "snd (excl_step (eh_ty h, x) (R (eh_resource h)))"
  have "fst (excl_step (eh_ty h, x) (R (eh_resource h)))" using g(1) by (simp add: arenas_step_def split: prod.splits)
  then have c: "claimed (excl_run (aimed_at h xs) ?r)"
    using claimed_run[OF granted_claimed[OF assms] g(2)] by simp
  have "snd (arenas_step (h, x) R) (eh_resource h) = ?r" by (simp add: arenas_step_def split: prod.split)
  then have c': "claimed (arenas_run xs (snd (arenas_step (h, x) R)) (eh_resource g))"
    using c arenas_run_aimed g(3) by (simp add: excl_handle_eq_def)
  show "\<not> fst (arenas_step (g, z) (arenas_run xs (snd (arenas_step (h, x) R))))"
    using claimed_step[OF c', of "(eh_ty g, z)"]
    by (cases z) (auto simp: arenas_step_def is_deallocate_def split: prod.splits)
qed

theorem excl_handles_correct_witness:
  "let h = excl_handle_new 8 demo_ty 64; g = excl_handle_rebind demo_ty h; other = excl_handle_new 8 demo_ty 128;
       R = (\<lambda>_. demo_resource)
   in fst (arenas_step (h, Ex_allocate 3) R) \<and>
      \<not> fst (arenas_step (g, Ex_allocate 1) (arenas_run [(other, Ex_deallocate 4096 3)] (snd (arenas_step (h, Ex_allocate 3) R))))"
proof -
  let ?h = "excl_handle_new 8 demo_ty 64" and ?R = "\<lambda>_. demo_resource"
  let ?g = "excl_handle_rebind demo_ty ?h" and ?xs = "[(excl_handle_new 8 demo_ty 128, Ex_deallocate 4096 3)]"
  have g: "fst (arenas_step (?h, Ex_allocate 3) ?R)"
    by (simp add: arenas_step_def excl_handle_new_def demo_allocate)
  have xs: "list_all (\<lambda>y. \<not> is_deallocate y) (aimed_at ?h ?xs)"
    by (simp add: aimed_at_def excl_handle_eq_def excl_handle_new_def)
  have eq: "excl_handle_eq ?g ?h" by (simp add: excl_handle_eq_def excl_handle_rebind_def)
  have "er_inv (?R (eh_resource ?h))" by (rule demo_inv(1))
  from conjunct2[OF conjunct2[OF excl_handles_correct[OF this]]] g xs eq show ?thesis
    unfolding Let_def by blast
qed

end
