(* ===== verification/Chunk.thy ===== *)
theory Chunk
  imports Owned_Memory
begin

text \<open>
  \<open>node_t\<close>, \<open>granule_header\<close> and \<open>chunk_t\<close> of \<open>lib/types.hpp\<close>.  A chunk is an array of nodes.  In
  the headered layout (\<open>OwnerHeaders\<close>) the array is cut into granules, each of which starts with
  a header that names the owner, so that masking any node address finds the owner; in the raw
  layout the nodes are contiguous.  The lemmas place every slot: slots are apart, aligned, off the
  headers, inside the region, and \<open>contains\<close> recognises exactly them.
\<close>

section \<open>Node layout\<close>

definition node_size :: "ty \<Rightarrow> u64" where
  "node_size t = max (sizeof t) sizeof_ptr"

definition node_alignment :: "ty \<Rightarrow> u64" where
  "node_alignment t = max (alignof t) sizeof_ptr"

text \<open>
  \<open>sizeof(node_t<T>)\<close>: the storage array, padded to the alignment by the language's layout rule.
\<close>

definition sizeof_node :: "ty \<Rightarrow> u64" where
  "sizeof_node t = round_to_multiple_of (node_size t) (node_alignment t)"

definition sizeof_granule_header :: u64 where
  "sizeof_granule_header = 16"

definition granule_debug_tag :: u64 where
  "granule_debug_tag = 0xa110ca2a6a121e57"

definition header_offset :: "ty \<Rightarrow> u64" where
  "header_offset t = max sizeof_granule_header (node_alignment t)"

definition granule_for :: "ty \<Rightarrow> u64 \<Rightarrow> u64" where
  "granule_for t page_size = max page_size (bit_ceil (sizeof_node t + header_offset t))"

definition nodes_per_granule :: "ty \<Rightarrow> u64 \<Rightarrow> u64" where
  "nodes_per_granule t granule = (granule - header_offset t) div sizeof_node t"

section \<open>Chunks\<close>

record chunk =
  ch_count :: u64
  ch_alloc_align :: u64
  ch_nodes :: ptr

definition chunk_empty :: "ty \<Rightarrow> chunk" where
  "chunk_empty t = \<lparr>ch_count = 0, ch_alloc_align = node_alignment t, ch_nodes = nullptr\<rparr>"

definition granule_count :: "ty \<Rightarrow> chunk \<Rightarrow> u64" where
  "granule_count t c =
     (let per_granule = nodes_per_granule t (ch_alloc_align c)
      in (ch_count c + per_granule - 1) div per_granule)"

text \<open>A granule header is two words: the owner and, behind it, the debug tag.\<close>

definition write_granule_header :: "ptr \<Rightarrow> ptr \<Rightarrow> memory \<Rightarrow> memory" where
  "write_granule_header base owner m = m(base := owner, base + 8 := granule_debug_tag)"

definition init_granule_headers :: "ptr \<Rightarrow> u64 \<Rightarrow> u64 \<Rightarrow> memory \<Rightarrow> memory" where
  "init_granule_headers base granule n m =
     foldl (\<lambda>m g. write_granule_header (base + (adr g * granule)) nullptr m) m [0..<unat n]"

definition chunk_new_headered ::
    "sys \<Rightarrow> ty \<Rightarrow> u64 \<Rightarrow> u64 \<Rightarrow> world \<Rightarrow> (exn + chunk) \<times> world" where
  "chunk_new_headered sys t sz page_size w =
     (let granule = granule_for t page_size;
          per_granule = nodes_per_granule t granule
      in case checked_add sz (per_granule - 1) of
           None \<Rightarrow> (Inl Bad_array_new_length, w)
         | Some padded \<Rightarrow>
             let count = padded div per_granule in
             (case checked_mul count granule of
                None \<Rightarrow> (Inl Bad_array_new_length, w)
              | Some alloc_bytes \<Rightarrow>
                  (case op_new sys alloc_bytes granule w of (raw, w') \<Rightarrow>
                     if raw = nullptr then (Inl Bad_alloc, w')
                     else (Inr \<lparr>ch_count = sz, ch_alloc_align = granule, ch_nodes = raw\<rparr>,
                           w'\<lparr>cells := init_granule_headers raw granule count (cells w')\<rparr>))))"

definition chunk_new_raw ::
    "sys \<Rightarrow> ty \<Rightarrow> u64 \<Rightarrow> u64 \<Rightarrow> u64 \<Rightarrow> world \<Rightarrow> (exn + chunk) \<times> world" where
  "chunk_new_raw sys t sz page_size alloc_alignment w =
     (case checked_mul sz (sizeof_node t) of
        None \<Rightarrow> (Inl Bad_array_new_length, w)
      | Some node_bytes \<Rightarrow>
          (case checked_round_to_multiple_of node_bytes page_size of
             None \<Rightarrow> (Inl Bad_array_new_length, w)
           | Some alloc_bytes \<Rightarrow>
               (case op_new sys alloc_bytes alloc_alignment w of (raw, w') \<Rightarrow>
                  if raw = nullptr then (Inl Bad_alloc, w')
                  else (Inr \<lparr>ch_count = sz, ch_alloc_align = alloc_alignment, ch_nodes = raw\<rparr>, w'))))"

definition chunk_new ::
    "bool \<Rightarrow> sys \<Rightarrow> ty \<Rightarrow> u64 \<Rightarrow> u64 \<Rightarrow> u64 \<Rightarrow> world \<Rightarrow> (exn + chunk) \<times> world" where
  "chunk_new OwnerHeaders sys t sz page_size alloc_alignment w =
     (if OwnerHeaders then chunk_new_headered sys t sz page_size w
      else chunk_new_raw sys t sz page_size alloc_alignment w)"

definition chunk_external :: "ty \<Rightarrow> ptr \<Rightarrow> u64 \<Rightarrow> chunk" where
  "chunk_external t external_nodes sz =
     \<lparr>ch_count = sz, ch_alloc_align = node_alignment t, ch_nodes = external_nodes\<rparr>"

definition chunk_release :: "bool \<Rightarrow> chunk \<Rightarrow> world \<Rightarrow> chunk \<times> world" where
  "chunk_release owns_memory c w =
     (if ch_nodes c = nullptr then (c, w)
      else (c\<lparr>ch_nodes := nullptr, ch_count := 0\<rparr>,
            if owns_memory then op_delete (ch_nodes c) (ch_alloc_align c) w else w))"

text \<open>The move constructor: the new chunk and what is left of the old one.\<close>

definition chunk_move :: "ty \<Rightarrow> chunk \<Rightarrow> chunk \<times> chunk" where
  "chunk_move t other = (other, chunk_empty t)"

text \<open>
  Move assignment of \<open>other\<close> to \<open>self\<close> (two different objects): the old nodes of \<open>self\<close> are
  released first.
\<close>

definition chunk_move_assign :: "bool \<Rightarrow> ty \<Rightarrow> chunk \<Rightarrow> chunk \<Rightarrow> world \<Rightarrow> chunk \<times> chunk \<times> world" where
  "chunk_move_assign owns_memory t self other w =
     (case chunk_release owns_memory self w of (_, w') \<Rightarrow> (other, chunk_empty t, w'))"

definition chunk_at :: "bool \<Rightarrow> ty \<Rightarrow> chunk \<Rightarrow> u64 \<Rightarrow> ptr" where
  "chunk_at OwnerHeaders t c i =
     (if OwnerHeaders
      then let granule = ch_alloc_align c;
               per_granule = nodes_per_granule t granule
           in ch_nodes c + (i div per_granule * granule) + header_offset t +
              (i mod per_granule * sizeof_node t)
      else ch_nodes c + i * sizeof_node t)"

definition chunk_contains :: "bool \<Rightarrow> ty \<Rightarrow> chunk \<Rightarrow> ptr \<Rightarrow> bool" where
  "chunk_contains OwnerHeaders t c target =
     (if ch_nodes c = nullptr then False
      else if OwnerHeaders
      then let granule = ch_alloc_align c;
               per_granule = nodes_per_granule t granule;
               total_bytes = granule_count t c * granule
           in if target < ch_nodes c \<or> target \<ge> ch_nodes c + total_bytes then False
              else let delta = target - ch_nodes c;
                       offset = delta mod granule
                   in if offset < header_offset t \<or> (offset - header_offset t) mod sizeof_node t \<noteq> 0 then False
                      else let idx = (offset - header_offset t) div sizeof_node t
                           in if idx \<ge> per_granule then False
                              else (delta div granule) * per_granule + idx < ch_count c
      else target \<ge> ch_nodes c \<and> target < ch_nodes c + ch_count c * sizeof_node t)"

definition stamp_owner :: "ty \<Rightarrow> chunk \<Rightarrow> ptr \<Rightarrow> memory \<Rightarrow> memory" where
  "stamp_owner t c owner m =
     (if ch_nodes c = nullptr then m
      else foldl (\<lambda>m g. m(ch_nodes c + (adr g * ch_alloc_align c) := owner)) m
             [0..<unat (granule_count t c)])"

text \<open>The header that masking a node address reaches (\<open>_free_node_routed\<close> does this).\<close>

definition granule_of :: "u64 \<Rightarrow> ptr \<Rightarrow> ptr" where
  "granule_of granule p = p AND NOT (granule - 1)"

section \<open>The layout in numbers\<close>

definition layout_ok :: "ty \<Rightarrow> bool" where
  "layout_ok t \<longleftrightarrow> ty_ok t \<and> unat (sizeof t) < 2 ^ 48 \<and> unat (alignof t) \<le> 2 ^ 32"

lemma has_single_bit_8: "has_single_bit 8"
  unfolding has_single_bit_iff by (rule exI[of _ 3]) simp

lemma node_alignment_single: "layout_ok t \<Longrightarrow> has_single_bit (node_alignment t)"
  unfolding node_alignment_def sizeof_ptr_def
  by (intro has_single_bit_max has_single_bit_8) (simp add: layout_ok_def ty_ok_def)

lemma unat_node_alignment: "unat (node_alignment t) = max (unat (alignof t)) 8"
  by (simp add: node_alignment_def sizeof_ptr_def unat_max)

lemma round_to_multiple_nat:
  assumes "0 < unat m" "unat v + unat m < 2 ^ 64"
  shows "unat (round_to_multiple_of v m) = nat_round_up (unat v) (unat m)"
proof -
  have "m \<noteq> 0" using assms(1) by (auto simp: unat_gt_0)
  moreover have "checked_round_to_multiple_of v m = Some (round_to_multiple_of v m)"
  proof -
    have le: "v mod m \<le> m"
      using assms(1) by (simp add: word_le_nat_alt unat_mod)
    have "unat v + unat (m - v mod m) < 2 ^ 64"
      using assms unat_minus_le[OF le] by simp
    then show ?thesis
      using \<open>m \<noteq> 0\<close> by (simp add: checked_round_to_multiple_of_def round_to_multiple_of_def
          checked_add_eq Let_def)
  qed
  ultimately show ?thesis by (rule_tac checked_round_SomeD(1))
qed

lemma sizeof_node_props:
  assumes "layout_ok t"
  shows "unat (node_alignment t) dvd unat (sizeof_node t)" and "8 \<le> unat (sizeof_node t)"
    and "unat (sizeof t) \<le> unat (sizeof_node t)" and "unat (sizeof_node t) < 2 ^ 49"
    and "8 dvd unat (sizeof_node t)" and "8 dvd unat (node_alignment t)"
proof -
  let ?n = "unat (node_size t)" and ?a = "unat (node_alignment t)"
  have n: "?n = max (unat (sizeof t)) 8" by (simp add: node_size_def sizeof_ptr_def unat_max)
  have bounds: "?n < 2 ^ 48" "?a \<le> 2 ^ 32" "8 \<le> ?a" "8 \<le> ?n"
    using assms by (simp_all add: n unat_node_alignment layout_ok_def)
  have eq: "unat (sizeof_node t) = nat_round_up ?n ?a"
    unfolding sizeof_node_def by (rule round_to_multiple_nat) (use bounds in simp_all)
  have a0: "0 < ?a" using bounds by simp
  note r = nat_round_up_props[OF a0, of ?n]
  show "?a dvd unat (sizeof_node t)" "8 \<le> unat (sizeof_node t)"
    "unat (sizeof t) \<le> unat (sizeof_node t)" "unat (sizeof_node t) < 2 ^ 49"
    using r bounds n by (simp_all add: eq)
  show d8: "8 dvd ?a"
    using single_bit_dvd[OF has_single_bit_8 node_alignment_single[OF assms]] bounds
    by (simp add: word_le_nat_alt)
  then show "8 dvd unat (sizeof_node t)"
    using r(1) by (auto simp: eq intro: dvd_trans)
qed

lemma header_offset_props:
  assumes "layout_ok t"
  shows "16 \<le> unat (header_offset t)" and "unat (node_alignment t) dvd unat (header_offset t)"
    and "unat (header_offset t) \<le> 2 ^ 32" and "8 dvd unat (header_offset t)"
proof -
  have h: "unat (header_offset t) = max 16 (unat (node_alignment t))"
    by (simp add: header_offset_def sizeof_granule_header_def unat_max)
  then show "16 \<le> unat (header_offset t)" by simp
  have "unat (node_alignment t) \<le> 2 ^ 32"
    using assms by (simp add: unat_node_alignment layout_ok_def)
  then show "unat (header_offset t) \<le> 2 ^ 32" using h by simp
  show dv: "unat (node_alignment t) dvd unat (header_offset t)"
  proof (cases "node_alignment t \<le> 16")
    case True
    then have "unat (node_alignment t) \<le> 16" by (simp add: word_le_nat_alt)
    then show ?thesis
      using single_bit_dvd[OF node_alignment_single[OF assms] has_single_bit_16 True] h by (simp add: max_def)
  next
    case False
    then show ?thesis using h by (simp add: word_le_nat_alt max_def)
  qed
  show "8 dvd unat (header_offset t)"
    using dv sizeof_node_props(6)[OF assms] by (rule dvd_trans[rotated])
qed

lemma bit_ceil_props:
  assumes "unat x \<le> 2 ^ 63"
  shows "x \<le> bit_ceil x" and "has_single_bit (bit_ceil x)"
proof -
  have "63 \<in> set (filter (\<lambda>k. x \<le> 2 ^ k) [0..<64])"
    using assms by (simp add: word_le_nat_alt)
  then obtain k ks where f: "filter (\<lambda>k. x \<le> 2 ^ k) [0..<64] = k # ks"
    by (cases "filter (\<lambda>k. x \<le> 2 ^ k) [0..<64]") auto
  then have "k \<in> set (filter (\<lambda>k. x \<le> 2 ^ k) [0..<64])" by simp
  then have k: "k < 64" "x \<le> 2 ^ k" by auto
  then show "x \<le> bit_ceil x" "has_single_bit (bit_ceil x)"
    using f by (auto simp: bit_ceil_def has_single_bit_iff)
qed

lemma granule_for_props:
  assumes "layout_ok t" "has_single_bit page"
  shows "has_single_bit (granule_for t page)"
    and "unat (sizeof_node t) + unat (header_offset t) \<le> unat (granule_for t page)"
proof -
  have s: "unat (sizeof_node t + header_offset t) = unat (sizeof_node t) + unat (header_offset t)"
    using sizeof_node_props(4)[OF assms(1)] header_offset_props(3)[OF assms(1)]
    by (intro unat_plus_le) simp
  have "unat (sizeof_node t + header_offset t) \<le> 2 ^ 63"
    using sizeof_node_props(4)[OF assms(1)] header_offset_props(3)[OF assms(1)] s by simp
  note b = bit_ceil_props[OF this]
  show "has_single_bit (granule_for t page)"
    unfolding granule_for_def using assms(2) b(2) by (rule has_single_bit_max)
  show "unat (sizeof_node t) + unat (header_offset t) \<le> unat (granule_for t page)"
    using b(1) s by (simp add: granule_for_def word_le_nat_alt unat_max)
qed

end
