(* ===== verification/Chunk_Slots.thy ===== *)
theory Chunk_Slots
  imports Chunk
begin

text \<open>
  Where the nodes of a chunk lie.  \<open>slot_nat\<close> is the address of slot number \<open>i\<close> as a natural
  number; everything the pool needs of the chunk layout is stated about it.
\<close>

section \<open>Numbers of a chunk\<close>

definition per_granule_nat :: "ty \<Rightarrow> chunk \<Rightarrow> nat" where
  "per_granule_nat t c = (unat (ch_alloc_align c) - unat (header_offset t)) div unat (sizeof_node t)"

definition granules_nat :: "ty \<Rightarrow> chunk \<Rightarrow> nat" where
  "granules_nat t c = (unat (ch_count c) + per_granule_nat t c - 1) div per_granule_nat t c"

definition chunk_span :: "bool \<Rightarrow> ty \<Rightarrow> chunk \<Rightarrow> nat" where
  "chunk_span h t c =
     (if h then granules_nat t c * unat (ch_alloc_align c) else unat (ch_count c) * unat (sizeof_node t))"

definition chunk_ok :: "bool \<Rightarrow> ty \<Rightarrow> chunk \<Rightarrow> bool" where
  "chunk_ok h t c \<longleftrightarrow>
     layout_ok t \<and> ch_nodes c \<noteq> nullptr \<and> unat (ch_nodes c) + chunk_span h t c < 2 ^ 64 \<and>
     (if h then has_single_bit (ch_alloc_align c) \<and> unat (ch_alloc_align c) dvd unat (ch_nodes c) \<and>
                unat (sizeof_node t) + unat (header_offset t) \<le> unat (ch_alloc_align c) \<and>
                unat (ch_count c) + per_granule_nat t c \<le> 2 ^ 64
      else unat (node_alignment t) dvd unat (ch_nodes c))"

definition slot_nat :: "bool \<Rightarrow> ty \<Rightarrow> chunk \<Rightarrow> nat \<Rightarrow> nat" where
  "slot_nat h t c i =
     (if h
      then unat (ch_nodes c) + (i div per_granule_nat t c) * unat (ch_alloc_align c) +
           unat (header_offset t) + (i mod per_granule_nat t c) * unat (sizeof_node t)
      else unat (ch_nodes c) + i * unat (sizeof_node t))"

definition granule_base :: "chunk \<Rightarrow> nat \<Rightarrow> nat" where
  "granule_base c g = unat (ch_nodes c) + g * unat (ch_alloc_align c)"

lemma adr_div: "a < 2 ^ 64 \<Longrightarrow> b < 2 ^ 64 \<Longrightarrow> adr a div adr b = adr (a div b)"
  using le_less_trans[OF div_le_dividend[of a b]]
  by (simp add: word_unat_eq_iff unat_div unat_adr)

lemma adr_mod: "a < 2 ^ 64 \<Longrightarrow> b < 2 ^ 64 \<Longrightarrow> adr a mod adr b = adr (a mod b)"
  using le_less_trans[OF mod_less_eq_dividend[of a b]]
  by (simp add: word_unat_eq_iff unat_mod unat_adr)

lemma per_granule_word:
  assumes "chunk_ok True t c"
  shows "nodes_per_granule t (ch_alloc_align c) = adr (per_granule_nat t c)"
    and "0 < per_granule_nat t c" and "per_granule_nat t c < 2 ^ 64"
    and "per_granule_nat t c * unat (sizeof_node t) + unat (header_offset t) \<le> unat (ch_alloc_align c)"
proof -
  let ?G = "unat (ch_alloc_align c)" and ?H = "unat (header_offset t)" and ?S = "unat (sizeof_node t)"
  have fits: "?S + ?H \<le> ?G" and l: "layout_ok t" using assms by (simp_all add: chunk_ok_def)
  have s: "8 \<le> ?S" using sizeof_node_props(2)[OF l] .
  have "unat (ch_alloc_align c - header_offset t) = ?G - ?H"
    using fits by (intro unat_minus_le) (simp add: word_le_nat_alt)
  then have u: "unat (nodes_per_granule t (ch_alloc_align c)) = per_granule_nat t c"
    by (simp add: nodes_per_granule_def per_granule_nat_def unat_div)
  then show "nodes_per_granule t (ch_alloc_align c) = adr (per_granule_nat t c)"
    by (metis adr_unat)
  show "per_granule_nat t c < 2 ^ 64"
    unfolding u[symmetric] by (rule unat_lt_64)
  show "0 < per_granule_nat t c"
    using fits s by (simp add: per_granule_nat_def div_greater_zero_iff)
  have "per_granule_nat t c * ?S \<le> ?G - ?H"
    unfolding per_granule_nat_def by (rule div_times_less_eq_dividend)
  then show "per_granule_nat t c * ?S + ?H \<le> ?G" using fits by linarith
qed

lemma granules_nat_eq:
  assumes "chunk_ok True t c"
  shows "unat (granule_count t c) = granules_nat t c"
    and "i < unat (ch_count c) \<Longrightarrow> i div per_granule_nat t c < granules_nat t c"
    and "g < granules_nat t c \<Longrightarrow> g * per_granule_nat t c < unat (ch_count c)"
proof -
  let ?P = "per_granule_nat t c" and ?n = "unat (ch_count c)"
  note p = per_granule_word[OF assms]
  have lim: "?n + ?P \<le> 2 ^ 64" using assms by (simp add: chunk_ok_def)
  have "ch_count c + adr ?P - 1 = adr (?n + ?P - 1)"
    using p(2) adr_minus[of 1 "?n + ?P"] by (simp add: adr_simps flip: adr_numeral) (simp add: adr_def)
  then show "unat (granule_count t c) = granules_nat t c"
    using p lim by (simp add: granule_count_def granules_nat_def unat_div unat_adr)
  show "i div ?P < granules_nat t c" if "i < ?n" for i
  proof -
    have "i + ?P \<le> ?n + ?P - 1" using that by simp
    then have "(i + ?P) div ?P \<le> granules_nat t c"
      unfolding granules_nat_def by (rule div_le_mono)
    moreover have "(i + ?P) div ?P = i div ?P + 1" using div_add_self2[of ?P i] p(2) by simp
    ultimately show ?thesis by linarith
  qed
  show "g * ?P < ?n" if "g < granules_nat t c" for g
  proof -
    have "(g + 1) * ?P \<le> granules_nat t c * ?P" using that by (intro mult_le_mono1) simp
    also have "\<dots> \<le> ?n + ?P - 1" unfolding granules_nat_def by (rule div_times_less_eq_dividend)
    finally show ?thesis using p(2) by simp
  qed
qed

section \<open>Slots\<close>

lemma chunk_at_slot:
  assumes "chunk_ok h t c" "i < unat (ch_count c)"
  shows "chunk_at h t c (adr i) = adr (slot_nat h t c i)"
proof (cases h)
  case True
  have ok: "chunk_ok True t c" using assms(1) True by simp
  note p = per_granule_word[OF ok]
  have i: "i < 2 ^ 64" using assms(2) unat_lt_64[of "ch_count c"] by linarith
  show ?thesis
    using True p i
    by (simp add: chunk_at_def slot_nat_def Let_def adr_div adr_mod adr_plus[symmetric] adr_times[symmetric])
next
  case False
  then show ?thesis
    by (simp add: chunk_at_def slot_nat_def adr_plus[symmetric] adr_times[symmetric])
qed

lemma slot_mono:
  assumes "chunk_ok h t c" "i < j"
  shows "slot_nat h t c i + unat (sizeof_node t) \<le> slot_nat h t c j"
proof (cases h)
  case False
  have "(i + 1) * unat (sizeof_node t) \<le> j * unat (sizeof_node t)"
    using assms(2) by (intro mult_le_mono1) simp
  then show ?thesis using False by (simp add: slot_nat_def)
next
  case True
  let ?P = "per_granule_nat t c" and ?S = "unat (sizeof_node t)" and ?G = "unat (ch_alloc_align c)"
  have ok: "chunk_ok True t c" using assms(1) True by simp
  note p = per_granule_word[OF ok]
  have le: "i div ?P \<le> j div ?P" using assms(2) by (intro div_le_mono) simp
  show ?thesis
  proof (cases "i div ?P = j div ?P")
    case eq: True
    have "i mod ?P < j mod ?P"
      using assms(2) eq div_mult_mod_eq[of i ?P] div_mult_mod_eq[of j ?P] by (metis add_less_cancel_left)
    then have "(i mod ?P + 1) * ?S \<le> (j mod ?P) * ?S" by (intro mult_le_mono1) simp
    then show ?thesis using True eq by (simp add: slot_nat_def)
  next
    case neq: False
    have "(i mod ?P + 1) * ?S \<le> ?P * ?S"
      using mod_less_divisor[OF p(2), of i] by (intro mult_le_mono1) simp
    moreover have "(i div ?P + 1) * ?G \<le> (j div ?P) * ?G"
      using le neq by (intro mult_le_mono1) simp
    ultimately show ?thesis
      using True p(4) by (simp add: slot_nat_def)
  qed
qed

lemma slot_bounds:
  assumes "chunk_ok h t c" "i < unat (ch_count c)"
  shows "unat (ch_nodes c) \<le> slot_nat h t c i"
    and "slot_nat h t c i + unat (sizeof_node t) \<le> unat (ch_nodes c) + chunk_span h t c"
    and "slot_nat h t c i < 2 ^ 64" and "0 < slot_nat h t c i"
proof -
  let ?P = "per_granule_nat t c" and ?S = "unat (sizeof_node t)" and ?G = "unat (ch_alloc_align c)"
  show lo: "unat (ch_nodes c) \<le> slot_nat h t c i" by (simp add: slot_nat_def)
  show hi: "slot_nat h t c i + ?S \<le> unat (ch_nodes c) + chunk_span h t c"
  proof (cases h)
    case False
    have "(i + 1) * ?S \<le> unat (ch_count c) * ?S" using assms(2) by (intro mult_le_mono1) simp
    then show ?thesis using False by (simp add: slot_nat_def chunk_span_def)
  next
    case True
    have ok: "chunk_ok True t c" using assms(1) True by simp
    note p = per_granule_word[OF ok]
    have "(i mod ?P + 1) * ?S \<le> ?P * ?S"
      using mod_less_divisor[OF p(2), of i] by (intro mult_le_mono1) simp
    moreover have "(i div ?P + 1) * ?G \<le> granules_nat t c * ?G"
      using granules_nat_eq(2)[OF ok assms(2)] by (intro mult_le_mono1) simp
    ultimately show ?thesis
      using True p(4) by (simp add: slot_nat_def chunk_span_def)
  qed
  have nz: "ch_nodes c \<noteq> 0" and sp: "unat (ch_nodes c) + chunk_span h t c < 2 ^ 64"
    using assms(1) by (simp_all add: chunk_ok_def)
  show "slot_nat h t c i < 2 ^ 64" using hi sp by linarith
  show "0 < slot_nat h t c i" using lo nz by (auto simp: word_unat_eq_iff)
qed

lemma slot_aligned:
  assumes "chunk_ok h t c"
  shows "unat (node_alignment t) dvd slot_nat h t c i" and "8 dvd slot_nat h t c i"
proof -
  have l: "layout_ok t" using assms by (simp add: chunk_ok_def)
  have "unat (node_alignment t) dvd unat (ch_alloc_align c)" if h
  proof -
    have ok: "has_single_bit (ch_alloc_align c)"
      "unat (sizeof_node t) + unat (header_offset t) \<le> unat (ch_alloc_align c)"
      using assms that by (simp_all add: chunk_ok_def)
    have "unat (node_alignment t) \<le> unat (header_offset t)"
      by (simp add: header_offset_def unat_max)
    then have "node_alignment t \<le> ch_alloc_align c"
      using ok(2) by (simp add: word_le_nat_alt)
    then show ?thesis using single_bit_dvd[OF node_alignment_single[OF l] ok(1)] by simp
  qed
  then have "unat (node_alignment t) dvd unat (ch_nodes c)"
    using assms by (auto simp: chunk_ok_def split: if_splits intro: dvd_trans)
  then show d: "unat (node_alignment t) dvd slot_nat h t c i"
    using \<open>h \<Longrightarrow> unat (node_alignment t) dvd unat (ch_alloc_align c)\<close>
      header_offset_props(2)[OF l] sizeof_node_props(1)[OF l]
    by (auto simp: slot_nat_def)
  then show "8 dvd slot_nat h t c i"
    using sizeof_node_props(6)[OF l] by (rule dvd_trans[rotated])
qed

lemma slot_inj:
  assumes "chunk_ok h t c" "slot_nat h t c i = slot_nat h t c j"
  shows "i = j"
proof -
  have "8 \<le> unat (sizeof_node t)"
    using assms(1) sizeof_node_props(2) by (simp add: chunk_ok_def)
  then show ?thesis
    using slot_mono[OF assms(1), of i j] slot_mono[OF assms(1), of j i] assms(2)
    by (cases i j rule: linorder_cases) simp_all
qed

section \<open>Granule headers\<close>

lemma slot_in_granule:
  assumes "chunk_ok True t c"
  shows "granule_base c (i div per_granule_nat t c) + 16 \<le> slot_nat True t c i"
    and "slot_nat True t c i + unat (sizeof_node t) \<le> granule_base c (i div per_granule_nat t c + 1)"
    and "slot_nat True t c i < granule_base c (i div per_granule_nat t c + 1)"
proof -
  let ?P = "per_granule_nat t c" and ?S = "unat (sizeof_node t)"
  have l: "layout_ok t" using assms by (simp add: chunk_ok_def)
  note p = per_granule_word[OF assms]
  have "(i mod ?P + 1) * ?S \<le> ?P * ?S"
    using mod_less_divisor[OF p(2), of i] by (intro mult_le_mono1) simp
  then show hi: "slot_nat True t c i + ?S \<le> granule_base c (i div ?P + 1)"
    using p(4) by (simp add: slot_nat_def granule_base_def)
  show "granule_base c (i div ?P) + 16 \<le> slot_nat True t c i"
    using header_offset_props(1)[OF l] by (simp add: slot_nat_def granule_base_def)
  show "slot_nat True t c i < granule_base c (i div ?P + 1)"
    using hi sizeof_node_props(2)[OF l] by simp
qed

lemma slot_off_headers:
  assumes "chunk_ok True t c"
  shows "granule_base c g + 16 \<le> slot_nat True t c i \<or>
         slot_nat True t c i + unat (sizeof_node t) \<le> granule_base c g"
proof (cases "g \<le> i div per_granule_nat t c")
  case True
  then have "granule_base c g \<le> granule_base c (i div per_granule_nat t c)"
    by (simp add: granule_base_def)
  then show ?thesis using slot_in_granule(1)[OF assms, of i] by linarith
next
  case False
  then have "(i div per_granule_nat t c + 1) * unat (ch_alloc_align c) \<le> g * unat (ch_alloc_align c)"
    by (intro mult_le_mono1) simp
  then show ?thesis using slot_in_granule(2)[OF assms, of i] by (simp add: granule_base_def)
qed

lemma granule_of_slot:
  assumes "chunk_ok True t c" "i < unat (ch_count c)"
  shows "granule_of (ch_alloc_align c) (adr (slot_nat True t c i)) =
         adr (granule_base c (i div per_granule_nat t c))"
proof -
  let ?G = "unat (ch_alloc_align c)" and ?g = "i div per_granule_nat t c"
  have sb: "has_single_bit (ch_alloc_align c)" and dv: "?G dvd unat (ch_nodes c)"
    using assms(1) by (simp_all add: chunk_ok_def)
  obtain k where k: "k < 64" "ch_alloc_align c = 2 ^ k" "?G = 2 ^ k"
    using sb by (rule has_single_bitE)
  have lt: "slot_nat True t c i < 2 ^ 64" using slot_bounds(3)[OF assms] .
  have in_g: "granule_base c ?g \<le> slot_nat True t c i" "slot_nat True t c i < granule_base c ?g + ?G"
    using slot_in_granule(1,3)[OF assms(1), of i] by (simp_all add: granule_base_def)
  have "?G dvd granule_base c ?g" using dv by (simp add: granule_base_def)
  then obtain q where q: "granule_base c ?g = ?G * q" by (auto elim: dvdE)
  define d where "d = slot_nat True t c i - granule_base c ?g"
  have "slot_nat True t c i = ?G * q + d" "d < ?G"
    using in_g q by (simp_all add: d_def)
  then have "slot_nat True t c i mod ?G = d" by simp
  then have "slot_nat True t c i mod ?G = slot_nat True t c i - granule_base c ?g"
    by (simp add: d_def)
  then have "unat (granule_of (ch_alloc_align c) (adr (slot_nat True t c i))) = granule_base c ?g"
    using k in_g lt by (simp add: granule_of_def unat_adr unat_clear_low flip: mask_eq_exp_minus_1)
  then show ?thesis by (metis adr_unat)
qed

text \<open>
  \<open>contains\<close> recognises the slots: exactly, in the headered layout; in the raw layout it is the
  range check of the code.
\<close>

lemma chunk_contains_raw:
  assumes "chunk_ok False t c" "p < 2 ^ 64"
  shows "chunk_contains False t c (adr p) \<longleftrightarrow>
    unat (ch_nodes c) \<le> p \<and> p < unat (ch_nodes c) + unat (ch_count c) * unat (sizeof_node t)"
proof -
  have sp: "unat (ch_nodes c) + unat (ch_count c) * unat (sizeof_node t) < 2 ^ 64" and nz: "ch_nodes c \<noteq> 0"
    using assms(1) by (simp_all add: chunk_ok_def chunk_span_def)
  then have "unat (ch_nodes c + ch_count c * sizeof_node t) =
      unat (ch_nodes c) + unat (ch_count c) * unat (sizeof_node t)"
    by (simp add: unat_plus_le unat_times_le)
  then show ?thesis
    using assms(2) nz by (simp add: chunk_contains_def word_le_nat_alt word_less_nat_alt unat_adr)
qed

lemma slot_contained_raw:
  assumes "chunk_ok False t c" "i < unat (ch_count c)"
  shows "chunk_contains False t c (adr (slot_nat False t c i))"
proof -
  have "8 \<le> unat (sizeof_node t)"
    using assms(1) sizeof_node_props(2) by (simp add: chunk_ok_def)
  then show ?thesis
    using slot_bounds[OF assms] chunk_contains_raw[OF assms(1) slot_bounds(3)[OF assms]]
    by (simp add: chunk_span_def)
qed

lemma contains_headered_nat:
  assumes ok: "chunk_ok True t c" and p: "p < 2 ^ 64"
  defines "G \<equiv> unat (ch_alloc_align c)" and "P \<equiv> per_granule_nat t c" and "H \<equiv> unat (header_offset t)"
    and "S \<equiv> unat (sizeof_node t)" and "d \<equiv> p - unat (ch_nodes c)"
  shows "chunk_contains True t c (adr p) \<longleftrightarrow>
    unat (ch_nodes c) \<le> p \<and> p < unat (ch_nodes c) + granules_nat t c * G \<and>
    H \<le> d mod G \<and> (d mod G - H) mod S = 0 \<and> (d mod G - H) div S < P \<and>
    d div G * P + (d mod G - H) div S < unat (ch_count c)"
proof -
  note pg = per_granule_word[OF ok] and gc = granules_nat_eq[OF ok]
  have sp: "unat (ch_nodes c) + granules_nat t c * G < 2 ^ 64" and nz: "ch_nodes c \<noteq> 0"
    and lim: "unat (ch_count c) + P \<le> 2 ^ 64"
    using ok by (simp_all add: chunk_ok_def chunk_span_def G_def P_def)
  have total: "unat (ch_nodes c + granule_count t c * ch_alloc_align c) = unat (ch_nodes c) + granules_nat t c * G"
    using sp gc(1) by (simp add: unat_plus_le unat_times_le G_def)
  show ?thesis
  proof (cases "unat (ch_nodes c) \<le> p \<and> p < unat (ch_nodes c) + granules_nat t c * G")
    case False
    then show ?thesis
      using p total nz by (auto simp: chunk_contains_def Let_def word_le_nat_alt word_less_nat_alt unat_adr)
  next
    case True
    have "adr p - ch_nodes c = adr d"
      using True adr_minus[of "unat (ch_nodes c)" p] by (simp add: d_def)
    moreover have d: "d < 2 ^ 64" using p by (simp add: d_def)
    ultimately have off: "(adr p - ch_nodes c) mod ch_alloc_align c = adr (d mod G)"
      and q: "(adr p - ch_nodes c) div ch_alloc_align c = adr (d div G)"
      using adr_mod[OF d, of G] adr_div[OF d, of G] unat_lt_64[of "ch_alloc_align c"] by (simp_all add: G_def)
    have om: "d mod G < 2 ^ 64" "d div G < 2 ^ 64"
      using d le_less_trans[OF mod_less_eq_dividend d] le_less_trans[OF div_le_dividend d] by simp_all
    have "d < granules_nat t c * G" using True unfolding d_def by linarith
    then have "d div G < granules_nat t c"
      by (cases "G = 0") (simp_all add: div_less_iff_less_mult)
    then have qP: "d div G * P < unat (ch_count c)" using gc(3) by (simp add: P_def)
    show ?thesis
    proof (cases "H \<le> d mod G")
      case False
      then show ?thesis
        using True total nz p om off
        by (simp add: chunk_contains_def Let_def word_le_nat_alt word_less_nat_alt unat_adr H_def)
    next
      case hle: True
      have sub: "adr (d mod G) - header_offset t = adr (d mod G - H)"
        using hle adr_minus[of H "d mod G"] by (simp add: H_def)
      have o2: "d mod G - H < 2 ^ 64" using om by linarith
      have modS: "(adr (d mod G) - header_offset t) mod sizeof_node t = adr ((d mod G - H) mod S)"
        and divS: "(adr (d mod G) - header_offset t) div sizeof_node t = adr ((d mod G - H) div S)"
        using adr_mod[OF o2, of S] adr_div[OF o2, of S] unat_lt_64[of "sizeof_node t"]
        unfolding sub by (simp_all add: S_def)
      have o3: "(d mod G - H) mod S < 2 ^ 64" "(d mod G - H) div S < 2 ^ 64"
        using le_less_trans[OF mod_less_eq_dividend o2] le_less_trans[OF div_le_dividend o2] by simp_all
      have idx: "adr (d div G) * adr P + adr ((d mod G - H) div S) < ch_count c \<longleftrightarrow>
          d div G * P + (d mod G - H) div S < unat (ch_count c)" if "(d mod G - H) div S < P"
        using that qP lim by (simp add: adr_simps word_less_nat_alt)
      have h1: "\<not> adr (d mod G) < header_offset t"
        using hle om by (simp add: word_less_nat_alt unat_adr H_def)
      have h2: "adr ((d mod G - H) mod S) = 0 \<longleftrightarrow> (d mod G - H) mod S = 0"
        using o3 by (simp add: adr_eq_0_iff)
      have h3: "adr P \<le> adr ((d mod G - H) div S) \<longleftrightarrow> \<not> (d mod G - H) div S < P"
        using o3 pg(3) by (simp add: adr_le_iff P_def not_less)
      have h4: "\<not> adr p < ch_nodes c" "\<not> ch_nodes c + granule_count t c * ch_alloc_align c \<le> adr p"
        using True total p by (simp_all add: word_le_nat_alt word_less_nat_alt unat_adr)
      show ?thesis
        using True hle nz h4 h1 h2 h3 idx
        by (auto simp: chunk_contains_def Let_def off q modS divS pg(1) P_def[symmetric])
    qed
  qed
qed

lemma chunk_contains_headered:
  assumes ok: "chunk_ok True t c" and p: "p < 2 ^ 64"
  shows "chunk_contains True t c (adr p) \<longleftrightarrow> (\<exists>i < unat (ch_count c). p = slot_nat True t c i)"
proof -
  define G P H S where "G = unat (ch_alloc_align c)" and "P = per_granule_nat t c"
    and "H = unat (header_offset t)" and "S = unat (sizeof_node t)"
  note defs = G_def P_def H_def S_def
  note pg = per_granule_word[OF ok] and gc = granules_nat_eq[OF ok]
  note iff = contains_headered_nat[OF ok p, folded defs]
  have l: "layout_ok t" using ok by (simp add: chunk_ok_def)
  have S: "8 \<le> S" using sizeof_node_props(2)[OF l] by (simp add: S_def)
  show ?thesis
  proof
    assume "chunk_contains True t c (adr p)"
    then have c: "unat (ch_nodes c) \<le> p" "H \<le> (p - unat (ch_nodes c)) mod G"
      "((p - unat (ch_nodes c)) mod G - H) mod S = 0" "((p - unat (ch_nodes c)) mod G - H) div S < P"
      "(p - unat (ch_nodes c)) div G * P + ((p - unat (ch_nodes c)) mod G - H) div S < unat (ch_count c)"
      using iff by simp_all
    define d where "d = p - unat (ch_nodes c)"
    define k where "k = (d mod G - H) div S"
    have k: "k < P" "d div G * P + k < unat (ch_count c)" "d mod G = H + k * S"
      using c S by (auto simp: k_def d_def minus_mod_eq_div_mult[symmetric])
    have "p = unat (ch_nodes c) + d div G * G + (H + k * S)"
      using c(1) div_mult_mod_eq[of d G] unfolding k(3)[symmetric] d_def by linarith
    then have "p = slot_nat True t c (d div G * P + k)"
      using k(1) by (simp add: slot_nat_def defs)
    then show "\<exists>i < unat (ch_count c). p = slot_nat True t c i" using k(2) by blast
  next
    assume "\<exists>i < unat (ch_count c). p = slot_nat True t c i"
    then obtain i where i: "i < unat (ch_count c)" "p = slot_nat True t c i" by blast
    have "(i mod P + 1) * S \<le> P * S"
      using mod_less_divisor[OF pg(2), of i] by (intro mult_le_mono1) (simp add: P_def)
    then have lt: "H + i mod P * S < G" using pg(4) S by (simp add: defs)
    have d: "p - unat (ch_nodes c) = i div P * G + (H + i mod P * S)"
      using i(2) by (simp add: slot_nat_def defs)
    have "(p - unat (ch_nodes c)) mod G = H + i mod P * S" "(p - unat (ch_nodes c)) div G = i div P"
      unfolding d using lt by (simp_all add: div_mult_self3)
    moreover have "i mod P < P" using pg(2) by (simp add: P_def)
    moreover have "i div P * P + i mod P = i" by (rule div_mult_mod_eq)
    ultimately show "chunk_contains True t c (adr p)"
      using iff i slot_bounds(1,2)[OF ok i(1)] S
      by (simp add: chunk_span_def G_def[symmetric] S_def[symmetric])
  qed
qed

section \<open>Writing the headers\<close>

lemma foldl_upd:
  "foldl (\<lambda>m g. m(f g := v)) m gs x = (if x \<in> f ` set gs then v else m x)"
  by (induction gs arbitrary: m) auto

lemma write_granule_header_at:
  "write_granule_header b owner m x = (if x = b + 8 then granule_debug_tag else if x = b then owner else m x)"
  by (simp add: write_granule_header_def)

lemma foldl_headers:
  assumes "\<And>g g'. g \<in> set gs \<Longrightarrow> g' \<in> set gs \<Longrightarrow> f g \<noteq> f g' + (8 :: u64)"
  shows "foldl (\<lambda>m g. write_granule_header (f g) owner m) m gs x =
    (if x \<in> f ` set gs then owner
     else if x \<in> (\<lambda>g. f g + 8) ` set gs then granule_debug_tag else m x)"
  using assms
proof (induction gs arbitrary: m)
  case Nil
  then show ?case by simp
next
  case (Cons g gs)
  have IH: "foldl (\<lambda>m g. write_granule_header (f g) owner m) (write_granule_header (f g) owner m) gs x =
    (if x \<in> f ` set gs then owner
     else if x \<in> (\<lambda>g. f g + 8) ` set gs then granule_debug_tag else write_granule_header (f g) owner m x)"
    using Cons.prems by (intro Cons.IH) simp
  have "f g \<noteq> f g' + 8" "f g' \<noteq> f g + 8" if "g' \<in> insert g (set gs)" for g'
    using Cons.prems that by simp_all
  then show ?case
    unfolding foldl.simps(2) IH write_granule_header_at[of "f g" owner m x] by auto
qed

lemma granule_base_word: "ch_nodes c + (adr g * ch_alloc_align c) = adr (granule_base c g)"
  by (simp add: granule_base_def adr_plus[symmetric] adr_times[symmetric])

lemma granule_base_bounds:
  assumes "chunk_ok True t c" "g < granules_nat t c"
  shows "unat (ch_nodes c) \<le> granule_base c g"
    and "granule_base c g + 16 \<le> unat (ch_nodes c) + chunk_span True t c"
    and "granule_base c g + 16 < 2 ^ 64"
proof -
  have l: "layout_ok t" and G: "unat (sizeof_node t) + unat (header_offset t) \<le> unat (ch_alloc_align c)"
    and sp: "unat (ch_nodes c) + chunk_span True t c < 2 ^ 64"
    using assms(1) by (simp_all add: chunk_ok_def)
  show "unat (ch_nodes c) \<le> granule_base c g" by (simp add: granule_base_def)
  have "(g + 1) * unat (ch_alloc_align c) \<le> granules_nat t c * unat (ch_alloc_align c)"
    using assms(2) by (intro mult_le_mono1) simp
  then show a: "granule_base c g + 16 \<le> unat (ch_nodes c) + chunk_span True t c"
    using G header_offset_props(1)[OF l] by (simp add: granule_base_def chunk_span_def)
  show "granule_base c g + 16 < 2 ^ 64" using a sp by linarith
qed

lemma granule_bases_apart:
  assumes "chunk_ok True t c" "g < granules_nat t c" "g' < granules_nat t c"
  shows "granule_base c g \<noteq> granule_base c g' + 8"
    and "granule_base c g = granule_base c g' \<longleftrightarrow> g = g'"
proof -
  have G: "16 \<le> unat (ch_alloc_align c)"
    using assms(1) header_offset_props(1)[of t] by (simp add: chunk_ok_def)
  have less: "a < b \<Longrightarrow> granule_base c a + 16 \<le> granule_base c b" for a b
    using G mult_le_mono1[of "a + 1" b "unat (ch_alloc_align c)"] by (simp add: granule_base_def)
  show "granule_base c g \<noteq> granule_base c g' + 8" "granule_base c g = granule_base c g' \<longleftrightarrow> g = g'"
    using less[of g g'] less[of g' g] by (cases g g' rule: linorder_cases; simp)+
qed

lemma tag_off_bases:
  assumes "chunk_ok True t c" "g < granules_nat t c"
  shows "adr (granule_base c g + 8) \<notin> (\<lambda>g. adr (granule_base c g)) ` {..<granules_nat t c}"
proof
  assume "adr (granule_base c g + 8) \<in> (\<lambda>g. adr (granule_base c g)) ` {..<granules_nat t c}"
  then obtain g' where g': "g' < granules_nat t c" "adr (granule_base c g + 8) = adr (granule_base c g')"
    by blast
  then have "granule_base c g + 8 = granule_base c g'"
    using granule_base_bounds(3)[OF assms] granule_base_bounds(3)[OF assms(1) g'(1)]
    by (simp add: adr_eq_iff)
  then show False using granule_bases_apart(1)[OF assms(1) g'(1) assms(2)] by simp
qed

definition headers_stamped :: "ty \<Rightarrow> chunk \<Rightarrow> ptr \<Rightarrow> memory \<Rightarrow> bool" where
  "headers_stamped t c owner m \<longleftrightarrow>
     (\<forall>g < granules_nat t c. m (adr (granule_base c g)) = owner \<and>
        m (adr (granule_base c g + 8)) = granule_debug_tag)"

lemma stamp_owner_eq:
  assumes "chunk_ok True t c"
  shows "stamp_owner t c owner m x =
    (if x \<in> (\<lambda>g. adr (granule_base c g)) ` {..<granules_nat t c} then owner else m x)"
  using assms granules_nat_eq(1)[OF assms]
  by (auto simp: stamp_owner_def chunk_ok_def foldl_upd granule_base_word atLeast0LessThan)

lemma init_headers_stamped:
  assumes "chunk_ok True t c"
  shows "headers_stamped t c nullptr
      (init_granule_headers (ch_nodes c) (ch_alloc_align c) (adr (granules_nat t c)) m)"
    and "x < 2 ^ 64 \<Longrightarrow> x < unat (ch_nodes c) \<or> unat (ch_nodes c) + chunk_span True t c \<le> x \<Longrightarrow>
      init_granule_headers (ch_nodes c) (ch_alloc_align c) (adr (granules_nat t c)) m (adr x) = m (adr x)"
proof -
  have n: "unat (adr (granules_nat t c)) = granules_nat t c"
    using granules_nat_eq(1)[OF assms] by (metis adr_unat)
  have b: "g < granules_nat t c \<Longrightarrow> granule_base c g + 16 < 2 ^ 64" for g
    by (rule granule_base_bounds[OF assms])
  have apart: "adr (granule_base c g) \<noteq> adr (granule_base c g') + 8"
    if "g \<in> set [0..<granules_nat t c]" "g' \<in> set [0..<granules_nat t c]" for g g'
    using tag_off_bases[OF assms, of g'] that
    by (metis (no_types, lifting) adr_plus_numeral atLeastLessThan_iff image_eqI lessThan_iff set_upt)
  have eq: "init_granule_headers (ch_nodes c) (ch_alloc_align c) (adr (granules_nat t c)) m y =
    (if y \<in> (\<lambda>g. adr (granule_base c g)) ` {..<granules_nat t c} then nullptr
     else if y \<in> (\<lambda>g. adr (granule_base c g + 8)) ` {..<granules_nat t c} then granule_debug_tag else m y)" for y
    unfolding init_granule_headers_def n granule_base_word
    by (subst foldl_headers[where f = "\<lambda>g. adr (granule_base c g)", OF apart])
      (simp_all add: adr_plus_numeral atLeast0LessThan)
  have "adr (granule_base c g + 8) \<notin> (\<lambda>g. adr (granule_base c g)) ` {..<granules_nat t c}"
    if "g < granules_nat t c" for g
    using tag_off_bases[OF assms that] .
  then show "headers_stamped t c nullptr
      (init_granule_headers (ch_nodes c) (ch_alloc_align c) (adr (granules_nat t c)) m)"
    unfolding headers_stamped_def eq by simp
  show "init_granule_headers (ch_nodes c) (ch_alloc_align c) (adr (granules_nat t c)) m (adr x) = m (adr x)"
    if x: "x < 2 ^ 64" "x < unat (ch_nodes c) \<or> unat (ch_nodes c) + chunk_span True t c \<le> x"
  proof -
    have "adr x \<noteq> adr (granule_base c g)" "adr x \<noteq> adr (granule_base c g + 8)"
      if "g < granules_nat t c" for g
      using granule_base_bounds[OF assms that] x by (auto simp: adr_simps)
    then show ?thesis by (auto simp: eq)
  qed
qed

lemma headers_stamped_stamp:
  assumes "chunk_ok True t c" "headers_stamped t c o' m"
  shows "headers_stamped t c owner (stamp_owner t c owner m)"
    and "x < 2 ^ 64 \<Longrightarrow> x < unat (ch_nodes c) \<or> unat (ch_nodes c) + chunk_span True t c \<le> x \<Longrightarrow>
      stamp_owner t c owner m (adr x) = m (adr x)"
proof -
  have b: "g < granules_nat t c \<Longrightarrow> granule_base c g + 16 < 2 ^ 64" for g
    by (rule granule_base_bounds[OF assms(1)])
  show "headers_stamped t c owner (stamp_owner t c owner m)"
    using assms(2) tag_off_bases[OF assms(1)]
    unfolding headers_stamped_def stamp_owner_eq[OF assms(1)] by simp
  show "stamp_owner t c owner m (adr x) = m (adr x)"
    if x: "x < 2 ^ 64" "x < unat (ch_nodes c) \<or> unat (ch_nodes c) + chunk_span True t c \<le> x"
  proof -
    have "adr x \<noteq> adr (granule_base c g)" if "g < granules_nat t c" for g
      using granule_base_bounds[OF assms(1) that] x by (auto simp: adr_simps)
    then show ?thesis by (auto simp: stamp_owner_eq[OF assms(1)])
  qed
qed

section \<open>Construction\<close>

lemma chunk_new_headered_ok:
  assumes ok: "chunk_new_headered sys t sz page w = (Inr c, w')"
    and "sys_honest sys w" "layout_ok t" "has_single_bit page"
  shows "chunk_ok True t c" and "ch_count c = sz" and "ch_alloc_align c = granule_for t page"
    and "\<exists>r. live w' = r # live w \<and> fresh_region w r \<and> r_base r = ch_nodes c \<and>
          r_align r = ch_alloc_align c \<and> unat (r_bytes r) = chunk_span True t c"
    and "headers_stamped t c nullptr (cells w')"
    and "x < 2 ^ 64 \<Longrightarrow> x < unat (ch_nodes c) \<or> unat (ch_nodes c) + chunk_span True t c \<le> x \<Longrightarrow>
          cells w' (adr x) = cells w (adr x)"
proof -
  define G where "G = granule_for t page"
  define P where "P = nodes_per_granule t G"
  obtain padded bytes raw w1 where steps: "checked_add sz (P - 1) = Some padded"
    "checked_mul (padded div P) G = Some bytes" "op_new sys bytes G w = (raw, w1)" "raw \<noteq> 0"
    and c: "c = \<lparr>ch_count = sz, ch_alloc_align = G, ch_nodes = raw\<rparr>"
    and w': "w' = w1\<lparr>cells := init_granule_headers raw G (padded div P) (cells w1)\<rparr>"
    using ok by (auto simp: chunk_new_headered_def Let_def G_def P_def
        split: option.splits prod.splits if_splits)
  note g = granule_for_props[OF assms(3,4), folded G_def]
  have w1: "w1 = w\<lparr>calls := Suc (calls w), live := \<lparr>r_base = raw, r_bytes = bytes, r_align = G\<rparr> # live w\<rparr>"
    and raw: "raw = sys_new sys (calls w) bytes G"
    using steps(3,4) by (auto simp: op_new_def Let_def split: if_splits)
  have fresh: "fresh_region w \<lparr>r_base = raw, r_bytes = bytes, r_align = G\<rparr>"
    using assms(2) steps(4) g(1) raw by (simp add: sys_honest_def)
  have hs: "unat (header_offset t) \<le> unat G" "8 \<le> unat (sizeof_node t)"
    using g(2) sizeof_node_props(2)[OF assms(3)] by simp_all
  have Pn: "unat P = per_granule_nat t c" "0 < unat P"
  proof -
    have "unat (G - header_offset t) = unat G - unat (header_offset t)"
      using hs by (intro unat_minus_le) (simp add: word_le_nat_alt)
    then show "unat P = per_granule_nat t c"
      by (simp add: P_def nodes_per_granule_def per_granule_nat_def c unat_div)
    then show "0 < unat P"
      using g(2) hs by (simp add: per_granule_nat_def c div_greater_zero_iff)
  qed
  have P1: "unat (P - 1) = unat P - 1"
    using Pn(2) unat_minus_le[of 1 P] by (simp add: word_le_nat_alt)
  have pad: "unat padded = unat sz + unat P - 1" and lim: "unat sz + unat P - 1 < 2 ^ 64"
    using steps(1) P1 Pn(2) by (auto simp: checked_add_eq unat_plus_le split: if_splits)
  have gran: "unat (padded div P) = granules_nat t c"
    by (simp add: unat_div pad granules_nat_def Pn(1) c)
  then have gran': "padded div P = adr (granules_nat t c)" by (metis adr_unat)
  have bytes: "unat bytes = chunk_span True t c"
    using checked_mul_SomeD(2)[OF steps(2)] gran by (simp add: chunk_span_def c)
  show chok: "chunk_ok True t c"
    using fresh g lim Pn assms(3) bytes steps(4)
    by (auto simp: chunk_ok_def fresh_region_def region_ok_def region_end_def is_aligned_iff c)
  show "ch_count c = sz" "ch_alloc_align c = granule_for t page" by (simp_all add: c G_def)
  show "\<exists>r. live w' = r # live w \<and> fresh_region w r \<and> r_base r = ch_nodes c \<and>
          r_align r = ch_alloc_align c \<and> unat (r_bytes r) = chunk_span True t c"
    using fresh bytes by (intro exI[of _ "\<lparr>r_base = raw, r_bytes = bytes, r_align = G\<rparr>"])
      (simp add: w' w1 c)
  have cells: "cells w' = init_granule_headers (ch_nodes c) (ch_alloc_align c) (adr (granules_nat t c)) (cells w)"
    by (simp add: w' w1 c gran')
  show "headers_stamped t c nullptr (cells w')"
    unfolding cells by (rule init_headers_stamped(1)[OF chok])
  show "x < 2 ^ 64 \<Longrightarrow> x < unat (ch_nodes c) \<or> unat (ch_nodes c) + chunk_span True t c \<le> x \<Longrightarrow>
          cells w' (adr x) = cells w (adr x)"
    unfolding cells by (rule init_headers_stamped(2)[OF chok])
qed

lemma chunk_new_raw_ok:
  assumes ok: "chunk_new_raw sys t sz page al w = (Inr c, w')"
    and "sys_honest sys w" "layout_ok t" "has_single_bit al" "node_alignment t \<le> al"
  shows "chunk_ok False t c" and "ch_count c = sz" and "ch_alloc_align c = al"
    and "\<exists>r. live w' = r # live w \<and> fresh_region w r \<and> r_base r = ch_nodes c \<and>
          r_align r = ch_alloc_align c \<and> chunk_span False t c \<le> unat (r_bytes r)"
    and "cells w' = cells w"
proof -
  obtain nb bytes raw w1 where steps: "checked_mul sz (sizeof_node t) = Some nb"
    "checked_round_to_multiple_of nb page = Some bytes" "op_new sys bytes al w = (raw, w1)" "raw \<noteq> 0"
    and c: "c = \<lparr>ch_count = sz, ch_alloc_align = al, ch_nodes = raw\<rparr>" and w': "w' = w1"
    using ok by (auto simp: chunk_new_raw_def split: option.splits prod.splits if_splits)
  have w1: "w1 = w\<lparr>calls := Suc (calls w), live := \<lparr>r_base = raw, r_bytes = bytes, r_align = al\<rparr> # live w\<rparr>"
    and raw: "raw = sys_new sys (calls w) bytes al"
    using steps(3,4) by (auto simp: op_new_def Let_def split: if_splits)
  have fresh: "fresh_region w \<lparr>r_base = raw, r_bytes = bytes, r_align = al\<rparr>"
    using assms(2,4) steps(4) raw by (simp add: sys_honest_def)
  have span: "chunk_span False t c \<le> unat bytes"
    using checked_mul_SomeD(2)[OF steps(1)] checked_round_SomeD(4)[OF steps(2)]
    by (simp add: chunk_span_def c word_le_nat_alt)
  have "unat (node_alignment t) dvd unat al"
    using single_bit_dvd[OF node_alignment_single[OF assms(3)] assms(4,5)] .
  then show "chunk_ok False t c"
    using fresh span assms(3,4) steps(4)
    by (auto simp: chunk_ok_def fresh_region_def region_ok_def region_end_def is_aligned_iff c
        intro: dvd_trans)
  show "ch_count c = sz" "ch_alloc_align c = al" by (simp_all add: c)
  show "\<exists>r. live w' = r # live w \<and> fresh_region w r \<and> r_base r = ch_nodes c \<and>
          r_align r = ch_alloc_align c \<and> chunk_span False t c \<le> unat (r_bytes r)"
    using fresh span by (intro exI[of _ "\<lparr>r_base = raw, r_bytes = bytes, r_align = al\<rparr>"])
      (simp add: w' w1 c)
  show "cells w' = cells w" by (simp add: w' w1)
qed

lemma chunk_new_failed:
  "chunk_new h sys t sz page al w = (Inl e, w') \<Longrightarrow>
     live w' = live w \<and> cells w' = cells w \<and> (e = Bad_alloc \<or> e = Bad_array_new_length)"
  by (auto simp: chunk_new_def chunk_new_headered_def chunk_new_raw_def Let_def op_new_def
      split: if_splits option.splits prod.splits)

text \<open>
  The owner of any node is found by masking its address: in a constructed and stamped chunk
  every slot \<open>i < count\<close> is recognised by \<open>contains\<close>, its granule base holds the owner word and
  the debug tag, and no slot overlaps a header, so filling the nodes can never damage the routing.
\<close>

theorem owner_found_by_masking:
  assumes "chunk_new_headered sys t sz page w = (Inr c, w')"
    and "sys_honest sys w" and "layout_ok t" and "has_single_bit page" and "i < unat sz"
  defines "p \<equiv> chunk_at True t c (adr i)"
  shows "chunk_contains True t c p \<and>
    (stamp_owner t c owner (cells w') (granule_of (granule_for t page) p) = owner) \<and>
    (stamp_owner t c owner (cells w') (granule_of (granule_for t page) p + 8) = granule_debug_tag) \<and>
    \<not> (unat p < granule_base c g + 16 \<and> granule_base c g < unat p + unat (sizeof_node t))"
proof -
  note c = chunk_new_headered_ok[OF assms(1-4)]
  have i: "i < unat (ch_count c)" using assms(5) c(2) by simp
  have p: "p = adr (slot_nat True t c i)"
    unfolding p_def by (rule chunk_at_slot[OF c(1) i])
  have up: "unat p = slot_nat True t c i"
    using slot_bounds(3)[OF c(1) i] by (simp add: p unat_adr)
  have part1: "chunk_contains True t c p"
    unfolding p chunk_contains_headered[OF c(1) slot_bounds(3)[OF c(1) i]] using i by blast
  have gr: "granule_of (granule_for t page) p = adr (granule_base c (i div per_granule_nat t c))"
    unfolding p using granule_of_slot[OF c(1) i] by (simp add: c(3))
  have g: "i div per_granule_nat t c < granules_nat t c"
    by (rule granules_nat_eq(2)[OF c(1) i])
  have part2: "stamp_owner t c owner (cells w') (granule_of (granule_for t page) p) = owner"
    "stamp_owner t c owner (cells w') (granule_of (granule_for t page) p + 8) = granule_debug_tag"
    using headers_stamped_stamp(1)[OF c(1) c(5), of owner] g
    by (simp_all add: headers_stamped_def gr adr_plus_numeral)
  have part3: "\<not> (unat p < granule_base c g + 16 \<and> granule_base c g < unat p + unat (sizeof_node t))"
    unfolding up using slot_off_headers[OF c(1), of g i] by linarith
  show ?thesis using part1 part2 part3 by blast
qed

text \<open>
  Slots are disjoint: two different slots are at least a node apart, and every slot is aligned
  for its node type and lies inside the chunk's region.
\<close>

theorem chunk_slots_disjoint:
  assumes "chunk_ok h t c" and "i < unat (ch_count c)" and "j < unat (ch_count c)"
  shows "(i < j \<longrightarrow> unat (chunk_at h t c (adr i)) + unat (sizeof_node t) \<le> unat (chunk_at h t c (adr j))) \<and>
    unat (node_alignment t) dvd unat (chunk_at h t c (adr i)) \<and>
    unat (ch_nodes c) \<le> unat (chunk_at h t c (adr i)) \<and>
    unat (chunk_at h t c (adr i)) + unat (sizeof_node t) \<le> unat (ch_nodes c) + chunk_span h t c"
  using slot_mono[OF assms(1)] slot_aligned(1)[OF assms(1)] slot_bounds[OF assms(1,2)]
    slot_bounds(3)[OF assms(1,3)]
  by (simp_all add: chunk_at_slot[OF assms(1,2)] chunk_at_slot[OF assms(1,3)] unat_adr)

text \<open>
  In the headered layout \<open>contains\<close> is exact: it accepts an address exactly when it is the
  address of a slot below \<open>count\<close>; headers, the middle of a node, the padding at the end of a
  granule and the unseeded tail of the last granule are rejected.
\<close>

theorem chunk_contains_exact:
  assumes "chunk_ok True t c"
  shows "chunk_contains True t c p \<longleftrightarrow> (\<exists>i < unat (ch_count c). p = chunk_at True t c (adr i))"
proof -
  have "chunk_contains True t c (adr (unat p)) \<longleftrightarrow>
      (\<exists>i < unat (ch_count c). unat p = slot_nat True t c i)"
    by (rule chunk_contains_headered[OF assms unat_lt_64])
  also have "\<dots> \<longleftrightarrow> (\<exists>i < unat (ch_count c). p = chunk_at True t c (adr i))"
    using slot_bounds(3)[OF assms] chunk_at_slot[OF assms] by (metis adr_unat unat_adr)
  finally show ?thesis by simp
qed

section \<open>Witnesses\<close>

text \<open>A headered chunk of 300 16-byte nodes with 4 KiB granules at 1 MiB, and a raw chunk of 4 nodes.\<close>

definition node_ty :: ty where
  "node_ty = \<lparr>sizeof = 16, alignof = 8\<rparr>"

definition demo_chunk :: chunk where
  "demo_chunk = \<lparr>ch_count = 300, ch_alloc_align = 4096, ch_nodes = 1048576\<rparr>"

lemma node_ty_layout: "layout_ok node_ty"
  using has_single_bit_8 by (simp add: layout_ok_def ty_ok_def node_ty_def)

lemma node_ty_sizes: "sizeof_node node_ty = 16" "header_offset node_ty = 16" "node_alignment node_ty = 8"
  by (simp_all add: sizeof_node_def node_size_def node_alignment_def header_offset_def node_ty_def
      sizeof_ptr_def sizeof_granule_header_def round_to_multiple_of_def)

lemma demo_chunk_ok: "chunk_ok True node_ty demo_chunk"
  using node_ty_layout has_single_bit_4096
  by (simp add: chunk_ok_def demo_chunk_def node_ty_sizes chunk_span_def granules_nat_def per_granule_nat_def)

theorem chunk_contains_exact_witness:
  "chunk_contains True node_ty demo_chunk (chunk_at True node_ty demo_chunk (adr 299)) \<and>
   \<not> chunk_contains True node_ty demo_chunk (chunk_at True node_ty demo_chunk (adr 300))"
proof -
  have "chunk_contains True node_ty demo_chunk (chunk_at True node_ty demo_chunk (adr 299))"
    unfolding chunk_contains_exact[OF demo_chunk_ok] by (intro exI[of _ 299]) (simp add: demo_chunk_def)
  moreover have "\<not> chunk_contains True node_ty demo_chunk (chunk_at True node_ty demo_chunk (adr 300))"
    by (simp add: chunk_contains_def chunk_at_def demo_chunk_def node_ty_sizes adr_numeral
        granule_count_def nodes_per_granule_def)
  ultimately show ?thesis ..
qed

theorem chunk_slots_disjoint_witness:
  "unat (chunk_at True node_ty demo_chunk (adr 254)) + 16 \<le> unat (chunk_at True node_ty demo_chunk (adr 255))"
  using chunk_slots_disjoint[OF demo_chunk_ok, of 254 255]
  by (simp add: node_ty_sizes demo_chunk_def)

lemma node_ty_granule: "granule_for node_ty 4096 = 4096"
proof -
  have "[0..<64] = [0, 1] @ [2..<64]"
    using upt_add_eq_append[of 0 2 62] by (simp add: upt_rec[of 0] upt_rec[of "Suc 0"])
  then have "bit_ceil 32 = 32" by (simp add: bit_ceil_def word_le_nat_alt)
  then show ?thesis by (simp add: granule_for_def node_ty_sizes)
qed

lemma demo_chunk_new:
  "fst (chunk_new_headered bump_sys node_ty 300 4096 empty_world) =
     Inr \<lparr>ch_count = 300, ch_alloc_align = 4096, ch_nodes = 4294967296\<rparr>"
  by (simp add: chunk_new_headered_def node_ty_granule nodes_per_granule_def node_ty_sizes
      checked_add_eq checked_mul_eq op_new_def bump_sys_def empty_world_def Let_def adr_def)

theorem owner_found_by_masking_witness:
  "\<exists>c w'. chunk_new_headered bump_sys node_ty 300 4096 empty_world = (Inr c, w') \<and>
     chunk_contains True node_ty c (chunk_at True node_ty c (adr 299)) \<and>
     stamp_owner node_ty c 77 (cells w') (granule_of 4096 (chunk_at True node_ty c (adr 299))) = 77"
proof -
  obtain c w' where new: "chunk_new_headered bump_sys node_ty 300 4096 empty_world = (Inr c, w')"
    using demo_chunk_new by (metis prod.collapse)
  show ?thesis
    using owner_found_by_masking[OF new bump_sys_honest_empty node_ty_layout has_single_bit_4096, of 299]
      new node_ty_granule by simp
qed

end
