(* ===== verification/Memory_Lists.thy ===== *)
theory Memory_Lists
  imports Prelude
begin

text \<open>
  Singly linked lists threaded through memory: the word at a node's address is the next node.  The
  node pool's free list and the remote stacks of pool and runner are such lists.  The interfaces of
  these structures are the locales \<open>intrusive\<close> (a push that links one more node), \<open>lifo\<close> (with a
  pop) and \<open>parking\<close> (with a step that takes the whole list over).
\<close>

fun slist :: "memory \<Rightarrow> ptr \<Rightarrow> nat list \<Rightarrow> bool" where
  "slist m p [] \<longleftrightarrow> p = nullptr"
| "slist m p (x # xs) \<longleftrightarrow> p = adr x \<and> 0 < x \<and> x < 2 ^ 64 \<and> slist m (m (adr x)) xs"

lemma slist_null [simp]: "slist m 0 xs \<longleftrightarrow> xs = []"
  by (cases xs) (auto simp: adr_eq_0_iff eq_commute[of 0])

lemma slist_nonnull:
  assumes "slist m p xs" "p \<noteq> nullptr"
  obtains x ys where "xs = x # ys" "p = adr x" "0 < x" "x < 2 ^ 64" "slist m (m p) ys"
  using assms by (cases xs) auto

lemma slist_range: "slist m p xs \<Longrightarrow> x \<in> set xs \<Longrightarrow> 0 < x \<and> x < 2 ^ 64"
  by (induction xs arbitrary: p) auto

lemma slist_cong:
  "(\<And>x. x \<in> set xs \<Longrightarrow> m' (adr x) = m (adr x)) \<Longrightarrow> slist m' p xs = slist m p xs"
  by (induction xs arbitrary: p) auto

lemma slist_upd [simp]:
  assumes "a \<notin> set xs" "a < 2 ^ 64"
  shows "slist (m(adr a := v)) p xs = slist m p xs"
  using assms
proof (induction xs arbitrary: p)
  case Nil
  then show ?case by simp
next
  case (Cons x xs)
  have "x < 2 ^ 64 \<Longrightarrow> adr x \<noteq> adr a"
    using Cons.prems by (auto simp: adr_eq_iff)
  then show ?case using Cons by auto
qed

lemma slist_unique: "slist m p xs \<Longrightarrow> slist m p ys \<Longrightarrow> xs = ys"
proof (induction xs arbitrary: p ys)
  case Nil
  then show ?case by simp
next
  case (Cons x xs)
  then show ?case
    by (cases ys) (auto simp: adr_eq_iff adr_eq_0_iff eq_commute[of 0])
qed

section \<open>Interfaces\<close>

locale intrusive =
  fixes push :: "ptr \<Rightarrow> 's \<Rightarrow> 's"
    and stack :: "'s \<Rightarrow> nat list \<Rightarrow> bool"
  assumes push_stack: "stack s xs \<Longrightarrow> x \<notin> set xs \<Longrightarrow> 0 < x \<Longrightarrow> x < 2 ^ 64 \<Longrightarrow>
      stack (push (adr x) s) (x # xs)"
    and stack_unique: "stack s xs \<Longrightarrow> stack s ys \<Longrightarrow> xs = ys"
begin

text \<open>Seeding: pushing a list of fresh nodes one after the other.\<close>

lemma push_all:
  assumes "stack s ys" "distinct xs" "set xs \<inter> set ys = {}" "\<forall>x \<in> set xs. 0 < x \<and> x < 2 ^ 64"
  shows "stack (foldl (\<lambda>s x. push (adr x) s) s xs) (rev xs @ ys)"
  using assms
proof (induction xs arbitrary: s ys)
  case Nil
  then show ?case by simp
next
  case (Cons x xs)
  have "stack (push (adr x) s) (x # ys)"
    using Cons.prems by (intro push_stack) auto
  then have "stack (foldl (\<lambda>s x. push (adr x) s) (push (adr x) s) xs) (rev xs @ x # ys)"
    using Cons.prems by (intro Cons.IH) auto
  then show ?case by simp
qed

end

locale lifo = intrusive push stack
  for push :: "ptr \<Rightarrow> 's \<Rightarrow> 's" and stack :: "'s \<Rightarrow> nat list \<Rightarrow> bool" +
  fixes pop :: "'s \<Rightarrow> ptr \<times> 's"
  assumes pop_empty: "stack s [] \<Longrightarrow> pop s = (nullptr, s)"
    and pop_first: "stack s (x # xs) \<Longrightarrow> fst (pop s) = adr x \<and> stack (snd (pop s)) xs"
    and stack_range: "stack s xs \<Longrightarrow> x \<in> set xs \<Longrightarrow> 0 < x \<and> x < 2 ^ 64"
begin

lemma pop_null_iff: "stack s xs \<Longrightarrow> fst (pop s) = nullptr \<longleftrightarrow> xs = []"
  using pop_empty[of s] pop_first[of s] stack_range[of s xs]
  by (cases xs) (auto simp: adr_eq_0_iff)

lemma push_pop: "stack s xs \<Longrightarrow> x \<notin> set xs \<Longrightarrow> 0 < x \<Longrightarrow> x < 2 ^ 64 \<Longrightarrow>
    fst (pop (push (adr x) s)) = adr x \<and> stack (snd (pop (push (adr x) s))) xs"
  using push_stack pop_first by blast

end

locale parking = intrusive push stack
  for push :: "ptr \<Rightarrow> 's \<Rightarrow> 's" and stack :: "'s \<Rightarrow> nat list \<Rightarrow> bool" +
  fixes take_over :: "'s \<Rightarrow> ptr \<times> 's"
    and link :: "'s \<Rightarrow> memory"
  assumes take_over_all: "stack s xs \<Longrightarrow> slist (link s) (fst (take_over s)) xs \<and> stack (snd (take_over s)) []"
    and take_over_link: "link (snd (take_over s)) = link s"
begin

text \<open>Whatever was parked is taken over whole, and nothing twice.\<close>

lemma take_over_twice: "stack s xs \<Longrightarrow> fst (take_over (snd (take_over s))) = nullptr"
  using take_over_all[of s xs] take_over_all[of "snd (take_over s)" "[]"] by simp

lemma parked_taken:
  assumes "stack s ys" "distinct xs" "set xs \<inter> set ys = {}" "\<forall>x \<in> set xs. 0 < x \<and> x < 2 ^ 64"
  shows "let s' = foldl (\<lambda>s x. push (adr x) s) s xs
         in slist (link s') (fst (take_over s')) (rev xs @ ys)"
  using take_over_all[OF push_all[OF assms]] by (simp add: Let_def)

end

end
