(* ===== verification/Pool.thy ===== *)
theory Pool
  imports Chunk_Slots Memory_Lists Std_Align
begin

text \<open>
  The node pool, class \<open>allocazam\<close> of \<open>lib/allocazam.hpp\<close>: construction, allocation with its slow
  path (drain the remote stack, create the deferred first chunk, grow), deallocation, the remote
  push, and destruction.  An operation that walks a list in memory returns an \<open>option\<close>, \<open>None\<close>
  meaning that the walk does not end; \<open>Pool_Inv\<close> proves that it always ends.  Assertions are
  compiled out in the modelled release build; the asserted conditions are \<open>owns_pointer\<close> and
  \<open>is_in_free_list\<close>.
\<close>

section \<open>The class\<close>

text \<open>The template parameters: the mode, whether the chunks carry owner headers, the value type.\<close>

record pool_cfg =
  cfg_mode :: memory_mode
  cfg_headers :: bool
  cfg_ty :: ty

record pool =
  p_self :: ptr
  p_size :: u64
  p_capacity :: u64
  p_next_growth :: u64
  p_page_size :: u64
  p_nodes_per_page :: u64
  p_alloc_align :: u64
  p_free_head :: ptr
  p_chunks :: "chunk list"
  p_remote :: ptr

type_synonym pool_mem = "pool \<times> memory"

text \<open>The storage array is the first and only member of a node.\<close>

definition offsetof_storage :: u64 where
  "offsetof_storage = 0"

definition value_ptr :: "ptr \<Rightarrow> ptr" where
  "value_ptr n = n + offsetof_storage"

definition node_from_value :: "ptr \<Rightarrow> ptr" where
  "node_from_value p = p - offsetof_storage"

definition next_ptr :: "ptr \<Rightarrow> ptr" where
  "next_ptr n = n + offsetof_storage"

lemma node_ptr_simps [simp]:
  "value_ptr n = n" "node_from_value n = n" "next_ptr n = n"
  by (simp_all add: value_ptr_def node_from_value_def next_ptr_def offsetof_storage_def)

definition page_alloc_align :: "ty \<Rightarrow> u64 \<Rightarrow> u64" where
  "page_alloc_align t page_size =
     (if has_single_bit page_size \<and> page_size > node_alignment t then page_size else node_alignment t)"

definition page_node_capacity :: "ty \<Rightarrow> u64 \<Rightarrow> u64" where
  "page_node_capacity t page_size = (let n = page_size div sizeof_node t in if n = 0 then 1 else n)"

section \<open>The free list\<close>

definition push_free_node :: "ptr \<Rightarrow> pool_mem \<Rightarrow> pool_mem" where
  "push_free_node n s =
     (case s of (p, m) \<Rightarrow> (p\<lparr>p_free_head := n\<rparr>, m(next_ptr n := p_free_head p)))"

definition pop_free_node :: "pool_mem \<Rightarrow> ptr \<times> pool_mem" where
  "pop_free_node s =
     (case s of (p, m) \<Rightarrow>
        if p_free_head p = nullptr then (nullptr, (p, m))
        else let n = p_free_head p in (n, (p\<lparr>p_free_head := m (next_ptr n)\<rparr>, m)))"

text \<open>
  \<open>remote_push\<close> as one step; the loop around the compare-and-swap and its interleavings are the
  subject of \<open>Remote_Stack\<close>.
\<close>

definition pool_remote_push :: "ptr \<Rightarrow> pool_mem \<Rightarrow> pool_mem" where
  "pool_remote_push ptr s =
     (case s of (p, m) \<Rightarrow>
        let n = node_from_value ptr in (p\<lparr>p_remote := n\<rparr>, m(next_ptr n := p_remote p)))"

definition pool_take_remote :: "pool_mem \<Rightarrow> ptr \<times> pool_mem" where
  "pool_take_remote s = (case s of (p, m) \<Rightarrow> (p_remote p, (p\<lparr>p_remote := nullptr\<rparr>, m)))"

partial_function (option) pool_drain_loop :: "ptr \<Rightarrow> pool_mem \<Rightarrow> pool_mem option" where
  "pool_drain_loop n s =
     (if n = nullptr then Some s
      else let next = snd s (next_ptr n);
               s' = push_free_node n s
           in pool_drain_loop next ((fst s')\<lparr>p_size := p_size (fst s') - 1\<rparr>, snd s'))"

declare pool_drain_loop.simps [code]

definition pool_drain_remote :: "pool_mem \<Rightarrow> (bool \<times> pool_mem) option" where
  "pool_drain_remote s =
     (case pool_take_remote s of (n, s') \<Rightarrow>
        if n = nullptr then Some (False, s')
        else map_option (Pair True) (pool_drain_loop n s'))"

section \<open>Chunks and growth\<close>

definition seed_chunk :: "pool_cfg \<Rightarrow> chunk \<Rightarrow> pool_mem \<Rightarrow> pool_mem" where
  "seed_chunk k c s =
     (case foldl (\<lambda>s i. push_free_node (chunk_at (cfg_headers k) (cfg_ty k) c (adr i)) s) s
             [0..<unat (ch_count c)] of
        (p, m) \<Rightarrow> (p\<lparr>p_capacity := p_capacity p + ch_count c\<rparr>, m))"

text \<open>\<open>_chunks[0] = chunk(\<dots>)\<close> in fixed mode, \<open>_chunks.emplace_back(\<dots>)\<close> in dynamic mode.\<close>

definition pool_add_chunk ::
    "pool_cfg \<Rightarrow> sys \<Rightarrow> u64 \<Rightarrow> pool \<Rightarrow> world \<Rightarrow> (exn + unit) \<times> pool \<times> world" where
  "pool_add_chunk k sys slot_count p w =
     (case chunk_new (cfg_headers k) sys (cfg_ty k) slot_count (p_page_size p) (p_alloc_align p) w of
        (Inl e, w') \<Rightarrow> (Inl e, p, w')
      | (Inr c, w') \<Rightarrow>
          (let (p1, w1) =
             (if fixed_mode (cfg_mode k)
              then case chunk_move_assign True (cfg_ty k) (p_chunks p ! 0) c w' of
                     (c0, _, w'') \<Rightarrow> (p\<lparr>p_chunks := (p_chunks p)[0 := c0]\<rparr>, w'')
              else (p\<lparr>p_chunks := p_chunks p @ [c]\<rparr>, w'));
             m1 = (if cfg_headers k then stamp_owner (cfg_ty k) c (p_self p) (cells w1) else cells w1);
             (p2, m2) = seed_chunk k c (p1, m1)
           in (Inr (), p2, w1\<lparr>cells := m2\<rparr>)))"

definition pool_add_external_chunk :: "pool_cfg \<Rightarrow> ptr \<Rightarrow> u64 \<Rightarrow> pool_mem \<Rightarrow> pool_mem" where
  "pool_add_external_chunk k nodes slot_count s =
     (let c = chunk_external (cfg_ty k) nodes slot_count
      in seed_chunk k c ((fst s)\<lparr>p_chunks := (p_chunks (fst s))[0 := c]\<rparr>, snd s))"

definition pool_grow ::
    "pool_cfg \<Rightarrow> sys \<Rightarrow> pool \<Rightarrow> world \<Rightarrow> (exn + unit) \<times> pool \<times> world" where
  "pool_grow k sys p w =
     (case checked_mul (p_next_growth p) 2 of
        None \<Rightarrow> (Inl Bad_alloc, p, w)
      | Some doubled_growth \<Rightarrow>
          let p' = p\<lparr>p_next_growth := max 1 doubled_growth\<rparr>
          in pool_add_chunk k sys (p_next_growth p') p' w)"

section \<open>Construction\<close>

definition pool_members :: "pool_cfg \<Rightarrow> sys \<Rightarrow> ptr \<Rightarrow> pool" where
  "pool_members k sys self =
     (let page = detect_page_size (sys_sysconf sys); t = cfg_ty k
      in \<lparr>p_self = self, p_size = 0, p_capacity = 0, p_next_growth = 0, p_page_size = page,
          p_nodes_per_page = page_node_capacity t page, p_alloc_align = page_alloc_align t page,
          p_free_head = nullptr,
          p_chunks = (if dynamic_mode (cfg_mode k) then [] else [chunk_empty t]), p_remote = nullptr\<rparr>)"

definition pool_new_lazy :: "pool_cfg \<Rightarrow> sys \<Rightarrow> ptr \<Rightarrow> u64 \<Rightarrow> exn + pool" where
  "pool_new_lazy k sys self pool_size =
     (if \<not> has_single_bit pool_size
      then Inl (Invalid_argument ''allocator buffer size must be a power of 2'')
      else Inr ((pool_members k sys self)\<lparr>p_next_growth := pool_size\<rparr>))"

definition pool_new :: "pool_cfg \<Rightarrow> sys \<Rightarrow> ptr \<Rightarrow> u64 \<Rightarrow> world \<Rightarrow> (exn + pool) \<times> world" where
  "pool_new k sys self pool_size w =
     (if \<not> has_single_bit pool_size
      then (Inl (Invalid_argument ''allocator buffer size must be a power of 2''), w)
      else let p = (pool_members k sys self)\<lparr>p_next_growth := pool_size\<rparr>
           in case pool_add_chunk k sys (p_next_growth p) p w of
                (Inl e, _, w') \<Rightarrow> (Inl e, w')
              | (Inr _, p', w') \<Rightarrow> (Inr p', w'))"

text \<open>The noheap constructor leaves the page members at their default initialisers.\<close>

definition pool_new_external :: "pool_cfg \<Rightarrow> ptr \<Rightarrow> ptr \<Rightarrow> u64 \<Rightarrow> memory \<Rightarrow> (exn + pool) \<times> memory" where
  "pool_new_external k self data bytes m =
     (let t = cfg_ty k in
      if bytes = 0 then (Inl (Invalid_argument ''allocator backing buffer must not be empty''), m)
      else case std_align (node_alignment t) (sizeof_node t) data bytes of
          None \<Rightarrow> (Inl (Invalid_argument ''allocator backing buffer cannot satisfy node alignment''), m)
        | Some (aligned, space) \<Rightarrow>
            let node_count = space div sizeof_node t in
            if node_count = 0
            then (Inl (Invalid_argument ''allocator backing buffer too small for one node''), m)
            else (case pool_add_external_chunk k aligned node_count
                    (\<lparr>p_self = self, p_size = 0, p_capacity = 0, p_next_growth = 0, p_page_size = 4096,
                      p_nodes_per_page = 1, p_alloc_align = node_alignment t, p_free_head = nullptr,
                      p_chunks = [chunk_empty t], p_remote = nullptr\<rparr>, m) of
                    (p, m') \<Rightarrow> (Inr p, m')))"

section \<open>Allocation\<close>

text \<open>The result: the pointer (null in a fixed-like mode that is exhausted) or what is thrown.\<close>

type_synonym pool_result = "(exn + ptr) \<times> pool \<times> world"

definition pool_take_node :: "ptr \<Rightarrow> pool \<Rightarrow> world \<Rightarrow> pool_result" where
  "pool_take_node n p w = (Inr (value_ptr n), p\<lparr>p_size := p_size p + 1\<rparr>, w)"

text \<open>The last resort: a fixed-like pool answers null, a dynamic pool grows.\<close>

definition pool_allocate_grow :: "pool_cfg \<Rightarrow> sys \<Rightarrow> pool \<Rightarrow> world \<Rightarrow> pool_result" where
  "pool_allocate_grow k sys p w =
     (if fixed_like_mode (cfg_mode k) then (Inr nullptr, p, w)
      else case pool_grow k sys p w of
          (Inl e, p', w') \<Rightarrow> (Inl e, p', w')
        | (Inr _, p', w') \<Rightarrow>
            (case pop_free_node (p', cells w') of (n, p'', _) \<Rightarrow>
               if n = nullptr then (Inl Bad_alloc, p'', w') else pool_take_node n p'' w'))"

text \<open>A lazily constructed pool creates its first chunk here.\<close>

definition pool_allocate_first :: "pool_cfg \<Rightarrow> sys \<Rightarrow> pool \<Rightarrow> world \<Rightarrow> pool_result" where
  "pool_allocate_first k sys p w =
     (if heap_backed_mode (cfg_mode k) \<and> p_capacity p = 0 \<and> p_next_growth p \<noteq> 0
      then case pool_add_chunk k sys (p_next_growth p) p w of
             (Inl e, p', w') \<Rightarrow> (Inl e, p', w')
           | (Inr _, p', w') \<Rightarrow>
               (case pop_free_node (p', cells w') of (n, p'', _) \<Rightarrow>
                  if n = nullptr then pool_allocate_grow k sys p'' w' else pool_take_node n p'' w')
      else pool_allocate_grow k sys p w)"

definition pool_allocate :: "pool_cfg \<Rightarrow> sys \<Rightarrow> pool \<Rightarrow> world \<Rightarrow> pool_result option" where
  "pool_allocate k sys p w =
     (case pop_free_node (p, cells w) of (n, p1, _) \<Rightarrow>
        if n \<noteq> nullptr then Some (pool_take_node n p1 w)
        else if cfg_headers k then do {
          (drained, p2, m2) \<leftarrow> pool_drain_remote (p1, cells w);
          let w2 = w\<lparr>cells := m2\<rparr>;
          if drained
          then (case pop_free_node (p2, m2) of (n', p3, _) \<Rightarrow>
                  Some (if n' \<noteq> nullptr then pool_take_node n' p3 w2 else pool_allocate_first k sys p3 w2))
          else Some (pool_allocate_first k sys p2 w2)
        }
        else Some (pool_allocate_first k sys p1 w))"

section \<open>Deallocation, queries, destruction\<close>

definition pool_deallocate :: "ptr \<Rightarrow> pool_mem \<Rightarrow> pool_mem" where
  "pool_deallocate ptr s =
     (if ptr = nullptr then s
      else case push_free_node (node_from_value ptr) s of (p, m) \<Rightarrow> (p\<lparr>p_size := p_size p - 1\<rparr>, m))"

definition owns_pointer :: "pool_cfg \<Rightarrow> pool \<Rightarrow> ptr \<Rightarrow> bool" where
  "owns_pointer k p ptr =
     list_ex (\<lambda>c. chunk_contains (cfg_headers k) (cfg_ty k) c (node_from_value ptr)) (p_chunks p)"

definition pool_owns :: "pool_cfg \<Rightarrow> pool \<Rightarrow> ptr \<Rightarrow> bool" where
  "pool_owns k p ptr \<longleftrightarrow> ptr \<noteq> nullptr \<and> owns_pointer k p ptr"

partial_function (option) free_list_search :: "ptr \<Rightarrow> ptr \<Rightarrow> memory \<Rightarrow> bool option" where
  "free_list_search target n m =
     (if n = nullptr then Some False
      else if n = target then Some True
      else free_list_search target (m (next_ptr n)) m)"

declare free_list_search.simps [code]

definition is_in_free_list :: "ptr \<Rightarrow> pool_mem \<Rightarrow> bool option" where
  "is_in_free_list ptr s = free_list_search (node_from_value ptr) (p_free_head (fst s)) (snd s)"

definition free_count :: "pool \<Rightarrow> u64" where
  "free_count p = p_capacity p - p_size p"

definition release_chunks :: "pool_cfg \<Rightarrow> chunk list \<Rightarrow> world \<Rightarrow> world" where
  "release_chunks k cs w =
     foldl (\<lambda>w c. snd (chunk_release (heap_backed_mode (cfg_mode k)) c w)) w cs"

definition pool_destroy :: "pool_cfg \<Rightarrow> pool \<Rightarrow> world \<Rightarrow> world option" where
  "pool_destroy k p w =
     (if cfg_headers k then do {
        (_, p', m') \<leftarrow> pool_drain_remote (p, cells w);
        Some (release_chunks k (p_chunks p') (w\<lparr>cells := m'\<rparr>))
      }
      else Some (release_chunks k (p_chunks p) w))"

text \<open>
  The defaulted move constructor: every scalar member is copied, the chunks are moved, a vector
  leaves its source empty and an array moves element by element.  It exists under
  \<open>requires(!OwnerHeaders)\<close> only; a pool with headers cannot be moved.
\<close>

definition pool_move :: "pool_cfg \<Rightarrow> ptr \<Rightarrow> pool \<Rightarrow> (pool \<times> pool) option" where
  "pool_move k self other =
     (if cfg_headers k then None
      else Some (other\<lparr>p_self := self\<rparr>,
                 other\<lparr>p_chunks := (if dynamic_mode (cfg_mode k) then []
                                    else map (snd \<circ> chunk_move (cfg_ty k)) (p_chunks other))\<rparr>))"

end
