(* ===== verification/Pool_Inv.thy ===== *)
theory Pool_Inv
  imports Pool
begin

text \<open>
  The invariant of the node pool and the lemmas that keep it: the free list and the remote stack
  are interpreted as lists threaded through memory, the slots of the chunks are laid out apart from
  each other and from the headers, draining ends and splices, and a chunk that is added is seeded
  whole.
\<close>

section \<open>The lists of a pool\<close>

definition free_stack :: "pool_mem \<Rightarrow> nat list \<Rightarrow> bool" where
  "free_stack s xs \<longleftrightarrow> slist (snd s) (p_free_head (fst s)) xs"

definition remote_stack :: "pool_mem \<Rightarrow> nat list \<Rightarrow> bool" where
  "remote_stack s xs \<longleftrightarrow> slist (snd s) (p_remote (fst s)) xs"

interpretation free_list: lifo push_free_node free_stack pop_free_node
  by unfold_locales
    (auto simp: free_stack_def push_free_node_def pop_free_node_def Let_def adr_eq_0_iff
      split: prod.splits dest: slist_unique slist_range)

interpretation remote_list: parking pool_remote_push remote_stack pool_take_remote snd
  by unfold_locales
    (auto simp: remote_stack_def pool_remote_push_def pool_take_remote_def Let_def
      split: prod.splits dest: slist_unique)

text \<open>Pushing a list of nodes writes only their link words and the head.\<close>

lemma push_fold_frame:
  fixes s :: pool_mem
  assumes "\<forall>x \<in> set xs. x < 2 ^ 64"
  defines "s' \<equiv> foldl (\<lambda>s x. push_free_node (adr x) s) s xs"
  shows "\<exists>h. fst s' = (fst s)\<lparr>p_free_head := h\<rparr>"
    and "a < 2 ^ 64 \<Longrightarrow> a \<notin> set xs \<Longrightarrow> snd s' (adr a) = snd s (adr a)"
proof -
  show "\<exists>h. fst s' = (fst s)\<lparr>p_free_head := h\<rparr>"
    unfolding s'_def
    by (induction xs rule: rev_induct)
      (auto simp: push_free_node_def split: prod.splits intro: exI[of _ "p_free_head (fst s)"])
  show "a < 2 ^ 64 \<Longrightarrow> a \<notin> set xs \<Longrightarrow> snd s' (adr a) = snd s (adr a)"
    using assms(1) unfolding s'_def
    by (induction xs rule: rev_induct) (auto simp: push_free_node_def adr_eq_iff split: prod.splits)
qed

section \<open>Draining\<close>

text \<open>
  The drain walks the parked list while it pushes the nodes it has passed, so the link it has to
  read next is never one it has overwritten.
\<close>

lemma drain_loop_ends:
  assumes "slist (snd s) n rl" "free_stack s fl" "distinct (rl @ fl)"
  shows "\<exists>s'. pool_drain_loop n s = Some s' \<and> free_stack s' (rev rl @ fl) \<and>
     (\<exists>h. fst s' = (fst s)\<lparr>p_free_head := h, p_size := p_size (fst s) - adr (length rl)\<rparr>) \<and>
     (\<forall>a < 2 ^ 64. a \<notin> set rl \<longrightarrow> snd s' (adr a) = snd s (adr a))"
  using assms
proof (induction rl arbitrary: n s fl)
  case Nil
  then show ?case
    by (subst pool_drain_loop.simps) (auto intro!: exI[of _ "p_free_head (fst s)"])
next
  case (Cons x rl)
  obtain p m where s: "s = (p, m)" by (cases s)
  have n: "n = adr x" and x: "0 < x" "x < 2 ^ 64" and rest: "slist m (m (adr x)) rl"
    using Cons.prems(1) by (simp_all add: s)
  let ?s1 = "(p\<lparr>p_free_head := adr x, p_size := p_size p - 1\<rparr>, m(adr x := p_free_head p))"
  have step: "pool_drain_loop n s = pool_drain_loop (m (adr x)) ?s1"
    using x by (subst pool_drain_loop.simps) (simp add: s n push_free_node_def adr_eq_0_iff Let_def)
  have "slist (snd ?s1) (m (adr x)) rl"
    using rest Cons.prems(3) x by simp
  moreover have "free_stack ?s1 (x # fl)"
    using Cons.prems(2,3) x by (simp add: s free_stack_def)
  moreover have "distinct (rl @ x # fl)"
    using Cons.prems(3) by auto
  ultimately obtain s' h where IH: "pool_drain_loop (m (adr x)) ?s1 = Some s'"
    "free_stack s' (rev rl @ x # fl)"
    "fst s' = (fst ?s1)\<lparr>p_free_head := h, p_size := p_size (fst ?s1) - adr (length rl)\<rparr>"
    "\<forall>a < 2 ^ 64. a \<notin> set rl \<longrightarrow> snd s' (adr a) = snd ?s1 (adr a)"
    using Cons.IH[of ?s1 "m (adr x)" "x # fl"] by blast
  have "adr (length (x # rl)) = 1 + adr (length rl)"
    by (simp add: adr_def)
  then show ?case
    using IH x unfolding step by (intro exI[of _ s']) (auto simp: s adr_eq_iff diff_diff_eq)
qed

lemma drain_ends:
  assumes "remote_stack s rl" "free_stack s fl" "distinct (rl @ fl)"
  shows "\<exists>s'. pool_drain_remote s = Some (rl \<noteq> [], s') \<and> free_stack s' (rev rl @ fl) \<and>
     (\<exists>h. fst s' = (fst s)\<lparr>p_remote := nullptr, p_free_head := h, p_size := p_size (fst s) - adr (length rl)\<rparr>) \<and>
     (\<forall>a < 2 ^ 64. a \<notin> set rl \<longrightarrow> snd s' (adr a) = snd s (adr a))"
proof -
  obtain p m where s: "s = (p, m)" by (cases s)
  let ?s0 = "(p\<lparr>p_remote := 0\<rparr>, m)"
  have rs: "slist m (p_remote p) rl" using assms(1) by (simp add: remote_stack_def s)
  have fs: "free_stack ?s0 fl" using assms(2) by (simp add: s free_stack_def)
  show ?thesis
  proof (cases rl)
    case Nil
    then have "p_remote p = 0" using rs by simp
    then show ?thesis
      using Nil fs by (auto simp: pool_drain_remote_def pool_take_remote_def s
          intro!: exI[of _ "p_free_head p"])
  next
    case (Cons x xs)
    then have nz: "p_remote p \<noteq> 0" using rs by (auto simp: adr_eq_0_iff)
    obtain s' h where "pool_drain_loop (p_remote p) ?s0 = Some s'" "free_stack s' (rev rl @ fl)"
      "fst s' = (fst ?s0)\<lparr>p_free_head := h, p_size := p_size (fst ?s0) - adr (length rl)\<rparr>"
      "\<forall>a < 2 ^ 64. a \<notin> set rl \<longrightarrow> snd s' (adr a) = snd ?s0 (adr a)"
      using drain_loop_ends[of ?s0 "p_remote p" rl fl] rs fs assms(3) unfolding snd_conv by blast
    then show ?thesis
      using nz Cons by (auto simp: pool_drain_remote_def pool_take_remote_def s
          intro!: exI[of _ s'] exI[of _ h])
  qed
qed

section \<open>The slots of a pool\<close>

definition chunk_slots :: "pool_cfg \<Rightarrow> chunk \<Rightarrow> nat list" where
  "chunk_slots k c = map (slot_nat (cfg_headers k) (cfg_ty k) c) [0..<unat (ch_count c)]"

definition pool_slots :: "pool_cfg \<Rightarrow> pool \<Rightarrow> nat list" where
  "pool_slots k p = concat (map (chunk_slots k) (p_chunks p))"

abbreviation node_bytes :: "pool_cfg \<Rightarrow> nat" where
  "node_bytes k \<equiv> unat (sizeof_node (cfg_ty k))"

definition chunk_end :: "pool_cfg \<Rightarrow> chunk \<Rightarrow> nat" where
  "chunk_end k c = unat (ch_nodes c) + chunk_span (cfg_headers k) (cfg_ty k) c"

definition chunks_apart :: "pool_cfg \<Rightarrow> chunk \<Rightarrow> chunk \<Rightarrow> bool" where
  "chunks_apart k c c' \<longleftrightarrow> chunk_end k c \<le> unat (ch_nodes c') \<or> chunk_end k c' \<le> unat (ch_nodes c)"

definition chunk_inv :: "pool_cfg \<Rightarrow> pool \<Rightarrow> world \<Rightarrow> chunk \<Rightarrow> bool" where
  "chunk_inv k p w c \<longleftrightarrow> c = chunk_empty (cfg_ty k) \<or>
     0 < unat (ch_count c) \<and> chunk_ok (cfg_headers k) (cfg_ty k) c \<and>
     (cfg_headers k \<longrightarrow> ch_alloc_align c = granule_for (cfg_ty k) (p_page_size p) \<and>
        headers_stamped (cfg_ty k) c (p_self p) (cells w)) \<and>
     (heap_backed_mode (cfg_mode k) \<longrightarrow>
        (\<exists>r \<in> set (live w). r_base r = ch_nodes c \<and> r_align r = ch_alloc_align c \<and>
           chunk_span (cfg_headers k) (cfg_ty k) c \<le> unat (r_bytes r)))"

definition pool_static :: "pool_cfg \<Rightarrow> pool \<Rightarrow> bool" where
  "pool_static k p \<longleftrightarrow>
     layout_ok (cfg_ty k) \<and> (cfg_headers k \<longrightarrow> heap_backed_mode (cfg_mode k)) \<and>
     (fixed_like_mode (cfg_mode k) \<longrightarrow> length (p_chunks p) = 1) \<and>
     (fixed_mode (cfg_mode k) \<longrightarrow> p_capacity p = 0 \<or> p_capacity p = p_next_growth p) \<and>
     (heap_backed_mode (cfg_mode k) \<longrightarrow>
        has_single_bit (p_page_size p) \<and> has_single_bit (p_alloc_align p) \<and>
        node_alignment (cfg_ty k) \<le> p_alloc_align p \<and> has_single_bit (p_next_growth p))"

text \<open>
  The invariant: \<open>fl\<close> is the free list, \<open>rl\<close> the list of nodes parked by other threads; the
  parked nodes still count as allocated in \<open>_size\<close>.
\<close>

definition pool_inv :: "pool_cfg \<Rightarrow> pool \<Rightarrow> world \<Rightarrow> nat list \<Rightarrow> nat list \<Rightarrow> bool" where
  "pool_inv k p w fl rl \<longleftrightarrow>
     pool_static k p \<and> world_ok w \<and>
     (\<forall>c \<in> set (p_chunks p). chunk_inv k p w c) \<and> sorted_wrt (chunks_apart k) (p_chunks p) \<and>
     free_stack (p, cells w) fl \<and> remote_stack (p, cells w) rl \<and>
     distinct (fl @ rl) \<and> set fl \<union> set rl \<subseteq> set (pool_slots k p) \<and> (\<not> cfg_headers k \<longrightarrow> rl = []) \<and>
     unat (p_capacity p) = length (pool_slots k p) \<and>
     unat (p_size p) + length fl = length (pool_slots k p)"

definition lent :: "pool_cfg \<Rightarrow> pool \<Rightarrow> nat list \<Rightarrow> nat list \<Rightarrow> nat set" where
  "lent k p fl rl = set (pool_slots k p) - set fl - set rl"

subsection \<open>Geometry\<close>

lemma chunk_slots_empty [simp]: "chunk_slots k (chunk_empty t) = []"
  by (simp add: chunk_slots_def chunk_empty_def)

lemma pred_div_self: "(n - Suc 0) div n = 0"
  by (cases n) simp_all

lemma chunk_end_empty [simp]: "chunk_end k (chunk_empty t) = 0"
  by (simp add: chunk_end_def chunk_empty_def chunk_span_def granules_nat_def pred_div_self)

lemma chunk_slot_props:
  assumes "chunk_inv k p w c" "x \<in> set (chunk_slots k c)"
  shows "0 < x" and "x + node_bytes k < 2 ^ 64" and "unat (ch_nodes c) \<le> x"
    and "x + node_bytes k \<le> chunk_end k c" and "unat (node_alignment (cfg_ty k)) dvd x"
    and "8 \<le> node_bytes k"
proof -
  from assms(2) obtain i where i: "i < unat (ch_count c)" "x = slot_nat (cfg_headers k) (cfg_ty k) c i"
    by (auto simp: chunk_slots_def)
  then have ok: "chunk_ok (cfg_headers k) (cfg_ty k) c"
    using assms(1) by (auto simp: chunk_inv_def chunk_empty_def)
  note b = slot_bounds[OF ok i(1)]
  have e: "chunk_end k c < 2 ^ 64" using ok by (simp add: chunk_end_def chunk_ok_def)
  show "0 < x" "unat (ch_nodes c) \<le> x" "x + node_bytes k \<le> chunk_end k c"
    using b by (simp_all add: i(2) chunk_end_def)
  with e show "x + node_bytes k < 2 ^ 64" by linarith
  show "unat (node_alignment (cfg_ty k)) dvd x" unfolding i(2) by (rule slot_aligned(1)[OF ok])
  show "8 \<le> node_bytes k" using ok sizeof_node_props(2) by (simp add: chunk_ok_def)
qed

lemma chunk_slots_spaced:
  assumes "chunk_inv k p w c" "x \<in> set (chunk_slots k c)" "y \<in> set (chunk_slots k c)" "x \<noteq> y"
  shows "x + node_bytes k \<le> y \<or> y + node_bytes k \<le> x"
proof -
  from assms(2,3) obtain i j where i: "i < unat (ch_count c)" "x = slot_nat (cfg_headers k) (cfg_ty k) c i"
    and j: "j < unat (ch_count c)" "y = slot_nat (cfg_headers k) (cfg_ty k) c j"
    by (auto simp: chunk_slots_def)
  have ok: "chunk_ok (cfg_headers k) (cfg_ty k) c"
    using assms(1) i(1) by (auto simp: chunk_inv_def chunk_empty_def)
  show ?thesis
    using slot_mono[OF ok, of i j] slot_mono[OF ok, of j i] assms(4) unfolding i(2) j(2)
    by (cases i j rule: linorder_cases) auto
qed

lemma chunk_slots_distinct: "chunk_inv k p w c \<Longrightarrow> distinct (chunk_slots k c)"
  by (cases "c = chunk_empty (cfg_ty k)")
    (auto simp: chunk_inv_def chunk_slots_def chunk_empty_def distinct_map inj_on_def dest: slot_inj)

lemma slots_spaced_list:
  assumes "\<forall>c \<in> set cs. chunk_inv k p w c" "sorted_wrt (chunks_apart k) cs"
    and "x \<in> set (concat (map (chunk_slots k) cs))" "y \<in> set (concat (map (chunk_slots k) cs))" "x \<noteq> y"
  shows "x + node_bytes k \<le> y \<or> y + node_bytes k \<le> x"
  using assms
proof (induction cs)
  case Nil
  then show ?case by simp
next
  case (Cons c cs)
  have inv: "chunk_inv k p w c" "\<And>c'. c' \<in> set cs \<Longrightarrow> chunk_inv k p w c'" using Cons.prems(1) by auto
  have mix: "a + node_bytes k \<le> b \<or> b + node_bytes k \<le> a"
    if "a \<in> set (chunk_slots k c)" "c' \<in> set cs" "b \<in> set (chunk_slots k c')" for a b c'
    using chunk_slot_props(3,4)[OF inv(1) that(1)] chunk_slot_props(3,4)[OF inv(2)[OF that(2)] that(3)]
      Cons.prems(2) that(2) by (fastforce simp: chunks_apart_def)
  consider "x \<in> set (chunk_slots k c)" "y \<in> set (chunk_slots k c)"
    | c' where "x \<in> set (chunk_slots k c)" "c' \<in> set cs" "y \<in> set (chunk_slots k c')"
    | c' where "c' \<in> set cs" "x \<in> set (chunk_slots k c')" "y \<in> set (chunk_slots k c)"
    | "x \<in> set (concat (map (chunk_slots k) cs))" "y \<in> set (concat (map (chunk_slots k) cs))"
    using Cons.prems(3,4) by auto
  then show ?case
  proof cases
    case 1 then show ?thesis using chunk_slots_spaced[OF inv(1)] Cons.prems(5) by simp
  next
    case 2 then show ?thesis using mix by blast
  next
    case 3 then show ?thesis using mix by blast
  next
    case 4 then show ?thesis using Cons by simp
  qed
qed

lemma slots_distinct_list:
  assumes "\<forall>c \<in> set cs. chunk_inv k p w c" "sorted_wrt (chunks_apart k) cs"
  shows "distinct (concat (map (chunk_slots k) cs))"
  using assms
proof (induction cs)
  case Nil
  then show ?case by simp
next
  case (Cons c cs)
  have "x \<notin> set (chunk_slots k c')" if "x \<in> set (chunk_slots k c)" "c' \<in> set cs" for x c'
  proof
    assume "x \<in> set (chunk_slots k c')"
    then show False
      using chunk_slot_props(3,4,6)[of k p w c x] chunk_slot_props(3,4)[of k p w c' x] that Cons.prems
      by (fastforce simp: chunks_apart_def)
  qed
  then show ?case using Cons by (auto simp: chunk_slots_distinct)
qed

lemma pool_slot_props:
  assumes "\<forall>c \<in> set (p_chunks p). chunk_inv k q w c" "x \<in> set (pool_slots k p)"
  shows "0 < x" and "x + node_bytes k < 2 ^ 64" and "x < 2 ^ 64"
    and "unat (node_alignment (cfg_ty k)) dvd x" and "8 \<le> node_bytes k"
proof -
  from assms obtain c where c: "chunk_inv k q w c" "x \<in> set (chunk_slots k c)"
    by (auto simp: pool_slots_def)
  show "0 < x" "x + node_bytes k < 2 ^ 64" "unat (node_alignment (cfg_ty k)) dvd x" "8 \<le> node_bytes k"
    using chunk_slot_props[OF c] by simp_all
  then show "x < 2 ^ 64" by linarith
qed

lemma pool_inv_slots:
  assumes "pool_inv k p w fl rl"
  shows "distinct (pool_slots k p)"
    and "x \<in> set (pool_slots k p) \<Longrightarrow> 0 < x \<and> x + node_bytes k < 2 ^ 64 \<and> x < 2 ^ 64 \<and> 8 \<le> node_bytes k \<and>
      unat (node_alignment (cfg_ty k)) dvd x"
    and "x \<in> set (pool_slots k p) \<Longrightarrow> y \<in> set (pool_slots k p) \<Longrightarrow> x \<noteq> y \<Longrightarrow>
      x + node_bytes k \<le> y \<or> y + node_bytes k \<le> x"
  using assms slots_distinct_list[of "p_chunks p" k p w] slots_spaced_list[of "p_chunks p" k p w x y]
    pool_slot_props[of p k p w x]
  unfolding pool_inv_def pool_slots_def by simp_all

text \<open>What the counters count.\<close>

lemma Diff_Diff_Un: "A - B - C = A - (B \<union> C)"
  by blast

lemma pool_inv_counts:
  assumes "pool_inv k p w fl rl"
  shows "unat (p_size p) = card (lent k p fl rl) + length rl"
    and "unat (free_count p) = length fl"
    and "finite (lent k p fl rl)"
proof -
  have sub: "set fl \<union> set rl \<subseteq> set (pool_slots k p)" and d: "distinct (fl @ rl)"
    and n: "unat (p_size p) + length fl = length (pool_slots k p)"
    and cap: "unat (p_capacity p) = length (pool_slots k p)"
    using assms by (simp_all add: pool_inv_def)
  have "card (lent k p fl rl) = length (pool_slots k p) - length (fl @ rl)"
    using card_Diff_subset[OF _ sub] distinct_card[OF d] distinct_card[OF pool_inv_slots(1)[OF assms]]
    by (simp add: lent_def Diff_Diff_Un)
  moreover have "length (fl @ rl) \<le> length (pool_slots k p)"
    using card_mono[OF _ sub] distinct_card[OF d, unfolded set_append] distinct_card[OF pool_inv_slots(1)[OF assms]] by simp
  ultimately show "unat (p_size p) = card (lent k p fl rl) + length rl" using n by simp
  have "p_size p \<le> p_capacity p" using n cap by (simp add: word_le_nat_alt)
  then show "unat (free_count p) = length fl"
    using n cap by (simp add: free_count_def unat_minus_le)
  show "finite (lent k p fl rl)" by (simp add: lent_def)
qed

section \<open>Frames\<close>

lemma header_not_slot:
  assumes "\<forall>c \<in> set cs. chunk_inv k p w c" "sorted_wrt (chunks_apart k) cs"
    and "cfg_headers k" "c \<in> set cs" "c \<noteq> chunk_empty (cfg_ty k)" "g < granules_nat (cfg_ty k) c"
    and "x \<in> set (concat (map (chunk_slots k) cs))"
  shows "granule_base c g + 16 \<le> x \<or> x + node_bytes k \<le> granule_base c g"
proof -
  obtain c' where c': "c' \<in> set cs" "x \<in> set (chunk_slots k c')" using assms(7) by auto
  have inv: "chunk_inv k p w c" "chunk_inv k p w c'" using assms(1,4) c'(1) by auto
  have ok: "chunk_ok True (cfg_ty k) c" using inv(1) assms(3,5) by (simp add: chunk_inv_def)
  note b = granule_base_bounds[OF ok assms(6)]
  note x = chunk_slot_props[OF inv(2) c'(2)]
  show ?thesis
  proof (cases "c' = c")
    case True
    then obtain i where "x = slot_nat True (cfg_ty k) c i"
      using c'(2) assms(3) by (auto simp: chunk_slots_def)
    then show ?thesis
      using slot_off_headers[OF ok, of g i] x(6) by auto
  next
    case False
    have "chunks_apart k c c'"
      using assms(2,4) c'(1) False
      by (induction cs) (auto simp: chunks_apart_def)
    then show ?thesis
      using b x assms(3) unfolding chunks_apart_def chunk_end_def by auto
  qed
qed

text \<open>
  A chunk stays good when memory changes only inside nodes or outside of the chunks, and no
  region is given back.
\<close>

definition in_slots :: "pool_cfg \<Rightarrow> pool \<Rightarrow> nat \<Rightarrow> bool" where
  "in_slots k p a \<longleftrightarrow> (\<exists>x \<in> set (pool_slots k p). x \<le> a \<and> a < x + node_bytes k)"

definition header_frame :: "pool_cfg \<Rightarrow> pool \<Rightarrow> world \<Rightarrow> world \<Rightarrow> bool" where
  "header_frame k p w w' \<longleftrightarrow> (\<forall>a < 2 ^ 64. \<not> in_slots k p a \<longrightarrow>
     (\<exists>c \<in> set (p_chunks p). unat (ch_nodes c) \<le> a \<and> a < chunk_end k c) \<longrightarrow>
     cells w' (adr a) = cells w (adr a))"

lemma header_frameD:
  "header_frame k p w w' \<Longrightarrow> a < 2 ^ 64 \<Longrightarrow> \<not> in_slots k p a \<Longrightarrow> c \<in> set (p_chunks p) \<Longrightarrow>
     unat (ch_nodes c) \<le> a \<Longrightarrow> a < chunk_end k c \<Longrightarrow> cells w' (adr a) = cells w (adr a)"
  unfolding header_frame_def by blast

lemma chunks_inv_frame:
  assumes "\<forall>c \<in> set (p_chunks p). chunk_inv k p w c" "sorted_wrt (chunks_apart k) (p_chunks p)"
    and "header_frame k p w w'" "set (live w) \<subseteq> set (live w')"
    and "p_self p' = p_self p" "p_page_size p' = p_page_size p"
  shows "\<forall>c \<in> set (p_chunks p). chunk_inv k p' w' c"
proof
  fix c assume c: "c \<in> set (p_chunks p)"
  have inv: "chunk_inv k p w c" using assms(1) c by simp
  show "chunk_inv k p' w' c"
  proof (cases "c = chunk_empty (cfg_ty k)")
    case True
    then show ?thesis by (simp add: chunk_inv_def)
  next
    case False
    have "headers_stamped (cfg_ty k) c (p_self p) (cells w')" if h: "cfg_headers k"
    proof -
      have ok: "chunk_ok True (cfg_ty k) c" and st: "headers_stamped (cfg_ty k) c (p_self p) (cells w)"
        using inv False h by (simp_all add: chunk_inv_def)
      have "cells w' (adr (granule_base c g)) = cells w (adr (granule_base c g)) \<and>
          cells w' (adr (granule_base c g + 8)) = cells w (adr (granule_base c g + 8))"
        if g: "g < granules_nat (cfg_ty k) c" for g
      proof -
        note b = granule_base_bounds[OF ok g]
        have "\<not> in_slots k p (granule_base c g)" "\<not> in_slots k p (granule_base c g + 8)"
          using header_not_slot[OF assms(1,2) h c False g] by (fastforce simp: in_slots_def pool_slots_def)+
        moreover have "granule_base c g + 8 < chunk_end k c"
          using b h by (simp add: chunk_end_def)
        ultimately show ?thesis
          using b by (intro conjI header_frameD[OF assms(3) _ _ c]) simp_all
      qed
      then show ?thesis using st by (simp add: headers_stamped_def)
    qed
    then show ?thesis
      using inv False assms(4-6) unfolding chunk_inv_def by (auto intro: bexI)
  qed
qed

lemma header_frameI:
  assumes "layout_ok (cfg_ty k)"
    and "\<And>a. a < 2 ^ 64 \<Longrightarrow> a \<notin> set (pool_slots k p) \<Longrightarrow> cells w' (adr a) = cells w (adr a)"
  shows "header_frame k p w w'"
  using assms(2) sizeof_node_props(2)[OF assms(1)] unfolding header_frame_def in_slots_def by fastforce

text \<open>
  Putting an invariant back together after a step that changed only the lists, the counters and
  memory at node addresses.
\<close>

lemma pool_inv_update:
  assumes "pool_inv k p w fl rl" and "header_frame k p w w'" and "live w' = live w"
    and "p' = p\<lparr>p_free_head := h, p_remote := r, p_size := s\<rparr>"
    and "free_stack (p', cells w') fl'" "remote_stack (p', cells w') rl'"
    and "distinct (fl' @ rl')" "set fl' \<union> set rl' \<subseteq> set (pool_slots k p)"
    and "\<not> cfg_headers k \<longrightarrow> rl' = []" "unat s + length fl' = length (pool_slots k p)"
  shows "pool_inv k p' w' fl' rl'"
proof -
  have sl: "pool_slots k p' = pool_slots k p" "p_chunks p' = p_chunks p"
    "p_capacity p' = p_capacity p" "p_size p' = s"
    by (simp_all add: assms(4) pool_slots_def)
  have "\<forall>c \<in> set (p_chunks p). chunk_inv k p' w' c"
    by (rule chunks_inv_frame[OF _ _ assms(2)]) (use assms(1,3,4) in \<open>simp_all add: pool_inv_def\<close>)
  moreover have "pool_static k p' = pool_static k p"
    by (simp add: pool_static_def assms(4))
  moreover have "world_ok w' = world_ok w" by (simp add: world_ok_def assms(3))
  ultimately show ?thesis
    using assms(1,5-10) unfolding pool_inv_def sl by blast
qed

section \<open>One operation after the other\<close>

lemma pop_free_inv:
  assumes "pool_inv k p w (x # fl) rl"
  shows "pop_free_node (p, cells w) = (adr x, (p\<lparr>p_free_head := cells w (adr x)\<rparr>, cells w))"
    and "pool_inv k (p\<lparr>p_free_head := cells w (adr x), p_size := p_size p + 1\<rparr>) w fl rl"
    and "x \<in> set (pool_slots k p)" "x \<notin> set fl" "x \<notin> set rl" "0 < x" "x < 2 ^ 64" "adr x \<noteq> nullptr"
proof -
  have st: "free_stack (p, cells w) (x # fl)" and rs: "remote_stack (p, cells w) rl"
    using assms by (simp_all add: pool_inv_def)
  then have x: "0 < x" "x < 2 ^ 64" by (simp_all add: free_stack_def)
  show "0 < x" "x < 2 ^ 64" "adr x \<noteq> nullptr" using x by (simp_all add: adr_eq_0_iff)
  then show pop: "pop_free_node (p, cells w) = (adr x, (p\<lparr>p_free_head := cells w (adr x)\<rparr>, cells w))"
    using st by (simp add: pop_free_node_def free_stack_def Let_def)
  show "x \<in> set (pool_slots k p)" "x \<notin> set fl" "x \<notin> set rl"
    using assms by (simp_all add: pool_inv_def)
  have n: "unat (p_size p) + length (x # fl) = length (pool_slots k p)" "unat (p_capacity p) = length (pool_slots k p)"
    using assms by (simp_all add: pool_inv_def)
  then have "unat (p_size p) + 1 < 2 ^ 64"
    using unat_lt_64[of "p_capacity p"] by simp
  then have "unat (p_size p + 1) = unat (p_size p) + 1"
    by (simp add: unat_plus_le)
  then show "pool_inv k (p\<lparr>p_free_head := cells w (adr x), p_size := p_size p + 1\<rparr>) w fl rl"
    using assms n st rs
    by (intro pool_inv_update[OF assms, where h = "cells w (adr x)" and r = "p_remote p" and s = "p_size p + 1"])
      (auto simp: pool_inv_def free_stack_def remote_stack_def header_frame_def)
qed

lemma pop_free_empty:
  assumes "pool_inv k p w [] rl"
  shows "pop_free_node (p, cells w) = (nullptr, (p, cells w))"
  using assms by (auto simp: pool_inv_def free_stack_def pop_free_node_def)

lemma drain_inv:
  assumes "pool_inv k p w fl rl"
  shows "\<exists>p' m'. pool_drain_remote (p, cells w) = Some (rl \<noteq> [], (p', m')) \<and>
     pool_inv k p' (w\<lparr>cells := m'\<rparr>) (rev rl @ fl) [] \<and>
     (\<forall>a < 2 ^ 64. a \<notin> set rl \<longrightarrow> m' (adr a) = cells w (adr a)) \<and>
     (\<exists>h s. p' = p\<lparr>p_free_head := h, p_remote := nullptr, p_size := s\<rparr>)"
proof -
  have d: "distinct (fl @ rl)" and fs: "free_stack (p, cells w) fl" and rs: "remote_stack (p, cells w) rl"
    and sub: "set fl \<union> set rl \<subseteq> set (pool_slots k p)"
    and n: "unat (p_size p) + length fl = length (pool_slots k p)"
    using assms by (simp_all add: pool_inv_def)
  have "distinct (rl @ fl)" using d by auto
  then obtain s' h where dr: "pool_drain_remote (p, cells w) = Some (rl \<noteq> [], s')"
    "free_stack s' (rev rl @ fl)"
    "fst s' = p\<lparr>p_remote := nullptr, p_free_head := h, p_size := p_size p - adr (length rl)\<rparr>"
    "\<forall>a < 2 ^ 64. a \<notin> set rl \<longrightarrow> snd s' (adr a) = cells w (adr a)"
    using drain_ends[OF rs fs] unfolding fst_conv snd_conv by blast
  obtain p' m' where s': "s' = (p', m')" by (cases s')
  have p': "p' = p\<lparr>p_free_head := h, p_remote := nullptr, p_size := p_size p - adr (length rl)\<rparr>"
    using dr(3) by (simp add: s')
  have len: "length rl + length fl \<le> length (pool_slots k p)"
    using card_mono[OF _ sub] distinct_card[OF d, unfolded set_append]
      distinct_card[OF pool_inv_slots(1)[OF assms]] by simp
  have r64: "length rl < 2 ^ 64" using len n unat_lt_64[of "p_size p"] by linarith
  have "unat (p_size p - adr (length rl)) = unat (p_size p) - length rl"
    using len n r64 by (subst unat_minus_le) (simp_all add: word_le_nat_alt unat_adr)
  then have cnt: "unat (p_size p - adr (length rl)) + length (rev rl @ fl) = length (pool_slots k p)"
    using len n by simp
  have "header_frame k p w (w\<lparr>cells := m'\<rparr>)"
    using assms dr(4) sub by (intro header_frameI) (auto simp: pool_inv_def pool_static_def s')
  then have "pool_inv k p' (w\<lparr>cells := m'\<rparr>) (rev rl @ fl) []"
    using dr(2,4) d sub cnt
    by (intro pool_inv_update[OF assms _ _ p']) (auto simp: s' remote_stack_def p')
  then show ?thesis using dr(1,4) p' by (auto simp: s')
qed

section \<open>Adding a chunk\<close>

lemma chunk_new_ok:
  assumes "chunk_new h sys t n page al w = (Inr c, w')" "sys_honest sys w" "layout_ok t"
    and "has_single_bit page" "has_single_bit al" "node_alignment t \<le> al"
  shows "chunk_ok h t c" and "ch_count c = n"
    and "h \<longrightarrow> ch_alloc_align c = granule_for t page \<and> headers_stamped t c nullptr (cells w')"
    and "\<exists>r. live w' = r # live w \<and> fresh_region w r \<and> r_base r = ch_nodes c \<and>
          r_align r = ch_alloc_align c \<and> chunk_span h t c \<le> unat (r_bytes r)"
    and "x < 2 ^ 64 \<Longrightarrow> x < unat (ch_nodes c) \<or> unat (ch_nodes c) + chunk_span h t c \<le> x \<Longrightarrow>
          cells w' (adr x) = cells w (adr x)"
proof -
  have "chunk_ok h t c \<and> ch_count c = n \<and>
    (h \<longrightarrow> ch_alloc_align c = granule_for t page \<and> headers_stamped t c nullptr (cells w')) \<and>
    (\<exists>r. live w' = r # live w \<and> fresh_region w r \<and> r_base r = ch_nodes c \<and>
          r_align r = ch_alloc_align c \<and> chunk_span h t c \<le> unat (r_bytes r)) \<and>
    (x < 2 ^ 64 \<longrightarrow> x < unat (ch_nodes c) \<or> unat (ch_nodes c) + chunk_span h t c \<le> x \<longrightarrow>
          cells w' (adr x) = cells w (adr x))"
  proof (cases h)
    case True
    then have "chunk_new_headered sys t n page w = (Inr c, w')"
      using assms(1) by (simp add: chunk_new_def)
    note c = chunk_new_headered_ok[OF this assms(2-4)]
    show ?thesis using True c(1,2,3,5,6) c(4) by (auto 0 3)
  next
    case False
    then have "chunk_new_raw sys t n page al w = (Inr c, w')"
      using assms(1) by (simp add: chunk_new_def)
    note c = chunk_new_raw_ok[OF this assms(2,3,5,6)]
    show ?thesis using False c by auto
  qed
  then show "chunk_ok h t c" "ch_count c = n"
    "h \<longrightarrow> ch_alloc_align c = granule_for t page \<and> headers_stamped t c nullptr (cells w')"
    "\<exists>r. live w' = r # live w \<and> fresh_region w r \<and> r_base r = ch_nodes c \<and>
          r_align r = ch_alloc_align c \<and> chunk_span h t c \<le> unat (r_bytes r)"
    "x < 2 ^ 64 \<Longrightarrow> x < unat (ch_nodes c) \<or> unat (ch_nodes c) + chunk_span h t c \<le> x \<Longrightarrow>
          cells w' (adr x) = cells w (adr x)"
    by blast+
qed

lemma seed_chunk_props:
  assumes "chunk_ok (cfg_headers k) (cfg_ty k) c" "slist m (p_free_head p) fl"
    and "set (chunk_slots k c) \<inter> set fl = {}"
  shows "\<exists>h m'. seed_chunk k c (p, m) =
      (p\<lparr>p_free_head := h, p_capacity := p_capacity p + ch_count c\<rparr>, m') \<and>
      slist m' h (rev (chunk_slots k c) @ fl) \<and>
      (\<forall>a < 2 ^ 64. a \<notin> set (chunk_slots k c) \<longrightarrow> m' (adr a) = m (adr a))"
proof -
  let ?xs = "chunk_slots k c"
  have rng: "\<forall>x \<in> set ?xs. 0 < x \<and> x < 2 ^ 64"
    using slot_bounds(3,4)[OF assms(1)] by (auto simp: chunk_slots_def)
  have d: "distinct ?xs"
    using slot_inj[OF assms(1)] by (auto simp: chunk_slots_def distinct_map inj_on_def)
  have fold: "foldl (\<lambda>s i. push_free_node (chunk_at (cfg_headers k) (cfg_ty k) c (adr i)) s) (p, m)
      [0..<unat (ch_count c)] = foldl (\<lambda>s x. push_free_node (adr x) s) (p, m) ?xs"
    unfolding chunk_slots_def foldl_map
    by (rule foldl_cong) (simp_all add: chunk_at_slot[OF assms(1)])
  obtain p' m' where s': "foldl (\<lambda>s x. push_free_node (adr x) s) (p, m) ?xs = (p', m')"
    by (cases "foldl (\<lambda>s x. push_free_node (adr x) s) (p, m) ?xs")
  have "free_stack (p', m') (rev ?xs @ fl)"
    using free_list.push_all[of "(p, m)" fl ?xs] assms(2,3) rng d s' by (simp add: free_stack_def)
  moreover obtain h where "p' = p\<lparr>p_free_head := h\<rparr>"
    using push_fold_frame(1)[of ?xs "(p, m)"] rng s' by auto
  moreover have "\<forall>a < 2 ^ 64. a \<notin> set ?xs \<longrightarrow> m' (adr a) = m (adr a)"
    using push_fold_frame(2)[of ?xs _ "(p, m)"] rng s' by auto
  ultimately show ?thesis
    by (auto simp: seed_chunk_def fold s' free_stack_def)
qed

text \<open>What is added to a pool when a chunk is created.\<close>

definition chunk_added :: "pool_cfg \<Rightarrow> chunk \<Rightarrow> pool \<Rightarrow> world \<Rightarrow> pool \<Rightarrow> world \<Rightarrow> bool" where
  "chunk_added k c p w p' w' \<longleftrightarrow>
     0 < unat (ch_count c) \<and> pool_slots k p' = pool_slots k p @ chunk_slots k c \<and>
     p_next_growth p' = p_next_growth p \<and> p_self p' = p_self p \<and> p_size p' = p_size p \<and>
     p_page_size p' = p_page_size p \<and> set (p_chunks p') \<subseteq> insert c (set (p_chunks p)) \<and>
     (\<exists>r. live w' = r # live w \<and> fresh_region w r \<and> r_base r = ch_nodes c \<and> chunk_end k c \<le> region_end r) \<and>
     (\<forall>a < 2 ^ 64. a < unat (ch_nodes c) \<or> chunk_end k c \<le> a \<longrightarrow> cells w' (adr a) = cells w (adr a))"

lemma fresh_chunk_apart:
  assumes "chunk_inv k p w c'" "heap_backed_mode (cfg_mode k)" "fresh_region w r"
    and "r_base r = ch_nodes c" "chunk_end k c \<le> region_end r"
  shows "chunks_apart k c' c"
proof (cases "c' = chunk_empty (cfg_ty k)")
  case True
  then show ?thesis by (simp add: chunks_apart_def)
next
  case False
  then obtain r' where r': "r' \<in> set (live w)" "r_base r' = ch_nodes c'"
      "chunk_span (cfg_headers k) (cfg_ty k) c' \<le> unat (r_bytes r')"
    using assms(1,2) by (auto simp: chunk_inv_def)
  then have "regions_apart r r'" using assms(3) by (simp add: fresh_region_def list_all_iff)
  then show ?thesis
    using r'(2,3) assms(4,5) by (auto simp: chunks_apart_def chunk_end_def regions_apart_def region_end_def)
qed

lemma pool_add_chunk_inv:
  assumes inv: "pool_inv k p w fl rl" and add: "pool_add_chunk k sys n p w = (Inr u, p', w')"
    and honest: "sys_honest sys w" and hb: "heap_backed_mode (cfg_mode k)" and n: "0 < unat n"
    and fixed: "fixed_mode (cfg_mode k) \<longrightarrow> p_capacity p = 0 \<and> n = p_next_growth p"
  shows "\<exists>c. ch_count c = n \<and> pool_inv k p' w' (rev (chunk_slots k c) @ fl) rl \<and> chunk_added k c p w p' w'"
proof -
  define t h where "t = cfg_ty k" and "h = cfg_headers k"
  have static: "pool_static k p" and cinv: "\<forall>c \<in> set (p_chunks p). chunk_inv k p w c"
    and apart: "sorted_wrt (chunks_apart k) (p_chunks p)" and wok: "world_ok w"
    and fs: "slist (cells w) (p_free_head p) fl" and rs: "slist (cells w) (p_remote p) rl"
    and sub: "set fl \<union> set rl \<subseteq> set (pool_slots k p)" and dl: "distinct (fl @ rl)"
    using inv by (simp_all add: pool_inv_def free_stack_def remote_stack_def)
  obtain c w0 where new: "chunk_new h sys t n (p_page_size p) (p_alloc_align p) w = (Inr c, w0)"
    using add by (auto simp: pool_add_chunk_def h_def t_def split: prod.splits sum.splits)
  have st: "layout_ok t" "has_single_bit (p_page_size p)" "has_single_bit (p_alloc_align p)"
    "node_alignment t \<le> p_alloc_align p"
    using static hb by (simp_all add: pool_static_def t_def)
  note c = chunk_new_ok[OF new honest st]
  obtain r where r: "live w0 = r # live w" "fresh_region w r" "r_base r = ch_nodes c"
      "r_align r = ch_alloc_align c" "chunk_span h t c \<le> unat (r_bytes r)"
    using c(4) by auto
  have cend: "chunk_end k c \<le> region_end r" and rpos: "0 < unat (r_bytes r)"
  proof -
    show "chunk_end k c \<le> region_end r"
      using r by (simp add: chunk_end_def region_end_def h_def t_def)
    have "0 < unat (ch_count c)" using n c(2) by simp
    then show "0 < unat (r_bytes r)"
      using slot_bounds(1,2)[OF c(1), of 0] sizeof_node_props(2)[OF st(1)] r(5) by linarith
  qed
  have ap: "\<forall>c' \<in> set (p_chunks p). chunks_apart k c' c"
    using cinv fresh_chunk_apart[OF _ hb r(2,3) cend] by blast
  define cs where "cs = (if fixed_mode (cfg_mode k) then [c] else p_chunks p @ [c])"
  define m1 where "m1 = (if h then stamp_owner t c (p_self p) (cells w0) else cells w0)"
  have slots0: "pool_slots k p = []" and old0: "p_chunks p = [chunk_empty t]" if f: "fixed_mode (cfg_mode k)"
  proof -
    have "length (pool_slots k p) = 0" using inv fixed f by (simp add: pool_inv_def)
    then show "pool_slots k p = []" by simp
    moreover obtain c0 where c0: "p_chunks p = [c0]"
      using static f by (auto simp: pool_static_def fixed_like_mode_def length_Suc_conv)
    ultimately have "chunk_slots k c0 = []" by (simp add: pool_slots_def)
    then show "p_chunks p = [chunk_empty t]"
      using cinv c0 by (auto simp: chunk_inv_def chunk_slots_def t_def)
  qed
  have cs: "sorted_wrt (chunks_apart k) cs" "concat (map (chunk_slots k) cs) = pool_slots k p @ chunk_slots k c"
    using apart ap slots0 by (auto simp: cs_def sorted_wrt_append pool_slots_def)
  have okc: "chunk_ok (cfg_headers k) (cfg_ty k) c" using c(1) by (simp add: h_def t_def)
  have m1: "m1 (adr a) = cells w (adr a)"
    if "a < 2 ^ 64" "a < unat (ch_nodes c) \<or> chunk_end k c \<le> a" for a
    using that c(5)[of a] headers_stamped_stamp(2)[of t c nullptr "cells w0" a] c(1,3)
    by (cases h) (auto simp: m1_def chunk_end_def h_def t_def)
  have ci: "chunk_inv k (p\<lparr>p_chunks := [c]\<rparr>) (w0\<lparr>cells := m1\<rparr>) c"
    using okc c(1-3) r n headers_stamped_stamp(1)[of t c nullptr "cells w0" "p_self p"]
    by (auto simp: chunk_inv_def m1_def h_def t_def)
  have slot_in: "unat (ch_nodes c) \<le> x \<and> x + node_bytes k \<le> chunk_end k c \<and> 8 \<le> node_bytes k"
    if "x \<in> set (chunk_slots k c)" for x
    using chunk_slot_props[OF ci that] by simp
  have outside: "x < unat (ch_nodes c) \<or> chunk_end k c \<le> x" if x: "x \<in> set (pool_slots k p)" for x
  proof -
    obtain c' where "c' \<in> set (p_chunks p)" "x \<in> set (chunk_slots k c')"
      using x by (auto simp: pool_slots_def)
    then show ?thesis
      using chunk_slot_props(3,4,6)[of k p w c' x] cinv ap by (fastforce simp: chunks_apart_def)
  qed
  have disj: "set (chunk_slots k c) \<inter> set (pool_slots k p) = {}"
    using slot_in outside by fastforce
  have "slist m1 (p_free_head p) fl"
    using fs sub m1 outside pool_inv_slots(2)[OF inv] by (subst slist_cong[where m = "cells w"]) auto
  moreover have "set (chunk_slots k c) \<inter> set fl = {}" using disj sub by auto
  ultimately obtain hd m2 where seed: "seed_chunk k c (p\<lparr>p_chunks := cs\<rparr>, m1) =
      (p\<lparr>p_chunks := cs, p_free_head := hd, p_capacity := p_capacity p + ch_count c\<rparr>, m2)"
      "slist m2 hd (rev (chunk_slots k c) @ fl)"
      "\<forall>a < 2 ^ 64. a \<notin> set (chunk_slots k c) \<longrightarrow> m2 (adr a) = m1 (adr a)"
    using seed_chunk_props[OF okc, of m1 "p\<lparr>p_chunks := cs\<rparr>" fl] by auto
  have res: "p' = p\<lparr>p_chunks := cs, p_free_head := hd, p_capacity := p_capacity p + ch_count c\<rparr>"
    "w' = w0\<lparr>cells := m2\<rparr>"
    using add new seed old0
    by (auto simp: pool_add_chunk_def chunk_move_assign_def chunk_release_def chunk_empty_def
        h_def[symmetric] t_def[symmetric] cs_def m1_def Let_def split: if_splits)
  have m2: "m2 (adr a) = cells w (adr a)"
    if "a < 2 ^ 64" "a < unat (ch_nodes c) \<or> chunk_end k c \<le> a" for a
    using that seed(3) m1 slot_in by fastforce
  have slots': "pool_slots k p' = pool_slots k p @ chunk_slots k c"
    using cs(2) by (simp add: pool_slots_def res)
  have added: "chunk_added k c p w p' w'"
    using n c(2) r cend slots' m2 by (auto simp: chunk_added_def res cs_def)
  have old: "\<forall>c' \<in> set (p_chunks p). chunk_inv k p' w' c'"
  proof (rule chunks_inv_frame[OF cinv apart])
    show "header_frame k p w w'"
      unfolding header_frame_def
    proof (intro allI impI)
      fix a :: nat assume a: "a < 2 ^ 64" "\<exists>c' \<in> set (p_chunks p). unat (ch_nodes c') \<le> a \<and> a < chunk_end k c'"
      then have "a < unat (ch_nodes c) \<or> chunk_end k c \<le> a" using ap by (fastforce simp: chunks_apart_def)
      then show "cells w' (adr a) = cells w (adr a)" using m2 a by (simp add: res)
    qed
  qed (auto simp: res r)
  have "header_frame k (p\<lparr>p_chunks := [c]\<rparr>) (w0\<lparr>cells := m1\<rparr>) w'"
    using st(1) seed(3) by (intro header_frameI) (simp_all add: t_def pool_slots_def res)
  then have "\<forall>c' \<in> set (p_chunks (p\<lparr>p_chunks := [c]\<rparr>)). chunk_inv k p' w' c'"
    by (rule chunks_inv_frame[where w = "w0\<lparr>cells := m1\<rparr>", rotated 2])
      (use ci in \<open>simp_all add: res\<close>)
  then have newc: "chunk_inv k p' w' c" by simp
  have all: "\<forall>c' \<in> set (p_chunks p'). chunk_inv k p' w' c'"
    using old newc by (auto simp: res cs_def)
  have len: "length (pool_slots k p') < 2 ^ 64"
  proof -
    have "set (pool_slots k p') \<subseteq> {0<..<2 ^ 64}"
      using pool_slot_props(1,3)[OF all] by auto
    then have "card (set (pool_slots k p')) \<le> 2 ^ 64 - 1"
      using card_mono[of "{0<..<2 ^ 64 :: nat}"] by simp
    then show ?thesis
      using distinct_card[OF slots_distinct_list[OF all]] cs(1)
      by (simp add: pool_slots_def res)
  qed
  have cap: "unat (p_capacity p') = length (pool_slots k p')"
    using len inv by (simp add: res slots'[unfolded res] chunk_slots_def pool_inv_def unat_plus_le)
  have "pool_static k p'"
    using static fixed c(2) hb
    by (cases "cfg_mode k") (auto simp: pool_static_def res cs_def fixed_like_mode_def fixed_mode_def
        noheap_mode_def heap_backed_mode_def dynamic_mode_def)
  moreover have "slist m2 (p_remote p) rl"
    using rs sub m2 outside pool_inv_slots(2)[OF inv] by (subst slist_cong[where m = "cells w"]) auto
  moreover have "world_ok w'" using world_ok_Cons[OF wok r(2) rpos, of w'] r(1) by (simp add: res)
  moreover have "distinct ((rev (chunk_slots k c) @ fl) @ rl)"
    using dl disj sub chunk_slots_distinct[OF ci] by auto
  moreover have "unat (p_size p') + length (rev (chunk_slots k c) @ fl) = length (pool_slots k p')"
    using inv slots' by (simp add: res pool_inv_def)
  moreover have "set (rev (chunk_slots k c) @ fl) \<union> set rl \<subseteq> set (pool_slots k p')"
    using sub by (auto simp: slots')
  ultimately have "pool_inv k p' w' (rev (chunk_slots k c) @ fl) rl"
    unfolding pool_inv_def using all cs(1) seed(2) inv cap
    by (simp add: res free_stack_def remote_stack_def pool_inv_def)
  then show ?thesis using added c(2) by blast
qed

lemma pool_add_chunk_failed:
  assumes "pool_add_chunk k sys n p w = (Inl e, p', w')"
  shows "p' = p" and "live w' = live w" and "cells w' = cells w" and "e = Bad_alloc \<or> e = Bad_array_new_length"
  using assms chunk_new_failed[of "cfg_headers k" sys "cfg_ty k" n "p_page_size p" "p_alloc_align p" w]
  by (auto simp: pool_add_chunk_def Let_def split: prod.splits sum.splits if_splits)

end
