(* ===== verification/Pool_Ops.thy ===== *)
theory Pool_Ops
  imports Pool_Inv
begin

text \<open>
  What each operation of the node pool does to the invariant: allocation on every path, giving
  back on the owner's thread and from others, the queries the assertions use, construction, and
  destruction.
\<close>

section \<open>Allocation\<close>

text \<open>
  Memory outside the regions that are out may change (a new chunk is written there), and inside
  them only at the listed addresses.
\<close>

definition only_touches :: "pool_cfg \<Rightarrow> nat set \<Rightarrow> world \<Rightarrow> world \<Rightarrow> bool" where
  "only_touches k A w w' \<longleftrightarrow> (\<forall>a < 2 ^ 64. cells w' (adr a) = cells w (adr a) \<or> a \<in> A \<or>
     heap_backed_mode (cfg_mode k) \<and> (\<forall>r \<in> set (live w). a < unat (r_base r) \<or> region_end r \<le> a))"

lemma only_touches_refl: "cells w' = cells w \<Longrightarrow> only_touches k A w w'"
  by (simp add: only_touches_def)

lemma chunk_added_touches:
  assumes "chunk_added k c p w p' w'" "heap_backed_mode (cfg_mode k)"
  shows "only_touches k A w w'"
proof -
  obtain r where r: "fresh_region w r" "r_base r = ch_nodes c" "chunk_end k c \<le> region_end r"
    using assms(1) by (auto simp: chunk_added_def)
  have "a < unat (r_base r') \<or> region_end r' \<le> a"
    if "r' \<in> set (live w)" "\<not> (a < unat (ch_nodes c) \<or> chunk_end k c \<le> a)" for a r'
  proof -
    have "regions_apart r r'" using r(1) that(1) by (simp add: fresh_region_def list_all_iff)
    then show ?thesis using r(2,3) that(2) by (auto simp: regions_apart_def)
  qed
  then show ?thesis
    using assms unfolding chunk_added_def only_touches_def by blast
qed

text \<open>The memory a pool has for itself, and a step of the pool as its neighbours see it.\<close>

definition pool_area :: "pool_cfg \<Rightarrow> pool \<Rightarrow> nat set" where
  "pool_area k p = {a. a < 2 ^ 64 \<and> (\<exists>c \<in> set (p_chunks p). unat (ch_nodes c) \<le> a \<and> a < chunk_end k c)}"

lemma pool_area_simps [simp]:
  "pool_area k (p\<lparr>p_free_head := h\<rparr>) = pool_area k p" "pool_area k (p\<lparr>p_size := s\<rparr>) = pool_area k p"
  "pool_area k (p\<lparr>p_remote := r\<rparr>) = pool_area k p" "pool_area k (p\<lparr>p_next_growth := g\<rparr>) = pool_area k p"
  by (simp_all add: pool_area_def)

definition pool_step :: "pool_cfg \<Rightarrow> pool \<Rightarrow> world \<Rightarrow> pool \<Rightarrow> world \<Rightarrow> bool" where
  "pool_step k p w p' w' \<longleftrightarrow> p_self p' = p_self p \<and> p_page_size p' = p_page_size p \<and>
     confined (pool_area k p) w (pool_area k p') w'"

lemma pool_step_refl [simp]: "pool_step k p w p w"
  by (simp add: pool_step_def)

lemma pool_step_trans: "pool_step k p w p1 w1 \<Longrightarrow> pool_step k p1 w1 p2 w2 \<Longrightarrow> pool_step k p w p2 w2"
  by (auto simp: pool_step_def intro: confined_trans)

lemma pool_step_grown: "cells w' = cells w \<Longrightarrow> live w' = live w \<Longrightarrow> pool_step k p w (p\<lparr>p_next_growth := g\<rparr>) w'"
  by (simp add: pool_step_def confined_same)

lemma slot_area:
  assumes "pool_inv k p w fl rl" "x \<in> set (pool_slots k p)" "i < node_bytes k"
  shows "x + i \<in> pool_area k p"
proof -
  obtain c where c: "c \<in> set (p_chunks p)" "x \<in> set (chunk_slots k c)" "chunk_inv k p w c"
    using assms(1,2) by (auto simp: pool_slots_def pool_inv_def)
  have "x + i < 2 ^ 64" using chunk_slot_props(2)[OF c(3,2)] assms(3) by linarith
  then show ?thesis
    using chunk_slot_props(3,4)[OF c(3,2)] assms(3) c(1) unfolding pool_area_def
    by (intro CollectI conjI bexI[of _ c]) simp_all
qed

lemma pool_step_slots:
  assumes "pool_inv k p w fl rl" "A \<subseteq> set (pool_slots k p)"
    and "\<forall>a < 2 ^ 64. a \<notin> A \<longrightarrow> m (adr a) = cells w (adr a)"
    and "p_chunks p' = p_chunks p" "p_self p' = p_self p" "p_page_size p' = p_page_size p"
  shows "pool_step k p w p' (w\<lparr>cells := m\<rparr>)"
proof -
  have "A \<subseteq> pool_area k p"
  proof
    fix x assume x: "x \<in> A"
    then have "8 \<le> node_bytes k" using pool_inv_slots(2)[OF assms(1)] assms(2) by blast
    then show "x \<in> pool_area k p" using slot_area[OF assms(1), of x 0] x assms(2) by auto
  qed
  then show ?thesis
    using assms(3-6) by (auto simp: pool_step_def pool_area_def confined_def)
qed

lemma chunk_added_step:
  assumes "chunk_added k c p w p' w'"
  shows "pool_step k p w p' w'"
proof -
  obtain r where r: "live w' = r # live w" "fresh_region w r" "r_base r = ch_nodes c" "chunk_end k c \<le> region_end r"
    using assms by (auto simp: chunk_added_def)
  have "\<not> (unat (ch_nodes c) \<le> a \<and> a < chunk_end k c)" if at: "live_at w a" for a
  proof -
    obtain r' where r': "r' \<in> set (live w)" "unat (r_base r') \<le> a" "a < region_end r'" using at unfolding live_at_def by blast
    then have "regions_apart r r'" using r(2) by (simp add: fresh_region_def list_all_iff)
    then show ?thesis using r(3,4) r'(2,3) by (auto simp: regions_apart_def)
  qed
  then have "confined (pool_area k p) w (pool_area k p') w'"
    using assms r(1) unfolding chunk_added_def confined_def pool_area_def by (auto simp: not_le not_less)
  then show ?thesis using assms by (simp add: pool_step_def chunk_added_def)
qed

text \<open>
  What an allocation answers.  A node: one that was not lent, and it is the only change to what
  is lent.  Null: the pool has a fixed capacity and every slot is lent.  An exception: nothing was
  free or parked, and nothing changed for the caller.
\<close>

definition alloc_outcome :: "pool_cfg \<Rightarrow> pool \<Rightarrow> nat list \<Rightarrow> nat list \<Rightarrow> exn + ptr \<Rightarrow> pool \<Rightarrow> nat set \<Rightarrow> bool" where
  "alloc_outcome k p fl rl r p' L' =
     (case r of
        Inl e \<Rightarrow> heap_backed_mode (cfg_mode k) \<and> fl = [] \<and> rl = [] \<and> L' = lent k p fl rl \<and>
                 (e = Bad_alloc \<or> e = Bad_array_new_length)
      | Inr q \<Rightarrow>
          if q = nullptr
          then fixed_like_mode (cfg_mode k) \<and> L' = lent k p fl rl \<and> lent k p fl rl = set (pool_slots k p) \<and>
               card (lent k p fl rl) = unat (p_capacity p)
          else \<exists>x. q = adr x \<and> 0 < x \<and> x < 2 ^ 64 \<and> x \<in> set (pool_slots k p') \<and>
                   x \<notin> lent k p fl rl \<and> L' = insert x (lent k p fl rl))"

definition alloc_post :: "pool_cfg \<Rightarrow> pool \<Rightarrow> world \<Rightarrow> nat list \<Rightarrow> nat list \<Rightarrow> pool_result \<Rightarrow> bool" where
  "alloc_post k p w fl rl res =
     (case res of (r, p', w') \<Rightarrow> \<exists>fl' rl'. pool_inv k p' w' fl' rl' \<and> only_touches k (set rl) w w' \<and>
        pool_step k p w p' w' \<and> alloc_outcome k p fl rl r p' (lent k p' fl' rl'))"

lemma lent_slots_cong: "pool_slots k p' = pool_slots k p \<Longrightarrow> lent k p' fl rl = lent k p fl rl"
  by (simp add: lent_def)

text \<open>A node is popped after a chunk was added or the parked nodes were taken over.\<close>

lemma take_node_post:
  assumes "pool_inv k p1 w1 (x # fl1) rl1" and "only_touches k (set rl) w w1"
    and "lent k p1 (x # fl1) rl1 = lent k p fl rl" and "pool_step k p w p1 w1"
  shows "fst (pop_free_node (p1, cells w1)) = adr x"
    and "adr x \<noteq> nullptr"
    and "alloc_post k p w fl rl (pool_take_node (adr x) (fst (snd (pop_free_node (p1, cells w1)))) w1)"
proof -
  note pop = pop_free_inv[OF assms(1)]
  show "fst (pop_free_node (p1, cells w1)) = adr x" "adr x \<noteq> nullptr" using pop by simp_all
  let ?p' = "p1\<lparr>p_free_head := cells w1 (adr x), p_size := p_size p1 + 1\<rparr>"
  have "lent k ?p' fl1 rl1 = insert x (lent k p fl rl)" "x \<notin> lent k p fl rl" "x \<in> set (pool_slots k ?p')"
    using pop(3,4,5) assms(3) by (auto simp: lent_def pool_slots_def)
  then have "alloc_outcome k p fl rl (Inr (adr x)) ?p' (lent k ?p' fl1 rl1)"
    using pop(6-8) unfolding alloc_outcome_def sum.case if_not_P[OF pop(8)] by blast
  moreover have "pool_step k p w ?p' w1" using assms(4) by (simp add: pool_step_def)
  ultimately have "alloc_post k p w fl rl (Inr (adr x), ?p', w1)"
    using pop(2) assms(2) unfolding alloc_post_def prod.case by blast
  then show "alloc_post k p w fl rl (pool_take_node (adr x) (fst (snd (pop_free_node (p1, cells w1)))) w1)"
    using pop(1) by (simp add: pool_take_node_def)
qed

text \<open>Nothing was lent: the two ways to fail.\<close>

lemma nothing_lent_post:
  assumes "pool_inv k p' w' [] []" "cells w' = cells w" "pool_slots k p' = pool_slots k p"
    and "alloc_outcome k p [] [] r p' (lent k p [] [])" "pool_step k p w p' w'"
  shows "alloc_post k p w [] [] (r, p', w')"
  using assms only_touches_refl[OF assms(2)] lent_slots_cong[OF assms(3)]
  unfolding alloc_post_def prod.case by metis

lemma outcome_thrown:
  "heap_backed_mode (cfg_mode k) \<Longrightarrow> e = Bad_alloc \<or> e = Bad_array_new_length \<Longrightarrow>
     alloc_outcome k p [] [] (Inl e) p' (lent k p [] [])"
  by (auto simp: alloc_outcome_def)

lemma outcome_exhausted:
  assumes "pool_inv k p w [] []" "fixed_like_mode (cfg_mode k)"
  shows "alloc_outcome k p [] [] (Inr nullptr) p' (lent k p [] [])"
  using assms pool_inv_slots(1)[OF assms(1)]
  by (simp add: alloc_outcome_def lent_def distinct_card pool_inv_def)

lemma pool_inv_cells_cong:
  assumes "pool_inv k p w fl rl" "cells w' = cells w" "live w' = live w"
  shows "pool_inv k p w' fl rl"
  using assms by (auto simp: pool_inv_def chunk_inv_def world_ok_def)

lemma pool_members_cong:
  "pool_slots k (p\<lparr>p_next_growth := g\<rparr>) = pool_slots k p"
  by (simp add: pool_slots_def)

lemma added_lent:
  assumes "chunk_added k c p w p' w'" "pool_inv k p' w' (rev (chunk_slots k c) @ fl) rl"
  shows "lent k p' (rev (chunk_slots k c) @ fl) rl = lent k p fl rl"
proof -
  have "distinct (pool_slots k p @ chunk_slots k c)"
    using pool_inv_slots(1)[OF assms(2)] assms(1) by (simp add: chunk_added_def)
  then show ?thesis using assms(1) by (auto simp: lent_def chunk_added_def)
qed

text \<open>Adding a chunk and popping from it.\<close>

lemma add_then_pop:
  assumes inv: "pool_inv k p w [] []" and add: "pool_add_chunk k sys n p w = (Inr u, p', w')"
    and "sys_honest sys w" "heap_backed_mode (cfg_mode k)" "0 < unat n"
    and "fixed_mode (cfg_mode k) \<longrightarrow> p_capacity p = 0 \<and> n = p_next_growth p"
    and q: "pool_slots k q = pool_slots k p" "pool_step k q w p w"
  obtains x where "fst (pop_free_node (p', cells w')) = adr x" and "adr x \<noteq> nullptr"
    and "alloc_post k q w [] [] (pool_take_node (adr x) (fst (snd (pop_free_node (p', cells w')))) w')"
proof -
  obtain c where c: "pool_inv k p' w' (rev (chunk_slots k c) @ []) []" "chunk_added k c p w p' w'"
    using pool_add_chunk_inv[OF assms(1-6)] by blast
  have "rev (chunk_slots k c) \<noteq> []" using c(2) by (auto simp: chunk_added_def chunk_slots_def)
  then obtain x fl1 where x: "rev (chunk_slots k c) @ [] = x # fl1"
    by (cases "rev (chunk_slots k c)") auto
  have l: "lent k p' (x # fl1) [] = lent k q [] []"
    using added_lent[OF c(2,1)] x lent_slots_cong[OF q(1)] by simp
  show thesis
    using that take_node_post[OF c(1)[unfolded x] chunk_added_touches[OF c(2) assms(4)] l
        pool_step_trans[OF q(2) chunk_added_step[OF c(2)]]] by blast
qed

lemma pool_grow_state:
  assumes "pool_inv k p w fl rl" "dynamic_mode (cfg_mode k)" "checked_mul (p_next_growth p) 2 = Some d"
  shows "pool_inv k (p\<lparr>p_next_growth := max 1 d\<rparr>) w fl rl" and "0 < unat (max 1 d)"
proof -
  have hb: "has_single_bit (p_next_growth p)"
    using assms(1,2) by (simp add: pool_inv_def pool_static_def mode_defs)
  then obtain j where j: "j < 64" "unat (p_next_growth p) = 2 ^ j" by (rule has_single_bitE)
  have d: "unat d = 2 ^ Suc j" using checked_mul_SomeD(2)[OF assms(3)] j by simp
  have "(2::nat) ^ Suc j < 2 ^ 64" using d unat_lt_64[of d] by simp
  then have "Suc j < 64" using power_less_imp_less_exp[of "2::nat" "Suc j" 64] by simp
  then have "d = 2 ^ Suc j" using d unat_2p[of "Suc j"] by (metis word_unat_eq_iff)
  with \<open>Suc j < 64\<close> have sb: "has_single_bit d" unfolding has_single_bit_iff by blast
  have "max 1 d = d" using d by (simp add: max_def word_le_nat_alt)
  then show "pool_inv k (p\<lparr>p_next_growth := max 1 d\<rparr>) w fl rl" "0 < unat (max 1 d)"
    using assms(1,2) sb d
    by (auto simp: pool_inv_def pool_static_def mode_defs chunk_inv_def free_stack_def remote_stack_def
        pool_members_cong)
qed

lemma pool_allocate_grow_post:
  assumes inv: "pool_inv k p w [] []" and honest: "sys_honest sys w"
  shows "alloc_post k p w [] [] (pool_allocate_grow k sys p w)"
proof (cases "fixed_like_mode (cfg_mode k)")
  case True
  then show ?thesis
    using nothing_lent_post[OF inv refl refl outcome_exhausted[OF inv True] pool_step_refl]
    by (simp add: pool_allocate_grow_def)
next
  case False
  then have dyn: "dynamic_mode (cfg_mode k)" by (cases "cfg_mode k") (simp_all add: mode_defs)
  then have hb: "heap_backed_mode (cfg_mode k)" "\<not> fixed_mode (cfg_mode k)" by (simp_all add: mode_defs)
  show ?thesis
  proof (cases "checked_mul (p_next_growth p) 2")
    case None
    then show ?thesis
      using False nothing_lent_post[OF inv refl refl outcome_thrown[OF hb(1)] pool_step_refl, of Bad_alloc]
      by (simp add: pool_allocate_grow_def pool_grow_def)
  next
    case (Some d)
    note g = pool_grow_state[OF inv dyn Some]
    let ?p1 = "p\<lparr>p_next_growth := max 1 d\<rparr>"
    obtain r p2 w2 where add: "pool_add_chunk k sys (max 1 d) ?p1 w = (r, p2, w2)"
      by (cases "pool_add_chunk k sys (max 1 d) ?p1 w") auto
    have grow: "pool_grow k sys p w = (r, p2, w2)" using Some add by (simp add: pool_grow_def Let_def)
    show ?thesis
    proof (cases r)
      case (Inl e)
      note f = pool_add_chunk_failed[OF add[unfolded Inl]]
      have "alloc_post k p w [] [] (Inl e, p2, w2)"
        by (rule nothing_lent_post[OF _ f(3) _ outcome_thrown[OF hb(1) f(4)]])
          (use f(1-3) pool_inv_cells_cong[OF g(1) f(3,2)] in \<open>simp_all add: pool_members_cong pool_step_grown\<close>)
      then show ?thesis using False grow Inl by (simp add: pool_allocate_grow_def)
    next
      case (Inr u)
      obtain x where "fst (pop_free_node (p2, cells w2)) = adr x" "adr x \<noteq> nullptr"
        "alloc_post k p w [] [] (pool_take_node (adr x) (fst (snd (pop_free_node (p2, cells w2)))) w2)"
        using add_then_pop[OF g(1) add[unfolded Inr] honest hb(1) g(2), of p] hb(2)
        by (auto simp: pool_members_cong pool_step_grown)
      then show ?thesis using False grow Inr
        by (cases "pop_free_node (p2, cells w2)") (auto simp: pool_allocate_grow_def)
    qed
  qed
qed

lemma pool_allocate_first_post:
  assumes inv: "pool_inv k p w [] []" and honest: "sys_honest sys w"
  shows "alloc_post k p w [] [] (pool_allocate_first k sys p w)"
proof (cases "heap_backed_mode (cfg_mode k) \<and> p_capacity p = 0 \<and> p_next_growth p \<noteq> 0")
  case False
  then show ?thesis using pool_allocate_grow_post[OF inv honest] by (auto simp: pool_allocate_first_def)
next
  case True
  obtain r p2 w2 where add: "pool_add_chunk k sys (p_next_growth p) p w = (r, p2, w2)"
    by (cases "pool_add_chunk k sys (p_next_growth p) p w") auto
  show ?thesis
  proof (cases r)
    case (Inl e)
    note f = pool_add_chunk_failed[OF add[unfolded Inl]]
    have "alloc_post k p w [] [] (Inl e, p2, w2)"
      by (rule nothing_lent_post[OF _ f(3) _ outcome_thrown[OF _ f(4)]])
        (use f(1-3) True pool_inv_cells_cong[OF inv f(3,2)] in \<open>simp_all add: pool_step_def confined_same\<close>)
    then show ?thesis using True add Inl by (simp add: pool_allocate_first_def)
  next
    case (Inr u)
    obtain x where "fst (pop_free_node (p2, cells w2)) = adr x" "adr x \<noteq> nullptr"
      "alloc_post k p w [] [] (pool_take_node (adr x) (fst (snd (pop_free_node (p2, cells w2)))) w2)"
      using add_then_pop[OF inv add[unfolded Inr] honest, of p] True by (auto simp: unat_gt_0)
    then show ?thesis using True add Inr
      by (cases "pop_free_node (p2, cells w2)") (auto simp: pool_allocate_first_def)
  qed
qed

lemma pool_allocate_post:
  assumes inv: "pool_inv k p w fl rl" and honest: "sys_honest sys w"
  shows "\<exists>res. pool_allocate k sys p w = Some res \<and> alloc_post k p w fl rl res"
proof (cases fl)
  case (Cons x fl1)
  note t = take_node_post[OF inv[unfolded Cons] only_touches_refl[OF refl] refl pool_step_refl]
  then show ?thesis
    using Cons by (cases "pop_free_node (p, cells w)") (auto simp: pool_allocate_def)
next
  case Nil
  note pop = pop_free_empty[OF inv[unfolded Nil]]
  show ?thesis
  proof (cases "cfg_headers k")
    case False
    then have rl: "rl = []" using inv by (simp add: pool_inv_def)
    then show ?thesis
      using pool_allocate_first_post[OF inv[unfolded Nil rl] honest] False pop
      by (auto simp: pool_allocate_def Nil)
  next
    case True
    obtain p2 m2 where dr: "pool_drain_remote (p, cells w) = Some (rl \<noteq> [], (p2, m2))"
      "pool_inv k p2 (w\<lparr>cells := m2\<rparr>) (rev rl) []"
      "\<forall>a < 2 ^ 64. a \<notin> set rl \<longrightarrow> m2 (adr a) = cells w (adr a)"
      "pool_slots k p2 = pool_slots k p" "p_chunks p2 = p_chunks p" "p_self p2 = p_self p" "p_page_size p2 = p_page_size p"
      using drain_inv[OF inv] by (auto simp: Nil pool_slots_def)
    let ?w2 = "w\<lparr>cells := m2\<rparr>"
    show ?thesis
    proof (cases "rev rl")
      case rl: Nil
      then have rl0: "rl = []" by simp
      have honest2: "sys_honest sys ?w2"
        using honest by (simp add: sys_honest_def fresh_region_def)
      have "alloc_post k p2 ?w2 [] [] (pool_allocate_first k sys p2 ?w2)"
        using pool_allocate_first_post[OF dr(2)[unfolded rl] honest2] .
      moreover have "p2 = p \<and> ?w2 = w"
      proof -
        have "p_remote p = 0" using inv by (simp add: pool_inv_def rl0 remote_stack_def)
        then show ?thesis using dr(1) rl0 by (auto simp: pool_drain_remote_def pool_take_remote_def)
      qed
      ultimately show ?thesis
        using pop dr(1) True rl0 by (auto simp: pool_allocate_def Nil)
    next
      case rl: (Cons x xs)
      have "only_touches k (set rl) w ?w2" using dr(3) by (auto simp: only_touches_def)
      moreover have "pool_step k p w p2 ?w2"
        by (rule pool_step_slots[OF inv _ dr(3,5-7)]) (use inv in \<open>simp add: pool_inv_def\<close>)
      moreover have "lent k p2 (x # xs) [] = lent k p fl rl"
        using rl dr(4) by (auto simp: lent_def Nil simp flip: set_rev[of rl])
      ultimately have "fst (pop_free_node (p2, cells ?w2)) = adr x" "adr x \<noteq> nullptr"
        "alloc_post k p w fl rl (pool_take_node (adr x) (fst (snd (pop_free_node (p2, cells ?w2)))) ?w2)"
        using take_node_post[OF dr(2)[unfolded rl]] by blast+
      then show ?thesis
        using pop dr(1) True rl by (cases "pop_free_node (p2, m2)") (auto simp: pool_allocate_def Nil)
    qed
  qed
qed

section \<open>Giving nodes back\<close>

lemma lent_slot:
  assumes "pool_inv k p w fl rl" "x \<in> lent k p fl rl"
  shows "x \<in> set (pool_slots k p)" and "x \<notin> set fl" and "x \<notin> set rl" and "0 < x" and "x < 2 ^ 64"
    and "adr x \<noteq> nullptr" and "length fl < length (pool_slots k p)"
proof -
  show x: "x \<in> set (pool_slots k p)" "x \<notin> set fl" "x \<notin> set rl"
    using assms(2) by (simp_all add: lent_def)
  show "0 < x" "x < 2 ^ 64" using pool_inv_slots(2)[OF assms(1) x(1)] by simp_all
  then show "adr x \<noteq> nullptr" by (simp add: adr_eq_0_iff)
  have "distinct (x # fl)" "set (x # fl) \<subseteq> set (pool_slots k p)"
    using assms(1) x by (simp_all add: pool_inv_def)
  then have "length (x # fl) \<le> length (pool_slots k p)"
    using card_mono[of "set (pool_slots k p)" "set (x # fl)"]
      distinct_card[of "x # fl"] distinct_card[OF pool_inv_slots(1)[OF assms(1)]] by simp
  then show "length fl < length (pool_slots k p)" by simp
qed

lemma pool_deallocate_inv:
  assumes inv: "pool_inv k p w fl rl" and x: "x \<in> lent k p fl rl"
    and d: "pool_deallocate (adr x) (p, cells w) = (p', m')"
  shows "pool_inv k p' (w\<lparr>cells := m'\<rparr>) (x # fl) rl"
    and "lent k p' (x # fl) rl = lent k p fl rl - {x}"
    and "m' = (cells w)(adr x := p_free_head p)"
proof -
  note l = lent_slot[OF inv x]
  have p': "p' = p\<lparr>p_free_head := adr x, p_remote := p_remote p, p_size := p_size p - 1\<rparr>"
    and m': "m' = (cells w)(adr x := p_free_head p)"
    using d l(6) by (auto simp: pool_deallocate_def push_free_node_def)
  show "m' = (cells w)(adr x := p_free_head p)" by (rule m')
  have sub: "set fl \<union> set rl \<subseteq> set (pool_slots k p)" and n: "unat (p_size p) + length fl = length (pool_slots k p)"
    and fs: "slist (cells w) (p_free_head p) fl" and rs: "slist (cells w) (p_remote p) rl"
    using inv by (simp_all add: pool_inv_def free_stack_def remote_stack_def)
  have "1 \<le> p_size p" using n l(7) by (simp add: word_le_nat_alt)
  then have "unat (p_size p - 1) = unat (p_size p) - 1" by (simp add: unat_minus_le)
  then have cnt: "unat (p_size p - 1) + length (x # fl) = length (pool_slots k p)" using n l(7) by simp
  have "header_frame k p w (w\<lparr>cells := m'\<rparr>)"
    using inv l(1,5) by (intro header_frameI) (auto simp: m' adr_eq_iff pool_inv_def pool_static_def)
  then show "pool_inv k p' (w\<lparr>cells := m'\<rparr>) (x # fl) rl"
    by (rule pool_inv_update[OF inv _ _ p' _ _ _ _ _ cnt])
      (use l fs rs sub inv in \<open>auto simp: m' p' adr_eq_iff free_stack_def remote_stack_def pool_inv_def\<close>)
  show "lent k p' (x # fl) rl = lent k p fl rl - {x}" by (auto simp: lent_def p' pool_slots_def)
qed

lemma pool_remote_push_inv:
  assumes inv: "pool_inv k p w fl rl" and x: "x \<in> lent k p fl rl" and h: "cfg_headers k"
    and d: "pool_remote_push (adr x) (p, cells w) = (p', m')"
  shows "pool_inv k p' (w\<lparr>cells := m'\<rparr>) fl (x # rl)"
    and "lent k p' fl (x # rl) = lent k p fl rl - {x}"
    and "m' = (cells w)(adr x := p_remote p)" and "p' = p\<lparr>p_remote := adr x\<rparr>"
proof -
  note l = lent_slot[OF inv x]
  show p0: "p' = p\<lparr>p_remote := adr x\<rparr>" and m': "m' = (cells w)(adr x := p_remote p)"
    using d by (auto simp: pool_remote_push_def Let_def)
  then have p': "p' = p\<lparr>p_free_head := p_free_head p, p_remote := adr x, p_size := p_size p\<rparr>" by simp
  have sub: "set fl \<union> set rl \<subseteq> set (pool_slots k p)" and n: "unat (p_size p) + length fl = length (pool_slots k p)"
    and fs: "slist (cells w) (p_free_head p) fl" and rs: "slist (cells w) (p_remote p) rl"
    using inv by (simp_all add: pool_inv_def free_stack_def remote_stack_def)
  have "header_frame k p w (w\<lparr>cells := m'\<rparr>)"
    using inv l(1,5) by (intro header_frameI) (auto simp: m' adr_eq_iff pool_inv_def pool_static_def)
  then show "pool_inv k p' (w\<lparr>cells := m'\<rparr>) fl (x # rl)"
    by (rule pool_inv_update[OF inv _ _ p' _ _ _ _ _ n])
      (use l fs rs sub inv h in \<open>auto simp: m' p' adr_eq_iff free_stack_def remote_stack_def pool_inv_def\<close>)
  show "lent k p' fl (x # rl) = lent k p fl rl - {x}" by (auto simp: lent_def p' pool_slots_def)
qed

section \<open>Queries\<close>

lemma free_list_search_ends:
  "slist m n fl \<Longrightarrow> x < 2 ^ 64 \<Longrightarrow> free_list_search (adr x) n m = Some (x \<in> set fl)"
proof (induction fl arbitrary: n)
  case Nil
  then show ?case by (subst free_list_search.simps) simp
next
  case (Cons y fl)
  then show ?case
    by (subst free_list_search.simps) (auto simp: adr_eq_0_iff adr_eq_iff)
qed

lemma is_in_free_list_exact:
  "pool_inv k p w fl rl \<Longrightarrow> x < 2 ^ 64 \<Longrightarrow> is_in_free_list (adr x) (p, cells w) = Some (x \<in> set fl)"
  by (simp add: is_in_free_list_def pool_inv_def free_stack_def free_list_search_ends)

lemma owns_slot:
  assumes "pool_inv k p w fl rl" "x \<in> set (pool_slots k p)"
  shows "owns_pointer k p (adr x)"
proof -
  obtain c where c: "c \<in> set (p_chunks p)" "x \<in> set (chunk_slots k c)" "chunk_inv k p w c"
    using assms by (auto simp: pool_slots_def pool_inv_def)
  then obtain i where i: "i < unat (ch_count c)" "x = slot_nat (cfg_headers k) (cfg_ty k) c i"
    by (auto simp: chunk_slots_def)
  then have ok: "chunk_ok (cfg_headers k) (cfg_ty k) c"
    using c(3) by (auto simp: chunk_inv_def chunk_empty_def)
  have "chunk_contains (cfg_headers k) (cfg_ty k) c (adr x)"
  proof (cases "cfg_headers k")
    case True
    then show ?thesis
      using chunk_contains_headered[of "cfg_ty k" c x] slot_bounds(3)[OF ok i(1)] ok i by auto
  next
    case False
    then show ?thesis using slot_contained_raw[of "cfg_ty k" c i] ok i by simp
  qed
  then show ?thesis using c(1) by (auto simp: owns_pointer_def list_ex_iff)
qed

lemma owns_headered_only_slots:
  assumes "pool_inv k p w fl rl" "cfg_headers k" "owns_pointer k p (adr x)" "x < 2 ^ 64"
  shows "x \<in> set (pool_slots k p)"
proof -
  obtain c where c: "c \<in> set (p_chunks p)" "chunk_contains True (cfg_ty k) c (adr x)" "chunk_inv k p w c"
    using assms by (auto simp: owns_pointer_def list_ex_iff pool_inv_def)
  then have ok: "chunk_ok True (cfg_ty k) c"
    using assms(2) by (auto simp: chunk_inv_def chunk_empty_def chunk_contains_def)
  then have "x \<in> set (chunk_slots k c)"
    using chunk_contains_headered[OF ok assms(4)] c(2) assms(2) by (auto simp: chunk_slots_def)
  then show ?thesis using c(1) by (auto simp: pool_slots_def)
qed

section \<open>Construction\<close>

lemma pool_members_inv:
  assumes "layout_ok (cfg_ty k)" "heap_backed_mode (cfg_mode k)" "has_single_bit n"
    and "has_single_bit (detect_page_size (sys_sysconf sys))" "world_ok w"
  shows "pool_inv k ((pool_members k sys self)\<lparr>p_next_growth := n\<rparr>) w [] []"
proof -
  let ?page = "detect_page_size (sys_sysconf sys)" and ?t = "cfg_ty k"
  have "has_single_bit (page_alloc_align ?t ?page) \<and> node_alignment ?t \<le> page_alloc_align ?t ?page"
    using assms(4) node_alignment_single[OF assms(1)] by (auto simp: page_alloc_align_def)
  then show ?thesis
    using assms
    by (cases "cfg_mode k") (auto simp: pool_inv_def pool_static_def pool_members_def Let_def mode_defs
        chunk_inv_def pool_slots_def free_stack_def remote_stack_def)
qed

lemma pool_new_inv:
  assumes "layout_ok (cfg_ty k)" "heap_backed_mode (cfg_mode k)"
    and "has_single_bit (detect_page_size (sys_sysconf sys))" "world_ok w" "sys_honest sys w"
    and new: "pool_new k sys self n w = (Inr p, w')"
  shows "\<exists>fl. pool_inv k p w' fl [] \<and> p_capacity p = n \<and> p_size p = 0 \<and> set fl = set (pool_slots k p) \<and>
    p_self p = self \<and> p_next_growth p = n \<and> p_page_size p = detect_page_size (sys_sysconf sys) \<and>
    confined {} w (pool_area k p) w'"
proof -
  have sb: "has_single_bit n" using new by (auto simp: pool_new_def split: if_splits)
  let ?p0 = "(pool_members k sys self)\<lparr>p_next_growth := n\<rparr>"
  have add: "pool_add_chunk k sys n ?p0 w = (Inr (), p, w')"
    using new sb by (auto simp: pool_new_def Let_def split: prod.splits sum.splits)
  note inv = pool_members_inv[OF assms(1,2) sb assms(3,4), of self]
  have z: "p_capacity ?p0 = 0" "p_size ?p0 = 0" "p_self ?p0 = self" "pool_slots k ?p0 = []"
    "p_page_size ?p0 = detect_page_size (sys_sysconf sys)"
    by (simp_all add: pool_members_def Let_def pool_slots_def)
  obtain c where c: "ch_count c = n" "pool_inv k p w' (rev (chunk_slots k c) @ []) []"
    "chunk_added k c ?p0 w p w'"
    using pool_add_chunk_inv[OF inv add assms(5,2)] has_single_bit_pos[OF sb] z by auto
  have "unat (p_capacity p) = unat n"
    using c z by (simp add: pool_inv_def chunk_added_def chunk_slots_def)
  then have "p_capacity p = n" by (simp add: word_unat_eq_iff)
  moreover have "pool_area k ?p0 = {}" by (simp add: pool_members_def Let_def pool_area_def)
  then have "confined {} w (pool_area k p) w'" using chunk_added_step[OF c(3)] unfolding pool_step_def by simp
  ultimately show ?thesis
    using c z by (intro exI[of _ "rev (chunk_slots k c)"]) (simp add: chunk_added_def)
qed

lemma pool_new_failed:
  assumes "pool_new k sys self n w = (Inl e, w')"
  shows "live w' = live w" and "cells w' = cells w"
    and "e = Bad_alloc \<or> e = Bad_array_new_length \<or> \<not> has_single_bit n"
proof -
  have "live w' = live w \<and> cells w' = cells w \<and> (e = Bad_alloc \<or> e = Bad_array_new_length \<or> \<not> has_single_bit n)"
  proof (cases "has_single_bit n")
    case False
    then show ?thesis using assms by (simp add: pool_new_def)
  next
    case True
    let ?p0 = "(pool_members k sys self)\<lparr>p_next_growth := n\<rparr>"
    obtain r p1 w1 where add: "pool_add_chunk k sys n ?p0 w = (r, p1, w1)"
      by (cases "pool_add_chunk k sys n ?p0 w") auto
    then have "r = Inl e" "w1 = w'"
      using assms True by (auto simp: pool_new_def Let_def split: sum.splits)
    then show ?thesis using pool_add_chunk_failed[of k sys n ?p0 w e p1 w'] add by blast
  qed
  then show "live w' = live w" "cells w' = cells w"
    "e = Bad_alloc \<or> e = Bad_array_new_length \<or> \<not> has_single_bit n" by blast+
qed

section \<open>Destruction\<close>

lemma drop_first_distinct:
  "distinct (map r_base rs) \<Longrightarrow> r \<in> set rs \<Longrightarrow>
     drop_first (\<lambda>r'. r_base r' = r_base r \<and> r_align r' = r_align r) rs = filter (\<lambda>r'. r_base r' \<noteq> r_base r) rs"
  by (rule drop_first_base) simp_all

definition chunk_bases :: "chunk list \<Rightarrow> ptr set" where
  "chunk_bases cs = {ch_nodes c |c. c \<in> set cs \<and> ch_nodes c \<noteq> nullptr}"

lemma release_chunks_live:
  assumes "heap_backed_mode (cfg_mode k)" "distinct (map r_base (live w))"
    and "\<forall>c \<in> set cs. ch_nodes c = nullptr \<or> (\<exists>r \<in> set (live w). r_base r = ch_nodes c \<and> r_align r = ch_alloc_align c)"
    and "distinct (filter (\<lambda>a. a \<noteq> nullptr) (map ch_nodes cs))"
  shows "live (release_chunks k cs w) = filter (\<lambda>r. r_base r \<notin> chunk_bases cs) (live w) \<and>
    cells (release_chunks k cs w) = cells w"
  using assms
proof (induction cs arbitrary: w)
  case Nil
  then show ?case by (simp add: release_chunks_def chunk_bases_def)
next
  case (Cons c cs)
  let ?w1 = "snd (chunk_release True c w)"
  have step: "release_chunks k (c # cs) w = release_chunks k cs ?w1"
    using Cons.prems(1) by (simp add: release_chunks_def)
  show ?case
  proof (cases "ch_nodes c = nullptr")
    case True
    then have "?w1 = w" "chunk_bases (c # cs) = chunk_bases cs"
      by (auto simp: chunk_release_def chunk_bases_def)
    then show ?thesis unfolding step using Cons.IH[of w] Cons.prems True by simp
  next
    case False
    then obtain r where r: "r \<in> set (live w)" "r_base r = ch_nodes c" "r_align r = ch_alloc_align c"
      using Cons.prems(3) by auto
    have live1: "live ?w1 = filter (\<lambda>r'. r_base r' \<noteq> ch_nodes c) (live w)"
      using False drop_first_distinct[OF Cons.prems(2) r(1)] r(2,3)
      by (simp add: chunk_release_def op_delete_def)
    have cells1: "cells ?w1 = cells w" using False by (simp add: chunk_release_def)
    have "distinct (map r_base (live ?w1))"
      unfolding live1 using Cons.prems(2) by (simp add: distinct_map_filter)
    moreover have "\<forall>c' \<in> set cs. ch_nodes c' = nullptr \<or>
        (\<exists>r \<in> set (live ?w1). r_base r = ch_nodes c' \<and> r_align r = ch_alloc_align c')"
      using Cons.prems(3,4) False unfolding live1 by (fastforce simp: image_iff)
    ultimately have "live (release_chunks k cs ?w1) = filter (\<lambda>r. r_base r \<notin> chunk_bases cs) (live ?w1) \<and>
        cells (release_chunks k cs ?w1) = cells ?w1"
      using Cons.IH[of ?w1] Cons.prems False by simp
    moreover have "chunk_bases (c # cs) = insert (ch_nodes c) (chunk_bases cs)"
      using False by (auto simp: chunk_bases_def)
    ultimately show ?thesis unfolding step by (simp add: live1 cells1 conj_commute)
  qed
qed

lemma chunk_nodes_distinct:
  assumes "\<forall>c \<in> set cs. chunk_inv k p w c" "sorted_wrt (chunks_apart k) cs"
  shows "distinct (filter (\<lambda>a. a \<noteq> nullptr) (map ch_nodes cs))"
  using assms
proof (induction cs)
  case Nil
  then show ?case by simp
next
  case (Cons c cs)
  have "ch_nodes c' \<noteq> ch_nodes c" if nz: "ch_nodes c \<noteq> 0" and c': "c' \<in> set cs" for c'
  proof
    assume eq: "ch_nodes c' = ch_nodes c"
    have pos: "unat (ch_nodes d) < chunk_end k d" if "chunk_inv k p w d" "ch_nodes d \<noteq> 0" for d
    proof -
      have d: "0 < unat (ch_count d)" "chunk_ok (cfg_headers k) (cfg_ty k) d"
        using that by (auto simp: chunk_inv_def chunk_empty_def)
      have "slot_nat (cfg_headers k) (cfg_ty k) d 0 \<in> set (chunk_slots k d)"
        using d(1) by (auto simp: chunk_slots_def)
      note s = chunk_slot_props[OF that(1) this]
      show ?thesis using s(3,4,6) by linarith
    qed
    have "chunks_apart k c c'" "chunk_inv k p w c" "chunk_inv k p w c'" using Cons.prems c' by auto
    then show False using pos[of c] pos[of c'] nz eq by (simp add: chunks_apart_def)
  qed
  then have "ch_nodes c \<noteq> 0 \<Longrightarrow> ch_nodes c \<notin> ch_nodes ` set cs" by (metis imageE)
  then show ?case using Cons by auto
qed

lemma chunk_inv_nodes: "chunk_inv k p w c \<Longrightarrow> ch_nodes c = nullptr \<Longrightarrow> c = chunk_empty (cfg_ty k)"
  by (auto simp: chunk_inv_def chunk_ok_def)

lemma pool_release_live:
  assumes inv: "pool_inv k p w fl rl"
  shows "live (release_chunks k (p_chunks p) w) =
     (if heap_backed_mode (cfg_mode k) then filter (\<lambda>r. r_base r \<notin> chunk_bases (p_chunks p)) (live w) else live w)"
proof (cases "heap_backed_mode (cfg_mode k)")
  case True
  have ci: "\<forall>c \<in> set (p_chunks p). chunk_inv k p w c" and ap: "sorted_wrt (chunks_apart k) (p_chunks p)"
    and wok: "distinct (map r_base (live w))"
    using inv by (simp_all add: pool_inv_def world_ok_def)
  have "\<forall>c \<in> set (p_chunks p). ch_nodes c = nullptr \<or>
      (\<exists>r \<in> set (live w). r_base r = ch_nodes c \<and> r_align r = ch_alloc_align c)"
    using ci True by (auto simp: chunk_inv_def chunk_empty_def)
  then show ?thesis
    using release_chunks_live[OF True wok _ chunk_nodes_distinct[OF ci ap]] True by simp
next
  case False
  have "live (release_chunks k cs w) = live w" for cs
    unfolding release_chunks_def using False
    by (induction cs rule: rev_induct) (simp_all add: chunk_release_def)
  then show ?thesis using False by simp
qed

lemma pool_destroy_live:
  assumes inv: "pool_inv k p w fl rl"
  shows "\<exists>w'. pool_destroy k p w = Some w' \<and> live w' =
     (if heap_backed_mode (cfg_mode k) then filter (\<lambda>r. r_base r \<notin> chunk_bases (p_chunks p)) (live w) else live w)"
proof (cases "cfg_headers k")
  case False
  then show ?thesis using pool_release_live[OF inv] by (simp add: pool_destroy_def)
next
  case True
  obtain p' m' where dr: "pool_drain_remote (p, cells w) = Some (rl \<noteq> [], (p', m'))"
    "pool_inv k p' (w\<lparr>cells := m'\<rparr>) (rev rl @ fl) []" "p_chunks p' = p_chunks p"
    using drain_inv[OF inv] by auto
  show ?thesis using pool_release_live[OF dr(2)] dr(1,3) True by (simp add: pool_destroy_def)
qed

end
