(* ===== verification/Block_Source.thy ===== *)
theory Block_Source
  imports System
begin

text \<open>
  What a client may rely on, whichever allocator it uses: the interface \<open>block_source\<close>.  A client
  asks for blocks, writes into the blocks it holds, has them extended in place and gives them back in
  one of the \<open>ways\<close> the source offers: on the owner's thread or by parking them, or, where the source is
  a whole process, on any thread.  \<open>session\<close> is the relation between the states such a client can reach and the set
  of blocks it holds.  The node pool, the runner and the process are instances.
\<close>

datatype way = Local | Parked

text \<open>A client writes one word.\<close>

definition client_store :: "nat \<Rightarrow> u64 \<Rightarrow> 'a \<times> world \<Rightarrow> 'a \<times> world" where
  "client_store a b s = (fst s, (snd s)\<lparr>cells := (cells (snd s))(adr a := b)\<rparr>)"

text \<open>What a step leaves alone: the extent and the contents of the blocks \<open>B\<close>.\<close>

definition keeps :: "('s \<Rightarrow> nat \<Rightarrow> nat) \<Rightarrow> ('s \<Rightarrow> memory) \<Rightarrow> nat set \<Rightarrow> 's \<Rightarrow> 's \<Rightarrow> bool" where
  "keeps extent peek B s s' \<longleftrightarrow> (\<forall>y \<in> B. extent s' y = extent s y \<and>
     (\<forall>i < extent s y. peek s' (adr (y + i)) = peek s (adr (y + i))))"

lemma keeps_refl [simp]: "keeps extent peek B s s"
  by (simp add: keeps_def)

lemma keeps_trans: "keeps extent peek B s s' \<Longrightarrow> keeps extent peek B s' s'' \<Longrightarrow> keeps extent peek B s s''"
  by (simp add: keeps_def)

lemma keeps_mono: "keeps extent peek B s s' \<Longrightarrow> A \<subseteq> B \<Longrightarrow> keeps extent peek A s s'"
  by (auto simp: keeps_def)

text \<open>A block that is extended keeps its contents, and the others are left alone.\<close>

definition extended :: "('s \<Rightarrow> nat \<Rightarrow> nat) \<Rightarrow> ('s \<Rightarrow> memory) \<Rightarrow> nat set \<Rightarrow> nat \<Rightarrow> 's \<Rightarrow> 's \<Rightarrow> bool" where
  "extended extent peek B x s s' \<longleftrightarrow> extent s x \<le> extent s' x \<and>
     (\<forall>i < extent s x. peek s' (adr (x + i)) = peek s (adr (x + i))) \<and> keeps extent peek (B - {x}) s s'"

inductive session ::
    "('q \<Rightarrow> 's \<Rightarrow> ((exn + ptr) \<times> 's) option) \<Rightarrow> ('v \<Rightarrow> ptr \<Rightarrow> 's \<Rightarrow> 's option) \<Rightarrow> ('r \<Rightarrow> ptr \<Rightarrow> 's \<Rightarrow> 's option) \<Rightarrow>
     (nat \<Rightarrow> u64 \<Rightarrow> 's \<Rightarrow> 's) \<Rightarrow> ('s \<Rightarrow> nat \<Rightarrow> nat) \<Rightarrow> ('s \<Rightarrow> bool) \<Rightarrow> 'v set \<Rightarrow> 's \<Rightarrow> 's \<Rightarrow> nat set \<Rightarrow> bool"
  for alloc give resize store extent env ways s0 where
  start: "session alloc give resize store extent env ways s0 s0 {}"
| grant: "session alloc give resize store extent env ways s0 s L \<Longrightarrow> env s \<Longrightarrow>
    alloc q s = Some (Inr a, s') \<Longrightarrow> a \<noteq> nullptr \<Longrightarrow>
    session alloc give resize store extent env ways s0 s' (insert (unat a) L)"
| refuse: "session alloc give resize store extent env ways s0 s L \<Longrightarrow> env s \<Longrightarrow>
    alloc q s = Some (Inr nullptr, s') \<Longrightarrow> session alloc give resize store extent env ways s0 s' L"
| throw: "session alloc give resize store extent env ways s0 s L \<Longrightarrow> env s \<Longrightarrow>
    alloc q s = Some (Inl e, s') \<Longrightarrow> session alloc give resize store extent env ways s0 s' L"
| give_back: "session alloc give resize store extent env ways s0 s L \<Longrightarrow> x \<in> L \<Longrightarrow> v \<in> ways \<Longrightarrow>
    give v (adr x) s = Some s' \<Longrightarrow> session alloc give resize store extent env ways s0 s' (L - {x})"
| extend: "session alloc give resize store extent env ways s0 s L \<Longrightarrow> x \<in> L \<Longrightarrow>
    resize n (adr x) s = Some s' \<Longrightarrow> session alloc give resize store extent env ways s0 s' L"
| client_write: "session alloc give resize store extent env ways s0 s L \<Longrightarrow> x \<in> L \<Longrightarrow> i < extent s x \<Longrightarrow>
    session alloc give resize store extent env ways s0 (store (x + i) b s) L"

text \<open>
  The laws: every request is answered, a granted block is not held yet, is large enough and is
  the only change; every block that is held can be given back; an extended block keeps what is in it;
  blocks that are held do not overlap.
\<close>

definition alloc_answer ::
    "('s \<Rightarrow> nat set \<Rightarrow> bool) \<Rightarrow> ('s \<Rightarrow> nat \<Rightarrow> nat) \<Rightarrow> nat \<Rightarrow> nat set \<Rightarrow> exn + ptr \<Rightarrow> 's \<Rightarrow> bool" where
  "alloc_answer holds extent bytes L r s' =
     (case r of
        Inl _ \<Rightarrow> holds s' L
      | Inr a \<Rightarrow> if a = nullptr then holds s' L
                 else unat a \<notin> L \<and> holds s' (insert (unat a) L) \<and> bytes \<le> extent s' (unat a))"

locale block_source =
  fixes alloc :: "'q \<Rightarrow> 's \<Rightarrow> ((exn + ptr) \<times> 's) option"
    and give :: "'v \<Rightarrow> ptr \<Rightarrow> 's \<Rightarrow> 's option"
    and resize :: "'r \<Rightarrow> ptr \<Rightarrow> 's \<Rightarrow> 's option"
    and store :: "nat \<Rightarrow> u64 \<Rightarrow> 's \<Rightarrow> 's"
    and peek :: "'s \<Rightarrow> memory"
    and holds :: "'s \<Rightarrow> nat set \<Rightarrow> bool"
    and extent :: "'s \<Rightarrow> nat \<Rightarrow> nat"
    and bytes :: "'q \<Rightarrow> nat"
    and env :: "'s \<Rightarrow> bool"
    and ways :: "'v set"
  assumes alloc_law: "holds s L \<Longrightarrow> env s \<Longrightarrow> \<exists>r s'. alloc q s = Some (r, s') \<and>
        alloc_answer holds extent (bytes q) L r s' \<and> keeps extent peek L s s'"
    and give_law: "holds s L \<Longrightarrow> x \<in> L \<Longrightarrow> v \<in> ways \<Longrightarrow>
        \<exists>s'. give v (adr x) s = Some s' \<and> holds s' (L - {x}) \<and> keeps extent peek (L - {x}) s s'"
    and resize_law: "holds s L \<Longrightarrow> x \<in> L \<Longrightarrow> resize n (adr x) s = Some s' \<Longrightarrow>
        holds s' L \<and> extended extent peek L x s s'"
    and store_law: "holds s L \<Longrightarrow> x \<in> L \<Longrightarrow> i < extent s x \<Longrightarrow> holds (store (x + i) b s) L"
    and apart_law: "holds s L \<Longrightarrow> x \<in> L \<Longrightarrow> y \<in> L \<Longrightarrow> x \<noteq> y \<Longrightarrow>
        x + extent s x \<le> y \<or> y + extent s y \<le> x"
begin

abbreviation reached :: "'s \<Rightarrow> 's \<Rightarrow> nat set \<Rightarrow> bool" where
  "reached \<equiv> session alloc give resize store extent env ways"

lemma reached_holds:
  assumes "reached s0 s L" "holds s0 {}"
  shows "holds s L"
  using assms
proof (induction rule: session.induct)
  case start
  then show ?case by simp
next
  case (grant s L q a s')
  then show ?case using alloc_law[of s L q] by (auto simp: alloc_answer_def)
next
  case (refuse s L q s')
  then show ?case using alloc_law[of s L q] by (auto simp: alloc_answer_def)
next
  case (throw s L q e s')
  then show ?case using alloc_law[of s L q] by (auto simp: alloc_answer_def)
next
  case (give_back s L x v s')
  then show ?case using give_law[of s L x v] by auto
next
  case (extend s L x n s')
  then show ?case using resize_law by blast
next
  case (client_write s L x i b)
  then show ?case using store_law by simp
qed

lemma reached_safe:
  assumes "holds s0 {}" "reached s0 s L"
  shows "env s \<Longrightarrow> \<exists>r s'. alloc q s = Some (r, s') \<and> keeps extent peek L s s' \<and>
      (\<forall>a. r = Inr a \<longrightarrow> a \<noteq> nullptr \<longrightarrow> unat a \<notin> L \<and> bytes q \<le> extent s' (unat a) \<and>
         (\<forall>y \<in> L. unat a + extent s' (unat a) \<le> y \<or> y + extent s y \<le> unat a))"
    and "x \<in> L \<Longrightarrow> v \<in> ways \<Longrightarrow> \<exists>s'. give v (adr x) s = Some s' \<and> keeps extent peek (L - {x}) s s'"
    and "x \<in> L \<Longrightarrow> resize n (adr x) s = Some s' \<Longrightarrow> extended extent peek L x s s'"
proof -
  have h: "holds s L" using reached_holds[OF assms(2,1)] .
  show "\<exists>s'. give v (adr x) s = Some s' \<and> keeps extent peek (L - {x}) s s'" if "x \<in> L" "v \<in> ways"
    using give_law[OF h that] by blast
  show "extended extent peek L x s s'" if "x \<in> L" "resize n (adr x) s = Some s'"
    using resize_law[OF h that] by blast
  show "\<exists>r s'. alloc q s = Some (r, s') \<and> keeps extent peek L s s' \<and>
      (\<forall>a. r = Inr a \<longrightarrow> a \<noteq> nullptr \<longrightarrow> unat a \<notin> L \<and> bytes q \<le> extent s' (unat a) \<and>
         (\<forall>y \<in> L. unat a + extent s' (unat a) \<le> y \<or> y + extent s y \<le> unat a))" if env: "env s"
  proof -
    obtain r s' where a: "alloc q s = Some (r, s')" "alloc_answer holds extent (bytes q) L r s'"
      "keeps extent peek L s s'"
      using alloc_law[OF h env] by blast
    have "unat b + extent s' (unat b) \<le> y \<or> y + extent s y \<le> unat b"
      if b: "r = Inr b" "b \<noteq> nullptr" "y \<in> L" for b y
    proof -
      have "holds s' (insert (unat b) L)" "unat b \<notin> L"
        using a(2) b(1,2) by (simp_all add: alloc_answer_def)
      moreover from this have "y \<noteq> unat b" using b(3) by auto
      ultimately show ?thesis
        using apart_law[of s' "insert (unat b) L" "unat b" y] b(3) a(3) by (auto simp: keeps_def)
    qed
    then show ?thesis using a by (auto simp: alloc_answer_def)
  qed
qed

end

end
