(* ===== verification/Pool_Correct.thy ===== *)
theory Pool_Correct
  imports Pool_Ops Block_Source
begin

text \<open>
  What the node pool promises: the pool is a \<open>block_source\<close>, and the properties of each of its
  operations, with witnesses on a pool of four nodes.
\<close>

section \<open>The pool as a source of blocks\<close>

definition pool_request :: "pool_cfg \<Rightarrow> sys \<Rightarrow> unit \<Rightarrow> pool \<times> world \<Rightarrow> ((exn + ptr) \<times> pool \<times> world) option" where
  "pool_request k sys q s = pool_allocate k sys (fst s) (snd s)"

definition pool_return :: "way \<Rightarrow> ptr \<Rightarrow> pool \<times> world \<Rightarrow> (pool \<times> world) option" where
  "pool_return v a s =
     (let (p', m') = (case v of Local \<Rightarrow> pool_deallocate a (fst s, cells (snd s))
                              | Parked \<Rightarrow> pool_remote_push a (fst s, cells (snd s)))
      in Some (p', (snd s)\<lparr>cells := m'\<rparr>))"

text \<open>A node cannot be extended.\<close>

definition pool_resize :: "unit \<Rightarrow> ptr \<Rightarrow> pool \<times> world \<Rightarrow> (pool \<times> world) option" where
  "pool_resize n a s = None"

definition pool_holds :: "pool_cfg \<Rightarrow> pool \<times> world \<Rightarrow> nat set \<Rightarrow> bool" where
  "pool_holds k s L \<longleftrightarrow> (\<exists>fl rl. pool_inv k (fst s) (snd s) fl rl \<and> L = lent k (fst s) fl rl)"

definition pool_ways :: "pool_cfg \<Rightarrow> way set" where
  "pool_ways k = (if cfg_headers k then {Local, Parked} else {Local})"

lemma lent_apart:
  assumes "pool_inv k p w fl rl" "x \<in> set (pool_slots k p)" "y \<in> set (pool_slots k p)" "x \<noteq> y" "i < node_bytes k"
  shows "x + i \<noteq> y"
  using pool_inv_slots(3)[OF assms(1-4)] pool_inv_slots(2)[OF assms(1,3)] assms(5) by auto

lemma lent_interior:
  assumes inv: "pool_inv k p w fl rl" and x: "x \<in> lent k p fl rl" and i: "i < node_bytes k"
  shows "x + i \<notin> set fl" and "x + i \<notin> set rl"
proof -
  note l = lent_slot[OF inv x]
  have "x + i \<notin> set fl \<union> set rl"
  proof
    assume y: "x + i \<in> set fl \<union> set rl"
    then have "x + i \<in> set (pool_slots k p)" using inv by (auto simp: pool_inv_def)
    moreover have "x \<noteq> x + i" using y l(2,3) by (cases i) auto
    ultimately show False using lent_apart[OF inv l(1) _ _ i] by blast
  qed
  then show "x + i \<notin> set fl" "x + i \<notin> set rl" by simp_all
qed

lemma client_store_inv:
  assumes inv: "pool_inv k p w fl rl" and x: "x \<in> lent k p fl rl" and i: "i < node_bytes k"
  shows "pool_inv k p (w\<lparr>cells := (cells w)(adr (x + i) := b)\<rparr>) fl rl"
proof -
  let ?w' = "w\<lparr>cells := (cells w)(adr (x + i) := b)\<rparr>"
  note l = lent_slot[OF inv x]
  have a: "x + i < 2 ^ 64" using pool_inv_slots(2)[OF inv l(1)] i by linarith
  note off = lent_interior[OF inv x i]
  have fs: "slist (cells w) (p_free_head p) fl" and rs: "slist (cells w) (p_remote p) rl"
    using inv by (simp_all add: pool_inv_def free_stack_def remote_stack_def)
  have "header_frame k p w ?w'"
    using l(1) i by (auto simp: header_frame_def in_slots_def adr_eq_iff[OF _ a])
  then show ?thesis
    by (rule pool_inv_update[OF inv, where p' = p and h = "p_free_head p" and r = "p_remote p" and s = "p_size p"])
      (use fs rs off a inv in \<open>simp_all add: free_stack_def remote_stack_def pool_inv_def\<close>)
qed

lemma lent_in_region:
  assumes "pool_inv k p w fl rl" "x \<in> set (pool_slots k p)" "heap_backed_mode (cfg_mode k)" "i < node_bytes k"
  shows "\<exists>r \<in> set (live w). unat (r_base r) \<le> x + i \<and> x + i < region_end r"
proof -
  obtain c where c: "c \<in> set (p_chunks p)" "x \<in> set (chunk_slots k c)" "chunk_inv k p w c"
    using assms by (auto simp: pool_slots_def pool_inv_def)
  then have "c \<noteq> chunk_empty (cfg_ty k)" by auto
  then obtain r where "r \<in> set (live w)" "r_base r = ch_nodes c"
      "chunk_span (cfg_headers k) (cfg_ty k) c \<le> unat (r_bytes r)"
    using c(3) assms(3) by (auto simp: chunk_inv_def)
  then show ?thesis
    using chunk_slot_props(3,4)[OF c(3,2)] assms(4)
    by (intro bexI[of _ r]) (simp_all add: region_end_def chunk_end_def)
qed

text \<open>An allocation leaves every byte of the lent nodes alone.\<close>

lemma only_touches_lent:
  assumes inv: "pool_inv k p w fl rl" and t: "only_touches k (set rl) w w'"
    and x: "x \<in> lent k p fl rl" and i: "i < node_bytes k"
  shows "cells w' (adr (x + i)) = cells w (adr (x + i))"
proof -
  note l = lent_slot[OF inv x]
  have a: "x + i < 2 ^ 64" using pool_inv_slots(2)[OF inv l(1)] i by linarith
  have "x + i \<notin> set rl" by (rule lent_interior(2)[OF inv x i])
  moreover have "\<not> (heap_backed_mode (cfg_mode k) \<and> (\<forall>r \<in> set (live w). x + i < unat (r_base r) \<or> region_end r \<le> x + i))"
    using lent_in_region[OF inv l(1) _ i] by force
  ultimately show ?thesis using t a unfolding only_touches_def by blast
qed

interpretation pool_source: block_source "pool_request k sys" pool_return pool_resize client_store
    "\<lambda>s. cells (snd s)" "pool_holds k" "\<lambda>_ _. node_bytes k" "\<lambda>_. unat (sizeof (cfg_ty k))"
    "\<lambda>s. sys_honest sys (snd s)" "pool_ways k"
  for k sys
proof unfold_locales
  fix s L q
  assume "pool_holds k s L" and env: "sys_honest sys (snd s)"
  then obtain fl rl where inv: "pool_inv k (fst s) (snd s) fl rl" and L: "L = lent k (fst s) fl rl"
    by (auto simp: pool_holds_def)
  obtain r p' w' where a: "pool_allocate k sys (fst s) (snd s) = Some (r, p', w')"
    "alloc_post k (fst s) (snd s) fl rl (r, p', w')"
    using pool_allocate_post[OF inv env] by auto
  then obtain fl' rl' where post: "pool_inv k p' w' fl' rl'" "only_touches k (set rl) (snd s) w'"
    "alloc_outcome k (fst s) fl rl r p' (lent k p' fl' rl')"
    by (auto simp: alloc_post_def)
  have keep: "keeps (\<lambda>_ _. node_bytes k) (\<lambda>s. cells (snd s)) L s (p', w')"
    using only_touches_lent[OF inv post(2)] by (simp add: keeps_def L)
  have "layout_ok (cfg_ty k)" using inv by (simp add: pool_inv_def pool_static_def)
  then have "unat (sizeof (cfg_ty k)) \<le> node_bytes k" by (rule sizeof_node_props(3))
  moreover have "pool_holds k (p', w') (lent k p' fl' rl')" using post(1) by (auto simp: pool_holds_def)
  ultimately have "alloc_answer (pool_holds k) (\<lambda>_ _. node_bytes k) (unat (sizeof (cfg_ty k))) L r (p', w')"
    using post(3) by (auto simp: alloc_answer_def alloc_outcome_def L unat_adr split: sum.splits if_splits)
  then show "\<exists>r s'. pool_request k sys q s = Some (r, s') \<and>
      alloc_answer (pool_holds k) (\<lambda>_ _. node_bytes k) (unat (sizeof (cfg_ty k))) L r s' \<and>
      keeps (\<lambda>_ _. node_bytes k) (\<lambda>s. cells (snd s)) L s s'"
    using a(1) keep by (auto simp: pool_request_def)
next
  fix s L x v
  assume "pool_holds k s L" and x: "x \<in> L" and v: "v \<in> pool_ways k"
  then obtain fl rl where inv: "pool_inv k (fst s) (snd s) fl rl" and L: "L = lent k (fst s) fl rl"
    by (auto simp: pool_holds_def)
  let ?op = "case v of Local \<Rightarrow> pool_deallocate (adr x) (fst s, cells (snd s))
                      | Parked \<Rightarrow> pool_remote_push (adr x) (fst s, cells (snd s))"
  obtain p' m' where op: "?op = (p', m')" by (cases ?op)
  then have r: "pool_return v (adr x) s = Some (p', (snd s)\<lparr>cells := m'\<rparr>)"
    by (simp add: pool_return_def)
  have "pool_holds k (p', (snd s)\<lparr>cells := m'\<rparr>) (L - {x}) \<and> (\<exists>b. m' = (cells (snd s))(adr x := b))"
  proof (cases v)
    case Local
    then show ?thesis
      using pool_deallocate_inv[OF inv x[unfolded L], of p' m'] op by (auto simp: pool_holds_def L)
  next
    case Parked
    then have "cfg_headers k" using v by (auto simp: pool_ways_def split: if_splits)
    then show ?thesis
      using pool_remote_push_inv[OF inv x[unfolded L], of p' m'] op Parked by (auto simp: pool_holds_def L)
  qed
  moreover have "adr (y + i) \<noteq> adr x" if "y \<in> L - {x}" "i < node_bytes k" for y i
  proof -
    have y: "y \<in> lent k (fst s) fl rl" "x \<in> lent k (fst s) fl rl" "y \<noteq> x" using that(1) x L by auto
    note ly = lent_slot[OF inv y(1)] and lx = lent_slot[OF inv y(2)]
    have "y + i < 2 ^ 64" using pool_inv_slots(2)[OF inv ly(1)] that(2) by linarith
    then show ?thesis using lent_apart[OF inv ly(1) lx(1) y(3) that(2)] lx(5) by (simp add: adr_eq_iff)
  qed
  ultimately show "\<exists>s'. pool_return v (adr x) s = Some s' \<and> pool_holds k s' (L - {x}) \<and>
      keeps (\<lambda>_ _. node_bytes k) (\<lambda>s. cells (snd s)) (L - {x}) s s'"
    using r by (auto simp: keeps_def)
next
  fix s L x n s'
  assume "pool_resize n (adr x) s = Some s'"
  then show "pool_holds k s' L \<and> extended (\<lambda>_ _. node_bytes k) (\<lambda>s. cells (snd s)) L x s s'"
    by (simp add: pool_resize_def)
next
  fix s L x i b
  assume "pool_holds k s L" "x \<in> L" "i < node_bytes k"
  then show "pool_holds k (client_store (x + i) b s) L"
    using client_store_inv[of k "fst s" "snd s"]
    unfolding pool_holds_def client_store_def fst_conv snd_conv by blast
next
  fix s L x y
  assume "pool_holds k s L" "x \<in> L" "y \<in> L" "x \<noteq> y"
  then show "x + node_bytes k \<le> y \<or> y + node_bytes k \<le> x"
    using pool_inv_slots(3)[of k "fst s" "snd s"] by (auto simp: pool_holds_def lent_def)
qed

section \<open>Properties\<close>

text \<open>
  C12. Allocation: in a good pool whose system answers honestly, \<open>allocate\<close> always returns (every
  list walk ends) and keeps the invariant.  It answers a node that was neither lent, nor free
  twice; or null, and then the pool has a fixed capacity and exactly that many nodes are lent; or
  it throws, and then nothing was free or parked and nothing changed for the caller.  No byte of a
  lent node changes.
\<close>

theorem pool_allocate_correct:
  assumes "pool_inv k p w fl rl" and "sys_honest sys w"
  shows "\<exists>r p' w' fl' rl'. pool_allocate k sys p w = Some (r, p', w') \<and> pool_inv k p' w' fl' rl' \<and>
    (\<forall>x \<in> lent k p fl rl. \<forall>i < unat (sizeof_node (cfg_ty k)). cells w' (adr (x + i)) = cells w (adr (x + i))) \<and>
    (case r of
       Inl e \<Rightarrow> heap_backed_mode (cfg_mode k) \<and> fl = [] \<and> rl = [] \<and> lent k p' fl' rl' = lent k p fl rl \<and>
                (e = Bad_alloc \<or> e = Bad_array_new_length)
     | Inr q \<Rightarrow>
         if q = nullptr
         then fixed_like_mode (cfg_mode k) \<and> lent k p' fl' rl' = lent k p fl rl \<and>
              card (lent k p fl rl) = unat (p_capacity p)
         else \<exists>x. q = adr x \<and> x \<in> set (pool_slots k p') \<and> x \<notin> lent k p fl rl \<and>
                  lent k p' fl' rl' = insert x (lent k p fl rl) \<and>
                  unat (node_alignment (cfg_ty k)) dvd x \<and>
                  (\<forall>y \<in> lent k p fl rl. x + unat (sizeof_node (cfg_ty k)) \<le> y \<or> y + unat (sizeof_node (cfg_ty k)) \<le> x))"
proof -
  obtain r p' w' where a: "pool_allocate k sys p w = Some (r, p', w')" "alloc_post k p w fl rl (r, p', w')"
    using pool_allocate_post[OF assms] by auto
  then obtain fl' rl' where post: "pool_inv k p' w' fl' rl'" "only_touches k (set rl) w w'"
    "alloc_outcome k p fl rl r p' (lent k p' fl' rl')"
    by (auto simp: alloc_post_def)
  let ?L = "lent k p fl rl"
  have geo: "unat (node_alignment (cfg_ty k)) dvd x \<and> (\<forall>y \<in> L. x + node_bytes k \<le> y \<or> y + node_bytes k \<le> x)"
    if "x \<in> set (pool_slots k p')" "x \<notin> L" "lent k p' fl' rl' = insert x L" for x L
  proof -
    have "L \<subseteq> set (pool_slots k p')" using that(3) by (auto simp: lent_def)
    then show ?thesis
      using pool_inv_slots(2)[OF post(1) that(1)] pool_inv_slots(3)[OF post(1) that(1)] that(2) by blast
  qed
  have "\<exists>x. q = adr x \<and> x \<in> set (pool_slots k p') \<and> x \<notin> ?L \<and> lent k p' fl' rl' = insert x ?L \<and>
      unat (node_alignment (cfg_ty k)) dvd x \<and> (\<forall>y \<in> ?L. x + node_bytes k \<le> y \<or> y + node_bytes k \<le> x)"
    if q: "r = Inr q" "q \<noteq> nullptr" for q
  proof -
    obtain x where "q = adr x" "x \<in> set (pool_slots k p')" "x \<notin> ?L" "lent k p' fl' rl' = insert x ?L"
      using post(3) q by (auto simp: alloc_outcome_def)
    then show ?thesis using geo by blast
  qed
  then show ?thesis
    using a(1) post(1,3) only_touches_lent[OF assms(1) post(2)]
    by (rule_tac exI[of _ r], rule_tac exI[of _ p'], rule_tac exI[of _ w'], rule_tac exI[of _ fl'],
        rule_tac exI[of _ rl']) (auto simp: alloc_outcome_def split: sum.splits)
qed

text \<open>
  C21. Giving a node back on the owner's thread: the node goes to the front of the free list, one
  node fewer is lent, only the node's own first word is written, and the next allocation hands out
  this very node.
\<close>

theorem pool_deallocate_correct:
  assumes "pool_inv k p w fl rl" and "x \<in> lent k p fl rl"
  defines "s \<equiv> pool_deallocate (adr x) (p, cells w)"
  shows "(pool_inv k (fst s) (w\<lparr>cells := snd s\<rparr>) (x # fl) rl) \<and>
    (lent k (fst s) (x # fl) rl = lent k p fl rl - {x}) \<and>
    (y < 2 ^ 64 \<longrightarrow> y \<noteq> x \<longrightarrow> snd s (adr y) = cells w (adr y)) \<and>
    (\<exists>s'. pool_allocate k sys (fst s) (w\<lparr>cells := snd s\<rparr>) = Some (Inr (adr x), s')) \<and>
    (pool_deallocate nullptr (p, m) = (p, m))"
proof -
  note d = pool_deallocate_inv[OF assms(1,2), of "fst s" "snd s", unfolded s_def prod.collapse, OF refl, folded s_def]
  have inv: "pool_inv k (fst s) (w\<lparr>cells := snd s\<rparr>) (x # fl) rl" by (rule d)
  have part1: "lent k (fst s) (x # fl) rl = lent k p fl rl - {x}" by (rule d)
  have part2: "y < 2 ^ 64 \<Longrightarrow> y \<noteq> x \<Longrightarrow> snd s (adr y) = cells w (adr y)"
    using lent_slot(5)[OF assms(1,2)] by (simp add: d(3) adr_eq_iff)
  have part3: "\<exists>s'. pool_allocate k sys (fst s) (w\<lparr>cells := snd s\<rparr>) = Some (Inr (adr x), s')"
    using pop_free_inv(1,8)[OF inv] by (simp add: pool_allocate_def pool_take_node_def)
  have part4: "pool_deallocate nullptr (p, m) = (p, m)" by (simp add: pool_deallocate_def)
  show ?thesis using inv part1 part2 part3 part4 by blast
qed

text \<open>
  C22. Parking: \<open>remote_push\<close> keeps the invariant, writes only the node's own first word and the
  remote head, and leaves the owner's size, free list and chunks alone.  When the owner's free
  list is empty its next allocation takes the whole stack over and hands out the oldest parked
  node, also in a fixed pool all of whose nodes are parked.
\<close>

theorem pool_remote_push_correct:
  assumes "pool_inv k p w fl rl" and "x \<in> lent k p fl rl" and "cfg_headers k"
  defines "s \<equiv> pool_remote_push (adr x) (p, cells w)"
  shows "(pool_inv k (fst s) (w\<lparr>cells := snd s\<rparr>) fl (x # rl)) \<and>
    (lent k (fst s) fl (x # rl) = lent k p fl rl - {x}) \<and>
    (y < 2 ^ 64 \<longrightarrow> y \<noteq> x \<longrightarrow> snd s (adr y) = cells w (adr y)) \<and>
    fst s = p\<lparr>p_remote := adr x\<rparr> \<and>
    (fl = [] \<longrightarrow> (\<exists>p' w'. pool_allocate k sys (fst s) (w\<lparr>cells := snd s\<rparr>) = Some (Inr (adr (last (x # rl))), p', w') \<and>
           pool_inv k p' w' (tl (rev (x # rl))) []))"
proof -
  note d = pool_remote_push_inv[OF assms(1-3), of "fst s" "snd s", unfolded s_def prod.collapse, OF refl, folded s_def]
  have inv: "pool_inv k (fst s) (w\<lparr>cells := snd s\<rparr>) fl (x # rl)" by (rule d)
  have part1: "lent k (fst s) fl (x # rl) = lent k p fl rl - {x}" "fst s = p\<lparr>p_remote := adr x\<rparr>" by (rule d)+
  have part2: "y < 2 ^ 64 \<Longrightarrow> y \<noteq> x \<Longrightarrow> snd s (adr y) = cells w (adr y)"
    using lent_slot(5)[OF assms(1,2)] by (simp add: d(3) adr_eq_iff)
  have part3: "\<exists>p' w'. pool_allocate k sys (fst s) (w\<lparr>cells := snd s\<rparr>) = Some (Inr (adr (last (x # rl))), p', w') \<and>
           pool_inv k p' w' (tl (rev (x # rl))) []"
    if fl: "fl = []"
  proof -
    obtain p2 m2 where dr: "pool_drain_remote (fst s, snd s) = Some (True, (p2, m2))"
      "pool_inv k p2 (w\<lparr>cells := m2\<rparr>) (rev (x # rl)) []"
      using drain_inv[OF inv] by (auto simp: fl)
    obtain ys where ys: "rev (x # rl) = last (x # rl) # ys"
      by (metis append_butlast_last_id list.distinct(1) rev.simps(2) rev_eq_Cons_iff rev_rev_ident)
    then have tl: "tl (rev (x # rl)) = ys" by simp
    note pop = pop_free_inv[OF dr(2)[unfolded ys]]
    show ?thesis
      using pop(1,2,8) pop_free_empty[OF inv[unfolded fl]] dr(1) assms(3)
      unfolding tl by (cases s) (simp add: pool_allocate_def pool_take_node_def del: rev.simps last.simps)
  qed
  show ?thesis using inv part1 part2 part3 by blast
qed


text \<open>
  C33. Destruction drains, and then gives every chunk's region back to the system exactly once and
  no other region; \<open>_size\<close> after the drain counts the nodes that clients still hold, so the
  destructor's assertion fails exactly when one is outstanding.
\<close>

theorem pool_destroy_correct:
  assumes "pool_inv k p w fl rl" and "heap_backed_mode (cfg_mode k)"
  shows "(\<exists>w'. pool_destroy k p w = Some w' \<and>
      live w' = filter (\<lambda>r. r_base r \<notin> chunk_bases (p_chunks p)) (live w)) \<and>
    (\<exists>b p' m'. pool_drain_remote (p, cells w) = Some (b, p', m') \<and>
      (p_size p' = 0 \<longleftrightarrow> lent k p fl rl = {}) \<and> p_remote p' = nullptr)"
proof -
  have part1: "\<exists>w'. pool_destroy k p w = Some w' \<and>
      live w' = filter (\<lambda>r. r_base r \<notin> chunk_bases (p_chunks p)) (live w)"
    using pool_destroy_live[OF assms(1)] assms(2) by simp
  obtain p' m' where dr: "pool_drain_remote (p, cells w) = Some (rl \<noteq> [], (p', m'))"
    "pool_inv k p' (w\<lparr>cells := m'\<rparr>) (rev rl @ fl) []" "pool_slots k p' = pool_slots k p" "p_remote p' = 0"
    using drain_inv[OF assms(1)] by (auto simp: pool_slots_def)
  have "lent k p' (rev rl @ fl) [] = lent k p fl rl" by (auto simp: lent_def dr(3))
  then have "unat (p_size p') = card (lent k p fl rl)" "finite (lent k p fl rl)"
    using pool_inv_counts(1,3)[OF dr(2)] by simp_all
  then have part2: "\<exists>b p' m'. pool_drain_remote (p, cells w) = Some (b, p', m') \<and>
      (p_size p' = 0 \<longleftrightarrow> lent k p fl rl = {}) \<and> p_remote p' = nullptr"
    using dr(1,4) by (auto simp flip: unat_eq_zero)
  show ?thesis using part1 part2 by blast
qed

text \<open>
  The debug assertions are exact on the pool's nodes: a node that is lent is owned and not in
  the free list (so a correct free never trips them), a node that is free is found there (so a
  double free is detected); in the headered layout the pool owns exactly its slots.
\<close>

theorem pool_assertions_exact:
  assumes "pool_inv k p w fl rl"
  shows "(x \<in> lent k p fl rl \<longrightarrow> pool_owns k p (adr x) \<and> is_in_free_list (adr x) (p, cells w) = Some False) \<and>
    (x \<in> set fl \<longrightarrow> is_in_free_list (adr x) (p, cells w) = Some True) \<and>
    (cfg_headers k \<longrightarrow> x < 2 ^ 64 \<longrightarrow> owns_pointer k p (adr x) \<longleftrightarrow> x \<in> set (pool_slots k p)) \<and>
    (unat (p_size p) = card (lent k p fl rl) + length rl) \<and>
    (unat (free_count p) = length fl)"
proof -
  have part1: "pool_owns k p (adr x) \<and> is_in_free_list (adr x) (p, cells w) = Some False" if x: "x \<in> lent k p fl rl"
    using lent_slot(1,2,5,6)[OF assms x] owns_slot[OF assms] is_in_free_list_exact[OF assms]
    by (simp add: pool_owns_def)
  have part2: "is_in_free_list (adr x) (p, cells w) = Some True" if x: "x \<in> set fl"
  proof -
    have "x \<in> set (pool_slots k p)" using assms x by (auto simp: pool_inv_def)
    then show ?thesis
      using pool_inv_slots(2)[OF assms, of x] is_in_free_list_exact[OF assms, of x] x by simp
  qed
  have part3: "owns_pointer k p (adr x) \<longleftrightarrow> x \<in> set (pool_slots k p)" if "cfg_headers k" "x < 2 ^ 64"
    using owns_slot[OF assms] owns_headered_only_slots[OF assms that(1) _ that(2)] by blast
  have part4: "unat (p_size p) = card (lent k p fl rl) + length rl" "unat (free_count p) = length fl"
    using pool_inv_counts[OF assms] by simp_all
  show ?thesis using part1 part2 part3 part4 by blast
qed

text \<open>
  C31. A fixed-like pool that has its chunk has an exact capacity: \<open>allocate\<close> answers null exactly
  when as many nodes are lent as the pool was made for (parked nodes do not count as lent), it
  never throws and never asks the system for memory.
\<close>

theorem fixed_capacity_exact:
  assumes "pool_inv k p w fl rl" and "fixed_like_mode (cfg_mode k)" and "p_capacity p \<noteq> 0"
  shows "(\<exists>q p' w'. pool_allocate k sys p w = Some (Inr q, p', w') \<and>
      (q = nullptr \<longleftrightarrow> card (lent k p fl rl) = unat (p_capacity p)) \<and>
      p_capacity p' = p_capacity p \<and> live w' = live w \<and> calls w' = calls w) \<and>
    (fixed_mode (cfg_mode k) \<longrightarrow> p_capacity p = p_next_growth p)"
proof -
  have cnt: "card (lent k p fl rl) + length rl + length fl = unat (p_capacity p)"
    using pool_inv_counts(1)[OF assms(1)] assms(1) by (simp add: pool_inv_def)
  have part1: "p_capacity p = p_next_growth p" if "fixed_mode (cfg_mode k)"
    using that assms(1,3) by (simp add: pool_inv_def pool_static_def)
  have last: "pool_allocate_first k sys q v = (Inr nullptr, q, v)" if "p_capacity q = p_capacity p" for q v
    using that assms(2,3) by (simp add: pool_allocate_first_def pool_allocate_grow_def)
  have part2: "\<exists>q p' w'. pool_allocate k sys p w = Some (Inr q, p', w') \<and>
      (q = nullptr \<longleftrightarrow> card (lent k p fl rl) = unat (p_capacity p)) \<and>
      p_capacity p' = p_capacity p \<and> live w' = live w \<and> calls w' = calls w"
  proof (cases fl)
    case (Cons x fl1)
    note pop = pop_free_inv(1,8)[OF assms(1)[unfolded Cons]]
    have "card (lent k p fl rl) \<noteq> unat (p_capacity p)" using cnt Cons by simp
    then show ?thesis using pop by (simp add: pool_allocate_def pool_take_node_def)
  next
    case Nil
    note pop = pop_free_empty[OF assms(1)[unfolded Nil]]
    show ?thesis
    proof (cases "cfg_headers k")
      case False
      then have "rl = []" using assms(1) by (simp add: pool_inv_def)
      then show ?thesis using pop False last cnt Nil by (simp add: pool_allocate_def)
    next
      case True
      obtain p2 m2 where dr: "pool_drain_remote (p, cells w) = Some (rl \<noteq> [], (p2, m2))"
        "pool_inv k p2 (w\<lparr>cells := m2\<rparr>) (rev rl) []" "p_capacity p2 = p_capacity p"
        using drain_inv[OF assms(1)] by (auto simp: Nil)
      show ?thesis
      proof (cases "rev rl")
        case rl: Nil
        then show ?thesis using pop True dr(1,3) last cnt Nil by (simp add: pool_allocate_def Let_def)
      next
        case rl: (Cons x xs)
        note pop2 = pop_free_inv(1,8)[OF dr(2)[unfolded rl]]
        have "card (lent k p fl rl) \<noteq> unat (p_capacity p)" "rl \<noteq> []" using cnt rl by auto
        then show ?thesis using pop True dr(1,3) pop2
          by (simp add: pool_allocate_def pool_take_node_def Let_def)
      qed
    qed
  qed
  show ?thesis using part1 part2 by blast
qed

text \<open>
  C19. A client of the pool is safe whatever it does: after any session of requests, writes into
  nodes it holds, and returns on either path, the next request is answered, a granted node is not
  held and overlaps no node that is held, the contents of every held node are what the client
  stored, and every held node can be given back.
\<close>

theorem pool_session_safe:
  assumes "session (pool_request k sys) pool_return pool_resize client_store (\<lambda>_ _. unat (sizeof_node (cfg_ty k)))
             (\<lambda>s. sys_honest sys (snd s)) (pool_ways k) s0 s L"
    and "pool_holds k s0 {}"
  shows "(sys_honest sys (snd s) \<longrightarrow> (\<exists>r s'. pool_request k sys () s = Some (r, s') \<and>
      (\<forall>y \<in> L. \<forall>i < unat (sizeof_node (cfg_ty k)). cells (snd s') (adr (y + i)) = cells (snd s) (adr (y + i))) \<and>
      (\<forall>a. r = Inr a \<longrightarrow> a \<noteq> nullptr \<longrightarrow> unat a \<notin> L \<and> unat (sizeof (cfg_ty k)) \<le> unat (sizeof_node (cfg_ty k)) \<and>
         (\<forall>y \<in> L. unat a + unat (sizeof_node (cfg_ty k)) \<le> y \<or> y + unat (sizeof_node (cfg_ty k)) \<le> unat a)))) \<and>
    (x \<in> L \<longrightarrow> v \<in> pool_ways k \<longrightarrow> (\<exists>s'. pool_return v (adr x) s = Some s' \<and>
      (\<forall>y \<in> L - {x}. \<forall>i < unat (sizeof_node (cfg_ty k)).
         cells (snd s') (adr (y + i)) = cells (snd s) (adr (y + i)))))"
  using pool_source.reached_safe(1)[OF assms(2,1), where q = "()"]
    pool_source.reached_safe(2)[OF assms(2,1), of x v]
  unfolding keeps_def by simp

text \<open>The header word that masking the address of a node reaches.\<close>

lemma owner_word_of_slot:
  assumes "pool_inv k p w fl rl" and "cfg_headers k" and "x \<in> set (pool_slots k p)"
  shows "(cells w (granule_of (granule_for (cfg_ty k) (p_page_size p)) (adr x)) = p_self p) \<and>
    (cells w (granule_of (granule_for (cfg_ty k) (p_page_size p)) (adr x) + 8) = granule_debug_tag)"
proof -
  obtain c where c: "c \<in> set (p_chunks p)" "x \<in> set (chunk_slots k c)" "chunk_inv k p w c"
    using assms by (auto simp: pool_slots_def pool_inv_def)
  then obtain i where i: "i < unat (ch_count c)" "x = slot_nat True (cfg_ty k) c i"
    using assms(2) by (auto simp: chunk_slots_def)
  then have ok: "chunk_ok True (cfg_ty k) c" "ch_alloc_align c = granule_for (cfg_ty k) (p_page_size p)"
    "headers_stamped (cfg_ty k) c (p_self p) (cells w)"
    using c(3) assms(2) by (auto simp: chunk_inv_def chunk_empty_def)
  have part1: "cells w (granule_of (granule_for (cfg_ty k) (p_page_size p)) (adr x)) = p_self p"
    "cells w (granule_of (granule_for (cfg_ty k) (p_page_size p)) (adr x) + 8) = granule_debug_tag"
    using ok(3) granule_of_slot[OF ok(1) i(1)] granules_nat_eq(2)[OF ok(1) i(1)]
    by (simp_all add: headers_stamped_def ok(2)[symmetric] i(2) adr_plus_numeral)
  show ?thesis using part1 by blast
qed

text \<open>
  C30. Routing: the granule header that masking the address of any node of a headered pool reaches
  holds the pool's own address, in every state, so a free on a foreign thread finds the owner.
\<close>

theorem pool_owner_routing:
  assumes "pool_inv k p w fl rl" and "cfg_headers k" and "x \<in> set (pool_slots k p)"
  shows "(cells w (granule_of (granule_for (cfg_ty k) (p_page_size p)) (adr x)) = p_self p) \<and>
    (cells w (granule_of (granule_for (cfg_ty k) (p_page_size p)) (adr x) + 8) = granule_debug_tag)"
  by (rule owner_word_of_slot[OF assms])

text \<open>
  A pool over caller-supplied storage: the constructor accepts exactly the spans in which an
  aligned node fits; the pool's nodes are as many as fit behind the first aligned address, all of
  them inside the span.
\<close>

theorem pool_external_correct:
  assumes "layout_ok (cfg_ty k)" and "cfg_mode k = Noheap" and "\<not> cfg_headers k" and "world_ok w"
    and "data \<noteq> nullptr" and "unat data + unat bytes < 2 ^ 64"
  shows "case pool_new_external k self data bytes (cells w) of
      (Inr p, m') \<Rightarrow> \<exists>fl. pool_inv k p (w\<lparr>cells := m'\<rparr>) fl [] \<and> lent k p fl [] = {} \<and> 0 < unat (p_capacity p) \<and>
         (\<forall>x \<in> set (pool_slots k p). unat data \<le> x \<and> x + unat (sizeof_node (cfg_ty k)) \<le> unat data + unat bytes)
    | (Inl e, m') \<Rightarrow> m' = cells w \<and> \<not> (\<exists>a. unat (node_alignment (cfg_ty k)) dvd a \<and> unat data \<le> a \<and>
         a + unat (sizeof_node (cfg_ty k)) \<le> unat data + unat bytes)"
proof -
  let ?t = "cfg_ty k"
  have al: "has_single_bit (node_alignment ?t)" by (rule node_alignment_single[OF assms(1)])
  have S: "8 \<le> unat (sizeof_node ?t)" by (rule sizeof_node_props(2)[OF assms(1)])
  then have nz: "sizeof_node ?t \<noteq> 0" by auto
  show ?thesis
  proof (cases "std_align (node_alignment ?t) (sizeof_node ?t) data bytes")
    case None
    then have "\<not> (\<exists>a. unat (node_alignment ?t) dvd a \<and> unat data \<le> a \<and>
         a + unat (sizeof_node ?t) \<le> unat data + unat bytes)"
      using std_align_NoneD[OF al None] by blast
    then show ?thesis using None by (auto simp: pool_new_external_def Let_def)
  next
    case (Some q)
    obtain al_ptr space where q: "q = (al_ptr, space)" by (cases q)
    note sa = std_align_SomeD[OF al Some[unfolded q] less_imp_le[OF assms(6)] nz]
    let ?n = "space div sizeof_node ?t"
    have un: "unat ?n = unat space div unat (sizeof_node ?t)" by (simp add: unat_div)
    have npos: "0 < unat ?n" using sa(5) S by (simp add: un div_greater_zero_iff)
    have bnz: "bytes \<noteq> 0" using sa(2,4,5) S by auto
    define c where "c = chunk_external ?t al_ptr ?n"
    have span: "unat ?n * unat (sizeof_node ?t) \<le> unat space"
      unfolding un by (rule div_times_less_eq_dividend)
    have "0 < unat data" using assms(5) by (simp add: unat_gt_0)
    then have "0 < unat al_ptr" using sa(2) by linarith
    then have anz: "al_ptr \<noteq> 0" by (simp add: unat_gt_0)
    have okc: "chunk_ok (cfg_headers k) ?t c"
      using assms(1,3,6) sa span anz by (simp add: c_def chunk_external_def chunk_ok_def chunk_span_def)
    let ?p0 = "\<lparr>p_self = self, p_size = 0, p_capacity = 0, p_next_growth = 0, p_page_size = 4096,
                      p_nodes_per_page = 1, p_alloc_align = node_alignment ?t, p_free_head = nullptr,
                      p_chunks = [c], p_remote = nullptr\<rparr>"
    obtain h m' where seed: "seed_chunk k c (?p0, cells w) =
        (?p0\<lparr>p_free_head := h, p_capacity := ch_count c\<rparr>, m')" "slist m' h (rev (chunk_slots k c))"
      using seed_chunk_props[OF okc, of "cells w" ?p0 "[]"] by auto
    let ?p = "?p0\<lparr>p_free_head := h, p_capacity := ch_count c\<rparr>"
    have res: "pool_new_external k self data bytes (cells w) = (Inr ?p, m')"
      using Some q npos bnz seed(1)
      by (auto simp: pool_new_external_def pool_add_external_chunk_def Let_def c_def unat_gt_0)
    have slots: "pool_slots k ?p = chunk_slots k c" by (simp add: pool_slots_def)
    have cc: "ch_count c = ?n" by (simp add: c_def chunk_external_def)
    have ci: "chunk_inv k ?p (w\<lparr>cells := m'\<rparr>) c"
      using okc npos assms(2,3) cc by (simp add: chunk_inv_def mode_defs)
    have inv: "pool_inv k ?p (w\<lparr>cells := m'\<rparr>) (rev (chunk_slots k c)) []"
      using ci chunk_slots_distinct[OF ci] seed(2) assms(1-4)
      by (simp add: pool_inv_def pool_static_def pool_slots_def free_stack_def remote_stack_def
          world_ok_def mode_defs) (simp add: chunk_slots_def)
    have "unat data \<le> x \<and> x + unat (sizeof_node ?t) \<le> unat data + unat bytes" if "x \<in> set (pool_slots k ?p)" for x
      using chunk_slot_props(3,4)[OF ci that[unfolded slots]] sa span assms(3)
      by (simp add: chunk_end_def c_def chunk_external_def chunk_span_def)
    moreover have "lent k ?p (rev (chunk_slots k c)) [] = {}" unfolding lent_def slots by simp
    moreover have "0 < unat (p_capacity ?p)" using npos cc by simp
    ultimately show ?thesis using inv unfolding res prod.case sum.case by blast
  qed
qed

text \<open>
  Growth that fails is not undone: \<open>_grow\<close> doubles \<open>_next_growth\<close> before it asks for the
  chunk, so every failed attempt doubles the next request although the pool has not grown; at
  2^63 growth fails without asking the system at all.
\<close>

theorem failed_growth_not_undone:
  assumes "pool_grow k sys p w = (Inl e, p', w')"
  shows "(unat (p_next_growth p) < 2 ^ 63 \<longrightarrow>
      p' = p\<lparr>p_next_growth := max 1 (p_next_growth p * 2)\<rparr> \<and> p_capacity p' = p_capacity p) \<and>
    (2 ^ 63 \<le> unat (p_next_growth p) \<longrightarrow> e = Bad_alloc \<and> p' = p \<and> w' = w)"
proof -
  have part1: "p' = p\<lparr>p_next_growth := max 1 (p_next_growth p * 2)\<rparr> \<and> p_capacity p' = p_capacity p"
    if "unat (p_next_growth p) < 2 ^ 63"
  proof -
    have "checked_mul (p_next_growth p) 2 = Some (p_next_growth p * 2)"
      using that by (simp add: checked_mul_eq)
    then have "pool_add_chunk k sys (max 1 (p_next_growth p * 2))
        (p\<lparr>p_next_growth := max 1 (p_next_growth p * 2)\<rparr>) w = (Inl e, p', w')"
      using assms by (simp add: pool_grow_def Let_def)
    then show ?thesis by (auto dest: pool_add_chunk_failed(1))
  qed
  have part2: "e = Bad_alloc \<and> p' = p \<and> w' = w" if "2 ^ 63 \<le> unat (p_next_growth p)"
  proof -
    have "checked_mul (p_next_growth p) 2 = None"
      using that by (simp add: checked_mul_eq)
    then show ?thesis using assms by (simp add: pool_grow_def)
  qed
  show ?thesis using part1 part2 by blast
qed

text \<open>
  C38. A pool with headers cannot be moved.  For a pool without, the defaulted move leaves the free
  list and the counters in the source: after \<open>b = std::move(a)\<close> both pools hand out the same node
  next, and the source still counts the nodes that are lent although it has no chunk any more.
\<close>

theorem moved_from_pool_shares_nodes:
  assumes inv: "pool_inv k p w (x # fl) rl"
  shows "(pool_move k self p = None \<longleftrightarrow> cfg_headers k) \<and>
    (\<not> cfg_headers k \<longrightarrow>
       (\<exists>b a. pool_move k self p = Some (b, a) \<and>
          fst (pop_free_node (b, cells w)) = adr x \<and> fst (pop_free_node (a, cells w)) = adr x \<and>
          p_size a = p_size p \<and> owns_pointer k b (adr x) \<and> \<not> owns_pointer k a (adr x)))"
proof -
  have "owns_pointer k p (adr x)" by (rule owns_slot[OF inv]) (use inv in \<open>simp add: pool_inv_def\<close>)
  then have own: "owns_pointer k (p\<lparr>p_self := self\<rparr>) (adr x)" by (simp add: owns_pointer_def)
  have h: "p_free_head p = adr x" "adr x \<noteq> 0"
    using inv pop_free_inv(8)[OF inv] by (simp_all add: pool_inv_def free_stack_def)
  have none: "\<not> owns_pointer k (p\<lparr>p_chunks := map (snd \<circ> chunk_move (cfg_ty k)) cs\<rparr>) (adr x)" for cs
    by (auto simp: owns_pointer_def list_ex_iff chunk_move_def chunk_contains_def chunk_empty_def)
  show ?thesis
    using h own none[of "[]"] none[of "p_chunks p"] by (simp add: pool_move_def pop_free_node_def Let_def)
qed

section \<open>Witnesses\<close>

text \<open>
  A headered pool of four 16-byte nodes at 4 GiB, in a chosen mode, and the same pool after one
  allocation.
\<close>

definition demo_cfg :: "memory_mode \<Rightarrow> pool_cfg" where
  "demo_cfg mode = \<lparr>cfg_mode = mode, cfg_headers = True, cfg_ty = node_ty\<rparr>"

lemma demo_sizes: "layout_ok (cfg_ty (demo_cfg mode))" "cfg_headers (demo_cfg mode)" "cfg_mode (demo_cfg mode) = mode"
  "sizeof_node (cfg_ty (demo_cfg mode)) = 16"
  using node_ty_layout by (simp_all add: demo_cfg_def node_ty_sizes)

lemma demo_chunk_4:
  "\<exists>m. chunk_new_headered bump_sys node_ty 4 4096 empty_world =
     (Inr \<lparr>ch_count = 4, ch_alloc_align = 4096, ch_nodes = 4294967296\<rparr>,
      \<lparr>cells = m, calls = 1, live = [\<lparr>r_base = 4294967296, r_bytes = 4096, r_align = 4096\<rparr>]\<rparr>)"
  by (simp add: chunk_new_headered_def node_ty_granule nodes_per_granule_def node_ty_sizes
      checked_add_eq checked_mul_eq op_new_def bump_sys_def empty_world_def Let_def adr_def)

lemma demo_pool_new:
  assumes "heap_backed_mode mode"
  shows "\<exists>p w'. pool_new (demo_cfg mode) bump_sys 77 4 empty_world = (Inr p, w') \<and> sys_honest bump_sys w'"
proof -
  obtain m where c: "chunk_new_headered bump_sys node_ty 4 4096 empty_world =
     (Inr \<lparr>ch_count = 4, ch_alloc_align = 4096, ch_nodes = 4294967296\<rparr>,
      \<lparr>cells = m, calls = 1, live = [\<lparr>r_base = 4294967296, r_bytes = 4096, r_align = 4096\<rparr>]\<rparr>)"
    using demo_chunk_4 by auto
  have "\<exists>p w'. pool_new (demo_cfg mode) bump_sys 77 4 empty_world = (Inr p, w') \<and>
      calls w' = 1 \<and> live w' = [\<lparr>r_base = 4294967296, r_bytes = 4096, r_align = 4096\<rparr>]"
    using c assms has_single_bit_4 demo_page
    by (cases mode) (auto simp: pool_new_def pool_add_chunk_def chunk_new_def demo_cfg_def mode_defs
        pool_members_def Let_def chunk_move_assign_def chunk_release_def chunk_empty_def
        split: prod.splits)
  then show ?thesis
    by (auto simp: region_end_def intro!: bump_sys_honest)
qed

lemma demo_pool:
  assumes "heap_backed_mode mode"
  obtains p w fl where "pool_inv (demo_cfg mode) p w fl []" "length fl = 4" "p_capacity p = 4"
    "sys_honest bump_sys w" "lent (demo_cfg mode) p fl [] = {}"
proof -
  obtain p w where p: "pool_new (demo_cfg mode) bump_sys 77 4 empty_world = (Inr p, w)" "sys_honest bump_sys w"
    using demo_pool_new[OF assms] by auto
  have "heap_backed_mode (cfg_mode (demo_cfg mode))" "has_single_bit (detect_page_size (sys_sysconf bump_sys))"
    using assms has_single_bit_4096 by (simp_all add: demo_sizes demo_page)
  from pool_new_inv[OF demo_sizes(1) this empty_world_ok bump_sys_honest_empty p(1)]
  obtain fl where fl: "pool_inv (demo_cfg mode) p w fl []" "p_capacity p = 4" "p_size p = 0"
    "set fl = set (pool_slots (demo_cfg mode) p)"
    by blast
  have "length fl = 4" using fl(1-3) by (simp add: pool_inv_def)
  moreover have "lent (demo_cfg mode) p fl [] = {}" unfolding lent_def fl(4) by simp
  ultimately show thesis using that fl(1,2) p(2) by blast
qed

text \<open>One node lent.\<close>

lemma demo_lent:
  assumes "heap_backed_mode mode"
  obtains p w fl x where "pool_inv (demo_cfg mode) p w fl []" "lent (demo_cfg mode) p fl [] = {x}"
    "length fl = 3" "sys_honest bump_sys w" "p_capacity p = 4"
proof -
  obtain p w fl where d: "pool_inv (demo_cfg mode) p w fl []" "length fl = 4" "p_capacity p = 4"
    "sys_honest bump_sys w" "lent (demo_cfg mode) p fl [] = {}"
    using demo_pool[OF assms] by blast
  then obtain x fl1 where fl: "fl = x # fl1" by (cases fl) auto
  note pop = pop_free_inv[OF d(1)[unfolded fl]]
  let ?p = "p\<lparr>p_free_head := cells w (adr x), p_size := p_size p + 1\<rparr>"
  have "lent (demo_cfg mode) ?p fl1 [] = {x}"
    using d(5) pop(3,4) unfolding fl by (auto simp: lent_def pool_slots_def)
  moreover have "length fl1 = 3" "p_capacity ?p = 4" using d(2,3) fl by simp_all
  ultimately show thesis using that pop(2) d(4) by blast
qed

lemma demo_modes: "heap_backed_mode Fixed" "heap_backed_mode Dynamic" "fixed_like_mode Fixed"
  by (simp_all add: mode_defs)

theorem pool_allocate_correct_witness:
  "\<exists>p w fl p' w' x. pool_inv (demo_cfg Fixed) p w fl [] \<and>
     pool_allocate (demo_cfg Fixed) bump_sys p w = Some (Inr (adr x), p', w') \<and>
     x \<notin> lent (demo_cfg Fixed) p fl [] \<and> x \<in> set (pool_slots (demo_cfg Fixed) p')"
proof -
  obtain p w fl where d: "pool_inv (demo_cfg Fixed) p w fl []" "length fl = 4" "p_capacity p = 4"
    "sys_honest bump_sys w" "lent (demo_cfg Fixed) p fl [] = {}"
    by (rule demo_pool[OF demo_modes(1)])
  have "fl \<noteq> []" "card (lent (demo_cfg Fixed) p fl []) \<noteq> unat (p_capacity p)" using d(2,3,5) by auto
  then show ?thesis
    using pool_allocate_correct[OF d(1,4)]
    apply (elim exE)
    subgoal for r p' w' fl' rl'
      using d(1) by (cases r; cases "r = Inr nullptr") (simp_all, blast)
    done
qed

theorem pool_deallocate_correct_witness:
  "\<exists>p (w :: world) fl x. lent (demo_cfg Fixed) p fl [] = {x} \<and>
     (let s = pool_deallocate (adr x) (p, cells w) in
      pool_inv (demo_cfg Fixed) (fst s) (w\<lparr>cells := snd s\<rparr>) (x # fl) [] \<and>
      lent (demo_cfg Fixed) (fst s) (x # fl) [] = {} \<and>
      (\<exists>s'. pool_allocate (demo_cfg Fixed) bump_sys (fst s) (w\<lparr>cells := snd s\<rparr>) = Some (Inr (adr x), s')))"
proof -
  obtain p w fl x where d: "pool_inv (demo_cfg Fixed) p w fl []" "lent (demo_cfg Fixed) p fl [] = {x}"
    "length fl = 3" "sys_honest bump_sys w" "p_capacity p = 4"
    by (rule demo_lent[OF demo_modes(1)])
  then have x: "x \<in> lent (demo_cfg Fixed) p fl []" by simp
  show ?thesis
    using pool_deallocate_correct[OF d(1) x, where sys = bump_sys] d(2)
    unfolding Let_def by (intro exI[of _ p] exI[of _ w] exI[of _ fl] exI[of _ x]) simp
qed

theorem pool_remote_push_correct_witness:
  "\<exists>p (w :: world) fl x. lent (demo_cfg Fixed) p fl [] = {x} \<and>
     (let s = pool_remote_push (adr x) (p, cells w) in
      pool_inv (demo_cfg Fixed) (fst s) (w\<lparr>cells := snd s\<rparr>) fl [x] \<and>
      lent (demo_cfg Fixed) (fst s) fl [x] = {} \<and> fst s = p\<lparr>p_remote := adr x\<rparr>)"
proof -
  obtain p w fl x where d: "pool_inv (demo_cfg Fixed) p w fl []" "lent (demo_cfg Fixed) p fl [] = {x}"
    "length fl = 3" "sys_honest bump_sys w" "p_capacity p = 4"
    by (rule demo_lent[OF demo_modes(1)])
  then have x: "x \<in> lent (demo_cfg Fixed) p fl []" by simp
  show ?thesis
    using pool_remote_push_correct[OF d(1) x demo_sizes(2), unfolded d(2) Diff_cancel] d(2)
    unfolding Let_def by (intro exI[of _ p] exI[of _ w] exI[of _ fl] exI[of _ x]) blast
qed


theorem pool_destroy_correct_witness:
  "\<exists>p (w :: world) fl x. lent (demo_cfg Dynamic) p fl [] = {x} \<and>
     (\<exists>w'. pool_destroy (demo_cfg Dynamic) p w = Some w' \<and>
        live w' = filter (\<lambda>r. r_base r \<notin> chunk_bases (p_chunks p)) (live w)) \<and>
     (\<exists>b p' m'. pool_drain_remote (p, cells w) = Some (b, p', m') \<and> p_size p' \<noteq> 0)"
proof -
  obtain p w fl x where d: "pool_inv (demo_cfg Dynamic) p w fl []" "lent (demo_cfg Dynamic) p fl [] = {x}"
    "length fl = 3" "sys_honest bump_sys w" "p_capacity p = 4"
    by (rule demo_lent[OF demo_modes(2)])
  have h: "heap_backed_mode (cfg_mode (demo_cfg Dynamic))" using demo_modes by (simp add: demo_sizes)
  show ?thesis using pool_destroy_correct[OF d(1) h] d(2) by (metis insert_not_empty)
qed

theorem pool_assertions_exact_witness:
  "\<exists>p (w :: world) fl x. lent (demo_cfg Fixed) p fl [] = {x} \<and> length fl = 3 \<and>
     pool_owns (demo_cfg Fixed) p (adr x) \<and> is_in_free_list (adr x) (p, cells w) = Some False \<and>
     is_in_free_list (adr (hd fl)) (p, cells w) = Some True \<and> unat (p_size p) = 1 \<and> unat (free_count p) = 3"
proof -
  obtain p w fl x where d: "pool_inv (demo_cfg Fixed) p w fl []" "lent (demo_cfg Fixed) p fl [] = {x}"
    "length fl = 3" "sys_honest bump_sys w" "p_capacity p = 4"
    by (rule demo_lent[OF demo_modes(1)])
  then have "x \<in> lent (demo_cfg Fixed) p fl []" "hd fl \<in> set fl" by (simp_all, cases fl) auto
  then show ?thesis
    using pool_assertions_exact[OF d(1), of x] pool_assertions_exact[OF d(1), of "hd fl"] d(2,3)
    by (intro exI[of _ p] exI[of _ w] exI[of _ fl] exI[of _ x]) (simp add: d(2))
qed

theorem fixed_capacity_exact_witness:
  "\<exists>p (w :: world) fl x. lent (demo_cfg Fixed) p fl [] = {x} \<and>
     (\<exists>q p' w'. pool_allocate (demo_cfg Fixed) bump_sys p w = Some (Inr q, p', w') \<and> q \<noteq> nullptr \<and> live w' = live w)"
proof -
  obtain p w fl x where d: "pool_inv (demo_cfg Fixed) p w fl []" "lent (demo_cfg Fixed) p fl [] = {x}"
    "length fl = 3" "sys_honest bump_sys w" "p_capacity p = 4"
    by (rule demo_lent[OF demo_modes(1)])
  have h: "fixed_like_mode (cfg_mode (demo_cfg Fixed))" "p_capacity p \<noteq> 0"
    using demo_modes d(5) by (simp_all add: demo_sizes)
  have "card (lent (demo_cfg Fixed) p fl []) \<noteq> unat (p_capacity p)" using d(2,5) by simp
  then show ?thesis
    using fixed_capacity_exact[OF d(1) h, of bump_sys] d(2) by metis
qed

theorem pool_session_safe_witness:
  "\<exists>p w a p' w'. pool_request (demo_cfg Dynamic) bump_sys () (p, w) = Some (Inr a, p', w') \<and> a \<noteq> nullptr \<and>
     (\<exists>s. pool_return Parked a (client_store (unat a + 8) 42 (p', w')) = Some s)"
proof -
  let ?k = "demo_cfg Dynamic"
  obtain p w fl where d: "pool_inv ?k p w fl []" "length fl = 4" "p_capacity p = 4"
    "sys_honest bump_sys w" "lent ?k p fl [] = {}"
    by (rule demo_pool[OF demo_modes(2)])
  have h: "pool_holds ?k (p, w) {}" using d(1,5) by (auto simp: pool_holds_def)
  note st = session.start[of "pool_request ?k bump_sys" pool_return pool_resize client_store
    "\<lambda>_ _. unat (sizeof_node (cfg_ty ?k))" "\<lambda>s. sys_honest bump_sys (snd s)" "pool_ways ?k" "(p, w)"]
  obtain x fl1 where fl: "fl = x # fl1" using d(2) by (cases fl) auto
  note pop = pop_free_inv(1,8)[OF d(1)[unfolded fl]]
  obtain a p' w' where a: "pool_request ?k bump_sys () (p, w) = Some (Inr a, p', w')" "a \<noteq> nullptr"
    using pop by (simp add: pool_request_def pool_allocate_def pool_take_node_def)
  note s1 = session.grant[OF st _ a]
  have "8 < unat (sizeof_node (cfg_ty ?k))" by (simp add: demo_sizes)
  then have s2: "session (pool_request ?k bump_sys) pool_return pool_resize client_store
      (\<lambda>_ _. unat (sizeof_node (cfg_ty ?k))) (\<lambda>s. sys_honest bump_sys (snd s)) (pool_ways ?k) (p, w)
      (client_store (unat a + 8) 42 (p', w')) (insert (unat a) {})"
    using session.client_write[OF s1, of "unat a" 8] d(4) by simp
  have "Parked \<in> pool_ways ?k" by (simp add: pool_ways_def demo_sizes)
  then have "\<exists>s'. pool_return Parked (adr (unat a)) (client_store (unat a + 8) 42 (p', w')) = Some s'"
    using pool_session_safe[OF s2 h, of "unat a" Parked] by auto
  then show ?thesis using a by (simp only: adr_unat) blast
qed

theorem pool_owner_routing_witness:
  "\<exists>p (w :: world) fl x. lent (demo_cfg Fixed) p fl [] = {x} \<and>
     cells w (granule_of (granule_for node_ty (p_page_size p)) (adr x)) = p_self p"
proof -
  obtain p w fl x where d: "pool_inv (demo_cfg Fixed) p w fl []" "lent (demo_cfg Fixed) p fl [] = {x}"
    "length fl = 3" "sys_honest bump_sys w" "p_capacity p = 4"
    by (rule demo_lent[OF demo_modes(1)])
  then have "x \<in> set (pool_slots (demo_cfg Fixed) p)" by (auto simp: lent_def)
  then have "cells w (granule_of (granule_for node_ty (p_page_size p)) (adr x)) = p_self p"
    using pool_owner_routing[OF d(1) demo_sizes(2)] by (simp add: demo_cfg_def)
  then show ?thesis using d(2) by blast
qed

theorem pool_external_correct_witness:
  "case pool_new_external \<lparr>cfg_mode = Noheap, cfg_headers = False, cfg_ty = node_ty\<rparr> 5 4100 40 (cells empty_world) of
      (Inr p, m') \<Rightarrow> 0 < unat (p_capacity p)
    | (Inl e, m') \<Rightarrow> False"
proof -
  have "\<exists>a. 8 dvd a \<and> 4100 \<le> a \<and> a + 16 \<le> 4100 + (40 :: nat)" by (intro exI[of _ 4104]) simp
  then show ?thesis
    using pool_external_correct[where k = "\<lparr>cfg_mode = Noheap, cfg_headers = False, cfg_ty = node_ty\<rparr>"
        and w = empty_world and self = 5 and data = 4100 and bytes = 40] node_ty_layout empty_world_ok
    by (auto simp: node_ty_sizes split: prod.splits sum.splits)
qed

theorem failed_growth_not_undone_witness:
  "\<exists>p w' e. pool_grow (demo_cfg Dynamic) (bump_sys\<lparr>sys_new := \<lambda>_ _ _. 0\<rparr>)
     ((pool_members (demo_cfg Dynamic) bump_sys 77)\<lparr>p_next_growth := 4\<rparr>) empty_world = (Inl e, p, w') \<and>
     p_next_growth p = 8 \<and> p_capacity p = 0"
proof -
  let ?p = "(pool_members (demo_cfg Dynamic) bump_sys 77)\<lparr>p_next_growth := 4\<rparr>"
  let ?s = "bump_sys\<lparr>sys_new := \<lambda>_ _ _. 0\<rparr>"
  obtain p w' e where g: "pool_grow (demo_cfg Dynamic) ?s ?p empty_world = (Inl e, p, w')"
    by (simp add: pool_grow_def checked_mul_eq pool_add_chunk_def chunk_new_def demo_cfg_def demo_page
        pool_members_def Let_def chunk_new_headered_def node_ty_granule nodes_per_granule_def node_ty_sizes
        checked_add_eq op_new_def)
  then show ?thesis
    using failed_growth_not_undone[OF g] by (auto simp: max_def pool_members_def Let_def)
qed

text \<open>A pool without headers: four nodes in one page.\<close>

definition raw_cfg :: pool_cfg where
  "raw_cfg = \<lparr>cfg_mode = Dynamic, cfg_headers = False, cfg_ty = node_ty\<rparr>"

lemma raw_pool:
  obtains p w fl where "pool_new raw_cfg bump_sys 77 4 empty_world = (Inr p, w)" "pool_inv raw_cfg p w fl []"
    "length fl = 4"
proof -
  have al: "page_alloc_align node_ty 4096 = 4096"
    using has_single_bit_4096 by (simp add: page_alloc_align_def node_alignment_def node_ty_def sizeof_ptr_def)
  obtain c w1 where c: "chunk_new_raw bump_sys node_ty 4 4096 4096 empty_world = (Inr c, w1)"
    by (simp add: chunk_new_raw_def node_ty_sizes checked_mul_eq checked_round_eq nat_round_up_def op_new_def
        bump_sys_def empty_world_def Let_def adr_def)
  have "\<exists>p w. pool_new raw_cfg bump_sys 77 4 empty_world = (Inr p, w)"
    using has_single_bit_4 demo_page c al
    by (auto simp: pool_new_def pool_add_chunk_def chunk_new_def raw_cfg_def mode_defs pool_members_def Let_def
        split: prod.split)
  then obtain p w where p: "pool_new raw_cfg bump_sys 77 4 empty_world = (Inr p, w)" by blast
  have "layout_ok (cfg_ty raw_cfg)" "heap_backed_mode (cfg_mode raw_cfg)"
    "has_single_bit (detect_page_size (sys_sysconf bump_sys))"
    using node_ty_layout demo_modes(2) has_single_bit_4096 by (simp_all add: raw_cfg_def demo_page)
  from pool_new_inv[OF this empty_world_ok bump_sys_honest_empty p]
  obtain fl where fl: "pool_inv raw_cfg p w fl []" "p_capacity p = 4" "p_size p = 0" by blast
  then have "length fl = 4" by (simp add: pool_inv_def)
  then show thesis using that p fl(1) by blast
qed

theorem moved_from_pool_shares_nodes_witness:
  "\<exists>p w b a x. pool_new raw_cfg bump_sys 77 4 empty_world = (Inr p, w) \<and> \<not> cfg_headers raw_cfg \<and>
     pool_move raw_cfg 99 p = Some (b, a) \<and>
     fst (pop_free_node (b, cells w)) = adr x \<and> fst (pop_free_node (a, cells w)) = adr x \<and>
     owns_pointer raw_cfg b (adr x) \<and> \<not> owns_pointer raw_cfg a (adr x)"
proof -
  obtain p w fl where d: "pool_new raw_cfg bump_sys 77 4 empty_world = (Inr p, w)" "pool_inv raw_cfg p w fl []"
    "length fl = 4"
    by (rule raw_pool)
  then obtain x fl1 where fl: "fl = x # fl1" by (cases fl) auto
  have raw: "\<not> cfg_headers raw_cfg" by (simp add: raw_cfg_def)
  obtain b a where m: "pool_move raw_cfg 99 p = Some (b, a)" "fst (pop_free_node (b, cells w)) = adr x"
    "fst (pop_free_node (a, cells w)) = adr x" "owns_pointer raw_cfg b (adr x)" "\<not> owns_pointer raw_cfg a (adr x)"
    using moved_from_pool_shares_nodes[OF d(2)[unfolded fl], of 99] raw by blast
  then show ?thesis using d(1) raw m by blast
qed

end
