(* ===== verification/Run_Header.thy ===== *)
theory Run_Header
  imports Prelude
begin

text \<open>
  The runs of \<open>runner::allocator\<close> (\<open>lib/runner.hpp\<close>): a run is a block of memory that starts with
  a two-word header, the size with two flag bits and the owner; a free run also carries its bin
  links behind the header and its size in the last word (the footer).
\<close>

section \<open>Constants\<close>

definition sizeof_run_header :: u64 where
  "sizeof_run_header = 16"

definition run_alignment :: u64 where
  "run_alignment = 16"

definition min_free_run_size :: u64 where
  "min_free_run_size = (sizeof_run_header + 16 + 8 + run_alignment - 1) AND NOT (run_alignment - 1)"

definition split_remainder_threshold :: u64 where
  "split_remainder_threshold = 64"

definition epilogue_size :: u64 where
  "epilogue_size = sizeof_run_header"

definition min_chunk_bytes :: u64 where
  "min_chunk_bytes = min_free_run_size + epilogue_size"

definition flag_is_free :: u64 where
  "flag_is_free = 1"

definition flag_prev_is_free :: u64 where
  "flag_prev_is_free = 2"

definition flag_mask :: u64 where
  "flag_mask = flag_is_free OR flag_prev_is_free"

lemma run_constants:
  "sizeof_run_header = 16" "run_alignment = 16" "min_free_run_size = 48"
  "split_remainder_threshold = 64" "epilogue_size = 16" "min_chunk_bytes = 64"
  "flag_is_free = 1" "flag_prev_is_free = 2" "flag_mask = 3"
  by (simp_all add: sizeof_run_header_def run_alignment_def min_free_run_size_def
      split_remainder_threshold_def epilogue_size_def min_chunk_bytes_def flag_is_free_def
      flag_prev_is_free_def flag_mask_def)

section \<open>The header word\<close>

definition size_field :: "u64 \<Rightarrow> u64" where
  "size_field size_and_flags = size_and_flags AND NOT flag_mask"

definition flag :: "u64 \<Rightarrow> u64 \<Rightarrow> bool" where
  "flag size_and_flags b \<longleftrightarrow> size_and_flags AND b \<noteq> 0"

definition pack :: "u64 \<Rightarrow> bool \<Rightarrow> bool \<Rightarrow> u64" where
  "pack bytes is_free prev_is_free =
     bytes OR (if is_free then flag_is_free else 0) OR (if prev_is_free then flag_prev_is_free else 0)"

definition header_from_payload :: "ptr \<Rightarrow> ptr" where
  "header_from_payload p = p - sizeof_run_header"

definition payload_from_header :: "ptr \<Rightarrow> ptr" where
  "payload_from_header h = h + sizeof_run_header"

definition owner_ptr :: "ptr \<Rightarrow> ptr" where
  "owner_ptr h = h + 8"

text \<open>The two words of \<open>free_links\<close>.\<close>

definition link_next :: "ptr \<Rightarrow> ptr" where
  "link_next h = payload_from_header h"

definition link_prev :: "ptr \<Rightarrow> ptr" where
  "link_prev h = payload_from_header h + 8"

definition run_size :: "memory \<Rightarrow> ptr \<Rightarrow> u64" where
  "run_size m h = size_field (m h)"

definition footer_ptr :: "memory \<Rightarrow> ptr \<Rightarrow> ptr" where
  "footer_ptr m h = h + size_field (m h) - 8"

definition is_free :: "memory \<Rightarrow> ptr \<Rightarrow> bool" where
  "is_free m h = flag (m h) flag_is_free"

definition prev_is_free :: "memory \<Rightarrow> ptr \<Rightarrow> bool" where
  "prev_is_free m h = flag (m h) flag_prev_is_free"

definition set_header :: "ptr \<Rightarrow> u64 \<Rightarrow> bool \<Rightarrow> bool \<Rightarrow> memory \<Rightarrow> memory" where
  "set_header h bytes free prev_free m = m(h := pack bytes free prev_free)"

definition set_prev_free :: "ptr \<Rightarrow> bool \<Rightarrow> memory \<Rightarrow> memory" where
  "set_prev_free h prev_free m =
     (if prev_is_free m h = prev_free then m
      else if prev_free then m(h := m h OR flag_prev_is_free)
      else m(h := m h AND NOT flag_prev_is_free))"

definition next_run :: "memory \<Rightarrow> ptr \<Rightarrow> ptr" where
  "next_run m h = (let n = h + run_size m h in if run_size m n = 0 then nullptr else n)"

definition prev_run :: "memory \<Rightarrow> ptr \<Rightarrow> ptr" where
  "prev_run m h = (let prev_size = m (h - 8) in if prev_size = 0 then nullptr else h - prev_size)"

definition write_footer :: "ptr \<Rightarrow> memory \<Rightarrow> memory" where
  "write_footer h m = m(footer_ptr m h := run_size m h)"

section \<open>Reading packed headers\<close>

lemma bit_3: "bit (3 :: u64) i \<longleftrightarrow> i = 0 \<or> i = 1"
proof -
  have "(3 :: u64) = mask 2" by (simp add: mask_eq_exp_minus_1)
  then have "bit (3 :: u64) i \<longleftrightarrow> i < 2" by (simp only: bit_mask_iff) auto
  then show ?thesis by auto
qed

text \<open>A size that is a multiple of four leaves the two flag bits alone.\<close>

lemma low_bits_clear:
  assumes "4 dvd s" "s < 2 ^ 64"
  shows "\<not> bit (adr s) 0" "\<not> bit (adr s) 1"
proof -
  have "unat (take_bit 2 (adr s)) = 0"
    using assms by (simp add: unat_take_bit unat_adr dvd_eq_mod_eq_0)
  then have "take_bit 2 (adr s) = 0" by (simp only: unat_eq_zero)
  then have "\<not> bit (take_bit 2 (adr s)) 0" "\<not> bit (take_bit 2 (adr s)) 1" by simp_all
  then show "\<not> bit (adr s) 0" "\<not> bit (adr s) 1" by (simp_all only: bit_take_bit_iff) simp_all
qed

lemma bit_small: "bit (1 :: u64) i \<longleftrightarrow> i = 0" "bit (2 :: u64) i \<longleftrightarrow> i = 1"
proof -
  show "bit (1 :: u64) i \<longleftrightarrow> i = 0" by (simp add: bit_1_iff)
  have "bit ((2 :: u64) ^ 1) i \<longleftrightarrow> i = 1" by (simp only: bit_exp_iff) auto
  then show "bit (2 :: u64) i \<longleftrightarrow> i = 1" by simp
qed

lemma pack_props:
  assumes "4 dvd s" "s < 2 ^ 64"
  shows "size_field (pack (adr s) f pf) = adr s"
    and "flag (pack (adr s) f pf) flag_is_free \<longleftrightarrow> f"
    and "flag (pack (adr s) f pf) flag_prev_is_free \<longleftrightarrow> pf"
    and "pack (adr s) f pf OR flag_prev_is_free = pack (adr s) f True"
    and "pack (adr s) f pf AND NOT flag_prev_is_free = pack (adr s) f False"
proof -
  note low = low_bits_clear[OF assms]
  have b: "bit (pack (adr s) f pf) i \<longleftrightarrow> bit (adr s) i \<or> (i = 0 \<and> f) \<or> (i = 1 \<and> pf)" for i f pf
    by (simp add: pack_def run_constants bit_or_iff bit_small del: bit_numeral_word_iff)
  show "size_field (pack (adr s) f pf) = adr s"
    unfolding size_field_def run_constants
    by (rule bit_word_eqI) (use low in \<open>auto simp only: bit_and_iff bit_not_iff b bit_3 bit_small, auto\<close>)
  have fl: "flag x c \<longleftrightarrow> (\<exists>i. bit x i \<and> bit c i)" for x c
    unfolding flag_def by (auto simp: bit_eq_iff bit_and_iff) (use bit_imp_le_length in fastforce)
  show "flag (pack (adr s) f pf) flag_is_free \<longleftrightarrow> f"
    "flag (pack (adr s) f pf) flag_prev_is_free \<longleftrightarrow> pf"
    using low by (auto simp: fl b run_constants bit_small simp del: bit_numeral_word_iff)
  show "pack (adr s) f pf OR flag_prev_is_free = pack (adr s) f True"
    by (rule bit_word_eqI) (auto simp: bit_or_iff b run_constants bit_small simp del: bit_numeral_word_iff)
  show "pack (adr s) f pf AND NOT flag_prev_is_free = pack (adr s) f False"
    by (rule bit_word_eqI) (use low in \<open>auto simp only: bit_and_iff bit_not_iff b run_constants bit_small, auto\<close>)
qed

end
