(* ===== verification/Run_Layout.thy ===== *)
theory Run_Layout
  imports Run_Header
begin

text \<open>
  How the runs of a chunk lie in memory, and what the header accessors read at a run in the middle
  of a chunk: its size and flags, its successor, and through the footer its free predecessor.
\<close>

section \<open>Runs in sequence\<close>

text \<open>
  A chunk is a sequence of runs, each given by its size and whether it is free, laid end to end
  from the chunk's first address and closed by the epilogue.  \<open>seg\<close> says that memory holds such a
  sequence from address \<open>a\<close> on: the header words carry sizes and flags, a free run has its size in
  its footer and no free neighbour before it.
\<close>

type_synonym run_shape = "nat \<times> bool"

fun run_total :: "run_shape list \<Rightarrow> nat" where
  "run_total [] = 0"
| "run_total (r # rs) = fst r + run_total rs"

fun seg :: "memory \<Rightarrow> nat \<Rightarrow> bool \<Rightarrow> run_shape list \<Rightarrow> bool" where
  "seg m a pf [] \<longleftrightarrow> True"
| "seg m a pf ((s, f) # rs) \<longleftrightarrow>
     m (adr a) = pack (adr s) f pf \<and> 48 \<le> s \<and> 16 dvd s \<and>
     (f \<longrightarrow> m (adr (a + s - 8)) = adr s \<and> \<not> pf) \<and>
     seg m (a + s) f rs"

definition free_after :: "bool \<Rightarrow> run_shape list \<Rightarrow> bool" where
  "free_after pf rs = (if rs = [] then pf else snd (last rs))"

text \<open>The runs with their addresses.\<close>

fun place :: "nat \<Rightarrow> run_shape list \<Rightarrow> (nat \<times> nat \<times> bool) list" where
  "place a [] = []"
| "place a ((s, f) # rs) = (a, s, f) # place (a + s) rs"

lemma total_append [simp]: "run_total (xs @ ys) = run_total xs + run_total ys"
  by (induction xs) auto

lemma free_after_simps [simp]:
  "free_after pf [] = pf" "free_after pf (xs @ [r]) = snd r" "free_after pf [r] = snd r"
  by (simp_all add: free_after_def)

lemma free_after_Cons [simp]: "free_after pf ((s, f) # rs) = free_after f rs"
  by (simp add: free_after_def)

lemma free_after_append [simp]: "free_after pf (xs @ ys) = free_after (free_after pf xs) ys"
  by (induction xs arbitrary: pf) (auto simp: free_after_def)

lemma seg_append [simp]:
  "seg m a pf (xs @ ys) \<longleftrightarrow>
     seg m a pf xs \<and> seg m (a + run_total xs) (free_after pf xs) ys"
  by (induction xs arbitrary: a pf) (auto simp: add.assoc)

lemma place_append [simp]: "place a (xs @ ys) = place a xs @ place (a + run_total xs) ys"
  by (induction xs arbitrary: a) (auto simp: add.assoc)

lemma seg_sizes: "seg m a pf rs \<Longrightarrow> (s, f) \<in> set rs \<Longrightarrow> 48 \<le> s \<and> 16 dvd s"
  by (induction rs arbitrary: a pf) auto

lemma seg_total: "seg m a pf rs \<Longrightarrow> 16 dvd run_total rs"
  by (induction rs arbitrary: a pf) auto

lemma place_bounds: "(x, s, f) \<in> set (place a rs) \<Longrightarrow> a \<le> x \<and> x + s \<le> a + run_total rs \<and> (s, f) \<in> set rs"
  by (induction rs arbitrary: a) (fastforce split: prod.splits)+

lemma place_split:
  assumes "(x, s, f) \<in> set (place a rs)"
  obtains us vs where "rs = us @ (s, f) # vs" and "x = a + run_total us"
proof -
  have "\<exists>us vs. rs = us @ (s, f) # vs \<and> x = a + run_total us"
    using assms
  proof (induction rs arbitrary: a)
    case Nil
    then show ?case by simp
  next
    case (Cons r rs)
    obtain t g where r: "r = (t, g)" by (cases r)
    show ?case
    proof (cases "(x, s, f) = (a, t, g)")
      case True
      then show ?thesis using r by (intro exI[of _ "[]"] exI[of _ rs]) simp
    next
      case False
      then have "(x, s, f) \<in> set (place (a + t) rs)" using Cons.prems r by auto
      then obtain us vs where "rs = us @ (s, f) # vs" "x = a + t + run_total us"
        using Cons.IH by blast
      then show ?thesis using r by (intro exI[of _ "(t, g) # us"] exI[of _ vs]) simp
    qed
  qed
  then show thesis using that by blast
qed

lemma place_apart:
  assumes "\<forall>(s, f) \<in> set rs. 0 < s" "(x, s, f) \<in> set (place a rs)" "(y, t, g) \<in> set (place a rs)"
  shows "(x, s, f) = (y, t, g) \<or> x + s \<le> y \<or> y + t \<le> x"
  using assms
proof (induction rs arbitrary: a)
  case Nil
  then show ?case by simp
next
  case (Cons r rs)
  obtain u h where r: "r = (u, h)" by (cases r)
  then show ?case
    using Cons.IH[of "a + u"] Cons.prems place_bounds[of x s f "a + u" rs] place_bounds[of y t g "a + u" rs]
    by auto
qed

text \<open>\<open>seg\<close> reads only the header words and the footers of free runs.\<close>

definition tag_cells :: "nat \<times> nat \<times> bool \<Rightarrow> nat set" where
  "tag_cells r = (case r of (x, s, f) \<Rightarrow> if f then {x, x + s - 8} else {x})"

lemma seg_cong:
  assumes "\<And>r a'. r \<in> set (place a rs) \<Longrightarrow> a' \<in> tag_cells r \<Longrightarrow> m' (adr a') = m (adr a')"
  shows "seg m' a pf rs = seg m a pf rs"
  using assms
proof (induction rs arbitrary: a pf)
  case Nil
  then show ?case by simp
next
  case (Cons r rs)
  obtain s f where r: "r = (s, f)" by (cases r)
  have "seg m' (a + s) f rs = seg m (a + s) f rs"
    using Cons.prems by (intro Cons.IH) (auto simp: r)
  moreover have "m' (adr a') = m (adr a')" if "a' \<in> tag_cells (a, s, f)" for a'
    using Cons.prems[of "(a, s, f)" a'] that by (simp add: r)
  ultimately show ?case by (auto simp: r tag_cells_def)
qed

section \<open>A chunk\<close>

definition epilogue_word :: u64 where
  "epilogue_word = pack 0 False True"

definition laid :: "memory \<Rightarrow> nat \<Rightarrow> run_shape list \<Rightarrow> bool" where
  "laid m b rs \<longleftrightarrow> 0 < b \<and> 16 dvd b \<and> b + run_total rs + 16 < 2 ^ 64 \<and> rs \<noteq> [] \<and>
     seg m b False rs \<and> m (adr (b + run_total rs)) = epilogue_word"

lemma epilogue_size_0: "size_field epilogue_word = 0"
  using pack_props(1)[of 0 False True] by (simp add: epilogue_word_def)

text \<open>What the code reads at a run in the middle of a chunk.\<close>

lemma laid_at:
  assumes "laid m b (us @ (s, f) # vs)"
  defines "x \<equiv> b + run_total us"
  shows "run_size m (adr x) = adr s" and "is_free m (adr x) = f" and "prev_is_free m (adr x) = free_after False us"
    and "48 \<le> s" and "16 dvd s" and "x + s + run_total vs + 16 < 2 ^ 64" and "16 dvd x" and "0 < x" and "16 \<le> x"
    and "f \<Longrightarrow> m (adr (x + s - 8)) = adr s \<and> \<not> free_after False us"
    and "s < 2 ^ 64" and "x < 2 ^ 64"
proof -
  have sg: "seg m b False us" "m (adr x) = pack (adr s) f (free_after False us)" "48 \<le> s" "16 dvd s"
    "f \<longrightarrow> m (adr (x + s - 8)) = adr s \<and> \<not> free_after False us"
    and b: "0 < b" "16 dvd b" "b + (run_total us + (s + run_total vs)) + 16 < 2 ^ 64"
    using assms(1) by (simp_all add: laid_def x_def)
  show "48 \<le> s" "16 dvd s" by (rule sg)+
  show lim: "x + s + run_total vs + 16 < 2 ^ 64" using b by (simp add: x_def)
  then show s: "s < 2 ^ 64" and "x < 2 ^ 64" by simp_all
  have "4 dvd s" using sg(4) by (rule dvd_trans[rotated]) simp
  note p = pack_props[OF this s]
  show "run_size m (adr x) = adr s" "is_free m (adr x) = f" "prev_is_free m (adr x) = free_after False us"
    using p by (simp_all add: run_size_def is_free_def prev_is_free_def sg(2))
  show "16 dvd x" using b(2) seg_total[OF sg(1)] by (simp add: x_def)
  show "0 < x" using b(1) by (simp add: x_def)
  show "16 \<le> x" using b(1,2) by (auto simp: x_def elim!: dvdE)
  show "f \<Longrightarrow> m (adr (x + s - 8)) = adr s \<and> \<not> free_after False us"
    using sg(5) by auto
qed

lemma laid_next:
  assumes "laid m b (us @ (s, f) # vs)"
  defines "x \<equiv> b + run_total us"
  shows "next_run m (adr x) = (if vs = [] then nullptr else adr (x + s))"
proof -
  note at = laid_at[OF assms(1), folded x_def]
  have n: "adr x + run_size m (adr x) = adr (x + s)" by (simp add: at(1) adr_plus)
  show ?thesis
  proof (cases vs)
    case Nil
    then have "m (adr (x + s)) = epilogue_word"
      using assms(1) by (simp add: laid_def x_def add.assoc)
    then show ?thesis
      using Nil epilogue_size_0 unfolding next_run_def n by (simp add: run_size_def)
  next
    case (Cons v ws)
    obtain t g where v: "v = (t, g)" by (cases v)
    have l: "laid m b ((us @ [(s, f)]) @ (t, g) # ws)"
      using assms(1) by (simp add: Cons v)
    have "run_size m (adr (x + s)) = adr t" "48 \<le> t" "t < 2 ^ 64"
      using laid_at(1,4,11)[OF l] by (simp_all add: x_def add.assoc)
    then show ?thesis unfolding next_run_def n by (simp add: Cons adr_eq_0_iff)
  qed
qed

lemma laid_prev:
  assumes "laid m b (us @ (t, True) # (s, f) # vs)"
  shows "prev_run m (adr (b + run_total us + t)) = adr (b + run_total us)"
proof -
  note at = laid_at[OF assms]
  have "m (adr (b + run_total us + t) - 8) = adr t"
    using at(4,10) by (simp add: adr_minus_numeral)
  then show ?thesis
    using at(4,11) by (simp add: prev_run_def Let_def adr_eq_0_iff adr_minus)
qed

end
