(* ===== verification/Runner.thy ===== *)
theory Runner
  imports Run_Header Owned_Memory
begin

text \<open>
  \<open>runner::allocator\<close> of \<open>lib/runner.hpp\<close>: the segregated free lists with their bitmap, the search
  for a fit, allocation with splitting, deallocation with coalescing, expansion in place, the
  remote stack and its drain, growth, construction over owned and caller-supplied memory, and
  release.  An operation that walks a list in memory returns an \<open>option\<close>, \<open>None\<close> meaning that the
  walk does not end; \<open>Runner_Ops\<close> proves that it always ends.
\<close>

section \<open>The class\<close>

record run_cfg =
  rg_can_grow :: bool
  rg_collect_stats :: bool
  rg_huge :: huge_pages

record stats =
  st_allocate_calls :: u64
  st_allocate_success :: u64
  st_allocate_fail :: u64
  st_deallocate_calls :: u64
  st_find_fit_calls :: u64
  st_scanned_nodes :: u64
  st_split_count :: u64
  st_coalesce_next_count :: u64
  st_coalesce_prev_count :: u64
  st_grow_calls :: u64
  st_peak_live_bytes :: u64
  st_live_bytes :: u64
  st_requested_bytes :: u64
  st_granted_bytes :: u64

text \<open>
  A \<open>chunk_node\<close>; \<open>cn_node\<close> is its own address.  The list that starts at \<open>_chunks_head\<close> only grows
  at its head and is a HOL list here.
\<close>

record chunk_node =
  cn_node :: ptr
  cn_begin :: ptr
  cn_bytes :: u64
  cn_mapping_base :: ptr
  cn_mapping_bytes :: u64

record runner =
  rn_self :: ptr
  rn_bins :: "nat \<Rightarrow> ptr"
  rn_mask :: "nat \<Rightarrow> u64"
  rn_chunks :: "chunk_node list"
  rn_page_size :: u64
  rn_next_growth :: u64
  rn_deferred_bytes :: u64
  rn_stats :: stats
  rn_remote :: ptr

type_synonym runner_mem = "runner \<times> memory"

definition stats_zero :: stats where
  "stats_zero = \<lparr>st_allocate_calls = 0, st_allocate_success = 0, st_allocate_fail = 0,
     st_deallocate_calls = 0, st_find_fit_calls = 0, st_scanned_nodes = 0, st_split_count = 0,
     st_coalesce_next_count = 0, st_coalesce_prev_count = 0, st_grow_calls = 0,
     st_peak_live_bytes = 0, st_live_bytes = 0, st_requested_bytes = 0, st_granted_bytes = 0\<rparr>"

text \<open>\<open>if constexpr (collect_stats)\<close>.\<close>

definition count :: "run_cfg \<Rightarrow> (stats \<Rightarrow> stats) \<Rightarrow> runner \<Rightarrow> runner" where
  "count k f r = (if rg_collect_stats k then r\<lparr>rn_stats := f (rn_stats r)\<rparr> else r)"

definition add_live :: "u64 \<Rightarrow> stats \<Rightarrow> stats" where
  "add_live n st =
     (let live = st_live_bytes st + n
      in st\<lparr>st_live_bytes := live, st_peak_live_bytes := max live (st_peak_live_bytes st)\<rparr>)"

definition reset_stats :: "runner \<Rightarrow> runner" where
  "reset_stats r = r\<lparr>rn_stats := stats_zero\<rparr>"

section \<open>Sizes\<close>

definition min_bin_shift :: nat where
  "min_bin_shift = 3"

definition min_bin_bytes :: u64 where
  "min_bin_bytes = push_bit min_bin_shift 1"

definition linear_bin_cutoff :: u64 where
  "linear_bin_cutoff = 4096"

definition linear_bin_count :: u64 where
  "linear_bin_count = linear_bin_cutoff div min_bin_bytes"

definition log_bin_count :: u64 where
  "log_bin_count = 24"

definition bin_count :: u64 where
  "bin_count = linear_bin_count + log_bin_count"

definition bin_word_bits :: u64 where
  "bin_word_bits = 64"

definition bin_word_count :: u64 where
  "bin_word_count = (bin_count + bin_word_bits - 1) div bin_word_bits"

definition align_up_pow2 :: "u64 \<Rightarrow> u64 \<Rightarrow> u64" where
  "align_up_pow2 value alignment = (let msk = alignment - 1 in (value + msk) AND NOT msk)"

definition align_up_ptr :: "ptr \<Rightarrow> u64 \<Rightarrow> ptr" where
  "align_up_ptr p alignment = align_up_pow2 p alignment"

definition owned_chunk_granularity :: "run_cfg \<Rightarrow> runner \<Rightarrow> u64" where
  "owned_chunk_granularity k r =
     (if rg_huge k = Huge_enabled then explicit_huge_page_bytes else rn_page_size r)"

definition owned_chunk_bytes_for :: "run_cfg \<Rightarrow> runner \<Rightarrow> u64 \<Rightarrow> exn + u64" where
  "owned_chunk_bytes_for k r bytes =
     (case checked_round_to_multiple_of (max bytes min_chunk_bytes) (owned_chunk_granularity k r) of
        None \<Rightarrow> Inl Bad_alloc
      | Some chunk_bytes \<Rightarrow> Inr chunk_bytes)"

definition normalized_run_bytes :: "u64 \<Rightarrow> u64 option" where
  "normalized_run_bytes payload_bytes =
     do {
       payload \<leftarrow> checked_add payload_bytes (run_alignment - 1);
       out \<leftarrow> checked_add sizeof_run_header (payload AND NOT (run_alignment - 1));
       out' \<leftarrow> checked_add out (run_alignment - 1);
       Some (max (out' AND NOT (run_alignment - 1)) min_free_run_size)
     }"

section \<open>Bins\<close>

text \<open>\<open>std::bit_width\<close> returns an \<open>int\<close>; the difference is converted to \<open>size_t\<close>.\<close>

definition bin_index_for :: "u64 \<Rightarrow> u64" where
  "bin_index_for bytes =
     (let aligned = align_up_pow2 (bytes OR 1) min_bin_bytes
      in if aligned \<le> linear_bin_cutoff then drop_bit min_bin_shift aligned - 1
         else let log_idx = word_of_int (bit_width (aligned - 1) - bit_width linear_bin_cutoff)
              in min (linear_bin_count + log_idx) (bin_count - 1))"

definition bin_word_index :: "u64 \<Rightarrow> u64" where
  "bin_word_index idx = idx div bin_word_bits"

definition bin_word_bit :: "u64 \<Rightarrow> u64" where
  "bin_word_bit idx = push_bit (unat (idx mod bin_word_bits)) 1"

definition set_bin_nonempty :: "u64 \<Rightarrow> runner \<Rightarrow> runner" where
  "set_bin_nonempty idx r =
     (let i = unat (bin_word_index idx)
      in r\<lparr>rn_mask := (rn_mask r)(i := rn_mask r i OR bin_word_bit idx)\<rparr>)"

definition set_bin_empty :: "u64 \<Rightarrow> runner \<Rightarrow> runner" where
  "set_bin_empty idx r =
     (let i = unat (bin_word_index idx)
      in r\<lparr>rn_mask := (rn_mask r)(i := rn_mask r i AND NOT (bin_word_bit idx))\<rparr>)"

text \<open>
  The loop of \<open>_first_nonempty_bin_from\<close>.  Its word index stays at most \<open>bin_word_count\<close>, so it is a
  natural number here.
\<close>

function mask_scan :: "(nat \<Rightarrow> u64) \<Rightarrow> nat \<Rightarrow> u64 \<Rightarrow> u64" where
  "mask_scan msk word_idx word =
     (if word \<noteq> 0
      then let idx = adr word_idx * bin_word_bits + adr (countr_zero word)
           in if idx < bin_count then idx else bin_count
      else if word_idx + 1 \<ge> unat bin_word_count then bin_count
      else mask_scan msk (word_idx + 1) (msk (word_idx + 1)))"
  by pat_completeness auto
termination
  by (relation "measure (\<lambda>(_, i, _). unat bin_word_count - i)") auto

declare mask_scan.simps [simp del]

definition first_nonempty_bin_from :: "u64 \<Rightarrow> runner \<Rightarrow> u64" where
  "first_nonempty_bin_from start_idx r =
     (if start_idx \<ge> bin_count then bin_count
      else let word_idx = unat (bin_word_index start_idx);
               bit_idx = unat (start_idx mod bin_word_bits)
           in mask_scan (rn_mask r) word_idx (rn_mask r word_idx AND push_bit bit_idx (- 1)))"

definition link_free :: "ptr \<Rightarrow> runner_mem \<Rightarrow> runner_mem" where
  "link_free h s =
     (case s of (r, m) \<Rightarrow>
        let idx = bin_index_for (run_size m h);
            old = rn_bins r (unat idx);
            m1 = m(link_prev h := nullptr, link_next h := old);
            m2 = (if old \<noteq> nullptr then m1(link_prev old := h) else m1)
        in (set_bin_nonempty idx (r\<lparr>rn_bins := (rn_bins r)(unat idx := h)\<rparr>), m2))"

definition unlink_free :: "ptr \<Rightarrow> runner_mem \<Rightarrow> runner_mem" where
  "unlink_free h s =
     (case s of (r, m) \<Rightarrow>
        let idx = bin_index_for (run_size m h);
            prev = m (link_prev h);
            (r1, m1) = (if prev \<noteq> nullptr then (r, m(link_next prev := m (link_next h)))
                        else (r\<lparr>rn_bins := (rn_bins r)(unat idx := m (link_next h))\<rparr>, m));
            next = m1 (link_next h);
            m2 = (if next \<noteq> nullptr then m1(link_prev next := m1 (link_prev h)) else m1);
            r2 = (if rn_bins r1 (unat idx) = nullptr then set_bin_empty idx r1 else r1)
        in (r2, m2))"

section \<open>Finding a fit\<close>

partial_function (option) scan_bin :: "run_cfg \<Rightarrow> u64 \<Rightarrow> memory \<Rightarrow> ptr \<Rightarrow> u64 \<Rightarrow> (ptr \<times> u64) option" where
  "scan_bin k needed m h scan_count =
     (if h = nullptr then Some (nullptr, scan_count)
      else let scan' = (if rg_collect_stats k then scan_count + 1 else scan_count)
           in if run_size m h \<ge> needed then Some (h, scan')
              else scan_bin k needed m (m (link_next h)) scan')"

declare scan_bin.simps [code]

definition count_scanned :: "run_cfg \<Rightarrow> u64 \<Rightarrow> runner \<Rightarrow> runner" where
  "count_scanned k n = count k (\<lambda>st. st\<lparr>st_scanned_nodes := st_scanned_nodes st + n\<rparr>)"

partial_function (option) find_fit_loop ::
    "run_cfg \<Rightarrow> u64 \<Rightarrow> u64 \<Rightarrow> u64 \<Rightarrow> u64 \<Rightarrow> runner \<Rightarrow> memory \<Rightarrow> (ptr \<times> u64 \<times> runner) option" where
  "find_fit_loop k needed start_bin idx scan_count r m =
     (if \<not> idx < bin_count then Some (nullptr, scan_count, count_scanned k scan_count r)
      else if idx \<noteq> start_bin \<or> idx < linear_bin_count
      then let scan' = (if rg_collect_stats k then scan_count + 1 else scan_count)
           in Some (rn_bins r (unat idx), scan', count_scanned k scan' r)
      else do {
        (h, scan') \<leftarrow> scan_bin k needed m (rn_bins r (unat idx)) scan_count;
        if h \<noteq> nullptr then Some (h, scan', count_scanned k scan' r)
        else find_fit_loop k needed start_bin (first_nonempty_bin_from (idx + 1) r) scan' r m
      })"

declare find_fit_loop.simps [code]

definition find_fit :: "run_cfg \<Rightarrow> u64 \<Rightarrow> u64 \<Rightarrow> runner_mem \<Rightarrow> (ptr \<times> u64 \<times> runner) option" where
  "find_fit k needed scan_count s =
     (case s of (r, m) \<Rightarrow>
        let r1 = count k (\<lambda>st. st\<lparr>st_find_fit_calls := st_find_fit_calls st + 1\<rparr>) r;
            start_bin = bin_index_for needed
        in find_fit_loop k needed start_bin (first_nonempty_bin_from start_bin r1) scan_count r1 m)"

section \<open>Allocating from a run\<close>

text \<open>
  The steps that both \<open>_allocate_from_free_run\<close> and \<open>expand\<close> end with: cut the run at \<open>h\<close> down to
  \<open>needed\<close> bytes and make a free run of the rest.
\<close>

definition split_run :: "ptr \<Rightarrow> u64 \<Rightarrow> u64 \<Rightarrow> bool \<Rightarrow> runner_mem \<Rightarrow> runner_mem" where
  "split_run h needed rem_size prev_free s =
     (case s of (r, m) \<Rightarrow>
        let m1 = set_header h needed False prev_free m;
            rem = h + needed;
            m2 = set_header rem rem_size True False m1;
            m3 = write_footer rem m2;
            (r4, m4) = link_free rem (r, m3);
            next = next_run m4 rem
        in (r4, if next \<noteq> nullptr then set_prev_free next True m4 else m4))"

definition keep_run :: "ptr \<Rightarrow> u64 \<Rightarrow> bool \<Rightarrow> runner_mem \<Rightarrow> runner_mem" where
  "keep_run h bytes prev_free s =
     (case s of (r, m) \<Rightarrow>
        let m1 = set_header h bytes False prev_free m;
            next = next_run m1 h
        in (r, if next \<noteq> nullptr then set_prev_free next False m1 else m1))"

definition resize_run :: "ptr \<Rightarrow> u64 \<Rightarrow> u64 \<Rightarrow> bool \<Rightarrow> run_cfg \<Rightarrow> (stats \<Rightarrow> stats) \<Rightarrow> runner_mem \<Rightarrow> runner_mem" where
  "resize_run h old_size needed prev_free k on_split s =
     (let rem_size = old_size - needed;
          (r1, m1) = (if rem_size \<ge> min_free_run_size + split_remainder_threshold
                      then split_run h needed rem_size prev_free (count k on_split (fst s), snd s)
                      else keep_run h old_size prev_free s)
      in (r1, m1(owner_ptr h := rn_self r1)))"

definition allocate_from_free_run :: "run_cfg \<Rightarrow> ptr \<Rightarrow> u64 \<Rightarrow> runner_mem \<Rightarrow> ptr \<times> runner_mem" where
  "allocate_from_free_run k h needed s =
     (let old_size = run_size (snd s) h;
          prev_free = prev_is_free (snd s) h;
          (r2, m2) = resize_run h old_size needed prev_free k
                       (\<lambda>st. st\<lparr>st_split_count := st_split_count st + 1\<rparr>) (unlink_free h s);
          payload = run_size m2 h - sizeof_run_header
      in (payload_from_header h, (count k (add_live payload) r2, m2)))"

section \<open>Expansion in place\<close>

definition runner_expand :: "run_cfg \<Rightarrow> ptr \<Rightarrow> u64 \<Rightarrow> runner_mem \<Rightarrow> u64 \<times> runner_mem" where
  "runner_expand k p min_new_bytes s =
     (case s of (r, m) \<Rightarrow>
        if p = nullptr then (0, s)
        else
          let current = header_from_payload p;
              current_run_size = run_size m current;
              current_payload = current_run_size - sizeof_run_header
          in if current_payload \<ge> min_new_bytes then (current_payload, s)
             else case normalized_run_bytes min_new_bytes of
               None \<Rightarrow> (current_payload, s)
             | Some needed \<Rightarrow>
                 let next = next_run m current
                 in if next = nullptr \<or> \<not> is_free m next then (current_payload, s)
                    else case checked_add current_run_size (run_size m next) of
                      None \<Rightarrow> (current_payload, s)
                    | Some combined_size \<Rightarrow>
                        if combined_size < needed then (current_payload, s)
                        else
                          let prev_free = prev_is_free m current;
                              (r2, m2) = resize_run current combined_size needed prev_free k (\<lambda>st. st)
                                           (unlink_free next s);
                              expanded_payload = run_size m2 current - sizeof_run_header
                          in (expanded_payload,
                              (if expanded_payload > current_payload
                               then count k (add_live (expanded_payload - current_payload)) r2 else r2, m2)))"

section \<open>Deallocation\<close>

text \<open>Merging with the following and with the preceding run, if they are free.\<close>

definition merge_next :: "run_cfg \<Rightarrow> ptr \<Rightarrow> u64 \<Rightarrow> runner_mem \<Rightarrow> u64 \<times> runner_mem" where
  "merge_next k current current_size s =
     (let next = next_run (snd s) current
      in if next \<noteq> nullptr \<and> is_free (snd s) next
         then let (r1, m1) = unlink_free next s
              in (current_size + run_size m1 next,
                  (count k (\<lambda>st. st\<lparr>st_coalesce_next_count := st_coalesce_next_count st + 1\<rparr>) r1, m1))
         else (current_size, s))"

definition merge_prev :: "run_cfg \<Rightarrow> ptr \<Rightarrow> u64 \<Rightarrow> runner_mem \<Rightarrow> ptr \<times> u64 \<times> runner_mem" where
  "merge_prev k current current_size s =
     (if prev_is_free (snd s) current
      then let prev = prev_run (snd s) current
           in if prev \<noteq> nullptr \<and> is_free (snd s) prev
              then let (r1, m1) = unlink_free prev s
                   in (prev, current_size + run_size m1 prev,
                       (count k (\<lambda>st. st\<lparr>st_coalesce_prev_count := st_coalesce_prev_count st + 1\<rparr>) r1, m1))
              else (current, current_size, s)
      else (current, current_size, s))"

definition deallocate_bytes :: "run_cfg \<Rightarrow> ptr \<Rightarrow> runner_mem \<Rightarrow> runner_mem" where
  "deallocate_bytes k p s =
     (if p = nullptr then s
      else case s of (r, m) \<Rightarrow>
        let r1 = count k (\<lambda>st. st\<lparr>st_deallocate_calls := st_deallocate_calls st + 1\<rparr>) r;
            current = header_from_payload p;
            size0 = run_size m current;
            r2 = count k (\<lambda>st. st\<lparr>st_live_bytes := st_live_bytes st - (size0 - sizeof_run_header)\<rparr>) r1;
            (size1, s1) = merge_next k current size0 (r2, m);
            (start, size2, (r3, m3)) = merge_prev k current size1 s1;
            m4 = set_header start size2 True (prev_is_free m3 start) m3;
            m5 = write_footer start m4;
            next_after = next_run m5 start;
            m6 = (if next_after \<noteq> nullptr then set_prev_free next_after True m5 else m5)
        in link_free start (r3, m6))"

section \<open>The remote stack\<close>

text \<open>\<open>remote_push\<close> as one step; its compare-and-swap loop is the subject of \<open>Remote_Stack\<close>.\<close>

definition runner_remote_push :: "ptr \<Rightarrow> runner_mem \<Rightarrow> runner_mem" where
  "runner_remote_push p s =
     (case s of (r, m) \<Rightarrow> (r\<lparr>rn_remote := p\<rparr>, m(p := rn_remote r)))"

definition runner_take_remote :: "runner_mem \<Rightarrow> ptr \<times> runner_mem" where
  "runner_take_remote s = (case s of (r, m) \<Rightarrow> (rn_remote r, (r\<lparr>rn_remote := nullptr\<rparr>, m)))"

partial_function (option) runner_drain_loop :: "run_cfg \<Rightarrow> ptr \<Rightarrow> runner_mem \<Rightarrow> runner_mem option" where
  "runner_drain_loop k head s =
     (if head = nullptr then Some s
      else let next = snd s head in runner_drain_loop k next (deallocate_bytes k head s))"

declare runner_drain_loop.simps [code]

definition runner_drain_remote :: "run_cfg \<Rightarrow> runner_mem \<Rightarrow> (bool \<times> runner_mem) option" where
  "runner_drain_remote k s =
     (case runner_take_remote s of (head, s') \<Rightarrow>
        if head = nullptr then Some (False, s')
        else map_option (Pair True) (runner_drain_loop k head s'))"

definition owner_of :: "ptr \<Rightarrow> memory \<Rightarrow> ptr" where
  "owner_of payload m = m (payload - sizeof_ptr)"

definition owns_run :: "runner \<Rightarrow> ptr \<Rightarrow> bool" where
  "owns_run r p \<longleftrightarrow> p \<noteq> nullptr \<and>
     list_ex (\<lambda>c. p \<ge> cn_begin c \<and> p < cn_begin c + cn_bytes c) (rn_chunks r)"

section \<open>Chunks\<close>

definition initialize_free_run :: "ptr \<Rightarrow> u64 \<Rightarrow> runner_mem \<Rightarrow> runner_mem" where
  "initialize_free_run begn bytes s =
     (let run_bytes = bytes - epilogue_size;
          m1 = set_header begn run_bytes True False (snd s);
          m2 = write_footer begn m1;
          (r3, m3) = link_free begn (fst s, m2);
          epilogue = begn + run_bytes;
          m4 = set_header epilogue 0 False True m3
      in (r3, m4(owner_ptr epilogue := nullptr)))"

text \<open>
  \<open>new chunk_node{}\<close> is a request for the 40 bytes of a node, at the default alignment; a request
  that is refused throws.  The node is deleted again when there is no memory for the chunk itself.
\<close>

definition sizeof_chunk_node :: u64 where
  "sizeof_chunk_node = 40"

definition add_owned_chunk :: "run_cfg \<Rightarrow> sys \<Rightarrow> u64 \<Rightarrow> runner \<Rightarrow> world \<Rightarrow> (exn + u64) \<times> runner \<times> world" where
  "add_owned_chunk k sys bytes r w =
     (case owned_chunk_bytes_for k r bytes of
        Inl e \<Rightarrow> (Inl e, r, w)
      | Inr chunk_bytes \<Rightarrow>
          (case op_new sys sizeof_chunk_node alignof_max_align w of (node, w1) \<Rightarrow>
             if node = nullptr then (Inl Bad_alloc, r, w1)
             else case allocate_owned_memory sys (rg_huge k) chunk_bytes run_alignment w1 of
                 (Inl _, w2) \<Rightarrow> (Inl Bad_alloc, r, op_delete node alignof_max_align w2)
               | (Inr arena, w2) \<Rightarrow>
                   let c = \<lparr>cn_node = node, cn_begin = om_base arena, cn_bytes = om_bytes arena,
                            cn_mapping_base = om_base arena, cn_mapping_bytes = om_bytes arena\<rparr>;
                       (r3, m3) = initialize_free_run (cn_begin c) (cn_bytes c)
                                    (r\<lparr>rn_chunks := c # rn_chunks r\<rparr>, cells w2)
                   in (Inr chunk_bytes, r3, w2\<lparr>cells := m3\<rparr>)))"

definition add_external_chunk :: "ptr \<Rightarrow> u64 \<Rightarrow> runner_mem \<Rightarrow> exn + runner_mem" where
  "add_external_chunk data bytes s =
     (if bytes = 0 then Inl (Invalid_argument ''runner::allocator backing must not be empty'')
      else case std_align run_alignment min_chunk_bytes data bytes of
          None \<Rightarrow> Inl (Invalid_argument ''runner::allocator backing alignment is insufficient'')
        | Some (aligned, space) \<Rightarrow>
            let chunk_bytes = space - space mod run_alignment in
            if chunk_bytes < min_chunk_bytes
            then Inl (Invalid_argument ''runner::allocator backing too small'')
            else let c = \<lparr>cn_node = nullptr, cn_begin = aligned, cn_bytes = chunk_bytes,
                          cn_mapping_base = nullptr, cn_mapping_bytes = 0\<rparr>
                 in Inr (initialize_free_run aligned chunk_bytes
                           ((fst s)\<lparr>rn_chunks := c # rn_chunks (fst s)\<rparr>, snd s)))"

definition release_chunk :: "run_cfg \<Rightarrow> sys \<Rightarrow> chunk_node \<Rightarrow> world \<Rightarrow> world" where
  "release_chunk k sys c w =
     (if cn_mapping_base c \<noteq> nullptr
      then op_delete (cn_node c) alignof_max_align
             (release_owned_memory sys (rg_huge k)
               \<lparr>om_base = cn_mapping_base c, om_bytes = cn_mapping_bytes c,
                om_alignment = (if rg_huge k = Huge_enabled then explicit_huge_page_bytes else run_alignment)\<rparr> w)
      else w)"

definition release_owned_chunks :: "run_cfg \<Rightarrow> sys \<Rightarrow> runner \<Rightarrow> world \<Rightarrow> world" where
  "release_owned_chunks k sys r w = foldl (\<lambda>w c. release_chunk k sys c w) w (rn_chunks r)"

definition grow_for :: "run_cfg \<Rightarrow> sys \<Rightarrow> u64 \<Rightarrow> runner \<Rightarrow> world \<Rightarrow> (exn + unit) \<times> runner \<times> world" where
  "grow_for k sys needed r w =
     (let r1 = count k (\<lambda>st. st\<lparr>st_grow_calls := st_grow_calls st + 1\<rparr>) r
      in case checked_add needed min_chunk_bytes of
           None \<Rightarrow> (Inl Bad_alloc, r1, w)
         | Some needed_with_overhead \<Rightarrow>
             (case add_owned_chunk k sys (max (rn_next_growth r1) needed_with_overhead) r1 w of
                (Inl e, r2, w2) \<Rightarrow> (Inl e, r2, w2)
              | (Inr chunk_bytes, r2, w2) \<Rightarrow>
                  let doubled_growth = (case checked_mul chunk_bytes 2 of None \<Rightarrow> size_max | Some d \<Rightarrow> d)
                  in (Inr (), r2\<lparr>rn_next_growth := max doubled_growth chunk_bytes\<rparr>, w2)))"

section \<open>Construction\<close>

definition runner_members :: "sys \<Rightarrow> ptr \<Rightarrow> u64 \<Rightarrow> runner" where
  "runner_members sys self next_growth =
     \<lparr>rn_self = self, rn_bins = (\<lambda>_. nullptr), rn_mask = (\<lambda>_. 0), rn_chunks = [],
      rn_page_size = detect_page_size (sys_sysconf sys), rn_next_growth = next_growth,
      rn_deferred_bytes = 0, rn_stats = stats_zero, rn_remote = nullptr\<rparr>"

definition runner_new :: "run_cfg \<Rightarrow> sys \<Rightarrow> ptr \<Rightarrow> u64 \<Rightarrow> world \<Rightarrow> (exn + runner) \<times> world" where
  "runner_new k sys self initial_bytes w =
     (case add_owned_chunk k sys initial_bytes (runner_members sys self (max initial_bytes 65536)) w of
        (Inl e, _, w') \<Rightarrow> (Inl e, w')
      | (Inr chunk_bytes, r, w') \<Rightarrow> (Inr (r\<lparr>rn_next_growth := chunk_bytes\<rparr>), w'))"

definition runner_new_lazy :: "sys \<Rightarrow> ptr \<Rightarrow> u64 \<Rightarrow> runner" where
  "runner_new_lazy sys self initial_bytes =
     (runner_members sys self (max initial_bytes 65536))\<lparr>rn_deferred_bytes := max initial_bytes 1\<rparr>"

definition runner_new_external :: "sys \<Rightarrow> ptr \<Rightarrow> ptr \<Rightarrow> u64 \<Rightarrow> memory \<Rightarrow> exn + runner_mem" where
  "runner_new_external sys self data bytes m = add_external_chunk data bytes (runner_members sys self 0, m)"

section \<open>Allocation\<close>

type_synonym runner_result = "(exn + ptr) \<times> runner \<times> world"

text \<open>The end of \<open>allocate_bytes\<close>: cut the run that was found, or fail.\<close>

definition runner_finish :: "run_cfg \<Rightarrow> u64 \<Rightarrow> ptr \<Rightarrow> runner \<Rightarrow> world \<Rightarrow> runner_result" where
  "runner_finish k needed h r w =
     (if h = nullptr
      then (Inr nullptr, count k (\<lambda>st. st\<lparr>st_allocate_fail := st_allocate_fail st + 1\<rparr>) r, w)
      else case allocate_from_free_run k h needed (r, cells w) of
          (out, (r1, m1)) \<Rightarrow>
            let r2 = count k (\<lambda>st. st\<lparr>st_allocate_success := st_allocate_success st + 1,
                       st_granted_bytes := st_granted_bytes st +
                         (run_size m1 (header_from_payload out) - sizeof_run_header)\<rparr>) r1
            in (Inr out, r2, w\<lparr>cells := m1\<rparr>))"

definition runner_allocate_grow ::
    "run_cfg \<Rightarrow> sys \<Rightarrow> u64 \<Rightarrow> u64 \<Rightarrow> runner \<Rightarrow> world \<Rightarrow> runner_result option" where
  "runner_allocate_grow k sys needed scan_count r w =
     (if \<not> rg_can_grow k then Some (runner_finish k needed nullptr r w)
      else case grow_for k sys needed r w of
          (Inl e, r1, w1) \<Rightarrow> Some (Inl e, r1, w1)
        | (Inr _, r1, w1) \<Rightarrow> do {
            (h, _, r2) \<leftarrow> find_fit k needed scan_count (r1, cells w1);
            Some (runner_finish k needed h r2 w1)
          })"

definition runner_allocate_deferred ::
    "run_cfg \<Rightarrow> sys \<Rightarrow> u64 \<Rightarrow> u64 \<Rightarrow> runner \<Rightarrow> world \<Rightarrow> runner_result option" where
  "runner_allocate_deferred k sys needed scan_count r w =
     (if rn_deferred_bytes r = 0 then runner_allocate_grow k sys needed scan_count r w
      else case add_owned_chunk k sys (rn_deferred_bytes r) r w of
          (Inl e, r1, w1) \<Rightarrow> Some (Inl e, r1, w1)
        | (Inr chunk_bytes, r1, w1) \<Rightarrow> do {
            (h, scan', r2) \<leftarrow> find_fit k needed scan_count
               (r1\<lparr>rn_next_growth := chunk_bytes, rn_deferred_bytes := 0\<rparr>, cells w1);
            if h \<noteq> nullptr then Some (runner_finish k needed h r2 w1)
            else runner_allocate_grow k sys needed scan' r2 w1
          })"

definition allocate_bytes :: "run_cfg \<Rightarrow> sys \<Rightarrow> u64 \<Rightarrow> u64 \<Rightarrow> runner \<Rightarrow> world \<Rightarrow> runner_result option" where
  "allocate_bytes k sys bytes0 alignment r w =
     (let bytes = (if bytes0 = 0 then 1 else bytes0) in
      if alignment > run_alignment then Some (Inr nullptr, r, w)
      else
        let r1 = count k (\<lambda>st. st\<lparr>st_allocate_calls := st_allocate_calls st + 1,
                   st_requested_bytes := st_requested_bytes st + bytes\<rparr>) r
        in case normalized_run_bytes bytes of
             None \<Rightarrow> Some (runner_finish k 0 nullptr r1 w)
           | Some needed \<Rightarrow> do {
               (h, scan', r2) \<leftarrow> find_fit k needed 0 (r1, cells w);
               if h \<noteq> nullptr then Some (runner_finish k needed h r2 w)
               else do {
                 (drained, r3, m3) \<leftarrow> runner_drain_remote k (r2, cells w);
                 let w3 = w\<lparr>cells := m3\<rparr>;
                 if drained
                 then do {
                   (h', scan'', r4) \<leftarrow> find_fit k needed scan' (r3, m3);
                   if h' \<noteq> nullptr then Some (runner_finish k needed h' r4 w3)
                   else runner_allocate_deferred k sys needed scan'' r4 w3
                 }
                 else runner_allocate_deferred k sys needed scan' r3 w3
               }
             })"

end
