(* ===== verification/Run_Edit.thy ===== *)
theory Run_Edit
  imports Run_Layout Runner
begin

text \<open>
  Rewriting one run of a chunk: a run, or a run together with its neighbours, is a hole between two
  intact sequences; the code puts one or two new runs into the hole and corrects the flag of the
  run behind it.  The lemmas give the new layout and the cells that were written.
\<close>

section \<open>Holes\<close>

definition hole :: "memory \<Rightarrow> nat \<Rightarrow> run_shape list \<Rightarrow> nat \<Rightarrow> bool \<Rightarrow> run_shape list \<Rightarrow> bool" where
  "hole m b us n pf vs \<longleftrightarrow> 0 < b \<and> 16 dvd b \<and> b + run_total us + n + run_total vs + 16 < 2 ^ 64 \<and> 48 \<le> n \<and> 16 dvd n \<and>
     seg m b False us \<and> seg m (b + run_total us + n) pf vs \<and> m (adr (b + run_total us + n + run_total vs)) = epilogue_word"

definition head_free :: "run_shape list \<Rightarrow> bool" where
  "head_free vs \<longleftrightarrow> vs \<noteq> [] \<and> snd (hd vs)"

lemma head_free_simps [simp]: "\<not> head_free []" "head_free ((s, f) # vs) = f"
  by (simp_all add: head_free_def)

lemma laid_hole:
  assumes "laid m b (us @ mid @ vs)" "mid \<noteq> []"
  shows "hole m b us (run_total mid) (free_after False (us @ mid)) vs"
proof -
  obtain s f ms where mid: "mid = (s, f) # ms" using assms(2) by (metis neq_Nil_conv surj_pair)
  have "seg m (b + run_total us) (free_after False us) mid" using assms(1) by (simp add: laid_def)
  then have "48 \<le> run_total mid" "16 dvd run_total mid" using seg_total mid by force+
  then show ?thesis using assms by (simp add: laid_def hole_def add.assoc)
qed

lemma seg_free_apart: "seg m a pf (us @ (s, True) # vs) \<Longrightarrow> \<not> head_free vs"
  by (cases vs) auto

lemma seg_free_before: "seg m a False (us @ (s, True) # vs) \<Longrightarrow> \<not> free_after False us"
  by simp

text \<open>A sequence does not change when cells in front of it or behind it do.\<close>

lemma place_tags:
  "seg m b pf rs \<Longrightarrow> r \<in> set (place b rs) \<Longrightarrow> a \<in> tag_cells r \<Longrightarrow> b \<le> a \<and> a + 8 \<le> b + run_total rs"
proof (induction rs arbitrary: b pf)
  case Nil
  then show ?case by simp
next
  case (Cons q rs)
  obtain s f where q: "q = (s, f)" by (cases q)
  show ?case
  proof (cases "r = (b, s, f)")
    case True
    then show ?thesis using Cons.prems q by (auto simp: tag_cells_def split: if_splits)
  next
    case False
    then show ?thesis using Cons.IH[of "b + s" f] Cons.prems q by auto
  qed
qed

lemma seg_outside:
  assumes "seg m b pf rs" "\<And>a. b \<le> a \<Longrightarrow> a < b + run_total rs \<Longrightarrow> m' (adr a) = m (adr a)"
  shows "seg m' b pf rs"
proof -
  have "seg m' b pf rs = seg m b pf rs"
  proof (rule seg_cong)
    fix r a assume "r \<in> set (place b rs)" "a \<in> tag_cells r"
    then have "b \<le> a" "a + 8 \<le> b + run_total rs" using place_tags[OF assms(1)] by auto
    then show "m' (adr a) = m (adr a)" using assms(2) by simp
  qed
  then show ?thesis using assms(1) by simp
qed

lemma hole_outside:
  assumes h: "hole m b us n pf vs"
    and "\<And>a. a < 2 ^ 64 \<Longrightarrow> a < b + run_total us \<or> b + run_total us + n \<le> a \<Longrightarrow> m' (adr a) = m (adr a)"
  shows "hole m' b us n pf vs"
proof -
  have lim: "b + run_total us + n + run_total vs + 16 < 2 ^ 64" using h by (simp add: hole_def)
  have "seg m' b False us" "seg m' (b + run_total us + n) pf vs"
    using h lim assms(2) by (auto simp: hole_def intro!: seg_outside[of m])
  then show ?thesis using h lim assms(2) by (simp add: hole_def)
qed

section \<open>Marking the run behind\<close>

text \<open>The last step of splitting, keeping and freeing: correct the next run's flag, if there is one.\<close>

definition mark_next :: "ptr \<Rightarrow> bool \<Rightarrow> memory \<Rightarrow> memory" where
  "mark_next h f m = (let next = next_run m h in if next \<noteq> nullptr then set_prev_free next f m else m)"

lemma seg_flag:
  assumes "seg m a pf ((s, g) # vs)" "f \<longrightarrow> \<not> g" "a + s + run_total vs + 16 < 2 ^ 64"
  shows "seg (set_prev_free (adr a) f m) a f ((s, g) # vs)"
    and "a' < 2 ^ 64 \<Longrightarrow> a' \<noteq> a \<Longrightarrow> set_prev_free (adr a) f m (adr a') = m (adr a')"
    and "pf = f \<Longrightarrow> set_prev_free (adr a) f m = m"
proof -
  have h: "m (adr a) = pack (adr s) g pf" "48 \<le> s" "16 dvd s" "g \<longrightarrow> m (adr (a + s - 8)) = adr s \<and> \<not> pf"
    "seg m (a + s) g vs"
    using assms(1) by simp_all
  have s: "4 dvd s" "s < 2 ^ 64" using h(3) assms(3) by (auto elim: dvd_trans[rotated])
  note p = pack_props[OF s]
  let ?m = "set_prev_free (adr a) f m"
  have pi: "prev_is_free m (adr a) = pf" using p by (simp add: prev_is_free_def h(1))
  have val: "?m (adr a) = pack (adr s) g f"
    using p pi by (auto simp: set_prev_free_def h(1))
  show other: "?m (adr a') = m (adr a')" if "a' < 2 ^ 64" "a' \<noteq> a" for a'
    using that assms(3) by (simp add: set_prev_free_def adr_eq_iff)
  show "pf = f \<Longrightarrow> ?m = m" by (simp add: set_prev_free_def pi)
  have "seg ?m (a + s) g vs"
    using h(2) assms(3) by (intro seg_outside[OF h(5)] other) auto
  moreover have "g \<Longrightarrow> ?m (adr (a + s - 8)) = adr s \<and> \<not> f"
    using h(2,4) assms(2,3) other[of "a + s - 8"] by simp
  ultimately show "seg ?m a f ((s, g) # vs)" using val h(2,3) unfolding seg.simps by blast
qed

lemma hole_next:
  assumes h: "hole m b us n pf vs" and x: "x = b + run_total us" and head: "run_size m (adr x) = adr n"
  shows "next_run m (adr x) = (if vs = [] then nullptr else adr (x + n))"
proof -
  have lim: "x + n + run_total vs + 16 < 2 ^ 64" and sg: "seg m (x + n) pf vs"
    and ep: "m (adr (x + n + run_total vs)) = epilogue_word" and n: "48 \<le> n"
    using h by (simp_all add: hole_def x)
  have nx: "adr x + run_size m (adr x) = adr (x + n)" by (simp add: head adr_plus)
  show ?thesis
  proof (cases vs)
    case Nil
    then show ?thesis using ep epilogue_size_0 unfolding next_run_def nx by (simp add: run_size_def)
  next
    case (Cons v ws)
    obtain t g where v: "v = (t, g)" by (cases v)
    have t: "m (adr (x + n)) = pack (adr t) g pf" "48 \<le> t" "16 dvd t" "t < 2 ^ 64"
      using sg lim by (simp_all add: Cons v)
    then have "run_size m (adr (x + n)) = adr t"
      using pack_props(1)[of t g pf] by (auto simp: run_size_def elim: dvd_trans[rotated])
    then show ?thesis
      unfolding next_run_def nx using t lim n by (simp add: Cons adr_eq_0_iff)
  qed
qed

lemma mark_next_laid:
  assumes h: "hole m b us n pf vs" and x: "x = b + run_total us"
    and head: "m (adr x) = pack (adr n) f (free_after False us)"
    and foot: "f \<Longrightarrow> m (adr (x + n - 8)) = adr n \<and> \<not> free_after False us \<and> \<not> head_free vs"
  shows "laid (mark_next (adr x) f m) b (us @ (n, f) # vs)"
    and "a < 2 ^ 64 \<Longrightarrow> a \<noteq> x + n \<Longrightarrow> mark_next (adr x) f m (adr a) = m (adr a)"
proof -
  have lim: "x + n + run_total vs + 16 < 2 ^ 64" and n: "48 \<le> n" "16 dvd n" and sg: "seg m (x + n) pf vs"
    and ep: "m (adr (x + n + run_total vs)) = epilogue_word" and us: "seg m b False us" and b: "0 < b" "16 dvd b"
    using h by (simp_all add: hole_def x)
  have "4 dvd n" using n(2) by (rule dvd_trans[rotated]) simp
  then have "run_size m (adr x) = adr n"
    using pack_props(1)[of n f "free_after False us"] lim by (simp add: run_size_def head)
  note nx = hole_next[OF h x this]
  let ?m = "mark_next (adr x) f m"
  have "seg ?m (x + n) f vs \<and> (\<forall>a < 2 ^ 64. a \<noteq> x + n \<longrightarrow> ?m (adr a) = m (adr a)) \<and> (vs = [] \<longrightarrow> ?m = m)"
  proof (cases vs)
    case Nil
    then show ?thesis by (simp add: mark_next_def nx)
  next
    case (Cons v ws)
    obtain t g where v: "v = (t, g)" by (cases v)
    have l: "x + n + t + run_total ws + 16 < 2 ^ 64" using lim by (simp add: Cons v)
    have g: "f \<longrightarrow> \<not> g" using foot by (auto simp: Cons v)
    have m': "?m = set_prev_free (adr (x + n)) f m"
      using n lim by (simp add: mark_next_def nx Cons adr_eq_0_iff)
    show ?thesis using seg_flag[OF sg[unfolded Cons v] g l] unfolding m' Cons v by blast
  qed
  then have vs: "seg ?m (x + n) f vs" and other: "\<And>a. a < 2 ^ 64 \<Longrightarrow> a \<noteq> x + n \<Longrightarrow> ?m (adr a) = m (adr a)"
    and same: "vs = [] \<Longrightarrow> ?m = m" by blast+
  show "a < 2 ^ 64 \<Longrightarrow> a \<noteq> x + n \<Longrightarrow> ?m (adr a) = m (adr a)" by (rule other)
  have "0 < run_total vs" if "vs \<noteq> []" using that sg by (cases vs) auto
  then have "?m (adr (x + n + run_total vs)) = epilogue_word"
    using ep other[of "x + n + run_total vs"] same lim by (cases "vs = []") auto
  moreover have "seg ?m b False us"
    using lim by (intro seg_outside[OF us] other) (auto simp: x)
  moreover have "?m (adr x) = m (adr x)" using other[of x] lim n by simp
  moreover have "f \<Longrightarrow> ?m (adr (x + n - 8)) = adr n" using other[of "x + n - 8"] lim n foot by simp
  ultimately show "laid ?m b (us @ (n, f) # vs)"
    using b lim n vs head foot by (auto simp: laid_def x add.assoc)
qed

lemma mark_next_same:
  assumes "laid m b (us @ (s, f) # vs)"
  shows "mark_next (adr (b + run_total us)) f m = m"
proof (cases vs)
  case Nil
  then show ?thesis using laid_next[OF assms] by (simp add: mark_next_def)
next
  case (Cons v ws)
  obtain t g where v: "v = (t, g)" by (cases v)
  have "prev_is_free m (adr (b + run_total us + s)) = f"
    using laid_at(3)[of m b "us @ [(s, f)]" t g ws] assms by (simp add: Cons v add.assoc)
  then show ?thesis using laid_next[OF assms] by (simp add: mark_next_def set_prev_free_def Cons Let_def)
qed

section \<open>Filling a hole\<close>

lemma footer_adr:
  assumes "m (adr x) = pack (adr n) f pf" "16 dvd n" "48 \<le> n" "x + n < 2 ^ 64"
  shows "write_footer (adr x) m = m(adr (x + n - 8) := adr n)"
proof -
  have "4 dvd n" using assms(2) by (rule dvd_trans[rotated]) simp
  then have s: "size_field (m (adr x)) = adr n" using pack_props(1)[of n f pf] assms by simp
  have "adr x + adr n - 8 = adr (x + n - 8)" using assms(3) by (simp add: adr_plus adr_minus_numeral)
  then show ?thesis by (simp add: write_footer_def footer_ptr_def run_size_def s)
qed

text \<open>One allocated run.\<close>

lemma fill_used:
  assumes h: "hole m b us n pf vs" and x: "x = b + run_total us"
  defines "m' \<equiv> mark_next (adr x) False (set_header (adr x) (adr n) False (free_after False us) m)"
  shows "laid m' b (us @ (n, False) # vs)"
    and "a < 2 ^ 64 \<Longrightarrow> a \<noteq> x \<Longrightarrow> a \<noteq> x + n \<Longrightarrow> m' (adr a) = m (adr a)"
proof -
  have lim: "x + n + run_total vs + 16 < 2 ^ 64" "48 \<le> n" using h by (simp_all add: hole_def x)
  let ?m = "set_header (adr x) (adr n) False (free_after False us) m"
  have other: "?m (adr a) = m (adr a)" if "a < 2 ^ 64" "a \<noteq> x" for a
    using that lim by (simp add: set_header_def adr_eq_iff)
  have h': "hole ?m b us n pf vs"
    using lim(2) by (intro hole_outside[OF h] other) (auto simp: x)
  note mk = mark_next_laid[OF h' x, of False, folded m'_def]
  show "laid m' b (us @ (n, False) # vs)" by (rule mk(1)) (simp_all add: set_header_def)
  show "a < 2 ^ 64 \<Longrightarrow> a \<noteq> x \<Longrightarrow> a \<noteq> x + n \<Longrightarrow> m' (adr a) = m (adr a)"
    using mk(2)[of a] other[of a] by (simp add: set_header_def)
qed

text \<open>One free run.\<close>

lemma fill_free:
  assumes h: "hole m b us n pf vs" and x: "x = b + run_total us"
    and fr: "\<not> free_after False us" "\<not> head_free vs"
  defines "m' \<equiv> mark_next (adr x) True (write_footer (adr x) (set_header (adr x) (adr n) True False m))"
  shows "laid m' b (us @ (n, True) # vs)"
    and "a < 2 ^ 64 \<Longrightarrow> a \<noteq> x \<Longrightarrow> a \<noteq> x + n - 8 \<Longrightarrow> a \<noteq> x + n \<Longrightarrow> m' (adr a) = m (adr a)"
proof -
  have lim: "x + n + run_total vs + 16 < 2 ^ 64" "48 \<le> n" "16 dvd n" using h by (simp_all add: hole_def x)
  let ?m1 = "set_header (adr x) (adr n) True False m"
  let ?m = "write_footer (adr x) ?m1"
  have m1x: "?m1 (adr x) = pack (adr n) True False" by (simp add: set_header_def)
  have m: "?m = ?m1(adr (x + n - 8) := adr n)"
    using lim footer_adr[of ?m1 x n True False] m1x by simp
  have ne: "adr x \<noteq> adr (x + n - 8)" using lim by (simp add: adr_eq_iff)
  have other: "?m (adr a) = m (adr a)" if "a < 2 ^ 64" "a \<noteq> x" "a \<noteq> x + n - 8" for a
    using that lim unfolding m by (simp add: set_header_def adr_eq_iff)
  have h': "hole ?m b us n pf vs"
    using lim(2) by (intro hole_outside[OF h] other) (auto simp: x)
  note mk = mark_next_laid[OF h' x, of True, folded m'_def]
  have x': "?m (adr x) = pack (adr n) True (free_after False us)" using ne fr m1x unfolding m by simp
  show "laid m' b (us @ (n, True) # vs)" by (rule mk(1)[OF x']) (use fr in \<open>simp add: m\<close>)
  show "a < 2 ^ 64 \<Longrightarrow> a \<noteq> x \<Longrightarrow> a \<noteq> x + n - 8 \<Longrightarrow> a \<noteq> x + n \<Longrightarrow> m' (adr a) = m (adr a)"
    using mk(2)[OF x', of a] other[of a] fr by (simp add: m)
qed

text \<open>An allocated run and a free remainder, in front of a run whose flag is set already.\<close>

lemma fill_split:
  assumes h: "hole m b us n True vs" and x: "x = b + run_total us"
    and d: "16 dvd d" "48 \<le> d" "d + 48 \<le> n" and hf: "\<not> head_free vs"
  defines "m' \<equiv> write_footer (adr (x + d)) (set_header (adr (x + d)) (adr (n - d)) True False
      (set_header (adr x) (adr d) False (free_after False us) m))"
  shows "laid m' b (us @ (d, False) # (n - d, True) # vs)"
    and "a < 2 ^ 64 \<Longrightarrow> a \<noteq> x \<Longrightarrow> a \<noteq> x + d \<Longrightarrow> a \<noteq> x + n - 8 \<Longrightarrow> m' (adr a) = m (adr a)"
proof -
  have lim: "x + n + run_total vs + 16 < 2 ^ 64" "48 \<le> n" "16 dvd n" and b: "0 < b" "16 dvd b"
    and sg: "seg m b False us" "seg m (x + n) True vs" and ep: "m (adr (x + n + run_total vs)) = epilogue_word"
    using h by (simp_all add: hole_def x)
  let ?m1 = "set_header (adr (x + d)) (adr (n - d)) True False (set_header (adr x) (adr d) False (free_after False us) m)"
  have n': "16 dvd n - d" "x + d + (n - d) = x + n" using d lim by simp_all
  have "?m1 (adr (x + d)) = pack (adr (n - d)) True False" by (simp add: set_header_def)
  then have m': "m' = ?m1(adr (x + n - 8) := adr (n - d))"
    using footer_adr[of ?m1 "x + d" "n - d" True False] d lim n' by (simp add: m'_def)
  have ne: "adr x \<noteq> adr (x + d)" "adr x \<noteq> adr (x + n - 8)" "adr (x + d) \<noteq> adr (x + n - 8)"
    using d lim by (simp_all add: adr_eq_iff)
  have other: "m' (adr a) = m (adr a)" if "a < 2 ^ 64" "a \<noteq> x" "a \<noteq> x + d" "a \<noteq> x + n - 8" for a
    using that d lim unfolding m' by (simp add: set_header_def adr_eq_iff)
  then show "a < 2 ^ 64 \<Longrightarrow> a \<noteq> x \<Longrightarrow> a \<noteq> x + d \<Longrightarrow> a \<noteq> x + n - 8 \<Longrightarrow> m' (adr a) = m (adr a)" .
  have us: "seg m' b False us" "seg m' (x + n) True vs"
    using lim d by (intro seg_outside[OF sg(1)] seg_outside[OF sg(2)] other; simp add: x)+
  have vs: "m' (adr (x + n + run_total vs)) = epilogue_word" using ep other lim d by simp
  have "m' (adr x) = pack (adr d) False (free_after False us)" "m' (adr (x + d)) = pack (adr (n - d)) True False"
    "m' (adr (x + n - 8)) = adr (n - d)"
    using ne unfolding m' by (simp_all add: set_header_def)
  moreover have e: "b + (run_total us + (n + run_total vs)) = x + (n + run_total vs)" "48 \<le> n - d"
    using d(3) by (simp_all add: x)
  ultimately show "laid m' b (us @ (d, False) # (n - d, True) # vs)"
    using b lim d n' us vs by (simp add: laid_def x[symmetric] add.assoc e)
qed

end
