(* ===== verification/Bin_Index.thy ===== *)
theory Bin_Index
  imports Runner
begin

text \<open>
  The arithmetic of the bins: which bin a size belongs to, how the bitmap finds the first bin that
  is not empty, and the size of the run that a payload needs.
\<close>

section \<open>The bin of a size\<close>

definition bin_nat :: "nat \<Rightarrow> nat" where
  "bin_nat s = (if s + 8 \<le> 4096 then s div 8 else min (512 + (nat_width (s + 7) - 13)) 535)"

lemma bin_constants:
  "min_bin_shift = 3" "min_bin_bytes = 8" "linear_bin_cutoff = 4096" "linear_bin_count = 512"
  "log_bin_count = 24" "bin_count = 536" "bin_word_bits = 64" "bin_word_count = 9"
  by (simp_all add: min_bin_shift_def min_bin_bytes_def linear_bin_cutoff_def linear_bin_count_def
      log_bin_count_def bin_count_def bin_word_bits_def bin_word_count_def)

lemma nat_width_0 [simp]: "nat_width 0 = 0"
  by (simp add: nat_width.simps)

lemma nat_width_le_iff: "nat_width n \<le> k \<longleftrightarrow> n < 2 ^ k"
proof (induction n arbitrary: k rule: nat_width.induct)
  case (1 n)
  show ?case
  proof (cases "n = 0")
    case True
    then show ?thesis by simp
  next
    case False
    then have w: "nat_width n = Suc (nat_width (n div 2))" by (subst nat_width.simps) simp
    show ?thesis
    proof (cases k)
      case 0
      then show ?thesis using w False by simp
    next
      case (Suc j)
      have "nat_width (n div 2) \<le> j \<longleftrightarrow> n div 2 < 2 ^ j" using 1 False by simp
      also have "\<dots> \<longleftrightarrow> n < 2 ^ Suc j" by auto
      finally show ?thesis using w Suc by simp
    qed
  qed
qed

lemma nat_width_mono: "m \<le> n \<Longrightarrow> nat_width m \<le> nat_width n"
  using nat_width_le_iff[of n "nat_width n"] nat_width_le_iff[of m "nat_width n"] by simp

lemma nat_width_4096: "nat_width 4096 = 13"
  using nat_width_le_iff[of 4096 13] nat_width_le_iff[of 4096 12] by simp

lemma bin_nat_less: "bin_nat s < 536"
  by (auto simp: bin_nat_def)

lemma bin_nat_mono: "s \<le> t \<Longrightarrow> bin_nat s \<le> bin_nat t"
  using nat_width_mono[of "s + 7" "t + 7"] div_le_mono[of s t 8] div_le_mono[of s 4088 8]
  by (auto simp: bin_nat_def)

text \<open>The linear bins hold one size each.\<close>

lemma bin_nat_linear:
  assumes "bin_nat s = bin_nat t" "bin_nat s < 512" "8 dvd s" "8 dvd t"
  shows "s = t"
proof -
  have "s + 8 \<le> 4096" "t + 8 \<le> 4096" using assms(1,2) by (auto simp: bin_nat_def split: if_splits)
  then have "s div 8 = t div 8" using assms(1) by (simp add: bin_nat_def)
  then show ?thesis using assms(3,4) by (auto elim!: dvdE)
qed

lemma align_up_bin:
  assumes "8 dvd s" "s + 8 < 2 ^ 64"
  shows "align_up_pow2 (adr s OR 1) 8 = adr (s + 8)"
proof -
  have "even s" using assms(1) by (auto elim!: dvdE)
  then have "\<not> bit (adr s) 0"
    using assms(2) by (simp add: adr_def bit_0)
  have "adr s OR 1 = adr s + 1"
    by (rule disjunctive_add[symmetric]) (use \<open>\<not> bit (adr s) 0\<close> in \<open>auto simp: bit_1_iff intro: gr0I\<close>)
  then have x: "(adr s OR 1) + (8 - 1) = adr (s + 8)"
    unfolding \<open>adr s OR 1 = adr s + 1\<close> by (simp add: adr_def)
  have seven: "(8 :: u64) - 1 = mask 3" by (simp add: mask_eq_exp_minus_1)
  have "unat (adr (s + 8) AND NOT (mask 3)) = s + 8"
    using assms by (simp add: unat_clear_low unat_adr dvd_eq_mod_eq_0)
  then have "adr (s + 8) AND NOT (mask 3) = adr (s + 8)"
    by (metis adr_unat)
  then show ?thesis using x unfolding align_up_pow2_def Let_def seven by simp
qed

lemma bin_index_word:
  assumes "8 dvd s" "s + 8 < 2 ^ 64"
  shows "bin_index_for (adr s) = adr (bin_nat s)"
proof -
  note al = align_up_bin[OF assms]
  show ?thesis
  proof (cases "s + 8 \<le> 4096")
    case True
    have le: "adr (s + 8) \<le> linear_bin_cutoff"
      using True by (simp add: bin_constants word_le_nat_alt unat_adr)
    have "unat (drop_bit 3 (adr (s + 8))) = s div 8 + 1"
      using assms True by (simp add: unat_div unat_adr drop_bit_eq_div)
    then have "drop_bit 3 (adr (s + 8)) = adr (s div 8 + 1)" by (metis adr_unat)
    then have "drop_bit 3 (adr (s + 8)) - 1 = adr (s div 8)"
      by (simp add: adr_def)
    then show ?thesis using True le
      by (simp add: bin_index_for_def al bin_constants(1,2) bin_nat_def Let_def)
  next
    case False
    have gt: "\<not> adr (s + 8) \<le> linear_bin_cutoff"
      using False assms by (simp add: bin_constants word_le_nat_alt unat_adr)
    have m1: "unat (adr (s + 8) - 1) = s + 7"
      using assms(2) by (subst unat_minus_le) (simp_all add: word_le_nat_alt unat_adr)
    have w64: "nat_width (s + 7) \<le> 64" using assms(2) nat_width_le_iff[of "s + 7" 64] by simp
    have w13: "13 \<le> nat_width (s + 7)"
      using False nat_width_le_iff[of "s + 7" 12] by simp
    have bw: "bit_width (adr (s + 8) - 1) - bit_width linear_bin_cutoff = int (nat_width (s + 7) - 13)"
      using w13 by (simp add: bit_width_def m1 bin_constants nat_width_4096)
    have "linear_bin_count + word_of_int (int (nat_width (s + 7) - 13)) = adr (512 + (nat_width (s + 7) - 13))"
      by (simp add: bin_constants adr_def)
    moreover have "bin_count - 1 = adr 535" by (simp add: bin_constants adr_def)
    ultimately show ?thesis using False gt bw w64
      by (simp add: bin_index_for_def al bin_constants(1,2) bin_nat_def Let_def min_def adr_le_iff)
  qed
qed

section \<open>The bitmap\<close>

lemma countr_zero_props:
  assumes "x \<noteq> (0 :: u64)"
  shows "countr_zero x < 64" and "bit x (countr_zero x)" and "i < countr_zero x \<Longrightarrow> \<not> bit x i"
proof -
  have ex: "\<exists>i < 64. bit x i" using assms by (auto simp: bit_eq_iff)
  let ?t = "takeWhile (\<lambda>i. \<not> bit x i) [0..<64]"
  have lt: "length ?t < 64"
  proof (rule ccontr)
    assume "\<not> ?thesis"
    then have "?t = [0..<64]" by (metis length_takeWhile_le length_upt diff_zero le_antisym not_less takeWhile_eq_take take_all)
    then show False using ex by (metis atLeast0LessThan lessThan_iff set_takeWhileD set_upt)
  qed
  then show "countr_zero x < 64" by (simp add: countr_zero_def)
  have "\<not> \<not> bit x ([0..<64] ! length ?t)"
    using nth_length_takeWhile[of "\<lambda>i. \<not> bit x i" "[0..<64]"] lt by simp
  then show "bit x (countr_zero x)" using lt by (simp add: countr_zero_def)
  assume "i < countr_zero x"
  then have i: "i < length ?t" by (simp add: countr_zero_def)
  then have "?t ! i \<in> set ?t" by (rule nth_mem)
  then have "\<not> bit x (?t ! i)" by (metis set_takeWhileD)
  moreover have "?t ! i = i" using i lt by (simp add: takeWhile_nth)
  ultimately show "\<not> bit x i" by simp
qed

definition bin_set :: "(nat \<Rightarrow> u64) \<Rightarrow> nat \<Rightarrow> bool" where
  "bin_set msk i \<longleftrightarrow> bit (msk (i div 64)) (i mod 64)"

text \<open>The first index at or after \<open>i\<close> with a property, below the number of bins.\<close>

definition first_from :: "(nat \<Rightarrow> bool) \<Rightarrow> nat \<Rightarrow> nat \<Rightarrow> bool" where
  "first_from P i j \<longleftrightarrow> i \<le> j \<and> j \<le> 536 \<and> (j < 536 \<longrightarrow> P j) \<and> (\<forall>k. i \<le> k \<and> k < j \<longrightarrow> \<not> P k)"

lemma first_from_unique: "first_from P i j \<Longrightarrow> first_from P i j' \<Longrightarrow> j = j'"
  unfolding first_from_def by (cases j j' rule: linorder_cases) force+

lemma mask_scan_first:
  assumes "w < 9"
  shows "\<exists>j. mask_scan msk w word = adr j \<and>
     first_from (\<lambda>k. if k div 64 = w then bit word (k mod 64) else bin_set msk k) (64 * w) j"
  using assms
proof (induction msk w word rule: mask_scan.induct)
  case (1 msk w word)
  let ?P = "\<lambda>k. if k div 64 = w then bit word (k mod 64) else bin_set msk k"
  show ?case
  proof (cases "word = 0")
    case False
    note c = countr_zero_props[OF False]
    let ?j = "64 * w + countr_zero word"
    have idx: "adr w * bin_word_bits + adr (countr_zero word) = adr ?j"
      by (simp add: bin_constants adr_def mult.commute)
    have le: "\<not> ?P k" if "64 * w \<le> k" "k < ?j" for k
    proof -
      have "k = 64 * w + (k - 64 * w)" "k - 64 * w < 64" using that c(1) by auto
      then have "k div 64 = w" "k mod 64 = k - 64 * w"
        by (metis div_mult_self2 div_less add.right_neutral add.commute less_numeral_extra(3) zero_less_numeral, metis mod_mult_self2 mod_less add.commute)
      then show ?thesis using c(3)[of "k - 64 * w"] that by simp
    qed
    have pj: "?P ?j" using c(1,2) by simp
    have "?j < 2 ^ 64" using c(1) 1(2) by simp
    then have lt: "adr ?j < bin_count \<longleftrightarrow> ?j < 536"
      by (simp add: bin_constants word_less_nat_alt unat_adr)
    have step: "mask_scan msk w word = (if ?j < 536 then adr ?j else adr 536)"
      using False by (subst mask_scan.simps) (simp add: idx lt[unfolded bin_constants] bin_constants(6) adr_numeral Let_def)
    show ?thesis
    proof (cases "?j < 536")
      case True
      then have "first_from ?P (64 * w) ?j" using le pj by (simp add: first_from_def)
      then show ?thesis using step True by (intro exI[of _ ?j] conjI) simp_all
    next
      case False
      then have "first_from ?P (64 * w) 536" using le 1(2) by (simp add: first_from_def)
      then show ?thesis using step False by (intro exI[of _ 536] conjI) simp_all
    qed
  next
    case True
    have none: "\<not> ?P k" if "64 * w \<le> k" "k < 64 * (w + 1)" for k
    proof -
      have "k div 64 = w" using that by (intro div_nat_eqI) auto
      then show ?thesis using True by simp
    qed
    show ?thesis
    proof (cases "w + 1 < 9")
      case False
      then have "mask_scan msk w word = adr 536"
        using True by (subst mask_scan.simps) (simp add: bin_constants adr_numeral)
      moreover have "first_from ?P (64 * w) 536"
        using none False 1(2) by (auto simp: first_from_def)
      ultimately show ?thesis by blast
    next
      case wl: True
      obtain j where j: "mask_scan msk (w + 1) (msk (w + 1)) = adr j"
        "first_from (\<lambda>k. if k div 64 = w + 1 then bit (msk (w + 1)) (k mod 64) else bin_set msk k) (64 * (w + 1)) j"
        using 1(1)[OF _ _ wl] True wl by (auto simp: bin_constants)
      have "mask_scan msk w word = adr j"
        using True wl j(1) by (subst mask_scan.simps) (simp add: bin_constants)
      moreover have "first_from ?P (64 * w) j"
      proof -
        have eq: "(if k div 64 = w + 1 then bit (msk (w + 1)) (k mod 64) else bin_set msk k) = bin_set msk k" for k
          by (simp add: bin_set_def)
        have "?P k = bin_set msk k" if "64 * (w + 1) \<le> k" for k
        proof -
          have "w + 1 \<le> k div 64" using that div_le_mono[of "64 * (w + 1)" k 64] by simp
          then show ?thesis by simp
        qed
        then show ?thesis
          using j(2) none unfolding first_from_def eq by (smt (verit, best) le_trans not_less mult_le_mono2 le_add1)
      qed
      ultimately show ?thesis by blast
    qed
  qed
qed

lemma first_nonempty_spec:
  assumes "i \<le> 536"
  obtains j where "first_nonempty_bin_from (adr i) r = adr j" and "first_from (bin_set (rn_mask r)) i j"
proof (cases "i = 536")
  case True
  then have "first_nonempty_bin_from (adr i) r = adr 536"
    by (simp add: first_nonempty_bin_from_def bin_constants adr_numeral)
  moreover have "first_from (bin_set (rn_mask r)) i 536" using True by (auto simp: first_from_def)
  ultimately show thesis by (rule that)
next
  case False
  then have i: "i < 536" using assms by simp
  let ?w = "i div 64" and ?b = "i mod 64"
  have w: "?w < 9" using i by simp
  have lt: "\<not> adr i \<ge> bin_count" using i by (simp add: bin_constants word_le_nat_alt unat_adr)
  have wi: "unat (bin_word_index (adr i)) = ?w" "unat (adr i mod bin_word_bits) = ?b"
    using i by (simp_all add: bin_word_index_def bin_constants unat_div unat_mod unat_adr)
  let ?word = "rn_mask r ?w AND push_bit ?b (- 1)"
  obtain j where j: "mask_scan (rn_mask r) ?w ?word = adr j"
    "first_from (\<lambda>k. if k div 64 = ?w then bit ?word (k mod 64) else bin_set (rn_mask r) k) (64 * ?w) j"
    using mask_scan_first[OF w, of "rn_mask r" ?word] by blast
  have P: "(if k div 64 = ?w then bit ?word (k mod 64) else bin_set (rn_mask r) k) \<longleftrightarrow>
      bin_set (rn_mask r) k \<and> (k div 64 = ?w \<longrightarrow> ?b \<le> k mod 64)" for k
    by (auto simp: bin_set_def bit_and_iff bit_not_iff bit_mask_iff dest: bit_imp_le_length)
  have iff: "(k div 64 = ?w \<longrightarrow> ?b \<le> k mod 64) \<longleftrightarrow> i \<le> k" if "64 * ?w \<le> k" for k
  proof -
    have "?w \<le> k div 64" using that div_le_mono[of "64 * ?w" k 64] by simp
    moreover have "i = 64 * ?w + ?b" "k = 64 * (k div 64) + k mod 64" "?b < 64" by simp_all
    moreover have "k div 64 \<noteq> ?w \<Longrightarrow> ?w \<le> k div 64 \<Longrightarrow> 64 * ?w + 64 \<le> 64 * (k div 64)" by simp
    ultimately show ?thesis by (cases "k div 64 = ?w") linarith+
  qed
  have "first_from (bin_set (rn_mask r)) i j"
  proof -
    have j2: "64 * ?w \<le> j" "j \<le> 536" "j < 536 \<longrightarrow> bin_set (rn_mask r) j \<and> (j div 64 = ?w \<longrightarrow> ?b \<le> j mod 64)"
      "\<And>k. 64 * ?w \<le> k \<Longrightarrow> k < j \<Longrightarrow> \<not> (bin_set (rn_mask r) k \<and> (k div 64 = ?w \<longrightarrow> ?b \<le> k mod 64))"
      using j(2) unfolding first_from_def P by auto
    have base: "64 * ?w \<le> i" by simp
    show ?thesis
      unfolding first_from_def
    proof (intro conjI allI impI)
      show "i \<le> j" using j2(1-3) iff[of j] i by (cases "j < 536") auto
      show "j \<le> 536" by (rule j2(2))
      show "bin_set (rn_mask r) j" if "j < 536" using j2(3) that by simp
      show "\<not> bin_set (rn_mask r) k" if "i \<le> k \<and> k < j" for k
        using j2(4)[of k] iff[of k] that base by auto
    qed
  qed
  moreover have "first_nonempty_bin_from (adr i) r = adr j"
    using lt j(1) by (simp add: first_nonempty_bin_from_def wi)
  ultimately show thesis using that by blast
qed

lemma bin_set_updates:
  assumes "i < 536" "j < 536"
  shows "bin_set (rn_mask (set_bin_nonempty (adr i) r)) j \<longleftrightarrow> j = i \<or> bin_set (rn_mask r) j"
    and "bin_set (rn_mask (set_bin_empty (adr i) r)) j \<longleftrightarrow> j \<noteq> i \<and> bin_set (rn_mask r) j"
proof -
  have wi: "unat (bin_word_index (adr i)) = i div 64" "unat (adr i mod bin_word_bits) = i mod 64"
    using assms by (simp_all add: bin_word_index_def bin_constants unat_div unat_mod unat_adr)
  have b: "bit (bin_word_bit (adr i)) n \<longleftrightarrow> n = i mod 64" if "n < 64" for n
    using that unfolding bin_word_bit_def wi by (simp only: bit_push_bit_iff bit_1_iff) auto
  have ij: "i = j \<longleftrightarrow> i div 64 = j div 64 \<and> i mod 64 = j mod 64"
    by (metis mult_div_mod_eq)
  show "bin_set (rn_mask (set_bin_nonempty (adr i) r)) j \<longleftrightarrow> j = i \<or> bin_set (rn_mask r) j"
    using b[of "j mod 64"] ij by (auto simp: bin_set_def set_bin_nonempty_def wi bit_or_iff Let_def)
  show "bin_set (rn_mask (set_bin_empty (adr i) r)) j \<longleftrightarrow> j \<noteq> i \<and> bin_set (rn_mask r) j"
    using b[of "j mod 64"] ij by (auto simp: bin_set_def set_bin_empty_def wi bit_and_iff bit_not_iff Let_def)
qed

section \<open>The size of a run for a payload\<close>

lemma and_not_15: "unat (x AND NOT (run_alignment - 1)) = unat x - unat x mod 16"
proof -
  have "run_alignment - 1 = mask 4" by (simp add: run_constants mask_eq_exp_minus_1)
  then show ?thesis by (simp add: unat_clear_low)
qed

text \<open>The payload rounded up to the alignment, the header in front, and at least a free run.\<close>

definition run_bytes_nat :: "nat \<Rightarrow> nat" where
  "run_bytes_nat p = max (nat_round_up p 16 + 16) 48"

lemma round_up_16: "nat_round_up p 16 = p + 15 - (p + 15) mod 16"
proof -
  define q and t where "q = p div 16" and "t = p mod 16"
  have p: "p = 16 * q + t" and t: "t < 16" by (simp_all add: q_def t_def)
  have "(p + 15) mod 16 = (if t = 0 then 15 else t - 1)"
  proof (cases "t = 0")
    case False
    then have "p + 15 = (t - 1) + 16 * (q + 1)" using p by simp
    then have "(p + 15) mod 16 = (t - 1) mod 16" by (simp only: mod_mult_self2)
    then show ?thesis using False t by simp
  qed (simp add: p)
  then show ?thesis using t by (auto simp: nat_round_up_def t_def[symmetric])
qed

lemma normalized_run_bytes_eq:
  "normalized_run_bytes p =
     (if nat_round_up (unat p) 16 + 31 < 2 ^ 64 then Some (adr (run_bytes_nat (unat p))) else None)"
proof -
  note up = nat_round_up_props[of 16 "unat p", simplified]
  note r = round_up_16[of "unat p"]
  show ?thesis
  proof (cases "unat p + 15 < 2 ^ 64")
    case False
    then have "checked_add p (run_alignment - 1) = None"
      by (simp add: checked_add_eq run_constants)
    moreover have "\<not> nat_round_up (unat p) 16 + 31 < 2 ^ 64" using False up by simp
    ultimately show ?thesis by (simp add: normalized_run_bytes_def)
  next
    case True
    let ?R = "nat_round_up (unat p) 16"
    have u16: "unat sizeof_run_header = 16" by (simp add: run_constants)
    have a1: "checked_add p (run_alignment - 1) = Some (p + 15)"
      using True by (simp add: checked_add_eq run_constants)
    have "unat (p + 15) = unat p + 15" using True by (simp add: unat_plus_le)
    then have pay: "unat ((p + 15) AND NOT (run_alignment - 1)) = ?R"
      by (simp add: and_not_15 r)
    show ?thesis
    proof (cases "?R + 31 < 2 ^ 64")
      case False
      show ?thesis
      proof (cases "?R + 16 < 2 ^ 64")
        case F: False
        then have "checked_add sizeof_run_header ((p + 15) AND NOT (run_alignment - 1)) = None"
          by (simp only: checked_add_eq pay u16) (simp add: run_constants)
        then show ?thesis using False by (simp add: normalized_run_bytes_def a1)
      next
        case T: True
        then have c: "checked_add sizeof_run_header ((p + 15) AND NOT (run_alignment - 1)) =
            Some (16 + ((p + 15) AND NOT (run_alignment - 1)))"
          by (simp only: checked_add_eq pay u16) (simp add: run_constants)
        have "unat (16 + ((p + 15) AND NOT (run_alignment - 1))) = ?R + 16"
          using T pay by (simp add: unat_plus_le)
        then have "checked_add (16 + ((p + 15) AND NOT (run_alignment - 1))) (run_alignment - 1) = None"
          using False by (simp add: checked_add_eq run_constants(2))
        then show ?thesis using False by (simp add: normalized_run_bytes_def a1 c)
      qed
    next
      case fits: True
      let ?q = "16 + ((p + 15) AND NOT (run_alignment - 1))"
      have c: "checked_add sizeof_run_header ((p + 15) AND NOT (run_alignment - 1)) = Some ?q"
        using fits by (simp only: checked_add_eq pay u16) (simp add: run_constants)
      have q: "unat ?q = ?R + 16" using fits pay by (simp add: unat_plus_le)
      have c2: "checked_add ?q (run_alignment - 1) = Some (?q + 15)"
        using fits q by (simp add: checked_add_eq run_constants(2))
      have "unat (?q + 15) = ?R + 31"
        using unat_plus_le[of ?q 15] fits unfolding q by simp
      moreover have "(?R + 31) mod 16 = 15"
        using up(1) by (auto elim!: dvdE)
      ultimately have "unat ((?q + 15) AND NOT (run_alignment - 1)) = ?R + 16"
        by (simp only: and_not_15)
      then have "unat (max ((?q + 15) AND NOT (run_alignment - 1)) min_free_run_size) = run_bytes_nat (unat p)"
        by (simp add: unat_max run_bytes_nat_def run_constants(3))
      then have "max ((?q + 15) AND NOT (run_alignment - 1)) min_free_run_size = adr (run_bytes_nat (unat p))"
        by (metis adr_unat)
      then show ?thesis using fits by (simp add: normalized_run_bytes_def a1 c c2)
    qed
  qed
qed

lemma run_bytes_nat_props:
  "16 dvd run_bytes_nat p" "48 \<le> run_bytes_nat p" "p + 16 \<le> run_bytes_nat p"
  "run_bytes_nat p \<le> max (p + 31) 48"
proof -
  note up = nat_round_up_props[of 16 p, simplified]
  have "16 dvd nat_round_up p 16 + 16" using up(1) by simp
  then show "16 dvd run_bytes_nat p" by (simp add: run_bytes_nat_def max_def)
  show "48 \<le> run_bytes_nat p" "p + 16 \<le> run_bytes_nat p" "run_bytes_nat p \<le> max (p + 31) 48"
    using up by (auto simp: run_bytes_nat_def)
qed

end
