(* ===== verification/Free_Lists.thy ===== *)
theory Free_Lists
  imports Bin_Index Run_Layout
begin

text \<open>
  The free lists of the runner: one doubly linked list per bin, threaded through the link words of
  the free runs, and the bitmap of the bins that are not empty.  \<open>binned\<close> says that the lists hold
  exactly the runs in a set, each in the bin of its size.  Linking, unlinking and searching are
  proved against it; the search always ends.
\<close>

section \<open>Doubly linked lists\<close>

fun hd0 :: "nat list \<Rightarrow> ptr \<Rightarrow> ptr" where
  "hd0 [] nx = nx"
| "hd0 (x # xs) nx = adr x"

fun last0 :: "ptr \<Rightarrow> nat list \<Rightarrow> ptr" where
  "last0 pr [] = pr"
| "last0 pr (x # xs) = last0 (adr x) xs"

text \<open>The nodes \<open>xs\<close> are linked between \<open>pr\<close> and \<open>nx\<close>.\<close>

fun dll :: "memory \<Rightarrow> ptr \<Rightarrow> nat list \<Rightarrow> ptr \<Rightarrow> bool" where
  "dll m pr [] nx \<longleftrightarrow> True"
| "dll m pr (x # xs) nx \<longleftrightarrow> m (adr (x + 24)) = pr \<and> m (adr (x + 16)) = hd0 xs nx \<and> dll m (adr x) xs nx"

definition link_cells :: "nat set \<Rightarrow> nat set" where
  "link_cells N = (\<Union>x \<in> N. {x + 16, x + 24})"

text \<open>Runs are at least 48 bytes apart and in the address space.\<close>

definition spaced :: "nat set \<Rightarrow> bool" where
  "spaced N \<longleftrightarrow> (\<forall>x \<in> N. 0 < x \<and> x + 48 < 2 ^ 64) \<and>
     (\<forall>x \<in> N. \<forall>y \<in> N. x \<noteq> y \<longrightarrow> x + 48 \<le> y \<or> y + 48 \<le> x)"

lemma hd0_append [simp]: "hd0 (xs @ ys) nx = hd0 xs (hd0 ys nx)"
  by (cases xs) auto

lemma last0_append [simp]: "last0 pr (xs @ ys) = last0 (last0 pr xs) ys"
  by (induction xs arbitrary: pr) auto

lemma dll_append [simp]:
  "dll m pr (xs @ ys) nx \<longleftrightarrow> dll m pr xs (hd0 ys nx) \<and> dll m (last0 pr xs) ys nx"
  by (induction xs arbitrary: pr) simp_all

lemma dll_cong:
  "(\<And>x. x \<in> set xs \<Longrightarrow> m' (adr (x + 16)) = m (adr (x + 16)) \<and> m' (adr (x + 24)) = m (adr (x + 24))) \<Longrightarrow>
     dll m' pr xs nx = dll m pr xs nx"
  by (induction xs arbitrary: pr) auto

lemma spaced_mono: "spaced N \<Longrightarrow> M \<subseteq> N \<Longrightarrow> spaced M"
  unfolding spaced_def by (meson subsetD)

lemma link_cells_iff: "a \<in> link_cells N \<longleftrightarrow> (\<exists>x \<in> N. a = x + 16 \<or> a = x + 24)"
  by (auto simp: link_cells_def)

lemma spaced_cells:
  assumes "spaced N" "x \<in> N" "y \<in> N" "d < 48" "e < 48"
  shows "adr (x + d) = adr (y + e) \<longleftrightarrow> x = y \<and> d = e"
proof -
  have b: "x + d < 2 ^ 64" "y + e < 2 ^ 64"
    using assms unfolding spaced_def by (meson add_strict_left_mono less_trans)+
  have "x = y \<or> x + 48 \<le> y \<or> y + 48 \<le> x" using assms(1-3) by (auto simp: spaced_def)
  then show ?thesis using assms(4,5) by (subst adr_eq_iff[OF b]) auto
qed

lemma spaced_cell0:
  assumes "spaced N" "x \<in> N" "y \<in> N" "d < 48" "0 < d"
  shows "adr (x + d) \<noteq> adr y"
  using spaced_cells[OF assms(1-3), of d 0] assms(4,5) by simp

text \<open>Changing the link between the last node of one list and the first of the next.\<close>

lemma dll_set_next:
  assumes "dll m pr (xs @ [x]) nx" "spaced (set (xs @ [x]))" "distinct (xs @ [x])"
  shows "dll (m(adr (x + 16) := nx')) pr (xs @ [x]) nx'"
proof -
  have "dll (m(adr (x + 16) := nx')) pr xs (adr x) = dll m pr xs (adr x)"
    using assms(3) spaced_cells[OF assms(2), of _ x] by (intro dll_cong) auto
  then show ?thesis
    using assms(1) spaced_cells[OF assms(2), of x x] by auto
qed

lemma dll_set_prev:
  assumes "dll m pr (x # xs) nx" "spaced (set (x # xs))" "distinct (x # xs)"
  shows "dll (m(adr (x + 24) := pr')) pr' (x # xs) nx"
proof -
  have "dll (m(adr (x + 24) := pr')) (adr x) xs nx = dll m (adr x) xs nx"
    using assms(3) spaced_cells[OF assms(2), of _ x] by (intro dll_cong) auto
  then show ?thesis
    using assms(1) spaced_cells[OF assms(2), of x x] by auto
qed

text \<open>An update of one link word that belongs to no node of the list.\<close>

lemma dll_upd_other:
  assumes "spaced N" "set xs \<subseteq> N" "y \<in> N" "y \<notin> set xs" "d = 16 \<or> d = 24"
  shows "dll (m(adr (y + d) := v)) pr xs nx = dll m pr xs nx"
proof (rule dll_cong)
  fix x assume x: "x \<in> set xs"
  then have "x \<in> N" "x \<noteq> y" using assms(2,4) by auto
  then show "(m(adr (y + d) := v)) (adr (x + 16)) = m (adr (x + 16)) \<and>
      (m(adr (y + d) := v)) (adr (x + 24)) = m (adr (x + 24))"
    using spaced_cells[OF assms(1) \<open>x \<in> N\<close> assms(3), of 16 d]
      spaced_cells[OF assms(1) \<open>x \<in> N\<close> assms(3), of 24 d] assms(5) by auto
qed

section \<open>The bins\<close>

definition bin_of :: "memory \<Rightarrow> nat \<Rightarrow> nat" where
  "bin_of m x = bin_nat (unat (run_size m (adr x)))"

definition size_ok :: "memory \<Rightarrow> nat \<Rightarrow> bool" where
  "size_ok m x \<longleftrightarrow> 8 dvd unat (run_size m (adr x)) \<and> unat (run_size m (adr x)) + 8 < 2 ^ 64"

lemma head_cong: "m' (adr x) = m (adr x) \<Longrightarrow> bin_of m' x = bin_of m x \<and> size_ok m' x = size_ok m x"
  by (simp add: bin_of_def size_ok_def run_size_def)

text \<open>The list \<open>xs\<close> is the content of bin \<open>i\<close>.\<close>

definition bin_ok :: "runner \<Rightarrow> memory \<Rightarrow> nat \<Rightarrow> nat list \<Rightarrow> bool" where
  "bin_ok r m i xs \<longleftrightarrow> rn_bins r i = hd0 xs nullptr \<and> dll m nullptr xs nullptr \<and> distinct xs \<and>
     (bin_set (rn_mask r) i \<longleftrightarrow> xs \<noteq> []) \<and> (\<forall>x \<in> set xs. bin_of m x = i \<and> size_ok m x)"

definition bins_hold :: "runner \<Rightarrow> memory \<Rightarrow> (nat \<Rightarrow> nat list) \<Rightarrow> nat set \<Rightarrow> bool" where
  "bins_hold r m B N \<longleftrightarrow> spaced N \<and> (\<forall>i < 536. bin_ok r m i (B i)) \<and> (\<Union>i \<in> {..<536}. set (B i)) = N"

definition binned :: "runner \<Rightarrow> memory \<Rightarrow> nat set \<Rightarrow> bool" where
  "binned r m N \<longleftrightarrow> (\<exists>B. bins_hold r m B N)"

lemma bin_of_less: "bin_of m x < 536"
  by (simp add: bin_of_def bin_nat_less)

lemma bin_index_of: "size_ok m x \<Longrightarrow> bin_index_for (run_size m (adr x)) = adr (bin_of m x)"
  using bin_index_word[of "unat (run_size m (adr x))"] by (simp add: size_ok_def bin_of_def)

lemma bins_hold_mem:
  assumes "bins_hold r m B N" "i < 536"
  shows "x \<in> set (B i) \<longleftrightarrow> x \<in> N \<and> bin_of m x = i"
proof -
  have N: "N = (\<Union>i \<in> {..<536}. set (B i))" using assms(1) by (simp add: bins_hold_def)
  have "bin_of m y = j" if "j < 536" "y \<in> set (B j)" for j y
    using assms(1) that by (simp add: bins_hold_def bin_ok_def)
  then show ?thesis using assms(2) unfolding N by auto
qed

lemma binned_spaced: "binned r m N \<Longrightarrow> spaced N"
  by (auto simp: binned_def bins_hold_def)

lemma binned_size_ok:
  assumes "binned r m N" "x \<in> N"
  shows "size_ok m x"
proof -
  obtain B where B: "bins_hold r m B N" using assms(1) by (auto simp: binned_def)
  then have "x \<in> set (B (bin_of m x))" using assms(2) bins_hold_mem[OF B bin_of_less] by simp
  moreover have "bin_ok r m (bin_of m x) (B (bin_of m x))" using B bin_of_less by (simp add: bins_hold_def)
  ultimately show ?thesis unfolding bin_ok_def by blast
qed

text \<open>The bins depend only on the headers and the link words of the runs they hold.\<close>

lemma binned_cong:
  assumes "binned r m N" "rn_bins r' = rn_bins r" "rn_mask r' = rn_mask r"
    and "\<And>x. x \<in> N \<Longrightarrow> m' (adr x) = m (adr x)" and "\<And>a. a \<in> link_cells N \<Longrightarrow> m' (adr a) = m (adr a)"
  shows "binned r' m' N"
proof -
  obtain B where B: "bins_hold r m B N" using assms(1) by (auto simp: binned_def)
  have "bin_ok r' m' i (B i)" if i: "i < 536" for i
  proof -
    have sub: "set (B i) \<subseteq> N" using bins_hold_mem[OF B i] by auto
    have d: "dll m' 0 (B i) 0 = dll m 0 (B i) 0"
    proof (rule dll_cong)
      fix x assume "x \<in> set (B i)"
      then have "x + 16 \<in> link_cells N" "x + 24 \<in> link_cells N" using sub by (auto simp: link_cells_iff)
      then show "m' (adr (x + 16)) = m (adr (x + 16)) \<and> m' (adr (x + 24)) = m (adr (x + 24))"
        using assms(5) by blast
    qed
    have "run_size m' (adr x) = run_size m (adr x)" if "x \<in> set (B i)" for x
      using assms(4) that sub by (auto simp: run_size_def)
    then have "\<forall>x \<in> set (B i). (bin_of m' x = i \<and> size_ok m' x) = (bin_of m x = i \<and> size_ok m x)"
      by (simp add: bin_of_def size_ok_def)
    moreover have "bin_ok r m i (B i)" using B i by (simp add: bins_hold_def)
    ultimately show ?thesis by (simp add: bin_ok_def d assms(2,3))
  qed
  then show ?thesis using B by (auto simp: binned_def bins_hold_def)
qed

section \<open>Linking and unlinking a run\<close>

text \<open>What linking and unlinking change: the heads and the bitmap, and link words.\<close>

definition bins_only :: "runner \<Rightarrow> runner \<Rightarrow> bool" where
  "bins_only r r' \<longleftrightarrow> r' = r\<lparr>rn_bins := rn_bins r', rn_mask := rn_mask r'\<rparr>"

definition link_frame :: "nat set \<Rightarrow> memory \<Rightarrow> memory \<Rightarrow> bool" where
  "link_frame N m m' \<longleftrightarrow> (\<forall>a < 2 ^ 64. a \<notin> link_cells N \<longrightarrow> m' (adr a) = m (adr a))"

lemma link_adr [simp]: "link_next (adr x) = adr (x + 16)" "link_prev (adr x) = adr (x + 24)"
proof -
  have "adr x + 16 = adr (x + 16)" "adr (x + 16) + 8 = adr (x + 16 + 8)" "x + 16 + 8 = x + (24 :: nat)"
    by (simp_all only: adr_plus_numeral)
  then show "link_next (adr x) = adr (x + 16)" "link_prev (adr x) = adr (x + 24)"
    by (simp_all only: link_next_def link_prev_def payload_from_header_def run_constants)
qed

lemma spaced_pos: "spaced N \<Longrightarrow> x \<in> N \<Longrightarrow> 0 < x \<and> x + 48 < 2 ^ 64"
  by (simp add: spaced_def)

lemma spaced_apart:
  assumes "spaced N" "x \<in> N" "y \<in> N"
  shows "x = y \<or> x + 48 \<le> y \<or> y + 48 \<le> x"
proof -
  have "\<forall>x \<in> N. \<forall>y \<in> N. x \<noteq> y \<longrightarrow> x + 48 \<le> y \<or> y + 48 \<le> x"
    using assms(1) unfolding spaced_def by (rule conjunct2)
  then show ?thesis using assms(2,3) by blast
qed

lemma spaced_header:
  assumes "spaced N" "x \<in> N"
  shows "x \<notin> link_cells N"
proof
  assume "x \<in> link_cells N"
  then obtain y where "y \<in> N" "x = y + 16 \<or> x = y + 24" by (auto simp: link_cells_iff)
  then show False using spaced_apart[OF assms(1) \<open>y \<in> N\<close> assms(2)] by auto
qed

lemma link_frame_header:
  assumes "link_frame N m m'" "spaced N" "x \<in> N"
  shows "m' (adr x) = m (adr x)"
  using assms(1) spaced_header[OF assms(2,3)] spaced_pos[OF assms(2,3)] by (simp add: link_frame_def)

lemma link_frame_mono: "link_frame N m m' \<Longrightarrow> N \<subseteq> M \<Longrightarrow> link_frame M m m'"
  by (auto simp: link_frame_def link_cells_def)

text \<open>The content of one bin changes, the others stay.\<close>

lemma bins_hold_update:
  assumes B: "bins_hold r m B N" and i: "i < 536" and sp: "spaced N'" and N': "N' = N - set (B i) \<union> set xs"
    and head: "\<And>x. x \<in> N \<Longrightarrow> m' (adr x) = m (adr x)"
    and new: "bin_ok r' m' i xs"
    and others: "\<And>j. j < 536 \<Longrightarrow> j \<noteq> i \<Longrightarrow> rn_bins r' j = rn_bins r j \<and>
        (bin_set (rn_mask r') j \<longleftrightarrow> bin_set (rn_mask r) j) \<and> dll m' nullptr (B j) nullptr = dll m nullptr (B j) nullptr"
  shows "binned r' m' N'"
proof -
  have mem: "x \<in> set (B j) \<longleftrightarrow> x \<in> N \<and> bin_of m x = j" if "j < 536" for x j
    using bins_hold_mem[OF B that] .
  have "bin_ok r' m' j ((B(i := xs)) j)" if j: "j < 536" for j
  proof (cases "j = i")
    case True
    then show ?thesis using new by simp
  next
    case False
    have "bin_of m' x = bin_of m x" "size_ok m' x = size_ok m x" if "x \<in> set (B j)" for x
      using head[of x] mem[OF j] that by (simp_all add: bin_of_def size_ok_def run_size_def)
    moreover have "bin_ok r m j (B j)" using B j by (simp add: bins_hold_def)
    ultimately show ?thesis using others[OF j False] False by (auto simp: bin_ok_def)
  qed
  moreover have "(\<Union>j \<in> {..<536}. set ((B(i := xs)) j)) = N'"
  proof -
    have "x \<in> N - set (B i) \<longleftrightarrow> (\<exists>j < 536. j \<noteq> i \<and> x \<in> set (B j))" for x
      using mem[OF i, of x] mem[of "bin_of m x" x] mem[of _ x] bin_of_less[of m x] by auto
    moreover have "x \<in> (\<Union>j \<in> {..<536}. set ((B(i := xs)) j)) \<longleftrightarrow>
        x \<in> set xs \<or> (\<exists>j < 536. j \<noteq> i \<and> x \<in> set (B j))" for x
      using i by (auto simp: fun_upd_apply split: if_splits) fastforce?
    ultimately show ?thesis unfolding N' by blast
  qed
  ultimately have "bins_hold r' m' (B(i := xs)) N'" using sp by (simp add: bins_hold_def)
  then show ?thesis by (auto simp: binned_def)
qed

lemma link_free_binned:
  assumes bin: "binned r m N" and x: "x \<notin> N" "spaced (insert x N)" "size_ok m x"
  shows "\<exists>r' m'. link_free (adr x) (r, m) = (r', m') \<and> binned r' m' (insert x N) \<and> bins_only r r' \<and>
    link_frame (insert x N) m m'"
proof -
  obtain B where B: "bins_hold r m B N" using bin by (auto simp: binned_def)
  define i where "i = bin_of m x"
  have i: "i < 536" by (simp add: i_def bin_of_less)
  let ?xs = "B i"
  have idx: "bin_index_for (run_size m (adr x)) = adr i" using bin_index_of[OF x(3)] by (simp add: i_def)
  have ui: "unat (adr i) = i" using i by (simp add: unat_adr)
  have ok: "bin_ok r m i ?xs" using B i by (simp add: bins_hold_def)
  then have d0: "dll m 0 ?xs 0" and hd: "rn_bins r i = hd0 ?xs 0" and dist: "distinct ?xs"
    by (simp_all add: bin_ok_def)
  have sub: "set (B j) \<subseteq> N" if "j < 536" for j using bins_hold_mem[OF B that] by auto
  have subx: "set (B j) \<subseteq> insert x N" "x \<notin> set (B j)" if "j < 536" for j using sub[OF that] x(1) by auto
  define m1 where "m1 = m(adr (x + 24) := 0, adr (x + 16) := hd0 ?xs 0)"
  define m2 where "m2 = (if hd0 ?xs 0 \<noteq> 0 then m1(link_prev (hd0 ?xs 0) := adr x) else m1)"
  define r' where "r' = set_bin_nonempty (adr i) (r\<lparr>rn_bins := (rn_bins r)(i := adr x)\<rparr>)"
  have eq: "link_free (adr x) (r, m) = (r', m2)"
    by (simp add: link_free_def idx ui hd m1_def m2_def r'_def Let_def)
  have m2: "m2 = (case ?xs of [] \<Rightarrow> m1 | y # _ \<Rightarrow> m1(adr (y + 24) := adr x))"
  proof (cases ?xs)
    case (Cons y ys)
    then have "y \<in> insert x N" using subx(1)[OF i] by auto
    then have "adr y \<noteq> 0" using spaced_pos[OF x(2), of y] by (simp add: adr_eq_0_iff)
    then show ?thesis by (simp add: Cons m2_def)
  qed (simp add: m2_def)
  have d1: "dll m1 pr (B j) nx = dll m pr (B j) nx" if "j < 536" for j pr nx
    using dll_upd_other[OF x(2) subx(1)[OF that] _ subx(2)[OF that]] unfolding m1_def by simp
  have d2: "dll m2 pr (B j) nx = dll m pr (B j) nx" if j: "j < 536" "j \<noteq> i" for j pr nx
  proof (cases ?xs)
    case Nil
    then show ?thesis using d1[OF j(1)] by (simp add: m2)
  next
    case (Cons y ys)
    then have y: "y \<in> insert x N" "y \<notin> set (B j)"
      using bins_hold_mem[OF B i, of y] bins_hold_mem[OF B j(1), of y] j(2) by auto
    show ?thesis
      using dll_upd_other[OF x(2) subx(1)[OF j(1)] y, of 24] d1[OF j(1)] by (simp add: m2 Cons)
  qed
  have dnew: "dll m2 0 (x # ?xs) 0"
  proof (cases ?xs)
    case Nil
    then show ?thesis using spaced_cells[OF x(2), of x x] by (simp add: m2 m1_def)
  next
    case (Cons y ys)
    have sp: "spaced (set ?xs)" using x(2) subx(1)[OF i] by (rule spaced_mono)
    have "dll m1 0 (y # ys) 0" using d1[OF i, of 0 0] d0 by (simp only: Cons[symmetric])
    then have "dll m2 (adr x) (y # ys) 0"
      using dll_set_prev[of m1 0 y ys 0 "adr x"] sp dist Cons by (simp add: m2)
    moreover have "y \<in> insert x N" "y \<noteq> x" using subx[OF i] Cons by auto
    ultimately show ?thesis
      using Cons spaced_cells[OF x(2), of x x] spaced_cells[OF x(2), of x y] by (simp add: m2 m1_def)
  qed
  have fr: "link_frame (insert x N) m m2"
  proof -
    have "adr a \<noteq> adr (y + d)" if "y \<in> insert x N" "a \<notin> link_cells (insert x N)" "a < 2 ^ 64" "d = 16 \<or> d = 24" for a y d
      using that spaced_pos[OF x(2) that(1)] by (auto simp: adr_eq_iff link_cells_iff)
    moreover have "set ?xs \<subseteq> insert x N" by (rule subx(1)[OF i])
    ultimately show ?thesis by (auto simp: link_frame_def m2 m1_def split: list.splits)
  qed
  have "bin_ok r' m2 i (x # ?xs)"
  proof -
    have "bin_of m z = i \<and> size_ok m z \<and> z \<in> insert x N" if "z \<in> set (x # ?xs)" for z
    proof (cases "z = x")
      case True
      then show ?thesis using x(3) by (simp add: i_def)
    next
      case False
      then have "z \<in> set ?xs" using that by simp
      then show ?thesis using ok subx(1)[OF i] unfolding bin_ok_def by blast
    qed
    then have "bin_of m2 z = i \<and> size_ok m2 z" if "z \<in> set (x # ?xs)" for z
      using that link_frame_header[OF fr x(2), of z] head_cong[of m2 z m] by metis
    then show ?thesis
      using dnew dist subx(2)[OF i] bin_set_updates(1)[OF i i]
      by (simp add: bin_ok_def r'_def set_bin_nonempty_def Let_def del: dll.simps)
  qed
  note new = this
  have head: "m2 (adr z) = m (adr z)" if "z \<in> N" for z
    using link_frame_header[OF fr x(2)] that by simp
  have N': "insert x N = N - set ?xs \<union> set (x # ?xs)" using sub[OF i] by auto
  have others: "rn_bins r' j = rn_bins r j \<and> (bin_set (rn_mask r') j \<longleftrightarrow> bin_set (rn_mask r) j) \<and>
      dll m2 0 (B j) 0 = dll m 0 (B j) 0" if j: "j < 536" "j \<noteq> i" for j
    using d2[OF j] bin_set_updates(1)[OF i j(1), of "r\<lparr>rn_bins := (rn_bins r)(i := adr x)\<rparr>"] j(2)
    by (simp add: r'_def set_bin_nonempty_def Let_def)
  have "binned r' m2 (insert x N)" by (rule bins_hold_update[OF B i x(2) N' head new others])
  moreover have "bins_only r r'" by (simp add: bins_only_def r'_def set_bin_nonempty_def Let_def)
  ultimately show ?thesis using eq fr by blast
qed

lemma unlink_free_binned:
  assumes bin: "binned r m N" and x: "x \<in> N"
  shows "\<exists>r' m'. unlink_free (adr x) (r, m) = (r', m') \<and> binned r' m' (N - {x}) \<and> bins_only r r' \<and>
    link_frame N m m'"
proof -
  obtain B where B: "bins_hold r m B N" using bin by (auto simp: binned_def)
  have sp: "spaced N" using bin by (rule binned_spaced)
  define i where "i = bin_of m x"
  have i: "i < 536" by (simp add: i_def bin_of_less)
  have idx: "bin_index_for (run_size m (adr x)) = adr i"
    using bin_index_of[OF binned_size_ok[OF bin x]] by (simp add: i_def)
  have ui: "unat (adr i) = i" using i by (simp add: unat_adr)
  have ok: "bin_ok r m i (B i)" using B i by (simp add: bins_hold_def)
  have "x \<in> set (B i)" using bins_hold_mem[OF B i, of x] x by (simp add: i_def)
  then obtain us vs where split: "B i = us @ x # vs" by (auto simp: in_set_conv_decomp)
  let ?xs = "us @ vs"
  have dist: "distinct (us @ x # vs)" and hd: "rn_bins r i = hd0 (us @ x # vs) 0"
    and d0: "dll m 0 (us @ x # vs) 0"
    using ok by (simp_all add: bin_ok_def split)
  have pv: "m (adr (x + 24)) = last0 0 us" and nv: "m (adr (x + 16)) = hd0 vs 0"
    and dus: "dll m 0 us (adr x)" and dvs: "dll m (adr x) vs 0"
    using d0 by simp_all
  have sub: "set (B j) \<subseteq> N" if "j < 536" for j using bins_hold_mem[OF B that] by auto
  have subi: "set us \<subseteq> N" "set vs \<subseteq> N" using sub[OF i] split by auto
  have nz: "adr y \<noteq> 0" if "y \<in> N" for y using spaced_pos[OF sp that] by (simp add: adr_eq_0_iff)
  define m1 where "m1 = (if us = [] then m else m(adr (last us + 16) := hd0 vs 0))"
  define m2 where "m2 = (case vs of [] \<Rightarrow> m1 | y # _ \<Rightarrow> m1(adr (y + 24) := last0 0 us))"
  have l0: "last0 pr us = (if us = [] then pr else adr (last us))" for pr
    by (induction us arbitrary: pr) auto
  have lu: "us \<noteq> [] \<Longrightarrow> last us \<in> N" using subi(1) last_in_set by blast
  have m1x: "m1 (adr (x + 16)) = hd0 vs 0" "m1 (adr (x + 24)) = last0 0 us"
  proof -
    have "us \<noteq> [] \<Longrightarrow> last us \<noteq> x" using dist last_in_set[of us] by auto
    then show "m1 (adr (x + 16)) = hd0 vs 0" "m1 (adr (x + 24)) = last0 0 us"
      using pv nv spaced_cells[OF sp x lu] by (simp_all add: m1_def)
  qed
  define r1 where "r1 = (if us = [] then r\<lparr>rn_bins := (rn_bins r)(i := hd0 vs 0)\<rparr> else r)"
  define r2 where "r2 = (if rn_bins r1 i = 0 then set_bin_empty (adr i) r1 else r1)"
  have eq: "unlink_free (adr x) (r, m) = (r2, m2)"
  proof -
    have a: "last0 0 us \<noteq> 0 \<longleftrightarrow> us \<noteq> []" using nz[OF lu] by (simp add: l0)
    have b: "hd0 vs 0 \<noteq> 0 \<longleftrightarrow> vs \<noteq> []" using nz subi(2) by (cases vs) auto
    have "(if last0 0 us \<noteq> 0 then (r, m(link_next (last0 0 us) := hd0 vs 0))
           else (r\<lparr>rn_bins := (rn_bins r)(i := hd0 vs 0)\<rparr>, m)) = (r1, m1)"
      by (simp add: l0 a[unfolded l0] r1_def m1_def nz[OF lu])
    moreover have "(if hd0 vs 0 \<noteq> 0 then m1(link_prev (hd0 vs 0) := last0 0 us) else m1) = m2"
      using b by (cases vs) (auto simp: m2_def)
    ultimately show ?thesis
      unfolding unlink_free_def prod.case idx Let_def ui link_adr pv nv
      by (simp only: prod.case m1x r2_def)
  qed
  have d1: "dll m2 pr (B j) nx = dll m pr (B j) nx" if j: "j < 536" "j \<noteq> i" for j pr nx
  proof -
    have y: "y \<notin> set (B j)" if "y \<in> set (B i)" for y
      using that bins_hold_mem[OF B i, of y] bins_hold_mem[OF B j(1), of y] j(2) by auto
    have "dll m1 pr (B j) nx = dll m pr (B j) nx"
      using dll_upd_other[OF sp sub[OF j(1)] lu y, of 16] split last_in_set[of us] by (auto simp: m1_def)
    moreover have "dll m2 pr (B j) nx = dll m1 pr (B j) nx"
      using dll_upd_other[OF sp sub[OF j(1)] _ y, of _ 24] split subi by (auto simp: m2_def split: list.splits)
    ultimately show ?thesis by simp
  qed
  have spu: "spaced (set us)" "spaced (set vs)" using sp subi spaced_mono by blast+
  have dnew: "dll m2 0 ?xs 0"
  proof -
    have u1: "dll m1 0 us (hd0 vs 0)"
    proof (cases us rule: rev_cases)
      case (snoc ws u)
      then show ?thesis using dll_set_next[of m 0 ws u "adr x" "hd0 vs 0"] dus spu(1) dist by (simp add: m1_def)
    qed (simp add: m1_def)
    have "last us \<notin> set vs" if "us \<noteq> []"
    proof -
      have "last us \<in> set us" using that by (rule last_in_set)
      then show ?thesis using dist by auto
    qed
    then have v1: "dll m1 (adr x) vs 0"
      using dll_upd_other[OF sp subi(2) lu, of 16] dvs by (simp add: m1_def)
    show ?thesis
    proof (cases vs)
      case Nil
      then show ?thesis using u1 by (simp add: m2_def)
    next
      case (Cons y ys)
      have "dll m2 (last0 0 us) vs 0"
        using dll_set_prev[of m1 "adr x" y ys 0 "last0 0 us"] v1 spu(2) dist Cons by (simp add: m2_def)
      moreover have "dll m2 0 us (hd0 vs 0)"
        using dll_upd_other[OF sp subi(1), of y 24] u1 dist subi(2) Cons by (simp add: m2_def)
      ultimately show ?thesis by simp
    qed
  qed
  have fr: "link_frame N m m2"
  proof -
    have "adr a \<noteq> adr (y + d)" if "y \<in> N" "a \<notin> link_cells N" "a < 2 ^ 64" "d = 16 \<or> d = 24" for a y d
      using that spaced_pos[OF sp that(1)] by (auto simp: adr_eq_iff link_cells_iff)
    then show ?thesis using lu subi(2) by (auto simp: link_frame_def m2_def m1_def split: list.splits)
  qed
  have head: "m2 (adr z) = m (adr z)" if "z \<in> N" for z
    using link_frame_header[OF fr sp that] .
  have new: "bin_ok r2 m2 i ?xs"
  proof -
    have "bin_of m z = i \<and> size_ok m z \<and> z \<in> N" if "z \<in> set ?xs" for z
      using that ok sub[OF i] unfolding bin_ok_def split by auto
    then have "bin_of m2 z = i \<and> size_ok m2 z" if "z \<in> set ?xs" for z
      using that head[of z] head_cong[of m2 z m] by metis
    moreover have "rn_bins r1 i = hd0 ?xs 0"
      using hd by (cases us) (auto simp: r1_def)
    moreover have "hd0 ?xs 0 = 0 \<longleftrightarrow> ?xs = []"
    proof (cases ?xs)
      case (Cons y ys)
      then have "y \<in> set us \<union> set vs" by (metis list.set_intros(1) set_append)
      then show ?thesis using nz subi Cons by auto
    qed simp
    moreover have "bin_set (rn_mask r) i" using ok split by (simp add: bin_ok_def)
    moreover have "rn_mask r1 = rn_mask r" by (simp add: r1_def)
    ultimately show ?thesis
      using dnew dist bin_set_updates(2)[OF i i, of r1]
      by (auto simp: bin_ok_def r2_def set_bin_empty_def Let_def simp del: dll_append hd0_append)
  qed
  have N': "N - {x} = N - set (B i) \<union> set ?xs" using sub[OF i] dist by (auto simp: split)
  have others: "rn_bins r2 j = rn_bins r j \<and> (bin_set (rn_mask r2) j \<longleftrightarrow> bin_set (rn_mask r) j) \<and>
      dll m2 0 (B j) 0 = dll m 0 (B j) 0" if j: "j < 536" "j \<noteq> i" for j
    using d1[OF j] bin_set_updates(2)[OF i j(1), of r1] j(2)
    by (simp add: r2_def r1_def set_bin_empty_def Let_def)
  have "spaced (N - {x})" using sp by (rule spaced_mono) auto
  then have "binned r2 m2 (N - {x})" by (rule bins_hold_update[OF B i _ N' head new others])
  moreover have "bins_only r r2" by (simp add: bins_only_def r2_def r1_def set_bin_empty_def Let_def)
  ultimately show ?thesis using eq fr by blast
qed

section \<open>Searching\<close>

definition run_bytes_at :: "memory \<Rightarrow> nat \<Rightarrow> nat" where
  "run_bytes_at m x = unat (run_size m (adr x))"

lemma scan_bin_ends:
  assumes "dll m pr xs nullptr" "\<forall>x \<in> set xs. adr x \<noteq> nullptr"
  shows "\<exists>c'. scan_bin k needed m (hd0 xs nullptr) c =
     Some (hd0 (filter (\<lambda>x. run_size m (adr x) \<ge> needed) xs) nullptr, c')"
  using assms
proof (induction xs arbitrary: pr c)
  case Nil
  then show ?case by (subst scan_bin.simps) simp
next
  case (Cons x xs)
  have nx: "m (link_next (adr x)) = hd0 xs 0" and d: "dll m (adr x) xs 0" and nz: "adr x \<noteq> 0"
    using Cons.prems by simp_all
  show ?case
  proof (cases "run_size m (adr x) \<ge> needed")
    case True
    then show ?thesis using nz by (subst scan_bin.simps) simp
  next
    case False
    have step: "scan_bin k needed m (hd0 (x # xs) 0) c =
        scan_bin k needed m (hd0 xs 0) (if rg_collect_stats k then c + 1 else c)"
      using nz False nx by (subst scan_bin.simps) (simp add: Let_def)
    show ?thesis unfolding step using Cons.IH[OF d] Cons.prems(2) False by simp
  qed
qed

definition stats_only :: "runner \<Rightarrow> runner \<Rightarrow> bool" where
  "stats_only r r' \<longleftrightarrow> r' = r\<lparr>rn_stats := rn_stats r'\<rparr>"

lemma stats_only_count [simp]: "stats_only r (count k f r)" "stats_only r (count_scanned k n r)"
  by (simp_all add: stats_only_def count_def count_scanned_def)

lemma stats_only_refl [simp]: "stats_only r r"
  by (simp add: stats_only_def)

lemma stats_only_trans: "stats_only r r' \<Longrightarrow> stats_only r' r'' \<Longrightarrow> stats_only r r''"
  by (cases r; cases r'; cases r'') (simp add: stats_only_def)

lemma stats_only_fields:
  assumes "stats_only r r'"
  shows "rn_bins r' = rn_bins r" "rn_mask r' = rn_mask r" "rn_self r' = rn_self r" "rn_chunks r' = rn_chunks r"
    "rn_remote r' = rn_remote r" "rn_deferred_bytes r' = rn_deferred_bytes r"
    "rn_next_growth r' = rn_next_growth r" "rn_page_size r' = rn_page_size r"
  using assms by (cases r; cases r'; simp add: stats_only_def)+

text \<open>
  What a search finds: null, and no free run is large enough; or a free run that is, from the
  smallest bin that holds one.
\<close>

definition fits :: "memory \<Rightarrow> nat set \<Rightarrow> nat \<Rightarrow> ptr \<Rightarrow> bool" where
  "fits m N n h \<longleftrightarrow>
     (if h = nullptr then \<forall>x \<in> N. run_bytes_at m x < n
      else \<exists>x \<in> N. h = adr x \<and> n \<le> run_bytes_at m x \<and>
             (\<forall>y \<in> N. n \<le> run_bytes_at m y \<longrightarrow> bin_of m x \<le> bin_of m y))"

lemma find_fit_loop_none:
  "\<not> idx < bin_count \<Longrightarrow>
     find_fit_loop k needed start idx c r m = Some (nullptr, c, count_scanned k c r)"
  by (subst find_fit_loop.simps) simp

lemma find_fit_loop_head:
  "idx < bin_count \<Longrightarrow> idx \<noteq> start \<or> idx < linear_bin_count \<Longrightarrow>
     \<exists>c'. find_fit_loop k needed start idx c r m = Some (rn_bins r (unat idx), c', count_scanned k c' r)"
  by (subst find_fit_loop.simps) (auto simp: Let_def)

lemma find_fit_loop_scan:
  "idx < bin_count \<Longrightarrow> idx = start \<Longrightarrow> \<not> idx < linear_bin_count \<Longrightarrow>
     scan_bin k needed m (rn_bins r (unat idx)) c = Some (h, c') \<Longrightarrow>
     find_fit_loop k needed start idx c r m =
       (if h \<noteq> nullptr then Some (h, c', count_scanned k c' r)
        else find_fit_loop k needed start (first_nonempty_bin_from (idx + 1) r) c' r m)"
  by (subst find_fit_loop.simps) simp

text \<open>
  Smaller bins than that of a size hold only runs that are too small, larger bins only runs that
  are large enough, and a linear bin only runs of exactly its size.
\<close>

lemma bin_of_bytes: "bin_of m x = bin_nat (run_bytes_at m x)"
  by (simp add: bin_of_def run_bytes_at_def)

lemma bin_small: "bin_of m x < bin_nat n \<Longrightarrow> run_bytes_at m x < n"
  using bin_nat_mono[of n "run_bytes_at m x"] unfolding bin_of_bytes by linarith

lemma bin_large: "bin_nat n < bin_of m x \<Longrightarrow> n \<le> run_bytes_at m x"
  using bin_nat_mono[of "run_bytes_at m x" n] unfolding bin_of_bytes by linarith

lemma bin_exact:
  assumes "size_ok m x" "bin_of m x = bin_nat n" "bin_nat n < 512" "8 dvd n"
  shows "run_bytes_at m x = n"
  using bin_nat_linear[of "run_bytes_at m x" n] assms by (simp add: bin_of_bytes size_ok_def run_bytes_at_def)

text \<open>One bin of the search: everything below bin \<open>i\<close> is known to be too small.\<close>

definition too_small_below :: "memory \<Rightarrow> nat set \<Rightarrow> nat \<Rightarrow> nat \<Rightarrow> bool" where
  "too_small_below m N n i \<longleftrightarrow> (\<forall>x \<in> N. bin_of m x < i \<longrightarrow> run_bytes_at m x < n)"

lemma search_next_bin:
  assumes B: "bins_hold r m B N" and low: "too_small_below m N n i" and i: "i \<le> 536"
  obtains j where "first_nonempty_bin_from (adr i) r = adr j" and "i \<le> j" and "j \<le> 536"
    and "too_small_below m N n j" and "j < 536 \<Longrightarrow> B j \<noteq> []"
proof -
  obtain j where j: "first_nonempty_bin_from (adr i) r = adr j" "first_from (bin_set (rn_mask r)) i j"
    using first_nonempty_spec[OF i] by blast
  then have jb: "i \<le> j" "j \<le> 536" "j < 536 \<Longrightarrow> bin_set (rn_mask r) j"
    "\<And>i'. i \<le> i' \<Longrightarrow> i' < j \<Longrightarrow> \<not> bin_set (rn_mask r) i'"
    by (auto simp: first_from_def)
  have ok: "bin_set (rn_mask r) i' \<longleftrightarrow> B i' \<noteq> []" if "i' < 536" for i'
    using B that by (simp add: bins_hold_def bin_ok_def)
  have "run_bytes_at m x < n" if x: "x \<in> N" "bin_of m x < j" for x
  proof (cases "bin_of m x < i")
    case True
    then show ?thesis using low x(1) by (simp add: too_small_below_def)
  next
    case False
    then have "B (bin_of m x) = []" using jb(4)[of "bin_of m x"] ok[OF bin_of_less] x(2) by simp
    then show ?thesis using bins_hold_mem[OF B bin_of_less, of x m x] x(1) by simp
  qed
  then show thesis using that[OF j(1) jb(1,2)] jb(3) ok by (simp add: too_small_below_def)
qed

lemma fits_nothing: "too_small_below m N n 536 \<Longrightarrow> fits m N n nullptr"
  using bin_of_less by (simp add: fits_def too_small_below_def)

lemma fits_in_bin:
  assumes B: "bins_hold r m B N" and j: "j < 536" and low: "too_small_below m N n j"
    and x: "x \<in> set (B j)" "n \<le> run_bytes_at m x"
  shows "fits m N n (adr x)" and "adr x \<noteq> nullptr"
proof -
  have xN: "x \<in> N" "bin_of m x = j" using bins_hold_mem[OF B j] x(1) by auto
  show nz: "adr x \<noteq> 0"
    using spaced_pos[of N x] B xN(1) by (simp add: adr_eq_0_iff bins_hold_def)
  have "j \<le> bin_of m y" if "y \<in> N" "n \<le> run_bytes_at m y" for y
    using low that unfolding too_small_below_def by (meson not_less)
  then show "fits m N n (adr x)" using xN x(2) nz by (auto simp: fits_def)
qed

lemma fits_head:
  assumes B: "bins_hold r m B N" and j: "j < 536" "B j \<noteq> []" and low: "too_small_below m N n j"
    and big: "\<And>x. x \<in> set (B j) \<Longrightarrow> n \<le> run_bytes_at m x"
  shows "fits m N n (rn_bins r j)"
proof -
  have "rn_bins r j = adr (hd (B j))"
    using B j by (cases "B j") (auto simp: bins_hold_def bin_ok_def)
  then show ?thesis using fits_in_bin(1)[OF B j(1) low] big j(2) by simp
qed

lemma bin_numbers:
  "j \<le> 536 \<Longrightarrow> adr j < bin_count \<longleftrightarrow> j < 536"
  "j \<le> 536 \<Longrightarrow> adr j < linear_bin_count \<longleftrightarrow> j < 512"
  "j \<le> 536 \<Longrightarrow> unat (adr j) = j"
  "i \<le> 536 \<Longrightarrow> j \<le> 536 \<Longrightarrow> adr i = adr j \<longleftrightarrow> i = j"
  "adr j + 1 = adr (j + 1)"
  by (simp_all add: bin_constants word_less_nat_alt unat_adr adr_eq_iff) (simp add: adr_def)

text \<open>Past the first bin, the search takes the head of the first bin that is not empty.\<close>

lemma find_fit_loop_past:
  assumes B: "bins_hold r m B N" and low: "too_small_below m N n i" and i: "bin_nat n < i" "i \<le> 536"
  shows "\<exists>h c'. find_fit_loop k (adr n) (adr (bin_nat n)) (first_nonempty_bin_from (adr i) r) c r m =
    Some (h, c', count_scanned k c' r) \<and> fits m N n h"
proof -
  obtain j where j: "first_nonempty_bin_from (adr i) r = adr j" "i \<le> j" "j \<le> 536"
    "too_small_below m N n j" "j < 536 \<Longrightarrow> B j \<noteq> []"
    using search_next_bin[OF B low i(2)] by blast
  have b: "bin_nat n \<le> 536" using i by simp
  show ?thesis
  proof (cases "j < 536")
    case False
    then show ?thesis
      using find_fit_loop_none[of "adr j" k "adr n"] fits_nothing[of m N n] j(1,3,4) bin_numbers(1)[OF j(3)]
      by auto
  next
    case True
    have "n \<le> run_bytes_at m x" if "x \<in> set (B j)" for x
      using bin_large[of n m x] bins_hold_mem[OF B True, of x] that i(1) j(2) by simp
    then have "fits m N n (rn_bins r j)" by (rule fits_head[OF B True j(5)[OF True] j(4)])
    then show ?thesis
      using find_fit_loop_head[of "adr j" "adr (bin_nat n)" k "adr n" c r m] j(1,2) True i(1)
        bin_numbers(1,3)[OF j(3)] bin_numbers(4)[OF j(3) b] by auto
  qed
qed

text \<open>A list that has to be searched is searched to its first run that is large enough.\<close>

lemma scan_bin_fits:
  assumes B: "bins_hold r m B N" and j: "j < 536" and low: "too_small_below m N n j" and n: "n < 2 ^ 64"
  shows "\<exists>h c'. scan_bin k (adr n) m (rn_bins r j) c = Some (h, c') \<and>
    (if h = nullptr then too_small_below m N n (j + 1) else fits m N n h)"
proof -
  let ?f = "filter (\<lambda>x. adr n \<le> run_size m (adr x)) (B j)"
  have fi: "adr n \<le> run_size m (adr x) \<longleftrightarrow> n \<le> run_bytes_at m x" for x
    using n by (simp add: run_bytes_at_def word_le_nat_alt unat_adr)
  have ok: "bin_ok r m j (B j)" using B j by (simp add: bins_hold_def)
  have sp: "spaced N" using B by (simp add: bins_hold_def)
  have "adr x \<noteq> 0" if "x \<in> set (B j)" for x
    using spaced_pos[OF sp, of x] bins_hold_mem[OF B j, of x] that by (simp add: adr_eq_0_iff)
  then obtain c' where sc: "scan_bin k (adr n) m (rn_bins r j) c = Some (hd0 ?f 0, c')"
    using scan_bin_ends[of m 0 "B j" k "adr n" c] ok by (auto simp: bin_ok_def)
  show ?thesis
  proof (cases ?f)
    case (Cons x xs)
    then have "x \<in> set ?f" by simp
    then have "x \<in> set (B j)" "n \<le> run_bytes_at m x" using fi by auto
    then show ?thesis using sc fits_in_bin[OF B j low] Cons by auto
  next
    case Nil
    have "run_bytes_at m x < n" if x: "x \<in> N" "bin_of m x < j + 1" for x
    proof (cases "bin_of m x = j")
      case True
      then have "x \<in> set (B j)" using bins_hold_mem[OF B j] x(1) by simp
      then show ?thesis using Nil fi[of x] by (simp add: filter_empty_conv)
    next
      case False
      then show ?thesis using low x by (simp add: too_small_below_def)
    qed
    then show ?thesis using sc Nil by (simp add: too_small_below_def)
  qed
qed

text \<open>The whole search; the counter it adds to the statistics is the one it returns.\<close>

lemma find_fit_run:
  fixes r :: runner and k :: run_cfg
  assumes bin: "binned r m N" and n: "8 dvd n" "n + 8 < 2 ^ 64"
  defines "r1 \<equiv> count k (\<lambda>st. st\<lparr>st_find_fit_calls := st_find_fit_calls st + 1\<rparr>) r"
  shows "\<exists>h c'. find_fit k (adr n) c (r, m) = Some (h, c', count_scanned k c' r1) \<and> fits m N n h"
proof -
  have so: "stats_only r r1" by (simp add: r1_def)
  have "binned r1 m N" using bin stats_only_fields[OF so] by (auto intro: binned_cong)
  then obtain B where B: "bins_hold r1 m B N" by (auto simp: binned_def)
  have b: "bin_nat n \<le> 536" "bin_nat n < 536" using bin_nat_less[of n] by simp_all
  have "too_small_below m N n (bin_nat n)" by (simp add: too_small_below_def bin_small)
  then obtain j where j: "first_nonempty_bin_from (adr (bin_nat n)) r1 = adr j" "bin_nat n \<le> j" "j \<le> 536"
    "too_small_below m N n j" "j < 536 \<Longrightarrow> B j \<noteq> []"
    using search_next_bin[OF B _ b(1)] by blast
  note nums = bin_numbers(1-3)[OF j(3)] bin_numbers(4)[OF j(3) b(1)]
  have ff: "find_fit k (adr n) c (r, m) = find_fit_loop k (adr n) (adr (bin_nat n)) (adr j) c r1 m"
    by (simp add: find_fit_def bin_index_word[OF n] r1_def[symmetric] j(1) Let_def)
  show ?thesis
  proof (cases "j = bin_nat n \<and> 512 \<le> j")
    case True
    then have j5: "j < 536" using b by simp
    have n64: "n < 2 ^ 64" using n(2) by simp
    obtain h c' where sc: "scan_bin k (adr n) m (rn_bins r1 j) c = Some (h, c')"
      "if h = 0 then too_small_below m N n (j + 1) else fits m N n h"
      using scan_bin_fits[OF B j5 j(4) n64] by blast
    have step: "find_fit k (adr n) c (r, m) = (if h \<noteq> 0 then Some (h, c', count_scanned k c' r1)
        else find_fit_loop k (adr n) (adr (bin_nat n)) (first_nonempty_bin_from (adr (j + 1)) r1) c' r1 m)"
      unfolding ff bin_numbers(5)[symmetric]
      by (rule find_fit_loop_scan) (use True j5 nums sc(1) in simp_all)
    show ?thesis
      using find_fit_loop_past[OF B, of n "j + 1" k c'] sc(2) True j5 unfolding step by auto
  next
    case False
    show ?thesis
    proof (cases "j < 536")
      case True
      have "n \<le> run_bytes_at m x" if x: "x \<in> set (B j)" for x
      proof -
        have xj: "x \<in> N" "bin_of m x = j" using bins_hold_mem[OF B True] x by auto
        show ?thesis
          using bin_large[of n m x] bin_exact[OF binned_size_ok[OF bin xj(1)], of n] xj(2) j(2) n(1) False
          by (cases "j = bin_nat n") simp_all
      qed
      then have "fits m N n (rn_bins r1 j)" by (rule fits_head[OF B True j(5)[OF True] j(4)])
      then show ?thesis
        using find_fit_loop_head[of "adr j" "adr (bin_nat n)" k "adr n" c r1 m] nums True False
        unfolding ff by auto
    next
      case out: False
      then show ?thesis
        using find_fit_loop_none[of "adr j" k "adr n"] fits_nothing[of m N n] j(3,4) nums(1) unfolding ff by auto
    qed
  qed
qed

lemma find_fit_fits:
  assumes "binned r m N" "8 dvd n" "n + 8 < 2 ^ 64"
  shows "\<exists>h c' r'. find_fit k (adr n) c (r, m) = Some (h, c', r') \<and> fits m N n h \<and> stats_only r r'"
  using find_fit_run[OF assms] stats_only_trans[OF stats_only_count(1) stats_only_count(2)] by blast

end
