(* ===== verification/Runner_Inv.thy ===== *)
theory Runner_Inv
  imports Run_Edit Free_Lists
begin

text \<open>
  The state of a runner as a layout: its chunks with the runs in each.  \<open>tiles\<close> says that memory
  holds the layout and that the bins hold the free runs in a set; every operation of the runner is
  a sequence of unlinking, rewriting a hole, and linking, and each of the three keeps \<open>tiles\<close>.
\<close>

section \<open>Layouts\<close>

type_synonym layout = "(nat \<times> run_shape list) list"

definition runs :: "layout \<Rightarrow> (nat \<times> nat \<times> bool) set" where
  "runs G = (\<Union>(b, rs) \<in> set G. set (place b rs))"

definition chunk_extent :: "nat \<times> run_shape list \<Rightarrow> nat" where
  "chunk_extent c = fst c + run_total (snd c) + 16"

definition clear_of :: "nat \<times> run_shape list \<Rightarrow> nat \<times> run_shape list \<Rightarrow> bool" where
  "clear_of c c' \<longleftrightarrow> chunk_extent c \<le> fst c' \<or> chunk_extent c' \<le> fst c"

definition tiled :: "memory \<Rightarrow> layout \<Rightarrow> bool" where
  "tiled m G \<longleftrightarrow> (\<forall>(b, rs) \<in> set G. laid m b rs) \<and> sorted_wrt clear_of G"

text \<open>The free runs, and the used runs with their sizes.\<close>

definition frees :: "(nat \<times> nat \<times> bool) set \<Rightarrow> nat set" where
  "frees R = {x. \<exists>s. (x, s, True) \<in> R}"

definition useds :: "(nat \<times> nat \<times> bool) set \<Rightarrow> (nat \<times> nat) set" where
  "useds R = {(x, s). (x, s, False) \<in> R}"

abbreviation free_runs :: "layout \<Rightarrow> nat set" where
  "free_runs G \<equiv> frees (runs G)"

abbreviation used_runs :: "layout \<Rightarrow> (nat \<times> nat) set" where
  "used_runs G \<equiv> useds (runs G)"

lemma frees_simps [simp]:
  "frees {} = {}" "frees (insert (x, s, f) R) = (if f then insert x (frees R) else frees R)"
  "frees (R \<union> S) = frees R \<union> frees S"
  by (auto simp: frees_def)

lemma useds_simps [simp]:
  "useds {} = {}" "useds (insert (x, s, f) R) = (if f then useds R else insert (x, s) (useds R))"
  "useds (R \<union> S) = useds R \<union> useds S"
  by (auto simp: useds_def)

lemma runs_simps [simp]:
  "runs [] = {}" "runs ((b, rs) # G) = set (place b rs) \<union> runs G" "runs (G @ H) = runs G \<union> runs H"
  by (auto simp: runs_def)

lemma clear_of_sym: "clear_of c c' = clear_of c' c"
  by (auto simp: clear_of_def)

lemma tiled_middle:
  "tiled m (G1 @ c # G2) \<longleftrightarrow> tiled m (G1 @ G2) \<and> laid m (fst c) (snd c) \<and> (\<forall>c' \<in> set (G1 @ G2). clear_of c c')"
  by (auto simp: tiled_def sorted_wrt_append clear_of_sym split: prod.splits)

lemma runsE:
  assumes "(x, s, f) \<in> runs G"
  obtains G1 b us vs G2 where "G = G1 @ (b, us @ (s, f) # vs) # G2" and "x = b + run_total us"
proof -
  obtain b rs where c: "(b, rs) \<in> set G" "(x, s, f) \<in> set (place b rs)"
    using assms by (auto simp: runs_def)
  from c(1) obtain G1 G2 where "G = G1 @ (b, rs) # G2" by (meson split_list)
  moreover from c(2) obtain us vs where "rs = us @ (s, f) # vs" "x = b + run_total us" by (rule place_split)
  ultimately show thesis using that by blast
qed

lemma run_bounds:
  assumes "tiled m G" "(x, s, f) \<in> runs G"
  shows "16 \<le> x" and "16 dvd x" and "48 \<le> s" and "16 dvd s" and "x + s + 16 < 2 ^ 64"
    and "run_size m (adr x) = adr s" and "is_free m (adr x) = f"
proof -
  obtain G1 b us vs G2 where G: "G = G1 @ (b, us @ (s, f) # vs) # G2" and x: "x = b + run_total us"
    using assms(2) by (rule runsE)
  have "laid m b (us @ (s, f) # vs)" using assms(1) by (simp add: G tiled_middle)
  note at = laid_at[OF this, folded x]
  show "16 \<le> x" "16 dvd x" "48 \<le> s" "16 dvd s" "run_size m (adr x) = adr s" "is_free m (adr x) = f"
    using at by simp_all
  show "x + s + 16 < 2 ^ 64" using at(6) by simp
qed

text \<open>Where a run lies relative to a chunk and to another run.\<close>

lemma place_in_chunk:
  "(x, s, f) \<in> set (place b rs) \<Longrightarrow> b \<le> x \<and> x + s + 16 \<le> chunk_extent (b, rs)"
  using place_bounds[of x s f b rs] by (simp add: chunk_extent_def)

lemma other_chunk_apart:
  assumes "tiled m (G1 @ (b, rs) # G2)" "(y, t, g) \<in> runs (G1 @ G2)"
  shows "y + t + 16 \<le> b \<or> chunk_extent (b, rs) \<le> y"
proof -
  obtain d rs' where "(d, rs') \<in> set (G1 @ G2)" "(y, t, g) \<in> set (place d rs')"
    using assms(2) unfolding runs_def by blast
  then obtain c where c: "c \<in> set (G1 @ G2)" "(y, t, g) \<in> set (place (fst c) (snd c))" by force
  have "clear_of (b, rs) c" using assms(1) c(1) by (simp add: tiled_middle)
  then show ?thesis using place_in_chunk[OF c(2)] by (auto simp: clear_of_def chunk_extent_def)
qed

lemma runs_apart:
  assumes "tiled m G" "(x, s, f) \<in> runs G" "(y, t, g) \<in> runs G"
  shows "(x, s, f) = (y, t, g) \<or> x + s \<le> y \<or> y + t \<le> x"
proof -
  obtain b rs where c: "(b, rs) \<in> set G" "(x, s, f) \<in> set (place b rs)"
    using assms(2) by (auto simp: runs_def)
  then obtain G1 G2 where G: "G = G1 @ (b, rs) # G2" by (meson split_list)
  then have "(y, t, g) \<in> set (place b rs) \<or> (y, t, g) \<in> runs (G1 @ G2)" using assms(3) by auto
  then show ?thesis
  proof
    assume y: "(y, t, g) \<in> set (place b rs)"
    have "\<forall>(s, f) \<in> set rs. 0 < s"
      using assms(1) seg_sizes[of m b False rs] by (fastforce simp: G tiled_middle laid_def)
    then show ?thesis using c(2) y by (rule place_apart)
  next
    assume "(y, t, g) \<in> runs (G1 @ G2)"
    then show ?thesis
      using other_chunk_apart[of m G1 b rs G2 y t g] assms(1) place_in_chunk[OF c(2)] by (auto simp: G)
  qed
qed

lemma runs_spaced:
  assumes "tiled m G" "N \<subseteq> frees (runs G)"
  shows "spaced N"
proof -
  have "0 < x \<and> x + 48 < 2 ^ 64" if "x \<in> N" for x
  proof -
    obtain s where s: "(x, s, True) \<in> runs G" using assms(2) \<open>x \<in> N\<close> by (auto simp: frees_def)
    show ?thesis using run_bounds[OF assms(1) s] by simp
  qed
  moreover have "x + 48 \<le> y \<or> y + 48 \<le> x" if "x \<in> N" "y \<in> N" "x \<noteq> y" for x y
  proof -
    obtain s t where st: "(x, s, True) \<in> runs G" "(y, t, True) \<in> runs G"
      using assms(2) \<open>x \<in> N\<close> \<open>y \<in> N\<close> unfolding frees_def by blast
    show ?thesis
      using runs_apart[OF assms(1) st] run_bounds(3)[OF assms(1) st(1)] run_bounds(3)[OF assms(1) st(2)] that(3)
      by auto
  qed
  ultimately show ?thesis by (simp add: spaced_def)
qed

section \<open>What the layout depends on\<close>

text \<open>The cells that carry the layout: tags, epilogues, and the link words of listed free runs.\<close>

definition layout_cells :: "layout \<Rightarrow> nat set" where
  "layout_cells G = (\<Union>r \<in> runs G. tag_cells r) \<union> (\<lambda>(b, rs). b + run_total rs) ` set G"

lemma layout_cellE:
  assumes "a \<in> layout_cells G"
  obtains (tag) q where "q \<in> runs G" and "a \<in> tag_cells q"
    | (close) d rs where "(d, rs) \<in> set G" and "a = d + run_total rs"
  using assms by (auto simp: layout_cells_def)

lemma layout_cells_small:
  assumes "tiled m G" "a \<in> layout_cells G"
  shows "a < 2 ^ 64"
proof -
  from assms(2) show ?thesis
  proof (cases rule: layout_cellE)
    case (tag q)
    obtain x s f where q: "q = (x, s, f)" by (cases q)
    show ?thesis using tag run_bounds(5)[OF assms(1), of x s f] by (auto simp: q tag_cells_def split: if_splits)
  next
    case close
    then show ?thesis using assms(1) by (auto simp: tiled_def laid_def)
  qed
qed

lemma tiled_cong:
  assumes "tiled m G" "\<And>a. a \<in> layout_cells G \<Longrightarrow> m' (adr a) = m (adr a)"
  shows "tiled m' G"
proof -
  have "laid m' b rs" if c: "(b, rs) \<in> set G" for b rs
  proof -
    have "seg m' b False rs = seg m b False rs"
      using c by (intro seg_cong assms(2)) (force simp: layout_cells_def runs_def)
    moreover have "m' (adr (b + run_total rs)) = m (adr (b + run_total rs))"
      using c by (intro assms(2)) (force simp: layout_cells_def)
    moreover have "laid m b rs" using assms(1) c by (auto simp: tiled_def)
    ultimately show ?thesis by (simp add: laid_def)
  qed
  then show ?thesis using assms(1) by (auto simp: tiled_def)
qed

text \<open>The inside of a run, between its header and its last word, carries none of the layout.\<close>

definition inside :: "nat \<times> nat \<times> bool \<Rightarrow> nat set" where
  "inside r = (case r of (x, s, f) \<Rightarrow> {a. x < a \<and> a < (if f then x + s - 8 else x + s)})"

lemma inside_layout:
  assumes "tiled m G" "r \<in> runs G" "a \<in> inside r"
  shows "a \<notin> layout_cells G"
proof -
  obtain x s f where r: "r = (x, s, f)" by (cases r)
  have rr: "(x, s, f) \<in> runs G" using assms(2) by (simp add: r)
  note b = run_bounds[OF assms(1) rr]
  have a: "x < a" "a < (if f then x + s - 8 else x + s)" "a < x + s"
    using assms(3) by (auto simp: r inside_def split: if_splits)
  have "a \<notin> tag_cells q" if q: "q \<in> runs G" for q
  proof -
    obtain y t g where qq: "q = (y, t, g)" by (cases q)
    have "(x, s, f) = (y, t, g) \<or> x + s \<le> y \<or> y + t \<le> x"
      using runs_apart[OF assms(1) rr] q by (simp add: qq)
    moreover have "48 \<le> t" using run_bounds(3)[OF assms(1)] q by (simp add: qq)
    ultimately show ?thesis using a b(3) by (auto simp: qq tag_cells_def split: if_splits)
  qed
  moreover have "a \<noteq> c + run_total rs" if c: "(c, rs) \<in> set G" for c rs
  proof -
    obtain G1 G2 where G: "G = G1 @ (c, rs) # G2" using c by (meson split_list)
    then have "(x, s, f) \<in> set (place c rs) \<or> (x, s, f) \<in> runs (G1 @ G2)" using rr by auto
    then show ?thesis
      using place_bounds[of x s f c rs] other_chunk_apart[of m G1 c rs G2 x s f] assms(1) a
      by (auto simp: G chunk_extent_def)
  qed
  ultimately show ?thesis by (fastforce simp: layout_cells_def)
qed

lemma links_inside:
  assumes "tiled m G" "N \<subseteq> free_runs G" "a \<in> link_cells N"
  obtains x s where "x \<in> N" and "(x, s, True) \<in> runs G" and "a \<in> inside (x, s, True)" and "a = x + 16 \<or> a = x + 24"
proof -
  obtain x where x: "x \<in> N" "a = x + 16 \<or> a = x + 24" using assms(3) by (auto simp: link_cells_iff)
  then obtain s where s: "(x, s, True) \<in> runs G" using assms(2) by (auto simp: frees_def)
  have "a \<in> inside (x, s, True)" using x(2) run_bounds(3)[OF assms(1) s] by (auto simp: inside_def)
  then show thesis using that x s by blast
qed

definition tiles :: "runner \<Rightarrow> memory \<Rightarrow> layout \<Rightarrow> nat set \<Rightarrow> bool" where
  "tiles r m G N \<longleftrightarrow> tiled m G \<and> N \<subseteq> free_runs G \<and> binned r m N"

text \<open>What a step leaves alone: the owner words and payloads of the used runs \<open>U\<close>.\<close>

definition quiet :: "(nat \<times> nat) set \<Rightarrow> memory \<Rightarrow> memory \<Rightarrow> bool" where
  "quiet U m m' \<longleftrightarrow> (\<forall>(y, t) \<in> U. \<forall>a. y + 8 \<le> a \<and> a < y + t \<longrightarrow> m' (adr a) = m (adr a))"

lemma quietI: "(\<And>y t a. (y, t) \<in> U \<Longrightarrow> y + 8 \<le> a \<Longrightarrow> a < y + t \<Longrightarrow> m' (adr a) = m (adr a)) \<Longrightarrow> quiet U m m'"
  by (auto simp: quiet_def)

lemma quietD: "quiet U m m' \<Longrightarrow> (y, t) \<in> U \<Longrightarrow> y + 8 \<le> a \<Longrightarrow> a < y + t \<Longrightarrow> m' (adr a) = m (adr a)"
  by (auto simp: quiet_def)

lemma quiet_refl [simp]: "quiet U m m"
  by (simp add: quiet_def)

lemma quiet_trans: "quiet U m m' \<Longrightarrow> quiet U m' m'' \<Longrightarrow> quiet U m m''"
  by (rule quietI) (auto dest!: quietD)

lemma quiet_mono: "quiet U m m' \<Longrightarrow> V \<subseteq> U \<Longrightarrow> quiet V m m'"
  by (auto simp: quiet_def)

text \<open>Only the chunks change; the chunks and their sizes stay the same.\<close>

definition extents :: "layout \<Rightarrow> (nat \<times> nat) list" where
  "extents G = map (\<lambda>(b, rs). (b, run_total rs)) G"

lemma extents_middle: "run_total rs' = run_total rs \<Longrightarrow> extents (G1 @ (b, rs') # G2) = extents (G1 @ (b, rs) # G2)"
  by (simp add: extents_def)

definition clear_at :: "layout \<Rightarrow> nat \<Rightarrow> bool" where
  "clear_at G a \<longleftrightarrow> (\<forall>c \<in> set G. a < fst c \<or> chunk_extent c \<le> a)"

definition within :: "layout \<Rightarrow> memory \<Rightarrow> memory \<Rightarrow> bool" where
  "within G m m' \<longleftrightarrow> (\<forall>a < 2 ^ 64. clear_at G a \<longrightarrow> m' (adr a) = m (adr a))"

lemma withinI: "(\<And>a. a < 2 ^ 64 \<Longrightarrow> clear_at G a \<Longrightarrow> m' (adr a) = m (adr a)) \<Longrightarrow> within G m m'"
  by (simp add: within_def)

lemma within_refl [simp]: "within G m m"
  by (simp add: within_def)

lemma within_trans: "within G m m' \<Longrightarrow> within G m' m'' \<Longrightarrow> within G m m''"
  by (simp add: within_def)

lemma clear_at_extents: "clear_at G a \<longleftrightarrow> (\<forall>(b, n) \<in> set (extents G). a < b \<or> b + n + 16 \<le> a)"
  by (auto simp: clear_at_def extents_def chunk_extent_def)

lemma within_cong: "extents G' = extents G \<Longrightarrow> within G' = within G"
  by (simp add: within_def clear_at_extents fun_eq_iff)

lemma clear_at_middle: "clear_at (G1 @ (b, rs) # G2) a \<Longrightarrow> a < b \<or> b + run_total rs + 16 \<le> a"
  by (auto simp: clear_at_def chunk_extent_def)

lemma clear_at_run:
  assumes "clear_at G a" "(x, s, f) \<in> runs G"
  shows "a < x \<or> x + s + 16 \<le> a"
proof -
  obtain b rs where c: "(b, rs) \<in> set G" "(x, s, f) \<in> set (place b rs)" using assms(2) by (auto simp: runs_def)
  then have "a < b \<or> chunk_extent (b, rs) \<le> a" using assms(1) by (auto simp: clear_at_def)
  then show ?thesis using place_in_chunk[OF c(2)] by auto
qed

text \<open>A write into a run.\<close>

lemma within_write:
  assumes "(x, s, f) \<in> runs G" "x \<le> a" "a < x + s" "a < 2 ^ 64"
  shows "within G m (m(adr a := v))"
proof (rule withinI)
  fix c assume "c < 2 ^ 64" "clear_at G c"
  moreover from this have "c \<noteq> a" using clear_at_run[OF _ assms(1), of c] assms(2,3) by auto
  ultimately show "(m(adr a := v)) (adr c) = m (adr c)" using assms(4) by (simp add: adr_eq_iff)
qed

lemma used_inside:
  "(y, t) \<in> useds R \<Longrightarrow> y + 8 \<le> a \<Longrightarrow> a < y + t \<Longrightarrow> (y, t, False) \<in> R \<and> a \<in> inside (y, t, False)"
  by (auto simp: useds_def inside_def)

lemma used_links:
  assumes "tiled m G" "N \<subseteq> free_runs G" "(y, t) \<in> used_runs G" "y \<le> a" "a < y + t"
  shows "a \<notin> link_cells N"
proof
  assume "a \<in> link_cells N"
  then obtain x s where x: "(x, s, True) \<in> runs G" "a \<in> inside (x, s, True)"
    using links_inside[OF assms(1,2)] by blast
  have "(y, t, False) \<in> runs G" using assms(3) by (simp add: useds_def)
  then show False using runs_apart[OF assms(1) x(1), of y t False] x(2) assms(4,5) by (auto simp: inside_def)
qed

lemma used_bound: "tiled m G \<Longrightarrow> (y, t) \<in> used_runs G \<Longrightarrow> y + t + 16 < 2 ^ 64"
  using run_bounds(5)[of m G y t False] by (simp add: useds_def)

text \<open>Writes to link words keep the layout and are quiet.\<close>

lemma link_frame_tiled:
  assumes "tiled m G" "N \<subseteq> free_runs G" "link_frame N m m'"
  shows "tiled m' G" and "quiet (used_runs G) m m'" and "within G m m'"
proof -
  show "within G m m'"
  proof (rule withinI)
    fix a assume a: "a < 2 ^ 64" "clear_at G a"
    have "a \<notin> link_cells N"
    proof
      assume "a \<in> link_cells N"
      then obtain x s where x: "(x, s, True) \<in> runs G" "a \<in> inside (x, s, True)"
        using links_inside[OF assms(1,2)] by blast
      show False using clear_at_run[OF a(2) x(1)] x(2) by (auto simp: inside_def)
    qed
    then show "m' (adr a) = m (adr a)" using assms(3) a(1) by (simp add: link_frame_def)
  qed
  have "a \<notin> link_cells N" if "a \<in> layout_cells G" for a
    using links_inside[OF assms(1,2), of a] inside_layout[OF assms(1)] that by blast
  then show "tiled m' G"
    using assms(3) layout_cells_small[OF assms(1)] by (intro tiled_cong[OF assms(1)]) (simp add: link_frame_def)
  show "quiet (used_runs G) m m'"
  proof (rule quietI)
    fix y t a assume y: "(y, t) \<in> used_runs G" "y + 8 \<le> a" "a < y + t"
    have "a \<notin> link_cells N" using used_links[OF assms(1,2) y(1) _ y(3)] y(2) by simp
    moreover have "a < 2 ^ 64" using used_bound[OF assms(1) y(1)] y(3) by simp
    ultimately show "m' (adr a) = m (adr a)" using assms(3) by (simp add: link_frame_def)
  qed
qed

text \<open>So do writes into a used run.\<close>

lemma tiles_write:
  assumes "tiles r m G N" "(x, s) \<in> used_runs G" "x < a" "a < x + s"
  shows "tiles r (m(adr a := v)) G N"
proof -
  have t: "tiled m G" and N: "N \<subseteq> free_runs G" and bin: "binned r m N" using assms(1) by (simp_all add: tiles_def)
  have a: "a < 2 ^ 64" using used_bound[OF t assms(2)] assms(4) by simp
  have r: "(x, s, False) \<in> runs G" using assms(2) by (simp add: useds_def)
  have off: "a \<notin> layout_cells G" using inside_layout[OF t r] assms(3,4) by (simp add: inside_def)
  have other: "(m(adr a := v)) (adr c) = m (adr c)" if "c < 2 ^ 64" "c \<noteq> a" for c
    using that a by (simp add: adr_eq_iff)
  have lay: "(m(adr a := v)) (adr c) = m (adr c)" if c: "c \<in> layout_cells G" for c
    using other[OF layout_cells_small[OF t c]] off c by blast
  have "(m(adr a := v)) (adr c) = m (adr c)" if c: "c \<in> link_cells N" for c
  proof (rule other)
    obtain y u where y: "(y, u, True) \<in> runs G" "c \<in> inside (y, u, True)"
      using links_inside[OF t N c] by blast
    show "c < 2 ^ 64" using run_bounds(5)[OF t y(1)] y(2) by (auto simp: inside_def)
    show "c \<noteq> a" using used_links[OF t N assms(2), of c] c assms(3,4) by auto
  qed
  moreover have "(m(adr a := v)) (adr y) = m (adr y)" if y: "y \<in> N" for y
  proof (rule lay)
    obtain u where "(y, u, True) \<in> runs G" using N y by (auto simp: frees_def)
    then show "y \<in> layout_cells G" by (force simp: layout_cells_def tag_cells_def)
  qed
  ultimately have "binned r (m(adr a := v)) N" using binned_cong[OF bin refl refl] by blast
  moreover have "tiled (m(adr a := v)) G" using t lay by (rule tiled_cong)
  ultimately show ?thesis using N by (simp add: tiles_def)
qed

section \<open>The three kinds of step\<close>

text \<open>What the steps do to the runner: nothing but the bins, the bitmap and the counters.\<close>

definition core_only :: "runner \<Rightarrow> runner \<Rightarrow> bool" where
  "core_only r r' \<longleftrightarrow> r' = r\<lparr>rn_bins := rn_bins r', rn_mask := rn_mask r', rn_stats := rn_stats r'\<rparr>"

lemma core_only_refl [simp]: "core_only r r"
  by (simp add: core_only_def)

lemma core_only_trans: "core_only r r' \<Longrightarrow> core_only r' r'' \<Longrightarrow> core_only r r''"
  by (cases r; cases r'; cases r'') (simp add: core_only_def)

lemma core_only_fields:
  assumes "core_only r r'"
  shows "rn_self r' = rn_self r" "rn_chunks r' = rn_chunks r" "rn_remote r' = rn_remote r"
    "rn_deferred_bytes r' = rn_deferred_bytes r" "rn_next_growth r' = rn_next_growth r"
    "rn_page_size r' = rn_page_size r"
  using assms by (cases r; cases r'; simp add: core_only_def)+

lemma bins_core: "bins_only r r' \<Longrightarrow> core_only r r'"
  by (cases r; cases r') (simp add: core_only_def bins_only_def)

lemma stats_core: "stats_only r r' \<Longrightarrow> core_only r r'"
  by (cases r; cases r') (simp add: core_only_def stats_only_def)

lemma core_count [simp]: "core_only r (count k f r)"
  by (rule stats_core) simp

lemma tiles_stats: "stats_only r r' \<Longrightarrow> tiles r m G N \<Longrightarrow> tiles r' m G N"
  using stats_only_fields[of r r'] by (auto simp: tiles_def intro: binned_cong)

lemma tiles_count [simp]: "tiles r m G N \<Longrightarrow> tiles (count k f r) m G N"
  by (rule tiles_stats[of r]) simp_all

lemma tiles_size_ok:
  assumes "tiled m G" "x \<in> free_runs G"
  shows "size_ok m x"
proof -
  obtain s where s: "(x, s, True) \<in> runs G" using assms(2) by (auto simp: frees_def)
  note b = run_bounds[OF assms(1) s]
  have "8 dvd s" using b(4) by (rule dvd_trans[rotated]) simp
  then show ?thesis using b by (simp add: size_ok_def unat_adr)
qed

lemma unlink_tiles:
  assumes "tiles r m G N" "x \<in> N"
  obtains r' m' where "unlink_free (adr x) (r, m) = (r', m')" and "tiles r' m' G (N - {x})"
    and "core_only r r'" and "link_frame N m m'" and "quiet (used_runs G) m m'" and "within G m m'"
proof -
  have t: "tiled m G" "N \<subseteq> free_runs G" "binned r m N" using assms(1) by (simp_all add: tiles_def)
  obtain r' m' where u: "unlink_free (adr x) (r, m) = (r', m')" "binned r' m' (N - {x})" "bins_only r r'"
    "link_frame N m m'"
    using unlink_free_binned[OF t(3) assms(2)] by blast
  note f = link_frame_tiled[OF t(1,2) u(4)]
  have "tiles r' m' G (N - {x})" using f(1) t(2) u(2) by (auto simp: tiles_def)
  then show thesis using that u bins_core f(2,3) by blast
qed

lemma link_tiles:
  assumes "tiles r m G N" "x \<in> free_runs G" "x \<notin> N"
  obtains r' m' where "link_free (adr x) (r, m) = (r', m')" and "tiles r' m' G (insert x N)"
    and "core_only r r'" and "link_frame (insert x N) m m'" and "quiet (used_runs G) m m'" and "within G m m'"
proof -
  have t: "tiled m G" "N \<subseteq> free_runs G" "binned r m N" using assms(1) by (simp_all add: tiles_def)
  have N': "insert x N \<subseteq> free_runs G" using t(2) assms(2) by simp
  obtain r' m' where u: "link_free (adr x) (r, m) = (r', m')" "binned r' m' (insert x N)" "bins_only r r'"
    "link_frame (insert x N) m m'"
    using link_free_binned[OF t(3) assms(3) runs_spaced[OF t(1) N'] tiles_size_ok[OF t(1) assms(2)]] by blast
  note f = link_frame_tiled[OF t(1) N' u(4)]
  have "tiles r' m' G (insert x N)" using f(1) N' u(2) by (simp add: tiles_def)
  then show thesis using that u bins_core f(2,3) by blast
qed

text \<open>The runs around a hole.\<close>

definition around :: "layout \<Rightarrow> nat \<Rightarrow> run_shape list \<Rightarrow> nat \<Rightarrow> run_shape list \<Rightarrow> layout \<Rightarrow> (nat \<times> nat \<times> bool) set" where
  "around G1 b us n vs G2 =
     runs (G1 @ G2) \<union> set (place b us) \<union> set (place (b + run_total us + n) vs)"

lemma runs_around:
  "runs (G1 @ (b, us @ mid @ vs) # G2) = around G1 b us (run_total mid) vs G2 \<union> set (place (b + run_total us) mid)"
  by (auto simp: around_def)

lemma around_apart:
  assumes "tiled m (G1 @ (b, us @ mid @ vs) # G2)" "(y, t, g) \<in> around G1 b us (run_total mid) vs G2"
  shows "y + t \<le> b + run_total us \<or> b + run_total us + run_total mid \<le> y"
    and "g \<Longrightarrow> \<not> head_free vs \<Longrightarrow> y \<noteq> b + run_total us + run_total mid"
    and "y + t + 16 \<le> b \<or> chunk_extent (b, us @ mid @ vs) \<le> y \<or>
         (y, t, g) \<in> set (place b us) \<or> (y, t, g) \<in> set (place (b + run_total us + run_total mid) vs)"
proof -
  let ?e = "b + run_total us + run_total mid"
  consider (other) "(y, t, g) \<in> runs (G1 @ G2)" | (before) "(y, t, g) \<in> set (place b us)"
    | (behind) "(y, t, g) \<in> set (place ?e vs)"
    using assms(2) by (auto simp: around_def)
  note c = this
  show "y + t + 16 \<le> b \<or> chunk_extent (b, us @ mid @ vs) \<le> y \<or>
         (y, t, g) \<in> set (place b us) \<or> (y, t, g) \<in> set (place ?e vs)"
    using other_chunk_apart[OF assms(1)] by (cases rule: c) blast+
  have "(y + t \<le> b + run_total us \<or> ?e \<le> y) \<and> (g \<longrightarrow> \<not> head_free vs \<longrightarrow> y \<noteq> ?e)"
  proof (cases rule: c)
    case other
    then have "y + t + 16 \<le> b \<or> ?e + run_total vs + 16 \<le> y"
      using other_chunk_apart[OF assms(1)] by (auto simp: chunk_extent_def add.assoc)
    then show ?thesis by auto
  next
    case before
    have "48 \<le> t" using assms(1) before seg_sizes[of m b False us t g] place_bounds[OF before]
      by (simp add: tiled_middle laid_def)
    then show ?thesis using place_bounds[OF before] by auto
  next
    case behind
    have "g \<Longrightarrow> head_free vs" if y: "y = ?e"
    proof (cases vs)
      case Nil
      then show "g \<Longrightarrow> head_free vs" using behind by simp
    next
      case (Cons v ws)
      obtain u h where v: "v = (u, h)" by (cases v)
      have "48 \<le> u" using assms(1) by (simp add: tiled_middle laid_def Cons v)
      then have "(y, t, g) \<notin> set (place (?e + u) ws)"
        using place_bounds[of y t g "?e + u" ws] y by auto
      then show "g \<Longrightarrow> head_free vs" using behind by (simp add: Cons v)
    qed
    then show ?thesis using place_bounds[OF behind] by auto
  qed
  then show "y + t \<le> b + run_total us \<or> ?e \<le> y" "g \<Longrightarrow> \<not> head_free vs \<Longrightarrow> y \<noteq> ?e" by blast+
qed

text \<open>
  Rewriting the runs of a hole: only cells from the hole's first to the header behind it change.
  Free runs of the hole must be off the lists, and so must the run behind it.
\<close>

lemma retag_tiles:
  assumes t: "tiles r m (G1 @ (b, us @ mid @ vs) # G2) N"
    and N: "N \<subseteq> frees (around G1 b us (run_total mid) vs G2)" and hf: "\<not> head_free vs"
    and laid: "laid m' b (us @ mid' @ vs)" and same: "run_total mid' = run_total mid"
    and x: "x = b + run_total us"
    and frame: "\<And>a. a < 2 ^ 64 \<Longrightarrow> a < x \<or> x + run_total mid < a \<Longrightarrow> m' (adr a) = m (adr a)"
  shows "tiles r m' (G1 @ (b, us @ mid' @ vs) # G2) N"
    and "quiet (useds (around G1 b us (run_total mid) vs G2)) m m'"
    and "within (G1 @ (b, us @ mid @ vs) # G2) m m'"
proof -
  let ?G = "G1 @ (b, us @ mid @ vs) # G2" and ?A = "around G1 b us (run_total mid) vs G2"
  have tG: "tiled m ?G" and bin: "binned r m N" using t by (simp_all add: tiles_def)
  have inG: "q \<in> ?A \<Longrightarrow> q \<in> runs ?G" for q unfolding runs_around by simp
  have ext: "chunk_extent (b, us @ mid' @ vs) = chunk_extent (b, us @ mid @ vs)"
    using same by (simp add: chunk_extent_def)
  have other: "tiled m' (G1 @ G2)"
  proof (rule tiled_cong)
    show tG12: "tiled m (G1 @ G2)" using tG by (simp add: tiled_middle)
    fix a assume a: "a \<in> layout_cells (G1 @ G2)"
    have a64: "a < 2 ^ 64" using layout_cells_small[OF tG12 a] .
    from a have "a < b \<or> chunk_extent (b, us @ mid @ vs) \<le> a"
    proof (cases rule: layout_cellE)
      case (tag q)
      obtain y u g where q: "q = (y, u, g)" by (cases q)
      have "48 \<le> u" using run_bounds(3)[OF tG12] tag(1) by (simp add: q)
      then show ?thesis using tag other_chunk_apart[OF tG, of y u g] by (auto simp: q tag_cells_def split: if_splits)
    next
      case (close d rs)
      then have "clear_of (b, us @ mid @ vs) (d, rs)" using tG by (simp add: tiled_middle)
      then show ?thesis using close(2) by (auto simp: clear_of_def chunk_extent_def)
    qed
    then show "m' (adr a) = m (adr a)" using a64 by (intro frame) (auto simp: chunk_extent_def x)
  qed
  have tG': "tiled m' (G1 @ (b, us @ mid' @ vs) # G2)"
    using other laid tG ext by (simp add: tiled_middle clear_of_def del: append_assoc)
  have cells: "m' (adr (y + d)) = m (adr (y + d))" if y: "y \<in> N" "d < 48" for y d
  proof -
    obtain u where u: "(y, u, True) \<in> ?A" using N y(1) by (auto simp: frees_def)
    note bnd = run_bounds[OF tG inG[OF u]] and ap = around_apart(1,2)[OF tG u]
    have "y + u \<le> x \<or> x + run_total mid < y" using ap hf bnd(3) by (auto simp: x)
    then show ?thesis using bnd(3,5) y(2) by (intro frame) auto
  qed
  have "m' (adr y) = m (adr y)" if "y \<in> N" for y using cells[OF that, of 0] by simp
  moreover have "m' (adr a) = m (adr a)" if "a \<in> link_cells N" for a
    using that cells[of _ 16] cells[of _ 24] by (auto simp: link_cells_iff)
  ultimately have "binned r m' N" using binned_cong[OF bin refl refl] by blast
  moreover have "N \<subseteq> free_runs (G1 @ (b, us @ mid' @ vs) # G2)"
    using N by (simp only: runs_around same frees_simps) blast
  ultimately show "tiles r m' (G1 @ (b, us @ mid' @ vs) # G2) N" using tG' by (simp add: tiles_def)
  show "within ?G m m'"
  proof (rule withinI)
    fix a assume a: "a < 2 ^ 64" "clear_at ?G a"
    show "m' (adr a) = m (adr a)" using clear_at_middle[OF a(2)] by (intro frame a(1)) (auto simp: x)
  qed
  show "quiet (useds ?A) m m'"
  proof (rule quietI)
    fix y u a assume y: "(y, u) \<in> useds ?A" and a: "y + 8 \<le> a" "a < y + u"
    have yA: "(y, u, False) \<in> ?A" using y by (simp add: useds_def)
    have "y + u \<le> x \<or> x + run_total mid \<le> y" using around_apart(1)[OF tG yA] by (auto simp: x)
    then show "m' (adr a) = m (adr a)" using run_bounds(5)[OF tG inG[OF yA]] a by (intro frame) auto
  qed
qed

end
