(* ===== verification/Runner_Ops.thy ===== *)
theory Runner_Ops
  imports Runner_Inv
begin

text \<open>
  The operations of the runner on its runs: cutting a run, expanding it in place, and freeing it
  with both of its neighbours.  Each keeps \<open>runner_core\<close>, says exactly which runs are used
  afterwards, and leaves the payloads of all other used runs alone.
\<close>

definition runner_core :: "runner \<Rightarrow> memory \<Rightarrow> layout \<Rightarrow> bool" where
  "runner_core r m G \<longleftrightarrow> tiles r m G (free_runs G) \<and> (\<forall>(x, s) \<in> used_runs G. m (adr (x + 8)) = rn_self r)"

section \<open>The runs around a hole\<close>

lemma around_disjoint:
  assumes "tiled m (G1 @ (b, us @ mid @ vs) # G2)"
    and "(y, t, g) \<in> around G1 b us (run_total mid) vs G2" and "(y, t', g') \<in> set (place (b + run_total us) mid)"
  shows False
proof -
  let ?G = "G1 @ (b, us @ mid @ vs) # G2"
  have in1: "(y, t, g) \<in> runs ?G" and in2: "(y, t', g') \<in> runs ?G"
    using assms(2,3) unfolding runs_around by auto
  have "48 \<le> t" "48 \<le> t'" using run_bounds(3)[OF assms(1)] in1 in2 by blast+
  then show False using around_apart(1)[OF assms(1,2)] place_bounds[OF assms(3)] by auto
qed

lemma around_sets:
  assumes "tiled m (G1 @ (b, us @ mid @ vs) # G2)"
  shows "free_runs (G1 @ (b, us @ mid @ vs) # G2) - frees (set (place (b + run_total us) mid)) =
      frees (around G1 b us (run_total mid) vs G2)"
    and "used_runs (G1 @ (b, us @ mid @ vs) # G2) - useds (set (place (b + run_total us) mid)) =
      useds (around G1 b us (run_total mid) vs G2)"
  using around_disjoint[OF assms]
  by (simp_all only: runs_around frees_simps useds_simps) (auto simp: frees_def useds_def)

lemma quiet_write:
  assumes "tiled m0 (G1 @ (b, us @ mid @ vs) # G2)" "x = b + run_total us"
    and "x \<le> a" "a < x + run_total mid" "x + run_total mid < 2 ^ 64"
  shows "quiet (useds (around G1 b us (run_total mid) vs G2)) m (m(adr a := v))"
proof (rule quietI)
  fix y t c assume y: "(y, t) \<in> useds (around G1 b us (run_total mid) vs G2)" and c: "y + 8 \<le> c" "c < y + t"
  have yA: "(y, t, False) \<in> around G1 b us (run_total mid) vs G2" using y by (simp add: useds_def)
  then have "(y, t, False) \<in> runs (G1 @ (b, us @ mid @ vs) # G2)" unfolding runs_around by simp
  then have "c < 2 ^ 64" using run_bounds(5)[OF assms(1)] c by fastforce
  moreover have "c \<noteq> a" using around_apart(1)[OF assms(1) yA] assms(2-4) c by auto
  ultimately show "(m(adr a := v)) (adr c) = m (adr c)" using assms(4,5) by (simp add: adr_eq_iff)
qed

section \<open>Cutting a run\<close>

text \<open>What is made of a hole of \<open>n\<close> bytes for a request of \<open>d\<close> bytes.\<close>

definition cut_runs :: "nat \<Rightarrow> nat \<Rightarrow> run_shape list" where
  "cut_runs n d = (if d + 112 \<le> n then [(d, False), (n - d, True)] else [(n, False)])"

definition cut_size :: "nat \<Rightarrow> nat \<Rightarrow> nat" where
  "cut_size n d = (if d + 112 \<le> n then d else n)"

lemma cut_total: "d \<le> n \<Longrightarrow> run_total (cut_runs n d) = n"
  by (simp add: cut_runs_def)

lemma cut_used: "useds (set (place x (cut_runs n d))) = {(x, cut_size n d)}"
  by (simp add: cut_runs_def cut_size_def)

lemma cut_size_ge: "d \<le> n \<Longrightarrow> d \<le> cut_size n d"
  by (simp add: cut_size_def)

lemma resize_run_tiles:
  fixes G1 G2 :: layout and us mid vs :: "run_shape list" and b d :: nat
  defines "A \<equiv> around G1 b us (run_total mid) vs G2"
  assumes t: "tiles r m (G1 @ (b, us @ mid @ vs) # G2) (frees A)" and x: "x = b + run_total us"
    and mid: "mid \<noteq> []" "free_after (free_after False us) mid" and hf: "\<not> head_free vs"
    and d: "16 dvd d" "48 \<le> d" "d \<le> run_total mid"
  defines "G' \<equiv> G1 @ (b, us @ cut_runs (run_total mid) d @ vs) # G2"
  shows "\<exists>r' m'. resize_run (adr x) (adr (run_total mid)) (adr d) (free_after False us) k h (r, m) = (r', m') \<and>
    tiles r' m' G' (free_runs G') \<and> core_only r r' \<and> quiet (useds A) m m' \<and>
    m' (adr (x + 8)) = rn_self r \<and> (\<forall>a. x + 16 \<le> a \<and> a < x + d \<longrightarrow> m' (adr a) = m (adr a)) \<and> within G' m m'"
proof -
  let ?G = "G1 @ (b, us @ mid @ vs) # G2" and ?n = "run_total mid"
  have ext: "within G' = within ?G"
    unfolding G'_def by (intro within_cong extents_middle) (simp add: cut_total[OF d(3)])
  have tG: "tiled m ?G" using t by (simp add: tiles_def)
  then have laid: "laid m b (us @ mid @ vs)" by (simp add: tiled_middle)
  have hole: "hole m b us ?n True vs" using laid_hole[OF laid mid(1)] mid(2) by simp
  have n: "x + ?n + run_total vs + 16 < 2 ^ 64" "48 \<le> ?n" "16 dvd ?n"
    using hole by (simp_all add: hole_def x)
  have op: "owner_ptr (adr x) = adr (x + 8)" by (simp add: owner_ptr_def adr_plus_numeral)
  have rem: "adr ?n - adr d = adr (?n - d)" using d(3) by (rule adr_minus)
  have thr: "min_free_run_size + split_remainder_threshold = 112" by (simp add: run_constants)
  have split: "adr (?n - d) \<ge> min_free_run_size + split_remainder_threshold \<longleftrightarrow> d + 112 \<le> ?n"
    using n(1) d(3) by (simp only: thr) (auto simp: word_le_nat_alt unat_adr)
  have used: "useds A \<subseteq> used_runs G'" "(x, cut_size ?n d) \<in> used_runs G'"
    unfolding G'_def runs_around cut_total[OF d(3)] A_def x using cut_used[of "b + run_total us" ?n d] by auto
  have N: "frees A \<subseteq> frees (around G1 b us ?n vs G2)" by (simp add: A_def)
  have "\<exists>r1 m1. (if adr (?n - d) \<ge> min_free_run_size + split_remainder_threshold
                 then split_run (adr x) (adr d) (adr (?n - d)) (free_after False us) (count k h r, m)
                 else keep_run (adr x) (adr ?n) (free_after False us) (r, m)) = (r1, m1) \<and>
      tiles r1 m1 G' (free_runs G') \<and> core_only r r1 \<and> quiet (useds A) m m1 \<and>
      (\<forall>a. x + 16 \<le> a \<and> a < x + d \<longrightarrow> m1 (adr a) = m (adr a)) \<and> within G' m m1"
  proof (cases "d + 112 \<le> ?n")
    case False
    then have cut_runs: "cut_runs ?n d = [(?n, False)]" by (simp add: cut_runs_def)
    let ?m1 = "mark_next (adr x) False (set_header (adr x) (adr ?n) False (free_after False us) m)"
    note f = fill_used[OF hole x]
    have l1: "laid ?m1 b (us @ cut_runs ?n d @ vs)" using f(1) by (simp add: cut_runs)
    have fr1: "?m1 (adr a) = m (adr a)" if "a < 2 ^ 64" "a < x \<or> x + ?n < a" for a
      using that n(2) by (intro f(2)) auto
    note rt = retag_tiles[OF t N hf l1 cut_total[OF d(3)] x fr1, folded G'_def A_def]
    have "free_runs G' = frees A"
      unfolding G'_def runs_around cut_total[OF d(3)] A_def by (simp add: cut_runs)
    moreover have "\<forall>a. x + 16 \<le> a \<and> a < x + d \<longrightarrow> ?m1 (adr a) = m (adr a)" using f(2) n(1) d(3) by auto
    moreover have "keep_run (adr x) (adr ?n) (free_after False us) (r, m) = (r, ?m1)"
      by (simp add: keep_run_def mark_next_def Let_def)
    ultimately show ?thesis using False rt(1,2) rt(3)[folded ext] split by auto
  next
    case True
    then have cut_runs: "cut_runs ?n d = [(d, False), (?n - d, True)]" by (simp add: cut_runs_def)
    let ?m1 = "write_footer (adr (x + d)) (set_header (adr (x + d)) (adr (?n - d)) True False
      (set_header (adr x) (adr d) False (free_after False us) m))"
    have d48: "d + 48 \<le> ?n" using True by simp
    note f = fill_split[OF hole x d(1,2) d48 hf]
    have l1: "laid ?m1 b (us @ cut_runs ?n d @ vs)" using f(1) by (simp add: cut_runs)
    have fr1: "?m1 (adr a) = m (adr a)" if "a < 2 ^ 64" "a < x \<or> x + ?n < a" for a
      using that d48 by (intro f(2)) auto
    note rt = retag_tiles[OF t N hf l1 cut_total[OF d(3)] x fr1, folded G'_def A_def]
    have fr: "free_runs G' = insert (x + d) (frees A)"
      unfolding G'_def runs_around cut_total[OF d(3)] A_def x by (simp add: cut_runs)
    have "x + d \<notin> frees A"
    proof
      assume "x + d \<in> frees A"
      then obtain u where u: "(x + d, u, True) \<in> around G1 b us ?n vs G2" by (auto simp: frees_def A_def)
      then have "(x + d, u, True) \<in> runs ?G" unfolding runs_around by simp
      then have "48 \<le> u" by (rule run_bounds(3)[OF tG])
      then show False using around_apart(1)[OF tG u] True by (auto simp: x)
    qed
    then obtain r2 m2 where l: "link_free (adr (x + d)) (count k h r, ?m1) = (r2, m2)"
      "tiles r2 m2 G' (insert (x + d) (frees A))" "core_only (count k h r) r2" "quiet (used_runs G') ?m1 m2"
      "within G' ?m1 m2"
      using link_tiles[OF tiles_count[OF rt(1)], of "x + d"] fr by blast
    have "laid m2 b ((us @ [(d, False)]) @ (?n - d, True) # vs)"
      using l(2) by (simp add: tiles_def G'_def tiled_middle cut_runs)
    from mark_next_same[OF this] have mk: "mark_next (adr (x + d)) True m2 = m2"
      by (simp add: x add.assoc)
    have "split_run (adr x) (adr d) (adr (?n - d)) (free_after False us) (count k h r, m) = (r2, m2)"
      using l(1) mk by (simp add: split_run_def mark_next_def Let_def adr_plus)
    moreover have "quiet (useds A) m m2" using quiet_trans[OF rt(2) quiet_mono[OF l(4) used(1)]] .
    moreover have "\<forall>a. x + 16 \<le> a \<and> a < x + d \<longrightarrow> m2 (adr a) = m (adr a)"
    proof (intro allI impI)
      fix a assume a: "x + 16 \<le> a \<and> a < x + d"
      have "m2 (adr a) = ?m1 (adr a)" using quietD[OF l(4) used(2), of a] a True by (simp add: cut_size_def)
      also have "\<dots> = m (adr a)" using f(2)[of a] a n(1) True by auto
      finally show "m2 (adr a) = m (adr a)" .
    qed
    moreover have "core_only r r2" using core_only_trans[OF core_count l(3)] .
    moreover have "within G' m m2" using within_trans[OF rt(3)[folded ext] l(5)] .
    ultimately show ?thesis using True split l(2) fr by auto
  qed
  then obtain r1 m1 where s1: "(if adr (?n - d) \<ge> min_free_run_size + split_remainder_threshold
                 then split_run (adr x) (adr d) (adr (?n - d)) (free_after False us) (count k h r, m)
                 else keep_run (adr x) (adr ?n) (free_after False us) (r, m)) = (r1, m1)"
    "tiles r1 m1 G' (free_runs G')" "core_only r r1" "quiet (useds A) m m1"
    "\<forall>a. x + 16 \<le> a \<and> a < x + d \<longrightarrow> m1 (adr a) = m (adr a)" "within G' m m1"
    by blast
  let ?m' = "m1(adr (x + 8) := rn_self r)"
  have "resize_run (adr x) (adr ?n) (adr d) (free_after False us) k h (r, m) = (r1, ?m')"
    by (simp only: resize_run_def Let_def rem fst_conv snd_conv s1(1) prod.case op core_only_fields(1)[OF s1(3)])
  moreover have "tiles r1 ?m' G' (free_runs G')"
    using tiles_write[OF s1(2) used(2)] cut_size_ge[OF d(3)] d(2) by simp
  moreover have "quiet (useds A) m ?m'"
    using quiet_trans[OF s1(4) quiet_write[OF tG x, of "x + 8" m1 "rn_self r", folded A_def]] n(1,2) by simp
  moreover have "\<forall>a. x + 16 \<le> a \<and> a < x + d \<longrightarrow> ?m' (adr a) = m (adr a)"
    using s1(5) n(1) d(3) by (simp add: adr_eq_iff)
  moreover have "within G' m ?m'"
  proof (rule within_trans[OF s1(6)])
    have "(x, cut_size ?n d, False) \<in> runs G'" using used(2) by (simp add: useds_def)
    then show "within G' m1 ?m'" by (rule within_write) (use cut_size_ge[OF d(3)] d(2,3) n(1) in simp_all)
  qed
  ultimately show ?thesis using s1(3) by auto
qed

section \<open>Allocating from a free run\<close>

lemma coreD:
  assumes "runner_core r m G"
  shows "tiled m G" and "tiles r m G (free_runs G)" and "(y, t) \<in> used_runs G \<Longrightarrow> m (adr (y + 8)) = rn_self r"
  using assms by (auto simp: runner_core_def tiles_def)

text \<open>The owner words after a step that rewrites a hole.\<close>

lemma core_after:
  assumes "tiles r' m' G' (free_runs G')" and "used_runs G' = insert (x, t) U" and "U \<subseteq> used_runs G"
    and "runner_core r m G" and "quiet U m m'" and "m' (adr (x + 8)) = rn_self r" and "core_only r r'"
    and "\<forall>(y, u) \<in> U. 48 \<le> u"
  shows "runner_core r' m' G'"
proof -
  have "m' (adr (y + 8)) = rn_self r" if "(y, u) \<in> U" for y u
    using quietD[OF assms(5) that, of "y + 8"] coreD(3)[OF assms(4)] that assms(3,8) by fastforce
  then show ?thesis
    using assms(1,2,6) core_only_fields(1)[OF assms(7)] by (auto simp: runner_core_def)
qed

lemma used_sizes: "tiled m G \<Longrightarrow> \<forall>(y, u) \<in> used_runs G. 48 \<le> u"
  using run_bounds(3) by (fastforce simp: useds_def)

lemma allocate_from_free_run_core:
  assumes rc: "runner_core r m G" and x: "(x, s, True) \<in> runs G" and d: "16 dvd d" "48 \<le> d" "d \<le> s"
  shows "\<exists>r' m' G'. allocate_from_free_run k (adr x) (adr d) (r, m) = (adr (x + 16), (r', m')) \<and>
    runner_core r' m' G' \<and> core_only r r' \<and> extents G' = extents G \<and>
    used_runs G' = insert (x, cut_size s d) (used_runs G) \<and> quiet (used_runs G) m m' \<and> within G m m'"
proof -
  have t: "tiled m G" "tiles r m G (free_runs G)" using coreD[OF rc] by simp_all
  obtain G1 b us vs G2 where G: "G = G1 @ (b, us @ (s, True) # vs) # G2" and xx: "x = b + run_total us"
    using x by (rule runsE)
  let ?mid = "[(s, True)]" and ?A = "around G1 b us s vs G2"
  have Gm: "G = G1 @ (b, us @ ?mid @ vs) # G2" by (simp add: G)
  have laid: "laid m b (us @ (s, True) # vs)" using t(1) by (simp add: G tiled_middle)
  then have hf: "\<not> head_free vs" and fa: "\<not> free_after False us"
    using seg_free_apart[of m b False us s vs] by (auto simp: laid_def)
  have sets: "free_runs G - {x} = frees ?A" "used_runs G = useds ?A"
    using around_sets[OF t(1)[unfolded Gm]] by (simp_all add: G xx)
  have "x \<in> free_runs G" using x by (auto simp: frees_def)
  from unlink_tiles[OF t(2) this] obtain r1 m1 where u: "unlink_free (adr x) (r, m) = (r1, m1)"
    "tiles r1 m1 G (frees ?A)" "core_only r r1" "quiet (used_runs G) m m1" "within G m m1"
    unfolding sets(1) by blast
  let ?G' = "G1 @ (b, us @ cut_runs s d @ vs) # G2"
  have mid: "?mid \<noteq> []" "free_after (free_after False us) ?mid" "run_total ?mid = s" by simp_all
  obtain r2 m2 where z: "resize_run (adr x) (adr s) (adr d) (free_after False us) k
      (\<lambda>st. st\<lparr>st_split_count := st_split_count st + 1\<rparr>) (r1, m1) = (r2, m2)"
    "tiles r2 m2 ?G' (free_runs ?G')" "core_only r1 r2" "quiet (useds ?A) m1 m2" "m2 (adr (x + 8)) = rn_self r1"
    "within ?G' m1 m2"
    using resize_run_tiles[of r1 m1 G1 b us ?mid vs G2, OF _ xx mid(1,2) hf d(1,2), of k
        "\<lambda>st. st\<lparr>st_split_count := st_split_count st + 1\<rparr>"] u(2) d(3)
    unfolding Gm mid(3) by blast
  have at: "run_size m (adr x) = adr s" "prev_is_free m (adr x) = free_after False us"
    using laid_at(1,3)[OF laid] by (simp_all add: xx)
  have "payload_from_header (adr x) = adr (x + 16)"
    by (simp add: payload_from_header_def run_constants adr_plus_numeral)
  then have eq: "\<exists>st. allocate_from_free_run k (adr x) (adr d) (r, m) = (adr (x + 16), (count k st r2, m2))"
    using z(1) by (simp add: allocate_from_free_run_def at u(1) Let_def) blast
  have ug: "used_runs ?G' = insert (x, cut_size s d) (used_runs G)"
    using cut_used[of x s d] unfolding sets(2) runs_around cut_total[OF d(3)] by (simp add: xx)
  have q: "quiet (used_runs G) m m2" using quiet_trans[OF u(4)] z(4) unfolding sets(2) by blast
  have core: "core_only r r2" using core_only_trans[OF u(3) z(3)] .
  have "runner_core r2 m2 ?G'"
    using core_after[OF z(2) ug subset_refl rc q _ core used_sizes[OF t(1)]] z(5) core_only_fields(1)[OF u(3)] by simp
  then have "runner_core (count k st r2) m2 ?G'" for st
    by (simp add: runner_core_def) (simp add: count_def)
  moreover have ext: "extents ?G' = extents G" unfolding Gm by (rule extents_middle) (simp add: cut_total[OF d(3)])
  moreover have "core_only r (count k st r2)" for st using core_only_trans[OF core core_count] .
  moreover have "within G m m2" using within_trans[OF u(5) z(6)[unfolded within_cong[OF ext]]] .
  ultimately show ?thesis using eq ug q by blast
qed

section \<open>Expanding a run in place\<close>

text \<open>The run behind a used run, if it is free.\<close>

lemma next_free:
  assumes t: "tiled m G" and x: "(x, s, f) \<in> runs G"
  shows "next_run m (adr x) \<noteq> nullptr \<and> is_free m (next_run m (adr x)) \<longleftrightarrow> (\<exists>u. (x + s, u, True) \<in> runs G)"
    and "(x + s, u, g) \<in> runs G \<Longrightarrow> next_run m (adr x) = adr (x + s) \<and> adr (x + s) \<noteq> nullptr"
    and "(x + s, u, g) \<in> runs G \<Longrightarrow> \<exists>G1 b us vs G2. G = G1 @ (b, us @ (s, f) # (u, g) # vs) # G2 \<and> x = b + run_total us"
proof -
  obtain G1 b us vs G2 where G: "G = G1 @ (b, us @ (s, f) # vs) # G2" and xx: "x = b + run_total us"
    using x by (rule runsE)
  have laid: "laid m b (us @ (s, f) # vs)" using t by (simp add: G tiled_middle)
  note nx = laid_next[OF laid, folded xx]
  have head: "\<exists>ws. vs = (u, g) # ws" if y: "(x + s, u, g) \<in> runs G" for u g
  proof -
    have t': "tiled m (G1 @ (b, us @ [(s, f)] @ vs) # G2)" using t by (simp add: G)
    have "runs G = around G1 b us s vs G2 \<union> {(x, s, f)}"
      using runs_around[of G1 b us "[(s, f)]" vs G2] by (simp add: G xx)
    moreover have "s \<noteq> 0" using run_bounds(3)[OF t x] by simp
    ultimately have "(x + s, u, g) \<in> around G1 b us s vs G2" using y by auto
    then have A: "(x + s, u, g) \<in> around G1 b us (run_total [(s, f)]) vs G2" by simp
    have u: "48 \<le> u" using run_bounds(3)[OF t y] .
    have "(x + s, u, g) \<in> set (place (x + s) vs)"
      using around_apart(3)[OF t' A] u place_bounds[of "x + s" u g b us] laid_at(4)[OF laid]
      by (auto simp: xx chunk_extent_def)
    then show ?thesis
    proof (cases vs)
      case (Cons v ws)
      obtain t2 g2 where v: "v = (t2, g2)" by (cases v)
      have "48 \<le> t2" using laid by (simp add: laid_def Cons v)
      then have "(x + s, u, g) \<notin> set (place (x + s + t2) ws)"
        using place_bounds[of "x + s" u g "x + s + t2" ws] by auto
      then show ?thesis using \<open>(x + s, u, g) \<in> set (place (x + s) vs)\<close> by (simp add: Cons v)
    qed simp
  qed
  have nz: "adr (x + s) \<noteq> 0" using run_bounds[OF t x] by (simp add: adr_eq_0_iff)
  show "next_run m (adr x) = adr (x + s) \<and> adr (x + s) \<noteq> 0" if "(x + s, u, g) \<in> runs G"
    using head[OF that] nx nz by auto
  show "\<exists>G1 b us vs G2. G = G1 @ (b, us @ (s, f) # (u, g) # vs) # G2 \<and> x = b + run_total us"
    if "(x + s, u, g) \<in> runs G"
    using head[OF that] G xx by blast
  show "next_run m (adr x) \<noteq> 0 \<and> is_free m (next_run m (adr x)) \<longleftrightarrow> (\<exists>u. (x + s, u, True) \<in> runs G)"
  proof (cases vs)
    case Nil
    then show ?thesis using nx head by auto
  next
    case (Cons v ws)
    obtain t2 g2 where v: "v = (t2, g2)" by (cases v)
    have y: "(x + s, t2, g2) \<in> runs G" by (simp add: G Cons v xx)
    have "is_free m (adr (x + s)) = g2" by (rule run_bounds(7)[OF t y])
    moreover have "g2" if "(x + s, u, True) \<in> runs G" for u using head[OF that] by (simp add: Cons v)
    ultimately show ?thesis using nx nz y by (auto simp: Cons)
  qed
qed

lemma header_payload [simp]: "header_from_payload (adr (x + 16)) = adr x"
  by (simp add: header_from_payload_def run_constants adr_minus_numeral)

lemma payload_nonnull:
  "tiled m G \<Longrightarrow> (x, s, f) \<in> runs G \<Longrightarrow> adr (x + 16) \<noteq> nullptr"
  using run_bounds[of m G x s f] by (simp add: adr_eq_0_iff)

text \<open>Either the run grows to at least the size asked for, or nothing happens and nothing could.\<close>

lemma runner_expand_core:
  assumes rc: "runner_core r m G" and x: "(x, s) \<in> used_runs G"
  shows "\<exists>r' m' G' t. runner_expand k (adr (x + 16)) q (r, m) = (adr (t - 16), (r', m')) \<and>
    runner_core r' m' G' \<and> core_only r r' \<and> extents G' = extents G \<and> s \<le> t \<and>
    used_runs G' = insert (x, t) (used_runs G - {(x, s)}) \<and> quiet (used_runs G - {(x, s)}) m m' \<and>
    (\<forall>a. x + 16 \<le> a \<and> a < x + s \<longrightarrow> m' (adr a) = m (adr a)) \<and>
    (unat q + 16 \<le> t \<or> t = s \<and> r' = r \<and> m' = m \<and>
       (\<forall>u. (x + s, u, True) \<in> runs G \<longrightarrow> s + u < run_bytes_nat (unat q))) \<and> within G m m'"
proof -
  have t: "tiled m G" "tiles r m G (free_runs G)" using coreD[OF rc] by simp_all
  have xr: "(x, s, False) \<in> runs G" using x by (simp add: useds_def)
  note b = run_bounds[OF t(1) xr]
  have pay: "adr s - sizeof_run_header = adr (s - 16)" using b(3) by (simp add: run_constants adr_minus_numeral)
  have cond: "adr (s - 16) \<ge> q \<longleftrightarrow> s - 16 \<ge> unat q" using b(5) by (simp add: word_le_nat_alt unat_adr)
  let ?res = "runner_expand k (adr (x + 16)) q (r, m)"
  have stay: ?thesis if "?res = (adr (s - 16), (r, m))" "unat q + 16 \<le> s \<or>
      (\<forall>u. (x + s, u, True) \<in> runs G \<longrightarrow> s + u < run_bytes_nat (unat q))"
    using that rc x by (intro exI[of _ r] exI[of _ m] exI[of _ G] exI[of _ s]) auto
  have open_up: "?res = (if s - 16 \<ge> unat q then (adr (s - 16), (r, m))
      else case normalized_run_bytes q of None \<Rightarrow> (adr (s - 16), (r, m))
      | Some needed \<Rightarrow>
          if next_run m (adr x) = nullptr \<or> \<not> is_free m (next_run m (adr x)) then (adr (s - 16), (r, m))
          else case checked_add (adr s) (run_size m (next_run m (adr x))) of None \<Rightarrow> (adr (s - 16), (r, m))
          | Some combined \<Rightarrow>
              if combined < needed then (adr (s - 16), (r, m))
              else let (r2, m2) = resize_run (adr x) combined needed (prev_is_free m (adr x)) k (\<lambda>st. st)
                                   (unlink_free (next_run m (adr x)) (r, m));
                       v = run_size m2 (adr x) - sizeof_run_header
                   in (v, (if v > adr (s - 16) then count k (add_live (v - adr (s - 16))) r2 else r2, m2)))"
    by (simp only: runner_expand_def prod.case Let_def header_payload b(6) pay cond
        if_not_P[OF payload_nonnull[OF t(1) xr]])
  show ?thesis
  proof (cases "s - 16 \<ge> unat q")
    case True
    then have "?res = (adr (s - 16), (r, m))" unfolding open_up by simp
    moreover have "unat q + 16 \<le> s" using True b(3) by simp
    ultimately show ?thesis using stay by blast
  next
    case small: False
    note norm = normalized_run_bytes_eq[of q] and rb = run_bytes_nat_props[of "unat q"]
    let ?d = "run_bytes_nat (unat q)"
    show ?thesis
    proof (cases "(\<exists>u. (x + s, u, True) \<in> runs G \<and> ?d \<le> s + u)")
      case False
      have big: "s + u < ?d" if "(x + s, u, True) \<in> runs G" for u using False that by auto
      have "?res = (adr (s - 16), (r, m))"
      proof (cases "next_run m (adr x) = nullptr \<or> \<not> is_free m (next_run m (adr x)) \<or> normalized_run_bytes q = None")
        case True
        then show ?thesis unfolding open_up using small by (auto split: option.splits)
      next
        case nf: False
        then obtain u where u: "(x + s, u, True) \<in> runs G" using next_free(1)[OF t(1) xr] by auto
        note bu = run_bounds[OF t(1) u]
        have nx: "next_run m (adr x) = adr (x + s)" using next_free(2)[OF t(1) xr u] by simp
        have fit: "nat_round_up (unat q) 16 + 31 < 2 ^ 64" using nf norm by (auto split: if_splits)
        then have d64: "?d < 2 ^ 64" by (simp add: run_bytes_nat_def)
        have "checked_add (adr s) (adr u) = Some (adr (s + u))"
          using bu(5) b(5) by (simp add: checked_add_eq unat_adr adr_plus)
        moreover have "adr (s + u) < adr ?d" using big[OF u] d64 by (simp add: adr_less_iff)
        ultimately show ?thesis unfolding open_up using nf small norm fit by (simp add: nx bu(6))
      qed
      then show ?thesis using stay big by blast
    next
      case True
      then obtain u where u: "(x + s, u, True) \<in> runs G" "?d \<le> s + u" by blast
      note bu = run_bounds[OF t(1) u(1)]
      obtain G1 c us vs G2 where G: "G = G1 @ (c, us @ (s, False) # (u, True) # vs) # G2" and xx: "x = c + run_total us"
        using next_free(3)[OF t(1) xr u(1)] by blast
      let ?mid = "[(s, False), (u, True)]" and ?A = "around G1 c us (s + u) vs G2"
      have Gm: "G = G1 @ (c, us @ ?mid @ vs) # G2" by (simp add: G)
      have laid: "laid m c (us @ (s, False) # (u, True) # vs)" using t(1) by (simp add: G tiled_middle)
      then have hf: "\<not> head_free vs" using seg_free_apart[of m c False "us @ [(s, False)]" u vs] by (simp add: laid_def)
      have sets: "free_runs G - {x + s} = frees ?A" "used_runs G - {(x, s)} = useds ?A"
        using around_sets[OF t(1)[unfolded Gm]] by (simp_all add: G xx)
      have nx: "next_run m (adr x) = adr (x + s)" "adr (x + s) \<noteq> 0" using next_free(2)[OF t(1) xr u(1)] by simp_all
      have fr: "is_free m (adr (x + s))" using bu(7) by simp
      have fit: "nat_round_up (unat q) 16 + 31 < 2 ^ 64"
        using u(2) bu(5) by (simp add: run_bytes_nat_def)
      have comb: "checked_add (adr s) (adr u) = Some (adr (s + u))"
        using bu(5) b(5) by (simp add: checked_add_eq unat_adr adr_plus)
      have le: "\<not> adr (s + u) < adr ?d" using u(2) bu(5) by (simp add: adr_less_iff)
      have "x + s \<in> free_runs G" using u(1) by (auto simp: frees_def)
      from unlink_tiles[OF t(2) this] obtain r1 m1 where z: "unlink_free (adr (x + s)) (r, m) = (r1, m1)"
        "tiles r1 m1 G (frees ?A)" "core_only r r1" "quiet (used_runs G) m m1" "within G m m1"
        unfolding sets(1) by blast
      let ?G' = "G1 @ (c, us @ cut_runs (s + u) ?d @ vs) # G2" and ?t = "cut_size (s + u) ?d"
      have mid: "?mid \<noteq> []" "free_after (free_after False us) ?mid" "run_total ?mid = s + u" by simp_all
      obtain r2 m2 where y: "resize_run (adr x) (adr (s + u)) (adr ?d) (free_after False us) k (\<lambda>st. st) (r1, m1) = (r2, m2)"
        "tiles r2 m2 ?G' (free_runs ?G')" "core_only r1 r2" "quiet (useds ?A) m1 m2" "m2 (adr (x + 8)) = rn_self r1"
        "\<forall>a. x + 16 \<le> a \<and> a < x + ?d \<longrightarrow> m2 (adr a) = m1 (adr a)" "within ?G' m1 m2"
        using resize_run_tiles[of r1 m1 G1 c us ?mid vs G2, OF _ xx mid(1,2) hf rb(1,2), of k "\<lambda>st. st"] z(2) u(2)
        unfolding Gm mid(3) by blast
      have pf: "prev_is_free m (adr x) = free_after False us"
        using laid_at(3)[OF laid] by (simp add: xx)
      have ug: "used_runs ?G' = insert (x, ?t) (used_runs G - {(x, s)})"
        using cut_used[of x "s + u" ?d] unfolding sets(2) runs_around cut_total[OF u(2)] by (simp add: xx)
      have core: "core_only r r2" using core_only_trans[OF z(3) y(3)] .
      have q1: "quiet (used_runs G - {(x, s)}) m m2"
        using quiet_trans[OF quiet_mono[OF z(4)]] y(4) unfolding sets(2)[symmetric] by blast
      have rc2: "runner_core r2 m2 ?G'"
        by (rule core_after[OF y(2) ug Diff_subset rc q1 _ core])
          (use y(5) core_only_fields(1)[OF z(3)] used_sizes[OF t(1)] in auto)
      have st: "s \<le> ?t" using small u(2) rb(3) by (auto simp: cut_size_def)
      have dt: "?d \<le> ?t" using u(2) by (simp add: cut_size_def)
      have xt: "(x, ?t, False) \<in> runs ?G'" using ug by (auto simp: useds_def)
      have "run_size m2 (adr x) = adr ?t" "48 \<le> ?t"
        using run_bounds(6)[OF coreD(1)[OF rc2] xt] run_bounds(3)[OF coreD(1)[OF rc2] xt] by simp_all
      then have v: "run_size m2 (adr x) - sizeof_run_header = adr (?t - 16)"
        by (simp add: run_constants adr_minus_numeral)
      have "\<exists>r'. ?res = (adr (?t - 16), (r', m2)) \<and> core_only r2 r' \<and> stats_only r2 r'"
        unfolding open_up using small norm fit comb le fr nx(2)
        by (simp add: nx(1) bu(6) z(1) pf y(1) v Let_def)
      then obtain r3 where r3: "?res = (adr (?t - 16), (r3, m2))" "core_only r2 r3" "stats_only r2 r3" by blast
      have "runner_core r3 m2 ?G'"
        using rc2 tiles_stats[OF r3(3)] stats_only_fields(3)[OF r3(3)] by (simp add: runner_core_def)
      moreover have "m2 (adr a) = m (adr a)" if "x + 16 \<le> a \<and> a < x + s" for a
      proof -
        have "m2 (adr a) = m1 (adr a)" using y(6) that small rb(3) by auto
        then show ?thesis using quietD[OF z(4) x, of a] that by simp
      qed
      moreover have ext: "extents ?G' = extents G" unfolding Gm by (rule extents_middle) (simp add: cut_total[OF u(2)])
      moreover have "within G m m2" using within_trans[OF z(5) y(7)[unfolded within_cong[OF ext]]] .
      moreover have "unat q + 16 \<le> ?t" using rb(3) dt by simp
      ultimately show ?thesis using r3(1) core_only_trans[OF core r3(2)] st ug q1 by blast
    qed
  qed
qed

section \<open>Freeing a run\<close>

text \<open>The free neighbours are separated from the rest; there is at most one on each side.\<close>

lemma neighbours:
  obtains us0 pre post vs0 where "us = us0 @ pre" and "vs = post @ vs0"
    and "pre = [] \<and> \<not> free_after False us \<or> (\<exists>q. pre = [(q, True)])"
    and "post = [] \<and> \<not> head_free vs \<or> (\<exists>u. post = [(u, True)])"
proof -
  have "\<exists>us0 pre. us = us0 @ pre \<and> (pre = [] \<and> \<not> free_after False us \<or> (\<exists>q. pre = [(q, True)]))"
  proof (cases us rule: rev_cases)
    case (snoc us0 p)
    then show ?thesis by (cases p; cases "snd p") auto
  qed simp
  moreover have "\<exists>post vs0. vs = post @ vs0 \<and> (post = [] \<and> \<not> head_free vs \<or> (\<exists>u. post = [(u, True)]))"
  proof (cases vs)
    case (Cons p vs0)
    show ?thesis
    proof (cases "snd p")
      case True
      then show ?thesis using Cons by (intro exI[of _ "[p]"] exI[of _ vs0]) (cases p, simp)
    next
      case False
      then show ?thesis using Cons by (intro exI[of _ "[]"] exI[of _ vs]) (cases p, simp)
    qed
  qed simp
  ultimately show thesis using that by blast
qed

lemma merge_next_tiles:
  fixes G1 G2 :: layout and us vs0 post :: "run_shape list" and b s :: nat
  defines "G \<equiv> G1 @ (b, us @ (s, False) # post @ vs0) # G2"
  assumes t: "tiles r m G (free_runs G)" and x: "x = b + run_total us"
    and post: "post = [] \<and> \<not> head_free (post @ vs0) \<or> (\<exists>u. post = [(u, True)])"
  shows "\<exists>r' m'. merge_next k (adr x) (adr s) (r, m) = (adr (s + run_total post), (r', m')) \<and>
    tiles r' m' G (free_runs G - frees (set (place (x + s) post))) \<and> core_only r r' \<and> quiet (used_runs G) m m' \<and> within G m m'"
proof -
  have tG: "tiled m G" using t by (simp add: tiles_def)
  have xr: "(x, s, False) \<in> runs G" by (simp add: G_def x)
  have iff: "next_run m (adr x) \<noteq> 0 \<and> is_free m (next_run m (adr x)) \<longleftrightarrow> post \<noteq> []"
  proof (cases "post = []")
    case True
    have "\<not> (\<exists>u. (x + s, u, True) \<in> runs G)"
    proof
      assume "\<exists>u. (x + s, u, True) \<in> runs G"
      then obtain u where u: "(x + s, u, True) \<in> runs G" by blast
      have tG': "tiled m (G1 @ (b, us @ [(s, False)] @ vs0) # G2)" using tG True by (simp add: G_def)
      have "runs G = around G1 b us s vs0 G2 \<union> {(x, s, False)}"
        using runs_around[of G1 b us "[(s, False)]" vs0 G2] True by (simp add: G_def x)
      then have "(x + s, u, True) \<in> around G1 b us (run_total [(s, False)]) vs0 G2" using u by simp
      from around_apart(2)[OF tG' this] show False using post True by (simp add: x)
    qed
    then show ?thesis using next_free(1)[OF tG xr] True by simp
  next
    case False
    then obtain u where "post = [(u, True)]" using post by blast
    then have "(x + s, u, True) \<in> runs G" by (simp add: G_def x)
    then show ?thesis using next_free(1)[OF tG xr] False by blast
  qed
  show ?thesis
  proof (cases "post = []")
    case True
    then have "merge_next k (adr x) (adr s) (r, m) = (adr s, (r, m))"
      using iff by (simp only: merge_next_def Let_def snd_conv) simp
    then show ?thesis using t True by simp
  next
    case False
    then obtain u where post: "post = [(u, True)]" using post by blast
    then have u: "(x + s, u, True) \<in> runs G" by (simp add: G_def x)
    have nx: "next_run m (adr x) = adr (x + s)" using next_free(2)[OF tG xr u] by simp
    have "x + s \<in> free_runs G" using u by (auto simp: frees_def)
    from unlink_tiles[OF t this] obtain r1 m1 where z: "unlink_free (adr (x + s)) (r, m) = (r1, m1)"
      "tiles r1 m1 G (free_runs G - {x + s})" "core_only r r1" "quiet (used_runs G) m m1" "within G m m1"
      by blast
    have tm1: "tiled m1 G" using z(2) by (simp add: tiles_def)
    have "merge_next k (adr x) (adr s) (r, m) = (adr (s + u),
        (count k (\<lambda>st. st\<lparr>st_coalesce_next_count := st_coalesce_next_count st + 1\<rparr>) r1, m1))"
      using iff False run_bounds(6)[OF tm1 u] by (simp add: merge_next_def nx z(1) adr_plus Let_def)
    then show ?thesis
      using z(2,4,5) core_only_trans[OF z(3) core_count] tiles_count[OF z(2)] by (simp add: post)
  qed
qed

lemma merge_prev_tiles:
  fixes G1 G2 :: layout and us0 pre vs :: "run_shape list" and b s :: nat
  defines "G \<equiv> G1 @ (b, (us0 @ pre) @ (s, False) # vs) # G2"
  assumes t: "tiles r m G N" and x: "x = b + run_total us0 + run_total pre"
    and N: "frees (set (place (b + run_total us0) pre)) \<subseteq> N"
    and pre: "pre = [] \<and> \<not> free_after False (us0 @ pre) \<or> (\<exists>q. pre = [(q, True)])"
  shows "\<exists>r' m'. merge_prev k (adr x) (adr n) (r, m) =
      (adr (b + run_total us0), adr (n + run_total pre), (r', m')) \<and>
    tiles r' m' G (N - frees (set (place (b + run_total us0) pre))) \<and> core_only r r' \<and> quiet (used_runs G) m m' \<and> within G m m'"
proof -
  have tG: "tiled m G" using t by (simp add: tiles_def)
  then have laid: "laid m b ((us0 @ pre) @ (s, False) # vs)" by (simp add: G_def tiled_middle)
  have pf: "prev_is_free m (adr x) = free_after False (us0 @ pre)"
    using laid_at(3)[OF laid] by (simp add: x add.assoc)
  show ?thesis
  proof (cases "pre = []")
    case True
    then show ?thesis using t pf pre by (simp add: merge_prev_def x)
  next
    case False
    then obtain q where pre: "pre = [(q, True)]" using pre by blast
    have xq: "x = b + run_total us0 + q" by (simp add: x pre)
    have y: "(b + run_total us0, q, True) \<in> runs G" by (simp add: G_def pre)
    have "prev_run m (adr x) = adr (b + run_total us0)"
      using laid_prev[of m b us0 q s False vs] laid by (simp add: pre xq)
    moreover have "adr (b + run_total us0) \<noteq> 0"
      using run_bounds(1,5)[OF tG y] adr_eq_0_iff[of "b + run_total us0"] by linarith
    moreover have "is_free m (adr (b + run_total us0))" using run_bounds(7)[OF tG y] by simp
    moreover have "b + run_total us0 \<in> N" using N by (simp add: pre)
    moreover from unlink_tiles[OF t this] obtain r1 m1 where z: "unlink_free (adr (b + run_total us0)) (r, m) = (r1, m1)"
      "tiles r1 m1 G (N - {b + run_total us0})" "core_only r r1" "quiet (used_runs G) m m1" "within G m m1"
      by blast
    moreover have "run_size m1 (adr (b + run_total us0)) = adr q"
      using run_bounds(6)[of m1 G _ q True] z(2) y by (simp add: tiles_def)
    ultimately have "merge_prev k (adr x) (adr n) (r, m) = (adr (b + run_total us0), adr (n + q),
        (count k (\<lambda>st. st\<lparr>st_coalesce_prev_count := st_coalesce_prev_count st + 1\<rparr>) r1, m1))"
      using pf by (simp add: merge_prev_def pre adr_plus Let_def)
    then show ?thesis
      using z(4,5) core_only_trans[OF z(3) core_count] tiles_count[OF z(2)] by (simp add: pre)
  qed
qed

lemma deallocate_core:
  assumes rc: "runner_core r m G" and x: "(x, s) \<in> used_runs G"
  shows "\<exists>r' m' G'. deallocate_bytes k (adr (x + 16)) (r, m) = (r', m') \<and> runner_core r' m' G' \<and>
    core_only r r' \<and> extents G' = extents G \<and> used_runs G' = used_runs G - {(x, s)} \<and>
    quiet (used_runs G - {(x, s)}) m m' \<and> (\<exists>y t. (y, t, True) \<in> runs G' \<and> y \<le> x \<and> x + s \<le> y + t) \<and>
    within G m m'"
proof -
  have t: "tiled m G" "tiles r m G (free_runs G)" using coreD[OF rc] by simp_all
  have xr: "(x, s, False) \<in> runs G" using x by (simp add: useds_def)
  note bx = run_bounds[OF t(1) xr]
  obtain G1 b us vs G2 where G0: "G = G1 @ (b, us @ (s, False) # vs) # G2" and xx0: "x = b + run_total us"
    using xr by (rule runsE)
  obtain us0 pre post vs0 where us: "us = us0 @ pre" and vs: "vs = post @ vs0"
    and pre: "pre = [] \<and> \<not> free_after False us \<or> (\<exists>q. pre = [(q, True)])"
    and post: "post = [] \<and> \<not> head_free vs \<or> (\<exists>u. post = [(u, True)])"
    by (rule neighbours)
  let ?mid = "pre @ (s, False) # post" and ?y = "b + run_total us0"
  let ?n = "run_total ?mid" and ?A = "around G1 b us0 (run_total ?mid) vs0 G2"
  have G: "G = G1 @ (b, us0 @ ?mid @ vs0) # G2" by (simp add: G0 us vs)
  have Gn: "G = G1 @ (b, (us0 @ pre) @ (s, False) # post @ vs0) # G2" by (simp add: G0 us vs)
  have xx: "x = ?y + run_total pre" by (simp add: xx0 us)
  define r0 where "r0 = count k (\<lambda>st. st\<lparr>st_live_bytes := st_live_bytes st - (adr s - sizeof_run_header)\<rparr>)
      (count k (\<lambda>st. st\<lparr>st_deallocate_calls := st_deallocate_calls st + 1\<rparr>) r)"
  have t0: "tiles r0 m G (free_runs G)" and c0: "core_only r r0"
    using t(2) core_only_trans[OF core_count core_count] by (simp_all add: r0_def)
  have laid: "laid m b (us0 @ ?mid @ vs0)" using t(1) by (simp add: G tiled_middle)
  have fa: "\<not> free_after False us0" using laid pre by (auto simp: laid_def us)
  have hf: "\<not> head_free vs0"
  proof (cases "post = []")
    case True
    then show ?thesis using post by (simp add: vs)
  next
    case False
    then obtain u where "post = [(u, True)]" using post by blast
    then show ?thesis using laid seg_free_apart[of m b False "us0 @ pre @ [(s, False)]" u vs0] by (simp add: laid_def)
  qed
  obtain r1 m1 where z1: "merge_next k (adr x) (adr s) (r0, m) = (adr (s + run_total post), (r1, m1))"
    "tiles r1 m1 G (free_runs G - frees (set (place (x + s) post)))" "core_only r0 r1" "quiet (used_runs G) m m1" "within G m m1"
    using merge_next_tiles[of r0 m G1 b "us0 @ pre" s post vs0 G2 x k, folded Gn, OF t0 _ post[unfolded vs]]
    by (auto simp: xx)
  have N: "frees (set (place ?y pre)) \<subseteq> free_runs G - frees (set (place (x + s) post))"
  proof -
    have "frees (set (place ?y pre)) \<subseteq> free_runs G" by (auto simp: G frees_def)
    moreover have "z < x" if z: "z \<in> frees (set (place ?y pre))" for z
    proof -
      obtain u where u: "(z, u, True) \<in> set (place ?y pre)" using z by (auto simp: frees_def)
      then have "(z, u, True) \<in> runs G" by (simp add: G)
      then have "48 \<le> u" by (rule run_bounds(3)[OF t(1)])
      then show ?thesis using place_bounds[OF u] by (simp add: xx)
    qed
    moreover have "x \<le> z" if "z \<in> frees (set (place (x + s) post))" for z
      using that by (fastforce simp: frees_def dest: place_bounds)
    ultimately show ?thesis by fastforce
  qed
  obtain r2 m2 where z2: "merge_prev k (adr x) (adr (s + run_total post)) (r1, m1) =
      (adr ?y, adr (s + run_total post + run_total pre), (r2, m2))"
    "tiles r2 m2 G (free_runs G - frees (set (place (x + s) post)) - frees (set (place ?y pre)))"
    "core_only r1 r2" "quiet (used_runs G) m1 m2" "within G m1 m2"
    using merge_prev_tiles[of r1 m1 G1 b us0 pre s "post @ vs0" G2 _ x k "s + run_total post", folded Gn,
        OF z1(2) xx N pre[unfolded us]] by blast
  have n: "s + run_total post + run_total pre = ?n" by simp
  have frm: "frees (set (place ?y ?mid)) = frees (set (place ?y pre)) \<union> frees (set (place (x + s) post))"
    by (simp add: xx)
  have N2: "free_runs G - frees (set (place (x + s) post)) - frees (set (place ?y pre)) = frees ?A"
    using around_sets(1)[OF t(1)[unfolded G]] unfolding frm G[symmetric] by blast
  have usets: "used_runs G - {(x, s)} = useds ?A"
  proof -
    have "useds (set (place ?y ?mid)) = {(x, s)}" using pre post by (auto simp: xx)
    then show ?thesis using around_sets(2)[OF t(1)[unfolded G]] unfolding G[symmetric] by metis
  qed
  have t2: "tiles r2 m2 G (frees ?A)" using z2(2) unfolding N2 .
  then have tm2: "tiled m2 G" by (simp add: tiles_def)
  then have laid2: "laid m2 b (us0 @ ?mid @ vs0)" by (simp add: G tiled_middle)
  have midne: "?mid \<noteq> []" by simp
  note hole = laid_hole[OF laid2 midne]
  have pfy: "prev_is_free m2 (adr ?y) = False"
  proof -
    obtain e f ms where "?mid = (e, f) # ms" by (cases ?mid) auto
    then show ?thesis using laid_at(3)[of m2 b us0 e f "ms @ vs0"] laid2 fa by simp
  qed
  let ?m3 = "mark_next (adr ?y) True (write_footer (adr ?y) (set_header (adr ?y) (adr ?n) True False m2))"
  let ?G' = "G1 @ (b, us0 @ [(?n, True)] @ vs0) # G2"
  note f = fill_free[OF hole refl fa hf]
  have n48: "48 \<le> ?n" using bx(3) by simp
  have l3: "laid ?m3 b (us0 @ [(?n, True)] @ vs0)" using f(1) by simp
  have fr3: "?m3 (adr a) = m2 (adr a)" if "a < 2 ^ 64" "a < ?y \<or> ?y + ?n < a" for a
    using that n48 by (intro f(2)) auto
  have tot: "run_total [(?n, True)] = ?n" by simp
  note rt = retag_tiles[OF t2[unfolded G] subset_refl hf l3 tot refl fr3]
  have fr': "free_runs ?G' = insert ?y (frees ?A)" "used_runs ?G' = useds ?A"
    unfolding runs_around tot by simp_all
  have ynot: "?y \<notin> frees ?A"
  proof
    assume "?y \<in> frees ?A"
    then obtain u where u: "(?y, u, True) \<in> ?A" by (auto simp: frees_def)
    then have "(?y, u, True) \<in> runs G" unfolding G runs_around by simp
    then have "48 \<le> u" by (rule run_bounds(3)[OF t(1)])
    then show False using around_apart(1)[OF t(1)[unfolded G] u] n48 by auto
  qed
  have yin: "?y \<in> free_runs ?G'" unfolding fr'(1) by (rule insertI1)
  from link_tiles[OF rt(1) yin ynot] obtain r4 m4 where l: "link_free (adr ?y) (r2, ?m3) = (r4, m4)"
    "tiles r4 m4 ?G' (free_runs ?G')" "core_only r2 r4" "quiet (used_runs ?G') ?m3 m4" "within ?G' ?m3 m4"
    unfolding fr'(1) by blast
  have eq: "deallocate_bytes k (adr (x + 16)) (r, m) = (r4, m4)"
    using l(1)[unfolded mark_next_def Let_def]
    by (simp only: deallocate_bytes_def prod.case Let_def header_payload bx(6) r0_def[symmetric] z1(1)
        z2(1)[unfolded n] pfy if_not_P[OF payload_nonnull[OF t(1) xr]])
  have core: "core_only r r4"
    using core_only_trans[OF core_only_trans[OF core_only_trans[OF c0 z1(3)] z2(3)] l(3)] .
  have q: "quiet (useds ?A) m m4"
  proof -
    have "quiet (useds ?A) m m1" "quiet (useds ?A) m1 m2" using z1(4) z2(4) usets by (auto intro: quiet_mono)
    moreover have "quiet (useds ?A) m2 ?m3" by (rule rt(2))
    moreover have "quiet (useds ?A) ?m3 m4" using l(4) fr'(2) by simp
    ultimately show ?thesis using quiet_trans by blast
  qed
  have "runner_core r4 m4 ?G'"
  proof -
    have "m4 (adr (y + 8)) = rn_self r" if y: "(y, u) \<in> useds ?A" for y u
    proof -
      have yG: "(y, u) \<in> used_runs G" using y usets by blast
      then have "48 \<le> u" using used_sizes[OF t(1)] by blast
      then show ?thesis using quietD[OF q y, of "y + 8"] coreD(3)[OF rc yG] by simp
    qed
    then show ?thesis using l(2) core_only_fields(1)[OF core] unfolding runner_core_def fr'(2) by auto
  qed
  moreover have ext: "extents ?G' = extents G" unfolding G by (rule extents_middle) simp
  moreover have "within G m m4"
    using within_trans[OF within_trans[OF within_trans[OF z1(5) z2(5)] rt(3)[folded G]] l(5)[unfolded within_cong[OF ext]]] .
  moreover have "(?y, ?n, True) \<in> runs ?G'" by simp
  moreover have "?y \<le> x" "x + s \<le> ?y + ?n" by (simp_all add: xx)
  ultimately show ?thesis using eq core q fr'(2) unfolding usets by metis
qed

end
