(* ===== verification/Runner_State.thy ===== *)
theory Runner_State
  imports Runner_Ops Memory_Lists
begin

text \<open>
  The whole runner: its runs, the stack of payloads parked by other threads, and the regions its
  chunks live in.  Draining, adding a chunk and growing keep the invariant and leave the blocks
  that are lent, and what is in them, alone.
\<close>

section \<open>The invariant\<close>

text \<open>The payloads on the remote stack are used runs that their clients have given up.\<close>

definition parked_ok :: "runner \<Rightarrow> memory \<Rightarrow> layout \<Rightarrow> nat list \<Rightarrow> bool" where
  "parked_ok r m G rl \<longleftrightarrow> slist m (rn_remote r) rl \<and> distinct rl \<and> set rl \<subseteq> (\<lambda>(x, s). x + 16) ` used_runs G"

definition runner_stack :: "runner_mem \<Rightarrow> nat list \<Rightarrow> bool" where
  "runner_stack s xs \<longleftrightarrow> slist (snd s) (rn_remote (fst s)) xs"

interpretation runner_list: parking runner_remote_push runner_stack runner_take_remote snd
  by unfold_locales
    (auto simp: runner_stack_def runner_remote_push_def runner_take_remote_def
      split: prod.splits dest: slist_unique)

definition owned_alignment :: "run_cfg \<Rightarrow> u64" where
  "owned_alignment k = (if rg_huge k = Huge_enabled then explicit_huge_page_bytes else run_alignment)"

text \<open>
  An owned chunk is a whole region, and its node another one; the memory of an external chunk lies
  in a region that belongs to the caller.
\<close>

definition chunk_backed :: "run_cfg \<Rightarrow> world \<Rightarrow> chunk_node \<Rightarrow> bool" where
  "chunk_backed k w c \<longleftrightarrow>
     (if cn_mapping_base c = nullptr
      then \<exists>reg \<in> set (live w). unat (r_base reg) \<le> unat (cn_begin c) \<and>
             unat (cn_begin c) + unat (cn_bytes c) \<le> region_end reg
      else cn_begin c = cn_mapping_base c \<and> cn_bytes c = cn_mapping_bytes c \<and>
           \<lparr>r_base = cn_mapping_base c, r_bytes = cn_mapping_bytes c, r_align = owned_alignment k\<rparr> \<in> set (live w) \<and>
           \<lparr>r_base = cn_node c, r_bytes = sizeof_chunk_node, r_align = alignof_max_align\<rparr> \<in> set (live w))"

definition node_bases :: "chunk_node \<Rightarrow> ptr list" where
  "node_bases c = (if cn_mapping_base c = nullptr then [] else [cn_mapping_base c, cn_node c])"

definition owned_bases :: "runner \<Rightarrow> ptr list" where
  "owned_bases r = concat (map node_bases (rn_chunks r))"

definition chunks_match :: "runner \<Rightarrow> layout \<Rightarrow> bool" where
  "chunks_match r G \<longleftrightarrow> map (\<lambda>c. (unat (cn_begin c), unat (cn_bytes c))) (rn_chunks r) =
     map (\<lambda>(b, n). (b, n + 16)) (extents G)"

definition runner_inv :: "run_cfg \<Rightarrow> runner \<Rightarrow> world \<Rightarrow> layout \<Rightarrow> nat list \<Rightarrow> bool" where
  "runner_inv k r w G rl \<longleftrightarrow>
     runner_core r (cells w) G \<and> parked_ok r (cells w) G rl \<and> chunks_match r G \<and>
     world_ok w \<and> (\<forall>c \<in> set (rn_chunks r). chunk_backed k w c) \<and> distinct (owned_bases r) \<and>
     has_single_bit (rn_page_size r) \<and> 16 \<le> unat (rn_page_size r)"

text \<open>The blocks that are lent, with the sizes of their runs.\<close>

definition lent_runs :: "layout \<Rightarrow> nat list \<Rightarrow> (nat \<times> nat) set" where
  "lent_runs G rl = {(x, s) \<in> used_runs G. x + 16 \<notin> set rl}"

lemma runner_inv_tiled: "runner_inv k r w G rl \<Longrightarrow> tiled (cells w) G"
  using coreD(1) by (auto simp: runner_inv_def)

lemma owns_run_exact:
  assumes inv: "runner_inv k r w G rl"
  shows "owns_run r p \<longleftrightarrow> (\<exists>(b, rs) \<in> set G. b \<le> unat p \<and> unat p < b + run_total rs + 16)"
proof -
  note t = runner_inv_tiled[OF inv]
  have m: "map (\<lambda>c. (unat (cn_begin c), unat (cn_bytes c))) (rn_chunks r) = map (\<lambda>(b, rs). (b, run_total rs + 16)) G"
    using inv by (simp add: runner_inv_def chunks_match_def extents_def comp_def split_def)
  have lim: "0 < b \<and> b + run_total rs + 16 < 2 ^ 64" if "(b, rs) \<in> set G" for b rs
    using t that by (auto simp: tiled_def laid_def)
  have "owns_run r p \<longleftrightarrow> p \<noteq> nullptr \<and> (\<exists>c \<in> set (rn_chunks r). cn_begin c \<le> p \<and> p < cn_begin c + cn_bytes c)"
    by (simp add: owns_run_def list_ex_iff)
  also have "\<dots> \<longleftrightarrow> (\<exists>(b, n) \<in> set (map (\<lambda>c. (unat (cn_begin c), unat (cn_bytes c))) (rn_chunks r)).
      b \<le> unat p \<and> unat p < b + n)"
  proof -
    have *: "p \<noteq> nullptr \<and> cn_begin c \<le> p \<and> p < cn_begin c + cn_bytes c \<longleftrightarrow>
        unat (cn_begin c) \<le> unat p \<and> unat p < unat (cn_begin c) + unat (cn_bytes c)"
      if c: "c \<in> set (rn_chunks r)" for c
    proof -
      have "(unat (cn_begin c), unat (cn_bytes c)) \<in> set (map (\<lambda>(b, rs). (b, run_total rs + 16)) G)"
        unfolding m[symmetric] using c by force
      then have "0 < unat (cn_begin c)" "unat (cn_begin c) + unat (cn_bytes c) < 2 ^ 64" using lim by force+
      then show ?thesis
        by (auto simp: word_le_nat_alt word_less_nat_alt unat_plus_le)
    qed
    have "p \<noteq> nullptr \<and> (\<exists>c \<in> set (rn_chunks r). cn_begin c \<le> p \<and> p < cn_begin c + cn_bytes c) \<longleftrightarrow>
        (\<exists>c \<in> set (rn_chunks r). p \<noteq> nullptr \<and> cn_begin c \<le> p \<and> p < cn_begin c + cn_bytes c)" by blast
    also have "\<dots> \<longleftrightarrow> (\<exists>c \<in> set (rn_chunks r). unat (cn_begin c) \<le> unat p \<and>
        unat p < unat (cn_begin c) + unat (cn_bytes c))" using * by (rule bex_cong[OF refl])
    finally show ?thesis by simp
  qed
  also have "\<dots> \<longleftrightarrow> (\<exists>(b, rs) \<in> set G. b \<le> unat p \<and> unat p < b + run_total rs + 16)"
    unfolding m by (simp add: case_prod_beta add.assoc)
  finally show ?thesis .
qed

text \<open>The addresses a runner owns are those of its chunks.\<close>

definition runner_area :: "runner \<Rightarrow> nat set" where
  "runner_area r = {a. a < 2 ^ 64 \<and> owns_run r (adr a)}"

lemma runner_area_iff:
  assumes "runner_inv k r w G rl" "a < 2 ^ 64"
  shows "a \<in> runner_area r \<longleftrightarrow> \<not> clear_at G a"
proof -
  have "owns_run r (adr a) \<longleftrightarrow> (\<exists>c \<in> set G. fst c \<le> a \<and> a < fst c + run_total (snd c) + 16)"
    using owns_run_exact[OF assms(1), of "adr a"] assms(2) by (simp add: unat_adr case_prod_beta)
  then show ?thesis using assms(2) by (simp add: runner_area_def clear_at_def chunk_extent_def not_le not_less)
qed

lemma runner_area_chunks: "rn_chunks r' = rn_chunks r \<Longrightarrow> runner_area r' = runner_area r"
  by (simp add: runner_area_def owns_run_def)

lemma runner_area_simps [simp]:
  "runner_area (r\<lparr>rn_next_growth := g\<rparr>) = runner_area r" "runner_area (r\<lparr>rn_deferred_bytes := d\<rparr>) = runner_area r"
  "runner_area (r\<lparr>rn_remote := p\<rparr>) = runner_area r"
  by (rule runner_area_chunks, simp)+

lemma within_confined:
  assumes "runner_inv k r w G rl" "within G (cells w) m'" "rn_chunks r' = rn_chunks r"
  shows "confined (runner_area r) w (runner_area r') (w\<lparr>cells := m'\<rparr>)"
  unfolding runner_area_chunks[OF assms(3)]
  using assms(2) runner_area_iff[OF assms(1)] by (intro confined_cells) (auto simp: within_def)

text \<open>
  What a step takes from the system it records among the regions of the runner; and where nothing is
  parked, or no chunk is deferred, that stays so.
\<close>

definition acquires :: "runner \<Rightarrow> world \<Rightarrow> runner \<Rightarrow> world \<Rightarrow> bool" where
  "acquires r w r' w' \<longleftrightarrow>
     (\<exists>new. live w' = new @ live w \<and> owned_bases r' = map r_base new @ owned_bases r) \<and>
     (rn_remote r = nullptr \<longrightarrow> rn_remote r' = nullptr) \<and>
     (rn_deferred_bytes r = 0 \<longrightarrow> rn_deferred_bytes r' = 0)"

lemma acquires_same:
  "rn_chunks r' = rn_chunks r \<Longrightarrow> live w' = live w \<Longrightarrow> rn_remote r' = rn_remote r \<or> rn_remote r' = nullptr \<Longrightarrow>
     rn_deferred_bytes r' = rn_deferred_bytes r \<Longrightarrow> acquires r w r' w'"
  by (auto simp: acquires_def owned_bases_def)

lemma acquires_refl [simp]: "acquires r w r w"
  by (rule acquires_same) simp_all

lemma acquires_trans: "acquires r w r1 w1 \<Longrightarrow> acquires r1 w1 r2 w2 \<Longrightarrow> acquires r w r2 w2"
  by (auto simp: acquires_def)

text \<open>A step of the runner on its own account: the lent blocks and their contents stay.\<close>

definition housekeeping :: "run_cfg \<Rightarrow> layout \<Rightarrow> nat list \<Rightarrow> runner \<Rightarrow> world \<Rightarrow> layout \<Rightarrow> nat list \<Rightarrow> runner \<Rightarrow> world \<Rightarrow> bool" where
  "housekeeping k G rl r w G' rl' r' w' \<longleftrightarrow> runner_inv k r' w' G' rl' \<and> lent_runs G' rl' = lent_runs G rl \<and>
     quiet (lent_runs G rl) (cells w) (cells w') \<and> rn_self r' = rn_self r \<and>
     confined (runner_area r) w (runner_area r') w' \<and> acquires r w r' w'"

lemma housekeeping_trans:
  "housekeeping k G rl r w G1 rl1 r1 w1 \<Longrightarrow> housekeeping k G1 rl1 r1 w1 G2 rl2 r2 w2 \<Longrightarrow>
     housekeeping k G rl r w G2 rl2 r2 w2"
  by (auto simp: housekeeping_def intro: quiet_trans confined_trans acquires_trans)

lemma housekeeping_refl: "runner_inv k r w G rl \<Longrightarrow> housekeeping k G rl r w G rl r w"
  by (simp add: housekeeping_def)

lemma lent_sub: "lent_runs G rl \<subseteq> used_runs G"
  by (auto simp: lent_runs_def)

lemma used_unique: "tiled m G \<Longrightarrow> (x, s) \<in> used_runs G \<Longrightarrow> (x, t) \<in> used_runs G \<Longrightarrow> s = t"
  using runs_apart[of m G x s False x t False] run_bounds(3)[of m G x s False] run_bounds(3)[of m G x t False]
  by (auto simp: useds_def)

lemma used_range: "tiled m G \<Longrightarrow> (x, s) \<in> used_runs G \<Longrightarrow> 16 \<le> x \<and> 48 \<le> s \<and> x + s + 16 < 2 ^ 64"
  using run_bounds[of m G x s False] by (auto simp: useds_def)

text \<open>The parts of the invariant that do not mention the runs.\<close>

lemma runner_inv_core:
  assumes "runner_inv k r w G rl" "core_only r r'" "runner_core r' m' G'" "extents G' = extents G"
    and "parked_ok r' m' G' rl'"
  shows "runner_inv k r' (w\<lparr>cells := m'\<rparr>) G' rl'"
  using assms core_only_fields[OF assms(2)]
  by (simp add: runner_inv_def chunks_match_def owned_bases_def world_ok_def chunk_backed_def)

lemma parked_quiet:
  assumes "parked_ok r m G rl" "tiled m G" "quiet U m m'" "U \<subseteq> used_runs G"
    and "set rl \<subseteq> (\<lambda>(x, s). x + 16) ` U" "rn_remote r' = rn_remote r" "U \<subseteq> used_runs G'"
  shows "parked_ok r' m' G' rl"
proof -
  have "m' (adr p) = m (adr p)" if p: "p \<in> set rl" for p
  proof -
    obtain x s where x: "(x, s) \<in> U" "p = x + 16" using assms(5) p by auto
    then have "48 \<le> s" using used_range[OF assms(2)] assms(4) by blast
    then show ?thesis using quietD[OF assms(3) x(1), of p] x(2) by simp
  qed
  then have "slist m' (rn_remote r) rl = slist m (rn_remote r) rl" by (rule slist_cong)
  then show ?thesis
    using assms(1,6) subset_trans[OF assms(5) image_mono[OF assms(7)]] by (simp add: parked_ok_def)
qed

section \<open>Draining the remote stack\<close>

lemma runner_drain_loop_core:
  assumes "runner_core r m G" "slist m p rl" "distinct rl" "set rl \<subseteq> (\<lambda>(x, s). x + 16) ` used_runs G"
  shows "\<exists>r' m' G'. runner_drain_loop k p (r, m) = Some (r', m') \<and> runner_core r' m' G' \<and> core_only r r' \<and>
    extents G' = extents G \<and> used_runs G' = lent_runs G rl \<and> quiet (lent_runs G rl) m m' \<and> within G m m'"
  using assms
proof (induction rl arbitrary: r m G p)
  case Nil
  then show ?case by (subst runner_drain_loop.simps) (auto simp: lent_runs_def)
next
  case (Cons q rl)
  have p: "p = adr q" "0 < q" "q < 2 ^ 64" and rest: "slist m (m (adr q)) rl" using Cons.prems(2) by simp_all
  have t: "tiled m G" using coreD(1)[OF Cons.prems(1)] .
  obtain x s where x: "(x, s) \<in> used_runs G" "q = x + 16" using Cons.prems(4) by auto
  obtain r1 m1 G1 where d: "deallocate_bytes k (adr (x + 16)) (r, m) = (r1, m1)" "runner_core r1 m1 G1"
    "core_only r r1" "extents G1 = extents G" "used_runs G1 = used_runs G - {(x, s)}"
    "quiet (used_runs G - {(x, s)}) m m1" "within G m m1"
    using deallocate_core[OF Cons.prems(1) x(1)] by blast
  have sub: "set rl \<subseteq> (\<lambda>(x, s). x + 16) ` used_runs G1"
    using Cons.prems(3,4) x(2) unfolding d(5) by fastforce
  have "m1 (adr y) = m (adr y)" if y: "y \<in> set rl" for y
  proof -
    obtain z u where z: "(z, u) \<in> used_runs G1" "y = z + 16" using sub y by auto
    then have "48 \<le> u" using used_range[OF t] d(5) by blast
    then show ?thesis using quietD[OF d(6), of z u y] z d(5) by simp
  qed
  then have sl: "slist m1 (m (adr q)) rl" using rest slist_cong[of rl m1 m] by simp
  have dl: "distinct rl" using Cons.prems(3) by simp
  obtain r2 m2 G2 where i: "runner_drain_loop k (m (adr q)) (r1, m1) = Some (r2, m2)" "runner_core r2 m2 G2"
    "core_only r1 r2" "extents G2 = extents G1" "used_runs G2 = lent_runs G1 rl" "quiet (lent_runs G1 rl) m1 m2"
    "within G1 m1 m2"
    using Cons.IH[OF d(2) sl dl sub] by blast
  have l: "lent_runs G1 rl = lent_runs G (q # rl)"
    using used_unique[OF t x(1)] unfolding lent_runs_def d(5) x(2) by auto
  have "adr q \<noteq> 0" using p by (simp add: adr_eq_0_iff)
  then have "runner_drain_loop k p (r, m) = Some (r2, m2)"
    using i(1) d(1) by (subst runner_drain_loop.simps) (simp add: p(1) x(2) Let_def)
  moreover have "quiet (lent_runs G1 rl) m m2"
    using quiet_trans[OF quiet_mono[OF d(6)] i(6)] lent_sub[of G1 rl] unfolding d(5) by blast
  moreover have "within G m m2" using within_trans[OF d(7) i(7)[unfolded within_cong[OF d(4)]]] .
  ultimately show ?case using i d(4) core_only_trans[OF d(3) i(3)] l by auto
qed

lemma runner_drain_housekeeping:
  assumes inv: "runner_inv k r w G rl"
  shows "\<exists>r' m' G'. runner_drain_remote k (r, cells w) = Some (rl \<noteq> [], (r', m')) \<and>
    housekeeping k G rl r w G' [] r' (w\<lparr>cells := m'\<rparr>) \<and>
    (rl = [] \<longrightarrow> r' = r \<and> m' = cells w \<and> G' = G) \<and> rn_deferred_bytes r' = rn_deferred_bytes r \<and>
    rn_next_growth r' = rn_next_growth r \<and> rn_page_size r' = rn_page_size r"
proof -
  have rc: "runner_core r (cells w) G" and pk: "parked_ok r (cells w) G rl" using inv by (simp_all add: runner_inv_def)
  show ?thesis
  proof (cases "rl = []")
    case True
    then have "rn_remote r = 0" using pk by (simp add: parked_ok_def)
    then have same: "r\<lparr>rn_remote := 0\<rparr> = r" by simp
    show ?thesis
      using True \<open>rn_remote r = 0\<close> housekeeping_refl[OF inv]
      by (simp add: runner_drain_remote_def runner_take_remote_def same)
  next
    case False
    let ?r0 = "r\<lparr>rn_remote := 0\<rparr>"
    have sl: "slist (cells w) (rn_remote r) rl" "distinct rl" "set rl \<subseteq> (\<lambda>(x, s). x + 16) ` used_runs G"
      using pk by (simp_all add: parked_ok_def)
    have nz: "rn_remote r \<noteq> 0" using sl(1) False by (cases rl) (auto simp: adr_eq_0_iff)
    have rc0: "runner_core ?r0 (cells w) G"
      using rc by (auto simp: runner_core_def tiles_def intro: binned_cong)
    obtain r' m' G' where d: "runner_drain_loop k (rn_remote r) (?r0, cells w) = Some (r', m')" "runner_core r' m' G'"
      "core_only ?r0 r'" "extents G' = extents G" "used_runs G' = lent_runs G rl" "quiet (lent_runs G rl) (cells w) m'"
      "within G (cells w) m'"
      using runner_drain_loop_core[OF rc0 sl] by blast
    have "runner_inv k ?r0 w G []"
      using inv rc0 by (simp add: runner_inv_def parked_ok_def chunks_match_def owned_bases_def)
    moreover have "parked_ok r' m' G' []" using core_only_fields(3)[OF d(3)] by (simp add: parked_ok_def)
    ultimately have "runner_inv k r' (w\<lparr>cells := m'\<rparr>) G' []" using runner_inv_core d(2,3,4) by blast
    moreover have "lent_runs G' [] = lent_runs G rl" using d(5) by (simp add: lent_runs_def)
    moreover have "confined (runner_area r) w (runner_area r') (w\<lparr>cells := m'\<rparr>)"
      by (rule within_confined[OF inv d(7)]) (use core_only_fields(2)[OF d(3)] in simp)
    moreover have "acquires r w r' (w\<lparr>cells := m'\<rparr>)"
      by (rule acquires_same) (use core_only_fields(2-4)[OF d(3)] in simp_all)
    ultimately show ?thesis
      using False nz d core_only_fields(1,4-6)[OF d(3)]
      by (auto simp: runner_drain_remote_def runner_take_remote_def housekeeping_def)
  qed
qed

section \<open>A new chunk\<close>

text \<open>A new chunk is one free run, laid out in memory that no chunk of the runner touches.\<close>

lemma clear_runs:
  assumes "\<forall>c' \<in> set G. clear_of c c'" "(y, t, g) \<in> runs G"
  shows "y + t + 16 \<le> fst c \<or> chunk_extent c \<le> y"
proof -
  obtain d rs where d: "(d, rs) \<in> set G" "(y, t, g) \<in> set (place d rs)"
    using assms(2) unfolding runs_def by blast
  then have "clear_of c (d, rs)" using assms(1) by blast
  then show ?thesis using place_in_chunk[OF d(2)] by (auto simp: clear_of_def chunk_extent_def)
qed

lemma clear_layout:
  assumes "tiled m G" "\<forall>c' \<in> set G. clear_of c c'" "a \<in> layout_cells G"
  shows "a < fst c \<or> chunk_extent c \<le> a"
  using assms(3)
proof (cases rule: layout_cellE)
  case (tag q)
  obtain y u g where q: "q = (y, u, g)" by (cases q)
  have "48 \<le> u" using run_bounds(3)[OF assms(1)] tag(1) by (simp add: q)
  then show ?thesis using tag clear_runs[OF assms(2), of y u g] by (auto simp: q tag_cells_def split: if_splits)
next
  case (close d rs)
  then have "clear_of c (d, rs)" using assms(2) by blast
  then show ?thesis using close(2) by (auto simp: clear_of_def chunk_extent_def)
qed

lemma initialize_core:
  fixes b n :: nat
  defines "c \<equiv> (b, [(n, True)])"
  assumes rc: "runner_core r m G" and clear: "\<forall>c' \<in> set G. clear_of c c'"
    and b: "0 < b" "16 dvd b" and n: "48 \<le> n" "16 dvd n" "b + n + 16 < 2 ^ 64"
  shows "\<exists>r' m'. initialize_free_run (adr b) (adr (n + 16)) (r, m) = (r', m') \<and> runner_core r' m' (c # G) \<and>
    core_only r r' \<and> quiet (used_runs G) m m' \<and> within (c # G) m m'"
proof -
  have t: "tiled m G" "tiles r m G (free_runs G)" using coreD[OF rc] by simp_all
  then have bin: "binned r m (free_runs G)" by (simp add: tiles_def)
  let ?N = "free_runs G"
  have ext: "chunk_extent c = b + n + 16" by (simp add: c_def chunk_extent_def)
  have n4: "4 dvd n" "n < 2 ^ 64" using n by (auto elim: dvd_trans[rotated])
  define m2 where "m2 = m(adr b := pack (adr n) True False, adr (b + n - 8) := adr n)"
  have wr: "write_footer (adr b) (set_header (adr b) (adr n) True False m) = m2"
    using footer_adr[of "set_header (adr b) (adr n) True False m" b n True False] n
    by (simp add: m2_def set_header_def)
  have far: "y + 48 \<le> b \<or> b + n + 16 \<le> y" if y: "y \<in> ?N" for y
  proof -
    obtain u where "(y, u, True) \<in> runs G" using y by (auto simp: frees_def)
    then show ?thesis using clear_runs[OF clear] run_bounds(3)[OF t(1)] unfolding ext by (fastforce simp: c_def)
  qed
  have spN: "spaced ?N" using runs_spaced[OF t(1) subset_refl] .
  have bN: "b \<notin> ?N" using far n(1) by fastforce
  have "y + 48 \<le> b \<or> b + 48 \<le> y" if "y \<in> ?N" for y using far[OF that] n(1) by linarith
  then have sp: "spaced (insert b ?N)"
    using spN b n unfolding spaced_def by auto
  have m2o: "m2 (adr a) = m (adr a)" if "a < 2 ^ 64" "a < b \<or> b + n \<le> a" for a
    using that n by (auto simp: m2_def adr_eq_iff)
  have m2b: "m2 (adr b) = pack (adr n) True False" using n by (auto simp: m2_def adr_eq_iff)
  have bin2: "binned r m2 ?N"
  proof (rule binned_cong[OF bin refl refl])
    fix y assume "y \<in> ?N"
    then show "m2 (adr y) = m (adr y)" using far[of y] spaced_pos[OF spN, of y] by (intro m2o) auto
  next
    fix a assume "a \<in> link_cells ?N"
    then obtain y where "y \<in> ?N" "a = y + 16 \<or> a = y + 24" by (auto simp: link_cells_iff)
    then show "m2 (adr a) = m (adr a)" using far[of y] spaced_pos[OF spN, of y] by (intro m2o) auto
  qed
  have so: "size_ok m2 b"
  proof -
    have "run_size m2 (adr b) = adr n" using pack_props(1)[OF n4] by (simp add: run_size_def m2b)
    moreover have "8 dvd n" using n(2) by (rule dvd_trans[rotated]) simp
    ultimately show ?thesis using n(3) by (simp add: size_ok_def unat_adr)
  qed
  obtain r3 m3 where l: "link_free (adr b) (r, m2) = (r3, m3)" "binned r3 m3 (insert b ?N)" "bins_only r r3"
    "link_frame (insert b ?N) m2 m3"
    using link_free_binned[OF bin2 bN sp so] by blast
  define m4 where "m4 = m3(adr (b + n) := pack 0 False True, adr (b + n + 8) := 0)"
  have "adr (n + 16) - epilogue_size = adr n" "adr b + adr n = adr (b + n)" "owner_ptr (adr (b + n)) = adr (b + n + 8)"
    by (simp_all add: run_constants adr_minus_numeral adr_plus owner_ptr_def adr_plus_numeral)
  then have eq: "initialize_free_run (adr b) (adr (n + 16)) (r, m) = (r3, m4)"
    by (simp add: initialize_free_run_def Let_def wr l(1) m4_def) (simp add: set_header_def)
  have m4o: "m4 (adr a) = m3 (adr a)" if "a < 2 ^ 64" "a < b + n \<or> b + n + 16 \<le> a" for a
    using that n by (auto simp: m4_def adr_eq_iff)
  have cell: "m3 (adr a) = m2 (adr a)" if "a < 2 ^ 64" "a \<notin> link_cells (insert b ?N)" for a
    using l(4) that by (simp add: link_frame_def)
  have links: "a \<notin> link_cells (insert b ?N)" if "a = b \<or> a = b + n - 8" for a
    using that n(1) far by (fastforce simp: link_cells_iff)
  have laid: "laid m4 b [(n, True)]"
  proof -
    have "m4 (adr b) = pack (adr n) True False" using m4o[of b] cell[of b] links m2b n by simp
    moreover have "m4 (adr (b + n - 8)) = adr n"
      using m4o[of "b + n - 8"] cell[of "b + n - 8"] links n by (simp add: m2_def)
    moreover have "m4 (adr (b + n)) = epilogue_word"
      using n by (simp add: m4_def epilogue_word_def adr_eq_iff)
    ultimately show ?thesis using b n by (simp add: laid_def)
  qed
  have keep: "m4 (adr a) = m (adr a)" if "a < 2 ^ 64" "a < b \<or> b + n + 16 \<le> a" "a \<notin> link_cells ?N" for a
  proof -
    have "a \<notin> link_cells (insert b ?N)" using that(2,3) n(1) by (auto simp: link_cells_iff)
    then show ?thesis using m4o[of a] cell[of a] m2o[of a] that by auto
  qed
  have tG: "tiled m4 G"
  proof (rule tiled_cong[OF t(1)])
    fix a assume a: "a \<in> layout_cells G"
    have "a < b \<or> b + n + 16 \<le> a" using clear_layout[OF t(1) clear a] unfolding ext by (simp add: c_def)
    moreover have "a \<notin> link_cells ?N"
      using links_inside[OF t(1) subset_refl, of a] inside_layout[OF t(1)] a by blast
    ultimately show "m4 (adr a) = m (adr a)" using keep layout_cells_small[OF t(1) a] by blast
  qed
  have tc: "tiled m4 (c # G)" using tG laid clear tiled_middle[of m4 "[]" c G] by (simp add: c_def)
  have "binned r3 m4 (insert b ?N)"
  proof (rule binned_cong[OF l(2) refl refl])
    fix y assume "y \<in> insert b ?N"
    then show "m4 (adr y) = m3 (adr y)" using far[of y] spaced_pos[OF sp, of y] n by (intro m4o) auto
  next
    fix a assume "a \<in> link_cells (insert b ?N)"
    then obtain y where "y \<in> insert b ?N" "a = y + 16 \<or> a = y + 24" by (auto simp: link_cells_iff)
    then show "m4 (adr a) = m3 (adr a)" using far[of y] spaced_pos[OF sp, of y] n by (intro m4o) auto
  qed
  then have ti: "tiles r3 m4 (c # G) (free_runs (c # G))" using tc by (simp add: tiles_def c_def)
  have q: "quiet (used_runs G) m m4"
  proof (rule quietI)
    fix y u a assume y: "(y, u) \<in> used_runs G" "y + 8 \<le> a" "a < y + u"
    have "(y, u, False) \<in> runs G" using y(1) by (simp add: useds_def)
    then have "a < b \<or> b + n + 16 \<le> a" using clear_runs[OF clear] y unfolding ext by (fastforce simp: c_def)
    moreover have "a \<notin> link_cells ?N" using used_links[OF t(1) subset_refl y(1)] y(2,3) by simp
    moreover have "a < 2 ^ 64" using used_range[OF t(1) y(1)] y(3) by simp
    ultimately show "m4 (adr a) = m (adr a)" using keep by blast
  qed
  have core: "core_only r r3" using l(3) by (rule bins_core)
  have us: "used_runs (c # G) = used_runs G" by (simp add: c_def)
  have "m4 (adr (y + 8)) = rn_self r" if y: "(y, u) \<in> used_runs G" for y u
    using quietD[OF q y, of "y + 8"] coreD(3)[OF rc y] used_range[OF t(1) y] by simp
  then have "runner_core r3 m4 (c # G)"
    using ti core_only_fields(1)[OF core] unfolding runner_core_def us by auto
  moreover have "within (c # G) m m4"
  proof (rule withinI)
    fix a assume a: "a < 2 ^ 64" "clear_at (c # G) a"
    then have "a < b \<or> b + n + 16 \<le> a" "clear_at G a" using ext by (auto simp: clear_at_def c_def)
    moreover have "a \<notin> link_cells ?N"
    proof
      assume "a \<in> link_cells ?N"
      then obtain x s where x: "(x, s, True) \<in> runs G" "a \<in> inside (x, s, True)"
        using links_inside[OF t(1) subset_refl] by blast
      show False using clear_at_run[OF \<open>clear_at G a\<close> x(1)] x(2) by (auto simp: inside_def)
    qed
    ultimately show "m4 (adr a) = m (adr a)" using keep a(1) by blast
  qed
  ultimately show ?thesis using eq core q by blast
qed

lemma nat_round_up_id: "m dvd v \<Longrightarrow> nat_round_up v m = v"
  by (simp add: nat_round_up_def)

lemma owned_chunk_bytes:
  assumes "has_single_bit (rn_page_size r)" "16 \<le> unat (rn_page_size r)"
    and "owned_chunk_bytes_for k r bytes = Inr c"
  shows "16 dvd unat c" and "64 \<le> unat c" and "unat bytes \<le> unat c"
    and "rg_huge k = Huge_enabled \<Longrightarrow> 2097152 dvd unat c"
proof -
  let ?g = "owned_chunk_granularity k r"
  have "checked_round_to_multiple_of (max bytes min_chunk_bytes) ?g = Some c"
    using assms(3) by (simp add: owned_chunk_bytes_for_def split: option.splits)
  note c = checked_round_SomeD(3,4)[OF this]
  have "has_single_bit ?g \<and> 16 \<le> ?g"
    using assms(1,2) has_single_bit_huge
    by (simp add: owned_chunk_granularity_def word_le_nat_alt huge_page_bytes_nat)
  then have "unat (16 :: u64) dvd unat ?g" using single_bit_dvd[OF has_single_bit_16] by blast
  then show "16 dvd unat c" using c(1) by (simp add: dvd_trans)
  have "max (unat bytes) 64 \<le> unat c" using c(2) by (simp add: word_le_nat_alt unat_max run_constants)
  then show "64 \<le> unat c" "unat bytes \<le> unat c" by simp_all
  show "rg_huge k = Huge_enabled \<Longrightarrow> 2097152 dvd unat c"
    using c(1) by (simp add: owned_chunk_granularity_def huge_page_bytes_nat)
qed

lemma later_allocate: "later sys w (snd (allocate_owned_memory sys h bytes al w))"
proof -
  have "later sys w w'" if "op_new sys bytes al w = (p, w')" for p w'
    using later.requested[OF later.now, where sys = sys and w = w and bytes = bytes and al = al] that by simp
  moreover have "later sys w w'" if "sys_map_huge sys n a w = (p, w')" for n a p w'
    using later.mapped[OF later.now, where sys = sys and w = w and bytes = n and al = a] that by simp
  ultimately show ?thesis
    by (auto simp: allocate_owned_memory_def intro: later.now split: option.splits prod.splits)
qed

lemma later_cells: "later sys w w' \<Longrightarrow> later sys w (w'\<lparr>cells := m\<rparr>)"
  by (rule later.written)

text \<open>The invariant only depends on the cells and the regions that are out.\<close>

lemma runner_inv_world:
  "runner_inv k r w G rl \<Longrightarrow> cells w' = cells w \<Longrightarrow> live w' = live w \<Longrightarrow> runner_inv k r w' G rl"
  by (simp add: runner_inv_def world_ok_def chunk_backed_def)

lemma chunk_in_region:
  assumes "runner_inv k r w G rl" "(d, rs) \<in> set G"
  shows "\<exists>reg \<in> set (live w). unat (r_base reg) \<le> d \<and> d + run_total rs + 16 \<le> region_end reg"
proof -
  have "(d, run_total rs + 16) \<in> set (map (\<lambda>(b, n). (b, n + 16)) (extents G))"
    using assms(2) by (force simp: extents_def)
  then have "(d, run_total rs + 16) \<in> set (map (\<lambda>c. (unat (cn_begin c), unat (cn_bytes c))) (rn_chunks r))"
    using assms(1) by (simp add: runner_inv_def chunks_match_def)
  then obtain c where c: "c \<in> set (rn_chunks r)" "unat (cn_begin c) = d" "unat (cn_bytes c) = run_total rs + 16"
    by auto
  then have "chunk_backed k w c" using assms(1) by (simp add: runner_inv_def)
  then show ?thesis using c(2,3) by (force simp: chunk_backed_def region_end_def split: if_splits)
qed

lemma fresh_clear:
  assumes "runner_inv k r w G rl" "fresh_region w reg" "b = unat (r_base reg)" "b + n + 16 \<le> region_end reg"
  shows "\<forall>c' \<in> set G. clear_of (b, [(n, f)]) c'"
proof
  fix c' assume "c' \<in> set G"
  moreover obtain d rs where c': "c' = (d, rs)" by (cases c')
  ultimately obtain reg' where r': "reg' \<in> set (live w)" "unat (r_base reg') \<le> d" "d + run_total rs + 16 \<le> region_end reg'"
    using chunk_in_region[OF assms(1)] by blast
  then have "regions_apart reg reg'" using assms(2) by (simp add: fresh_region_def list_all_iff)
  then show "clear_of (b, [(n, f)]) c'"
    using r' assms(3,4) by (auto simp: c' clear_of_def chunk_extent_def regions_apart_def)
qed

text \<open>What adding a chunk does.\<close>

definition chunk_outcome ::
    "run_cfg \<Rightarrow> u64 \<Rightarrow> layout \<Rightarrow> nat list \<Rightarrow> runner \<Rightarrow> world \<Rightarrow> (exn + u64) \<times> runner \<times> world \<Rightarrow> bool" where
  "chunk_outcome k bytes G rl r w res =
     (case res of
        (Inl e, r', w') \<Rightarrow> e = Bad_alloc \<and> r' = r \<and> live w' = live w \<and> cells w' = cells w
      | (Inr c, r', w') \<Rightarrow> \<exists>b n node. unat c = n + 16 \<and> unat bytes \<le> unat c \<and>
          runner_inv k r' w' ((b, [(n, True)]) # G) rl \<and> quiet (used_runs G) (cells w) (cells w') \<and>
          live w' = \<lparr>r_base = adr b, r_bytes = c, r_align = owned_alignment k\<rparr> #
                    \<lparr>r_base = node, r_bytes = sizeof_chunk_node, r_align = alignof_max_align\<rparr> # live w \<and>
          rn_self r' = rn_self r \<and> rn_deferred_bytes r' = rn_deferred_bytes r \<and> rn_remote r' = rn_remote r \<and>
          owned_bases r' = adr b # node # owned_bases r \<and> confined (runner_area r) w (runner_area r') w')"

lemma add_owned_chunk_outcome:
  assumes inv: "runner_inv k r w G rl" and steady: "sys_steady sys w"
  shows "chunk_outcome k bytes G rl r w (add_owned_chunk k sys bytes r w) \<and>
    later sys w (snd (snd (add_owned_chunk k sys bytes r w)))"
proof (cases "owned_chunk_bytes_for k r bytes")
  case (Inl e)
  then have "e = Bad_alloc" by (simp add: owned_chunk_bytes_for_def split: option.splits)
  then show ?thesis using Inl by (simp add: add_owned_chunk_def chunk_outcome_def later.now)
next
  case (Inr cb)
  have page: "has_single_bit (rn_page_size r)" "16 \<le> unat (rn_page_size r)" and wok: "world_ok w"
    and rc: "runner_core r (cells w) G" and pk0: "parked_ok r (cells w) G rl" using inv by (simp_all add: runner_inv_def)
  note cb = owned_chunk_bytes[OF page Inr]
  obtain node w1 where nw: "op_new sys sizeof_chunk_node alignof_max_align w = (node, w1)" by fastforce
  have l1: "later sys w w1" using later.requested[OF later.now, where sys = sys and w = w and bytes = sizeof_chunk_node and al = alignof_max_align] nw by simp
  have cells1: "cells w1 = cells w"
    using op_new_cells[of sys sizeof_chunk_node alignof_max_align w] nw by simp
  show ?thesis
  proof (cases "node = nullptr")
    case True
    then have "live w1 = live w" using nw by (auto simp: op_new_def Let_def split: if_splits)
    then show ?thesis using True Inr nw l1 cells1 by (simp add: add_owned_chunk_def chunk_outcome_def)
  next
    case node: False
    let ?nr = "\<lparr>r_base = node, r_bytes = sizeof_chunk_node, r_align = alignof_max_align\<rparr>"
    have live1: "live w1 = ?nr # live w" using nw node by (auto simp: op_new_def Let_def split: if_splits)
    have "node = sys_new sys (calls w) sizeof_chunk_node alignof_max_align"
      using nw node by (auto simp: op_new_def Let_def split: if_splits)
    then have fresh1: "fresh_region w ?nr"
      using sys_steady_honest[OF steady] node has_single_bit_16 by (simp add: sys_honest_def alignof_max_align_def)
    have wok1: "world_ok w1"
      by (rule world_ok_Cons[OF wok fresh1 _ live1]) (simp add: sizeof_chunk_node_def)
    obtain res w2 where al: "allocate_owned_memory sys (rg_huge k) cb run_alignment w1 = (res, w2)" by fastforce
    have l2: "later sys w w2"
      using later_trans[OF later_allocate l1, of "rg_huge k" cb run_alignment] al by simp
    have honest1: "sys_honest sys w1" using sys_steady_honest[OF sys_steady_later[OF steady l1]] .
    show ?thesis
    proof (cases res)
      case (Inl e)
      have "live w2 = live w1" "cells w2 = cells w1" using allocate_owned_memory_failed al Inl by blast+
      then have "live (op_delete node alignof_max_align w2) = live w" by (simp add: op_delete_def live1)
      moreover have "later sys w (op_delete node alignof_max_align w2)" using l2 by (rule later.returned)
      ultimately show ?thesis
        using Inr nw node al Inl \<open>cells w2 = cells w1\<close> cells1
        by (simp add: add_owned_chunk_def chunk_outcome_def)
    next
      case arena: (Inr om)
      note got = al[unfolded arena]
      note ab = allocate_owned_memory_bytes[OF got]
      have live2: "live w2 = owned_region om # live w1" and cells2: "cells w2 = cells w"
        using allocate_owned_memory_live[OF got] cells1 by simp_all
      have fresh2: "fresh_region w1 (owned_region om)" using allocate_owned_memory_fresh[OF got honest1] .
      have bytes: "om_bytes om = cb"
        using ab(4) nat_round_up_id[of 2097152 "unat cb"] cb(4) by (auto simp: word_unat_eq_iff split: if_splits)
      have align: "om_alignment om = owned_alignment k" using ab(5) by (simp add: owned_alignment_def)
      define b n where "b = unat (om_base om)" and "n = unat cb - 16"
      have base: "om_base om = adr b" by (simp add: b_def)
      have ok: "om_base om \<noteq> 0" "has_single_bit (om_alignment om)" "is_aligned (om_base om) (om_alignment om)"
        "b + unat cb < 2 ^ 64"
        using fresh2 by (simp_all add: fresh_region_def region_ok_def owned_region_def region_end_def b_def bytes)
      have "unat run_alignment dvd unat (om_base om)"
        using single_bit_dvd[OF ab(2) ok(2) ab(6)] ok(2,3) by (auto simp: is_aligned_iff intro: dvd_trans)
      then have b: "0 < b" "16 dvd b" using ok(1) by (simp_all add: b_def run_constants unat_gt_0)
      have cbn: "cb = adr (n + 16)" using cb(2) by (simp add: n_def)
      have n: "48 \<le> n" "16 dvd n" "b + n + 16 < 2 ^ 64" using cb(1,2) ok(4) by (auto simp: n_def dvd_diff_nat)
      have cn: "unat cb = n + 16" using cb(2) by (simp add: n_def)
      have wok2: "world_ok w2"
        by (rule world_ok_Cons[OF wok1 fresh2 _ live2]) (use cb(2) in \<open>simp add: owned_region_def bytes\<close>)
      have freshw: "fresh_region w (owned_region om)" using fresh2 live1 by (simp add: fresh_region_def)
      let ?c = "\<lparr>cn_node = node, cn_begin = om_base om, cn_bytes = om_bytes om,
                 cn_mapping_base = om_base om, cn_mapping_bytes = om_bytes om\<rparr>"
      let ?r = "r\<lparr>rn_chunks := ?c # rn_chunks r\<rparr>"
      have rc1: "runner_core ?r (cells w) G" using rc by (auto simp: runner_core_def tiles_def intro: binned_cong)
      have clear: "\<forall>c' \<in> set G. clear_of (b, [(n, True)]) c'"
        by (rule fresh_clear[OF inv freshw]) (simp_all add: owned_region_def b_def region_end_def bytes cn)
      obtain r3 m3 where i: "initialize_free_run (adr b) (adr (n + 16)) (?r, cells w) = (r3, m3)"
        "runner_core r3 m3 ((b, [(n, True)]) # G)" "core_only ?r r3" "quiet (used_runs G) (cells w) m3"
        "within ((b, [(n, True)]) # G) (cells w) m3"
        using initialize_core[OF rc1 clear b n] by blast
      note f = core_only_fields[OF i(3)]
      have eq: "add_owned_chunk k sys bytes r w = (Inr cb, r3, w2\<lparr>cells := m3\<rparr>)"
        using Inr nw node al arena i(1) cells2 by (simp add: add_owned_chunk_def Let_def base bytes cbn[symmetric])
      have live2': "live w2 = \<lparr>r_base = adr b, r_bytes = cb, r_align = owned_alignment k\<rparr> # ?nr # live w"
        using live2 live1 by (simp add: owned_region_def base bytes align)
      have pk: "parked_ok r3 m3 ((b, [(n, True)]) # G) rl"
        by (rule parked_quiet[OF pk0 coreD(1)[OF rc] i(4) subset_refl])
          (use pk0 f(3) in \<open>simp_all add: parked_ok_def\<close>)
      have ob: "owned_bases r3 = adr b # node # owned_bases r"
        using ok(1) f(2) by (simp add: owned_bases_def node_bases_def base)
      have old: "set (owned_bases r) \<subseteq> r_base ` set (live w)"
      proof
        fix p assume "p \<in> set (owned_bases r)"
        then obtain c where c: "c \<in> set (rn_chunks r)" "p \<in> set (node_bases c)" by (auto simp: owned_bases_def)
        then have "chunk_backed k w c" using inv by (simp add: runner_inv_def)
        then show "p \<in> r_base ` set (live w)"
          using c(2) by (force simp: chunk_backed_def node_bases_def split: if_splits)
      qed
      have "distinct (owned_bases r3)"
        using wok2 old inv unfolding ob world_ok_def live2' runner_inv_def by auto
      moreover have "chunk_backed k (w2\<lparr>cells := m3\<rparr>) c" if "c \<in> set (rn_chunks r3)" for c
      proof (cases "c = ?c")
        case True
        then show ?thesis using ok(1) live2' by (simp add: chunk_backed_def base bytes)
      next
        case False
        then have "chunk_backed k w c" using that f(2) inv by (simp add: runner_inv_def)
        then show ?thesis by (auto simp: chunk_backed_def live2' split: if_splits)
      qed
      moreover have "chunks_match r3 ((b, [(n, True)]) # G)"
        using inv f(2) by (simp add: runner_inv_def chunks_match_def extents_def b_def bytes cn)
      ultimately have inv': "runner_inv k r3 (w2\<lparr>cells := m3\<rparr>) ((b, [(n, True)]) # G) rl"
        using i(2) pk wok2 page f(6) by (simp add: runner_inv_def world_ok_def)
      have conf: "confined (runner_area r) w (runner_area r3) (w2\<lparr>cells := m3\<rparr>)"
        unfolding confined_def
      proof (intro conjI allI impI)
        show "set (live w) \<subseteq> set (live (w2\<lparr>cells := m3\<rparr>))" by (auto simp: live2')
        fix a assume a: "a < 2 ^ 64" "live_at w a" "a \<notin> runner_area r"
        obtain reg where reg: "reg \<in> set (live w)" "unat (r_base reg) \<le> a" "a < region_end reg"
          using a(2) by (auto simp: live_at_def)
        have "regions_apart (owned_region om) reg" using freshw reg(1) by (simp add: fresh_region_def list_all_iff)
        then have "a < b \<or> b + n + 16 \<le> a"
          using reg(2,3) by (auto simp: regions_apart_def owned_region_def region_end_def b_def bytes cn)
        moreover have "clear_at G a" using a(3) runner_area_iff[OF inv a(1)] by blast
        ultimately have c: "clear_at ((b, [(n, True)]) # G) a" by (auto simp: clear_at_def chunk_extent_def)
        then show "a \<notin> runner_area r3" using runner_area_iff[OF inv' a(1)] by blast
        show "cells (w2\<lparr>cells := m3\<rparr>) (adr a) = cells w (adr a)" using i(5) c a(1) by (simp add: within_def)
      qed
      show ?thesis
        using conf inv' cn cb(3) i(4) live2' f(1,3,4) ob later_cells[OF l2, of m3]
        by (auto simp: eq chunk_outcome_def)
    qed
  qed
qed

end
