(* ===== verification/Runner_Alloc.thy ===== *)
theory Runner_Alloc
  imports Runner_State
begin

text \<open>
  Allocation from the runner, from the first search to growth; the constructors; and the release of
  all chunks.
\<close>

section \<open>Searching and cutting\<close>

lemma runner_inv_stats:
  assumes "runner_inv k r w G rl" "stats_only r r'"
  shows "runner_inv k r' w G rl"
  using assms(1) stats_only_fields[OF assms(2)] tiles_stats[OF assms(2)]
  by (simp add: runner_inv_def runner_core_def parked_ok_def chunks_match_def owned_bases_def)

lemma runner_area_stats: "stats_only r r' \<Longrightarrow> runner_area r' = runner_area r"
  by (rule runner_area_chunks) (rule stats_only_fields(4))

lemma runner_area_count [simp]: "runner_area (count k f r) = runner_area r"
  by (rule runner_area_stats) simp

lemma housekeeping_stats:
  "runner_inv k r w G rl \<Longrightarrow> stats_only r r' \<Longrightarrow> housekeeping k G rl r w G rl r' w"
  using runner_inv_stats stats_only_fields(3-6) runner_area_stats by (auto simp: housekeeping_def intro: acquires_same)

text \<open>A request that no free run satisfies.\<close>

definition no_fit :: "layout \<Rightarrow> nat \<Rightarrow> bool" where
  "no_fit G n \<longleftrightarrow> (\<forall>x s. (x, s, True) \<in> runs G \<longrightarrow> s < n)"

lemma find_fit_step:
  assumes inv: "runner_inv k r w G rl" and n: "8 dvd n" "n + 8 < 2 ^ 64"
  obtains (none) c' r' where "find_fit k (adr n) c (r, cells w) = Some (nullptr, c', r')"
      and "no_fit G n" and "stats_only r r'"
    | (found) x s c' r' where "find_fit k (adr n) c (r, cells w) = Some (adr x, c', r')" and "adr x \<noteq> nullptr"
      and "(x, s, True) \<in> runs G" and "n \<le> s" and "stats_only r r'"
proof -
  have rc: "runner_core r (cells w) G" using inv by (simp add: runner_inv_def)
  then have t: "tiled (cells w) G" and bin: "binned r (cells w) (free_runs G)"
    using coreD(1,2) by (auto simp: tiles_def)
  obtain h c' r' where f: "find_fit k (adr n) c (r, cells w) = Some (h, c', r')"
    "fits (cells w) (free_runs G) n h" "stats_only r r'"
    using find_fit_fits[OF bin n] by blast
  have bytes: "run_bytes_at (cells w) x = s" if "(x, s, True) \<in> runs G" for x s
    using run_bounds(5,6)[OF t that] by (simp add: run_bytes_at_def unat_adr)
  show thesis
  proof (cases "h = nullptr")
    case True
    have "s < n" if "(x, s, True) \<in> runs G" for x s
      using f(2) True bytes[OF that] that by (auto simp: fits_def frees_def)
    then show thesis using none f True by (auto simp: no_fit_def)
  next
    case False
    then obtain x where x: "x \<in> free_runs G" "h = adr x" "n \<le> run_bytes_at (cells w) x"
      using f(2) by (auto simp: fits_def)
    then obtain s where "(x, s, True) \<in> runs G" by (auto simp: frees_def)
    then show thesis using found[of x c' r' s] f x False bytes by simp
  qed
qed

text \<open>A block that was granted: new, large enough, and everything else as it was.\<close>

definition granted :: "(nat \<times> nat) set \<Rightarrow> nat \<Rightarrow> ptr \<Rightarrow> (nat \<times> nat) set \<Rightarrow> bool" where
  "granted L n a L' \<longleftrightarrow> (\<exists>x t. a = adr (x + 16) \<and> n \<le> t \<and> L' = insert (x, t) L \<and> (\<forall>u. (x, u) \<notin> L))"

text \<open>
  The answer to a request for a run of \<open>n\<close> bytes while \<open>L\<close> is lent: thrown or null only when the
  stack is drained, nothing fits, and the runner could not grow or may not.
\<close>

definition answer_ok :: "run_cfg \<Rightarrow> (nat \<times> nat) set \<Rightarrow> u64 \<Rightarrow> nat \<Rightarrow> exn + ptr \<Rightarrow> layout \<Rightarrow> nat list \<Rightarrow> bool" where
  "answer_ok k L deferred n ans G' rl' \<longleftrightarrow>
     (case ans of
        Inl e \<Rightarrow> e = Bad_alloc \<and> lent_runs G' rl' = L \<and> no_fit G' n \<and> rl' = [] \<and> (rg_can_grow k \<or> deferred \<noteq> 0)
      | Inr a \<Rightarrow> if a = nullptr
                 then lent_runs G' rl' = L \<and> no_fit G' n \<and> rl' = [] \<and> \<not> rg_can_grow k
                 else granted L n a (lent_runs G' rl'))"

definition runner_post :: "run_cfg \<Rightarrow> (nat \<times> nat) set \<Rightarrow> runner \<Rightarrow> world \<Rightarrow> nat \<Rightarrow> runner_result \<Rightarrow> bool" where
  "runner_post k L r w n res \<longleftrightarrow>
     (case res of (ans, r', w') \<Rightarrow> \<exists>G' rl'. runner_inv k r' w' G' rl' \<and>
        quiet L (cells w) (cells w') \<and> rn_self r' = rn_self r \<and> confined (runner_area r) w (runner_area r') w' \<and>
        acquires r w r' w' \<and> answer_ok k L (rn_deferred_bytes r) n ans G' rl')"

lemma runner_postI:
  "runner_inv k r' w' G' rl' \<Longrightarrow> quiet L (cells w) (cells w') \<Longrightarrow> rn_self r' = rn_self r \<Longrightarrow>
     confined (runner_area r) w (runner_area r') w' \<Longrightarrow> acquires r w r' w' \<Longrightarrow>
     answer_ok k L (rn_deferred_bytes r) n ans G' rl' \<Longrightarrow> runner_post k L r w n (ans, r', w')"
  by (auto simp: runner_post_def)

lemma runner_post_housekeeping:
  assumes h: "housekeeping k G rl r w G1 rl1 r1 w1" and p: "runner_post k (lent_runs G1 rl1) r1 w1 n res"
    and d: "rn_deferred_bytes r1 \<noteq> 0 \<longrightarrow> rn_deferred_bytes r \<noteq> 0"
  shows "runner_post k (lent_runs G rl) r w n res"
proof -
  obtain ans r' w' where res: "res = (ans, r', w')" by (cases res)
  have l: "lent_runs G1 rl1 = lent_runs G rl" and q: "quiet (lent_runs G rl) (cells w) (cells w1)"
    and self: "rn_self r1 = rn_self r" and cf: "confined (runner_area r) w (runner_area r1) w1"
    and aq: "acquires r w r1 w1"
    using h by (simp_all add: housekeeping_def)
  from p[unfolded l res runner_post_def prod.case] obtain G' rl' where
    p: "runner_inv k r' w' G' rl'" "quiet (lent_runs G rl) (cells w1) (cells w')" "rn_self r' = rn_self r1"
    "confined (runner_area r1) w1 (runner_area r') w'" "acquires r1 w1 r' w'"
    "answer_ok k (lent_runs G rl) (rn_deferred_bytes r1) n ans G' rl'"
    by blast
  have "answer_ok k (lent_runs G rl) (rn_deferred_bytes r) n ans G' rl'"
    using p(6) d by (cases ans) (auto simp: answer_ok_def)
  then show ?thesis
    unfolding res using runner_postI[OF p(1) quiet_trans[OF q p(2)] _ confined_trans[OF cf p(4)] acquires_trans[OF aq p(5)]] p(3) self by simp
qed

lemma runner_finish_found:
  assumes inv: "runner_inv k r w G rl" and x: "(x, s, True) \<in> runs G" "n \<le> s" and n: "16 dvd n" "48 \<le> n"
    and nz: "adr x \<noteq> nullptr"
  shows "runner_post k (lent_runs G rl) r w n (runner_finish k (adr n) (adr x) r w)"
proof -
  have rc: "runner_core r (cells w) G" and pk: "parked_ok r (cells w) G rl" using inv by (simp_all add: runner_inv_def)
  have t: "tiled (cells w) G" using inv by (rule runner_inv_tiled)
  obtain r1 m1 G1 where a: "allocate_from_free_run k (adr x) (adr n) (r, cells w) = (adr (x + 16), (r1, m1))"
    "runner_core r1 m1 G1" "core_only r r1" "extents G1 = extents G"
    "used_runs G1 = insert (x, cut_size s n) (used_runs G)" "quiet (used_runs G) (cells w) m1"
    "within G (cells w) m1"
    using allocate_from_free_run_core[OF rc x(1) n x(2)] by blast
  have new: "(x, u) \<notin> used_runs G" for u
  proof
    assume "(x, u) \<in> used_runs G"
    then have u: "(x, u, False) \<in> runs G" by (simp add: useds_def)
    show False using runs_apart[OF t x(1) u] run_bounds(3)[OF t x(1)] run_bounds(3)[OF t u] by auto
  qed
  then have off: "x + 16 \<notin> set rl" using pk by (auto simp: parked_ok_def)
  have pk1: "parked_ok r1 m1 G1 rl"
    by (rule parked_quiet[OF pk t a(6) subset_refl])
      (use pk core_only_fields(3)[OF a(3)] a(5) in \<open>auto simp: parked_ok_def\<close>)
  have inv1: "runner_inv k r1 (w\<lparr>cells := m1\<rparr>) G1 rl" by (rule runner_inv_core[OF inv a(3,2,4) pk1])
  have lent: "lent_runs G1 rl = insert (x, cut_size s n) (lent_runs G rl)"
    using off by (auto simp: lent_runs_def a(5))
  have nonnull: "adr (x + 16) \<noteq> 0" by (rule payload_nonnull[OF t x(1)])
  have "granted (lent_runs G rl) n (adr (x + 16)) (lent_runs G1 rl)"
    using lent cut_size_ge[OF x(2)] new by (auto simp: granted_def lent_runs_def)
  then have ans: "answer_ok k (lent_runs G rl) (rn_deferred_bytes r) n (Inr (adr (x + 16))) G1 rl"
    using nonnull by (simp add: answer_ok_def)
  have q: "quiet (lent_runs G rl) (cells w) m1" using quiet_mono[OF a(6) lent_sub] .
  obtain st where fin: "runner_finish k (adr n) (adr x) r w =
      (Inr (adr (x + 16)), count k st r1, w\<lparr>cells := m1\<rparr>)"
    using nz by (auto simp: runner_finish_def a(1) Let_def)
  have "rn_self (count k st r1) = rn_self r"
    using core_only_fields(1)[OF a(3)] stats_only_fields(3)[OF stats_only_count(1)] by simp
  moreover have "confined (runner_area r) w (runner_area (count k st r1)) (w\<lparr>cells := m1\<rparr>)"
    by (rule within_confined[OF inv a(7)]) (use core_only_fields(2)[OF a(3)] in \<open>simp add: count_def\<close>)
  moreover have "acquires r w (count k st r1) (w\<lparr>cells := m1\<rparr>)"
    by (rule acquires_same) (use core_only_fields(2-4)[OF a(3)] in \<open>simp_all add: count_def\<close>)
  ultimately show ?thesis
    unfolding fin using runner_inv_stats[OF inv1 stats_only_count(1)] q ans by (intro runner_postI[where G' = G1]) simp_all
qed

lemma runner_finish_null:
  assumes inv: "runner_inv k r w G []" and "no_fit G n" "\<not> rg_can_grow k"
  shows "runner_post k (lent_runs G []) r w n (runner_finish k d nullptr r w)"
proof -
  obtain st where fin: "runner_finish k d nullptr r w = (Inr nullptr, count k st r, w)"
    by (simp add: runner_finish_def)
  have "rn_self (count k st r) = rn_self r" by (rule stats_only_fields(3)) simp
  moreover have "acquires r w (count k st r) w" by (rule acquires_same) (simp_all add: count_def)
  ultimately show ?thesis
    unfolding fin using assms(2,3) runner_inv_stats[OF inv stats_only_count(1)]
    by (intro runner_postI[where G' = G]) (simp_all add: answer_ok_def)
qed

section \<open>Growth\<close>

lemma runner_inv_growth:
  "runner_inv k (r\<lparr>rn_next_growth := g\<rparr>) w G rl = runner_inv k r w G rl"
  "runner_inv k (r\<lparr>rn_deferred_bytes := d\<rparr>) w G rl = runner_inv k r w G rl"
proof -
  have "tiles (r\<lparr>rn_next_growth := g\<rparr>) m G N = tiles r m G N" "tiles (r\<lparr>rn_deferred_bytes := d\<rparr>) m G N = tiles r m G N"
    for m N by (auto simp: tiles_def intro: binned_cong)
  then show "runner_inv k (r\<lparr>rn_next_growth := g\<rparr>) w G rl = runner_inv k r w G rl"
    "runner_inv k (r\<lparr>rn_deferred_bytes := d\<rparr>) w G rl = runner_inv k r w G rl"
    by (simp_all add: runner_inv_def runner_core_def parked_ok_def chunks_match_def owned_bases_def)
qed

lemma acquires_growth:
  "acquires r w (r'\<lparr>rn_next_growth := g\<rparr>) w' = acquires r w r' w'"
  "acquires r w r' w' \<Longrightarrow> acquires r w (r'\<lparr>rn_deferred_bytes := 0\<rparr>) w'"
  by (simp_all add: acquires_def owned_bases_def)

text \<open>A chunk that was added holds one free run and lends nothing.\<close>

lemma chunk_outcome_housekeeping:
  assumes "chunk_outcome k bytes G rl r w (Inr c, r', w')"
  obtains b n where "unat c = n + 16" "unat bytes \<le> unat c"
    "housekeeping k G rl r w ((b, [(n, True)]) # G) rl r' w'" "rn_deferred_bytes r' = rn_deferred_bytes r"
proof -
  obtain b n where o: "unat c = n + 16" "unat bytes \<le> unat c" "runner_inv k r' w' ((b, [(n, True)]) # G) rl"
    "quiet (used_runs G) (cells w) (cells w')" "rn_self r' = rn_self r" "rn_deferred_bytes r' = rn_deferred_bytes r"
    "confined (runner_area r) w (runner_area r') w'" "acquires r w r' w'"
    using assms by (auto simp: chunk_outcome_def acquires_def)
  have "lent_runs ((b, [(n, True)]) # G) rl = lent_runs G rl" by (simp add: lent_runs_def)
  then show thesis using that[of n b] o quiet_mono[OF o(4) lent_sub] by (simp add: housekeeping_def)
qed

lemma grow_for_step:
  assumes inv: "runner_inv k r w G rl" and steady: "sys_steady sys w" and n: "n < 2 ^ 64"
  obtains (failed) r' w' where "grow_for k sys (adr n) r w = (Inl Bad_alloc, r', w')"
      and "housekeeping k G rl r w G rl r' w'" and "rn_deferred_bytes r' = rn_deferred_bytes r"
    | (grown) r' w' b m where "grow_for k sys (adr n) r w = (Inr (), r', w')" and "n \<le> m"
      and "housekeeping k G rl r w ((b, [(m, True)]) # G) rl r' w'" and "rn_deferred_bytes r' = rn_deferred_bytes r"
proof -
  define r1 where "r1 = count k (\<lambda>st. st\<lparr>st_grow_calls := st_grow_calls st + 1\<rparr>) r"
  have so: "stats_only r r1" by (simp add: r1_def)
  note f = stats_only_fields[OF so]
  have inv1: "runner_inv k r1 w G rl" by (rule runner_inv_stats[OF inv so])
  have h1: "housekeeping k G rl r w G rl r1 w" by (rule housekeeping_stats[OF inv so])
  show thesis
  proof (cases "checked_add (adr n) min_chunk_bytes")
    case None
    then have "grow_for k sys (adr n) r w = (Inl Bad_alloc, r1, w)"
      by (simp add: grow_for_def r1_def[symmetric] Let_def)
    then show thesis using failed h1 f(6) by blast
  next
    case (Some q)
    let ?want = "max (rn_next_growth r1) q"
    have q: "unat q = n + 64"
      using Some n by (auto simp: checked_add_eq run_constants unat_adr unat_plus_le split: if_splits)
    obtain res r2 w2 where add: "add_owned_chunk k sys ?want r1 w = (res, r2, w2)" by (metis prod_cases3)
    have out: "chunk_outcome k ?want G rl r1 w (res, r2, w2)"
      using add_owned_chunk_outcome[OF inv1 steady, of ?want] add by simp
    show thesis
    proof (cases res)
      case (Inl e)
      then have e: "e = Bad_alloc" "r2 = r1" "live w2 = live w" "cells w2 = cells w"
        using out by (simp_all add: chunk_outcome_def)
      have "housekeeping k G rl r w G rl r1 w2"
        using h1 runner_inv_world[OF inv1 e(4,3)] e(4) confined_trans[OF _ confined_same[OF e(4,3)]] e(3)
        by (simp add: housekeeping_def acquires_def)
      moreover have "grow_for k sys (adr n) r w = (Inl Bad_alloc, r1, w2)"
        by (simp add: grow_for_def r1_def[symmetric] Let_def Some add Inl e)
      ultimately show thesis using failed f(6) by blast
    next
      case (Inr c)
      obtain b m where o: "unat c = m + 16" "unat ?want \<le> unat c"
        "housekeeping k G rl r1 w ((b, [(m, True)]) # G) rl r2 w2" "rn_deferred_bytes r2 = rn_deferred_bytes r1"
        using chunk_outcome_housekeeping[OF out[unfolded Inr]] by blast
      obtain g where g: "grow_for k sys (adr n) r w = (Inr (), r2\<lparr>rn_next_growth := g\<rparr>, w2)"
        by (simp add: grow_for_def r1_def[symmetric] Let_def Some add Inr)
      have "n \<le> m" using o(1,2) q by (simp add: unat_max)
      moreover have "housekeeping k G rl r w ((b, [(m, True)]) # G) rl (r2\<lparr>rn_next_growth := g\<rparr>) w2"
        using housekeeping_trans[OF h1 o(3)] by (simp add: housekeeping_def runner_inv_growth acquires_growth)
      ultimately show thesis using grown[OF g] o(4) f(6) by simp
    qed
  qed
qed

section \<open>Allocation\<close>

lemma runner_allocate_grow_post:
  assumes inv: "runner_inv k r w G []" and steady: "sys_steady sys w" and none: "no_fit G n"
    and n: "16 dvd n" "48 \<le> n" "n + 8 < 2 ^ 64"
  shows "\<exists>res. runner_allocate_grow k sys (adr n) c r w = Some res \<and> runner_post k (lent_runs G []) r w n res"
proof (cases "rg_can_grow k")
  case False
  then show ?thesis using runner_finish_null[OF inv none False] by (simp add: runner_allocate_grow_def)
next
  case True
  have n8: "8 dvd n" using n(1) by (rule dvd_trans[rotated]) simp
  have n64: "n < 2 ^ 64" using n(3) by simp
  from inv steady n64 show ?thesis
  proof (cases rule: grow_for_step)
    case (failed r' w')
    have "runner_inv k r' w' G []" using failed(2) by (simp add: housekeeping_def)
    then have "runner_post k (lent_runs G []) r w n (Inl Bad_alloc, r', w')"
      using failed(2) none True by (intro runner_postI[where G' = G]) (simp_all add: answer_ok_def housekeeping_def)
    then show ?thesis using True failed(1) by (simp add: runner_allocate_grow_def)
  next
    case (grown r' w' b m)
    let ?G = "(b, [(m, True)]) # G"
    have inv': "runner_inv k r' w' ?G []" using grown(3) by (simp add: housekeeping_def)
    from inv' n8 n(3) show ?thesis
    proof (cases rule: find_fit_step[where c = c])
      case (none c' r'')
      have "m < n" using none(2) by (simp add: no_fit_def)
      then show ?thesis using grown(2) by simp
    next
      case (found x s c' r'')
      have inv'': "runner_inv k r'' w' ?G []" by (rule runner_inv_stats[OF inv' found(5)])
      have h: "housekeeping k G [] r w ?G [] r'' w'"
        using housekeeping_trans[OF grown(3) housekeeping_stats[OF inv' found(5)]] .
      have "runner_post k (lent_runs ?G []) r'' w' n (runner_finish k (adr n) (adr x) r'' w')"
        by (rule runner_finish_found[OF inv'' found(3,4) n(1,2) found(2)])
      then have "runner_post k (lent_runs G []) r w n (runner_finish k (adr n) (adr x) r'' w')"
        using runner_post_housekeeping[OF h] stats_only_fields(6)[OF found(5)] grown(4) by simp
      then show ?thesis using True grown(1) found(1) by (simp add: runner_allocate_grow_def)
    qed
  qed
qed

lemma runner_allocate_deferred_post:
  assumes inv: "runner_inv k r w G []" and steady: "sys_steady sys w" and none: "no_fit G n"
    and n: "16 dvd n" "48 \<le> n" "n + 8 < 2 ^ 64"
  shows "\<exists>res. runner_allocate_deferred k sys (adr n) c r w = Some res \<and> runner_post k (lent_runs G []) r w n res"
proof (cases "rn_deferred_bytes r = 0")
  case True
  then show ?thesis using runner_allocate_grow_post[OF assms] by (simp add: runner_allocate_deferred_def)
next
  case False
  have n8: "8 dvd n" using n(1) by (rule dvd_trans[rotated]) simp
  obtain res r1 w1 where add: "add_owned_chunk k sys (rn_deferred_bytes r) r w = (res, r1, w1)" by (metis prod_cases3)
  have out: "chunk_outcome k (rn_deferred_bytes r) G [] r w (res, r1, w1)" and lat: "later sys w w1"
    using add_owned_chunk_outcome[OF inv steady, of "rn_deferred_bytes r"] add by simp_all
  show ?thesis
  proof (cases res)
    case (Inl e)
    then have e: "e = Bad_alloc" "r1 = r" "live w1 = live w" "cells w1 = cells w"
      using out by (simp_all add: chunk_outcome_def)
    have "runner_post k (lent_runs G []) r w n (Inl e, r1, w1)"
      using runner_inv_world[OF inv e(4,3)] e none False confined_same[OF e(4,3)]
      by (intro runner_postI[where G' = G]) (simp_all add: answer_ok_def acquires_def)
    then show ?thesis using False add Inl by (simp add: runner_allocate_deferred_def)
  next
    case (Inr cb)
    obtain b m where o: "housekeeping k G [] r w ((b, [(m, True)]) # G) [] r1 w1"
      using chunk_outcome_housekeeping[OF out[unfolded Inr]] by blast
    let ?r = "r1\<lparr>rn_next_growth := cb, rn_deferred_bytes := 0\<rparr>" and ?G = "(b, [(m, True)]) # G"
    have inv1: "runner_inv k ?r w1 ?G []" using o by (simp add: housekeeping_def runner_inv_growth acquires_growth)
    have h1: "housekeeping k G [] r w ?G [] ?r w1" using o by (simp add: housekeeping_def runner_inv_growth acquires_growth)
    have steady1: "sys_steady sys w1" by (rule sys_steady_later[OF steady lat])
    from inv1 n8 n(3) show ?thesis
    proof (cases rule: find_fit_step[where c = c])
      case (none c' r'')
      have inv'': "runner_inv k r'' w1 ?G []" by (rule runner_inv_stats[OF inv1 none(3)])
      have h: "housekeeping k G [] r w ?G [] r'' w1"
        using housekeeping_trans[OF h1 housekeeping_stats[OF inv1 none(3)]] .
      obtain res where "runner_allocate_grow k sys (adr n) c' r'' w1 = Some res" "runner_post k (lent_runs ?G []) r'' w1 n res"
        using runner_allocate_grow_post[OF inv'' steady1 none(2) n] by blast
      moreover from this have "runner_post k (lent_runs G []) r w n res"
        using runner_post_housekeeping[OF h] False by simp
      ultimately show ?thesis using False add Inr none(1) by (simp add: runner_allocate_deferred_def)
    next
      case (found x s c' r'')
      have inv'': "runner_inv k r'' w1 ?G []" by (rule runner_inv_stats[OF inv1 found(5)])
      have h: "housekeeping k G [] r w ?G [] r'' w1"
        using housekeeping_trans[OF h1 housekeeping_stats[OF inv1 found(5)]] .
      have "runner_post k (lent_runs ?G []) r'' w1 n (runner_finish k (adr n) (adr x) r'' w1)"
        by (rule runner_finish_found[OF inv'' found(3,4) n(1,2) found(2)])
      then have "runner_post k (lent_runs G []) r w n (runner_finish k (adr n) (adr x) r'' w1)"
        using runner_post_housekeeping[OF h] False by simp
      then show ?thesis using False add Inr found(1,2) by (simp add: runner_allocate_deferred_def)
    qed
  qed
qed

text \<open>A run that was found is never answered with null.\<close>

lemma runner_finish_nonnull:
  assumes "tiled m G" "(x, s, True) \<in> runs G" "adr x \<noteq> nullptr"
  shows "\<exists>a. fst (runner_finish k d (adr x) r w) = Inr a \<and> a \<noteq> nullptr"
proof -
  have "fst (runner_finish k d (adr x) r w) = Inr (payload_from_header (adr x))"
    using assms(3) by (simp add: runner_finish_def allocate_from_free_run_def Let_def split: prod.split)
  moreover have "payload_from_header (adr x) = adr (x + 16)"
    by (simp add: payload_from_header_def run_constants adr_plus_numeral)
  ultimately show ?thesis using payload_nonnull[OF assms(1,2)] by simp
qed

text \<open>The request as the code normalises it: at least one byte, with header and padding.\<close>

definition request_bytes :: "u64 \<Rightarrow> nat" where
  "request_bytes bytes = run_bytes_nat (max 1 (unat bytes))"

definition request_ok :: "u64 \<Rightarrow> u64 \<Rightarrow> bool" where
  "request_ok bytes alignment \<longleftrightarrow> alignment \<le> 16 \<and> nat_round_up (max 1 (unat bytes)) 16 + 31 < 2 ^ 64"

lemma allocate_bytes_refused:
  assumes inv: "runner_inv k r w G rl" and "\<not> request_ok bytes alignment"
  shows "\<exists>r'. allocate_bytes k sys bytes alignment r w = Some (Inr nullptr, r', w) \<and> stats_only r r'"
proof (cases "alignment > run_alignment")
  case True
  then show ?thesis by (auto simp: allocate_bytes_def)
next
  case False
  let ?b = "if bytes = 0 then 1 else bytes"
  have "unat ?b = max 1 (unat bytes)" by (auto simp: max_def unat_eq_zero not_le dest: unat_gt_0[THEN iffD2])
  then have "normalized_run_bytes ?b = None"
    using assms(2) False by (simp add: request_ok_def normalized_run_bytes_eq run_constants not_less)
  then show ?thesis
    using False stats_only_trans[OF stats_only_count(1) stats_only_count(1)]
    by (simp add: allocate_bytes_def Let_def runner_finish_def)
qed

lemma allocate_bytes_post:
  assumes inv: "runner_inv k r w G rl" and steady: "sys_steady sys w" and ok: "request_ok bytes alignment"
  shows "\<exists>res. allocate_bytes k sys bytes alignment r w = Some res \<and>
    runner_post k (lent_runs G rl) r w (request_bytes bytes) res \<and>
    (no_fit G (request_bytes bytes) \<or> (\<exists>a. fst res = Inr a \<and> a \<noteq> nullptr))"
proof -
  define b where "b = (if bytes = 0 then 1 else bytes)"
  have ub: "unat b = max 1 (unat bytes)"
    by (auto simp: b_def max_def unat_eq_zero not_le dest: unat_gt_0[THEN iffD2])
  let ?n = "request_bytes bytes"
  have al: "\<not> alignment > run_alignment" using ok by (auto simp: request_ok_def run_constants)
  have norm: "normalized_run_bytes b = Some (adr ?n)"
    using ok by (simp add: request_ok_def request_bytes_def normalized_run_bytes_eq ub)
  note rb = run_bytes_nat_props[of "max 1 (unat bytes)", folded request_bytes_def]
  have n: "16 dvd ?n" "48 \<le> ?n" by (rule rb)+
  have n8: "8 dvd ?n" using n(1) by (rule dvd_trans[rotated]) simp
  have n64: "?n + 8 < 2 ^ 64"
    using ok by (simp add: request_ok_def request_bytes_def run_bytes_nat_def)
  define r1 where "r1 = count k (\<lambda>st. st\<lparr>st_allocate_calls := st_allocate_calls st + 1,
                   st_requested_bytes := st_requested_bytes st + b\<rparr>) r"
  have so: "stats_only r r1" by (simp add: r1_def)
  have inv1: "runner_inv k r1 w G rl" by (rule runner_inv_stats[OF inv so])
  have h1: "housekeeping k G rl r w G rl r1 w" by (rule housekeeping_stats[OF inv so])
  have eq: "allocate_bytes k sys bytes alignment r w =
      do {
        (h, scan', r2) \<leftarrow> find_fit k (adr ?n) 0 (r1, cells w);
        if h \<noteq> nullptr then Some (runner_finish k (adr ?n) h r2 w)
        else do {
          (drained, r3, m3) \<leftarrow> runner_drain_remote k (r2, cells w);
          let w3 = w\<lparr>cells := m3\<rparr>;
          if drained
          then do {
            (h', scan'', r4) \<leftarrow> find_fit k (adr ?n) scan' (r3, m3);
            if h' \<noteq> nullptr then Some (runner_finish k (adr ?n) h' r4 w3)
            else runner_allocate_deferred k sys (adr ?n) scan'' r4 w3
          }
          else runner_allocate_deferred k sys (adr ?n) scan' r3 w3
        }
      }"
    using al by (simp only: allocate_bytes_def Let_def b_def[symmetric] r1_def[symmetric] norm option.case if_False)
  from inv1 n8 n64 show ?thesis
  proof (cases rule: find_fit_step[where c = 0])
    case (found x s c' r2)
    have inv2: "runner_inv k r2 w G rl" by (rule runner_inv_stats[OF inv1 found(5)])
    have h: "housekeeping k G rl r w G rl r2 w"
      using housekeeping_trans[OF h1 housekeeping_stats[OF inv1 found(5)]] .
    have "runner_post k (lent_runs G rl) r2 w ?n (runner_finish k (adr ?n) (adr x) r2 w)"
      by (rule runner_finish_found[OF inv2 found(3,4) n found(2)])
    then have "runner_post k (lent_runs G rl) r w ?n (runner_finish k (adr ?n) (adr x) r2 w)"
      using runner_post_housekeeping[OF h] stats_only_fields(6)[OF stats_only_trans[OF so found(5)]] by simp
    then show ?thesis
      using found(1,2) runner_finish_nonnull[OF runner_inv_tiled[OF inv] found(3,2)] by (simp add: eq)
  next
    case (none c' r2)
    have inv2: "runner_inv k r2 w G rl" by (rule runner_inv_stats[OF inv1 none(3)])
    have h2: "housekeeping k G rl r w G rl r2 w"
      using housekeeping_trans[OF h1 housekeeping_stats[OF inv1 none(3)]] .
    have df2: "rn_deferred_bytes r2 = rn_deferred_bytes r"
      by (rule stats_only_fields(6)[OF stats_only_trans[OF so none(3)]])
    obtain r3 m3 G3 where d: "runner_drain_remote k (r2, cells w) = Some (rl \<noteq> [], (r3, m3))"
      "housekeeping k G rl r2 w G3 [] r3 (w\<lparr>cells := m3\<rparr>)"
      "rl = [] \<longrightarrow> r3 = r2 \<and> m3 = cells w \<and> G3 = G" "rn_deferred_bytes r3 = rn_deferred_bytes r2"
      using runner_drain_housekeeping[OF inv2] by blast
    let ?w3 = "w\<lparr>cells := m3\<rparr>"
    have h3: "housekeeping k G rl r w G3 [] r3 ?w3" by (rule housekeeping_trans[OF h2 d(2)])
    have inv3: "runner_inv k r3 ?w3 G3 []" using d(2) by (simp add: housekeeping_def)
    have steady3: "sys_steady sys ?w3" by (rule sys_steady_later[OF steady later_cells[OF later.now]])
    have df3: "rn_deferred_bytes r3 \<noteq> 0 \<longrightarrow> rn_deferred_bytes r \<noteq> 0" using d(4) df2 by simp
    show ?thesis
    proof (cases "rl = []")
      case True
      have nf: "no_fit G3 ?n" using none(2) d(3) True by simp
      obtain res where "runner_allocate_deferred k sys (adr ?n) c' r3 ?w3 = Some res" "runner_post k (lent_runs G3 []) r3 ?w3 ?n res"
        using runner_allocate_deferred_post[OF inv3 steady3 nf n n64] by blast
      moreover from this have "runner_post k (lent_runs G rl) r w ?n res"
        using runner_post_housekeeping[OF h3 _ df3] by blast
      ultimately show ?thesis using none(1,2) d(1) True by (simp add: eq Let_def)
    next
      case False
      have n64': "8 dvd ?n" "?n + 8 < 2 ^ 64" using n8 n64 by simp_all
      from inv3 n64' show ?thesis
      proof (cases rule: find_fit_step[where c = c'])
        case (found x s c'' r4)
        have inv4: "runner_inv k r4 ?w3 G3 []" by (rule runner_inv_stats[OF inv3 found(5)])
        have h: "housekeeping k G rl r w G3 [] r4 ?w3"
          using housekeeping_trans[OF h3 housekeeping_stats[OF inv3 found(5)]] .
        have "runner_post k (lent_runs G3 []) r4 ?w3 ?n (runner_finish k (adr ?n) (adr x) r4 ?w3)"
          by (rule runner_finish_found[OF inv4 found(3,4) n found(2)])
        then have "runner_post k (lent_runs G rl) r w ?n (runner_finish k (adr ?n) (adr x) r4 ?w3)"
          using runner_post_housekeeping[OF h] df3 stats_only_fields(6)[OF found(5)] by simp
        moreover have "find_fit k (adr ?n) c' (r3, m3) = Some (adr x, c'', r4)" using found(1) by simp
        ultimately show ?thesis using none(1,2) d(1) False found(2) by (simp add: eq Let_def)
      next
        case nf: (none c'' r4)
        have inv4: "runner_inv k r4 ?w3 G3 []" by (rule runner_inv_stats[OF inv3 nf(3)])
        have h: "housekeeping k G rl r w G3 [] r4 ?w3"
          using housekeeping_trans[OF h3 housekeeping_stats[OF inv3 nf(3)]] .
        obtain res where "runner_allocate_deferred k sys (adr ?n) c'' r4 ?w3 = Some res" "runner_post k (lent_runs G3 []) r4 ?w3 ?n res"
          using runner_allocate_deferred_post[OF inv4 steady3 nf(2) n n64] by blast
        moreover from this have "runner_post k (lent_runs G rl) r w ?n res"
          using runner_post_housekeeping[OF h] df3 stats_only_fields(6)[OF nf(3)] by simp
        moreover have "find_fit k (adr ?n) c' (r3, m3) = Some (0, c'', r4)" using nf(1) by simp
        ultimately show ?thesis using none(1,2) d(1) False by (simp add: eq Let_def)
      qed
    qed
  qed
qed

end
