(* ===== verification/Runner_Life.thy ===== *)
theory Runner_Life
  imports Runner_Alloc Std_Align
begin

text \<open>
  The rest of the runner's life: giving blocks back on either path, construction over owned, deferred
  and caller-supplied memory, and the release of all chunks.
\<close>

section \<open>Giving a block back\<close>

lemma lent_used: "(x, s) \<in> lent_runs G rl \<Longrightarrow> (x, s) \<in> used_runs G \<and> x + 16 \<notin> set rl"
  by (simp add: lent_runs_def)

text \<open>Two free runs are never next to each other.\<close>

lemma no_free_pair:
  assumes t: "tiled m G" and x: "(x, s, True) \<in> runs G"
  shows "(x + s, u, True) \<notin> runs G"
proof
  assume "(x + s, u, True) \<in> runs G"
  then obtain G1 b us vs G2 where G: "G = G1 @ (b, us @ (s, True) # (u, True) # vs) # G2"
    using next_free(3)[OF t x] by blast
  have "laid m b ((us @ [(s, True)]) @ (u, True) # vs)" using t by (simp add: G tiled_middle)
  then show False using laid_at(10)[of m b "us @ [(s, True)]" u True vs] by simp
qed

text \<open>No block that is lent is on the remote stack.\<close>

lemma parked_elsewhere:
  assumes "parked_ok r m G rl" "(x, s) \<in> lent_runs G rl"
  shows "set rl \<subseteq> (\<lambda>(x, s). x + 16) ` (used_runs G - {(x, s)})"
proof
  fix p assume p: "p \<in> set rl"
  then have "p \<in> (\<lambda>(x, s). x + 16) ` used_runs G" using assms(1) unfolding parked_ok_def by blast
  then obtain y u where "(y, u) \<in> used_runs G" "p = y + 16" by auto
  moreover from this have "y \<noteq> x" using p lent_used[OF assms(2)] by auto
  ultimately show "p \<in> (\<lambda>(x, s). x + 16) ` (used_runs G - {(x, s)})" by force
qed

lemma runner_deallocate_step:
  assumes inv: "runner_inv k r w G rl" and x: "(x, s) \<in> lent_runs G rl"
  shows "\<exists>r' m' G'. deallocate_bytes k (adr (x + 16)) (r, cells w) = (r', m') \<and>
    runner_inv k r' (w\<lparr>cells := m'\<rparr>) G' rl \<and> lent_runs G' rl = lent_runs G rl - {(x, s)} \<and>
    core_only r r' \<and> extents G' = extents G \<and> quiet (used_runs G - {(x, s)}) (cells w) m' \<and>
    (\<exists>y t. (y, t, True) \<in> runs G' \<and> y \<le> x \<and> x + s \<le> y + t) \<and>
    confined (runner_area r) w (runner_area r') (w\<lparr>cells := m'\<rparr>)"
proof -
  have rc: "runner_core r (cells w) G" and pk: "parked_ok r (cells w) G rl" using inv by (simp_all add: runner_inv_def)
  have t: "tiled (cells w) G" using inv by (rule runner_inv_tiled)
  note xu = lent_used[OF x]
  obtain r' m' G' where d: "deallocate_bytes k (adr (x + 16)) (r, cells w) = (r', m')" "runner_core r' m' G'"
    "core_only r r'" "extents G' = extents G" "used_runs G' = used_runs G - {(x, s)}"
    "quiet (used_runs G - {(x, s)}) (cells w) m'" "\<exists>y t. (y, t, True) \<in> runs G' \<and> y \<le> x \<and> x + s \<le> y + t"
    "within G (cells w) m'"
    using deallocate_core[OF rc] xu by blast
  have pk': "parked_ok r' m' G' rl"
    by (rule parked_quiet[OF pk t d(6) Diff_subset parked_elsewhere[OF pk x]]) (use core_only_fields(3)[OF d(3)] d(5) in simp_all)
  have "runner_inv k r' (w\<lparr>cells := m'\<rparr>) G' rl" by (rule runner_inv_core[OF inv d(3,2,4) pk'])
  moreover have "lent_runs G' rl = lent_runs G rl - {(x, s)}" by (auto simp: lent_runs_def d(5))
  moreover note within_confined[OF inv d(8) core_only_fields(2)[OF d(3)]]
  ultimately show ?thesis using d by blast
qed

text \<open>A write into a used run, above its owner word.\<close>

lemma core_write:
  assumes rc: "runner_core r m G" and x: "(x, s) \<in> used_runs G" and a: "x + 16 \<le> a" "a < x + s"
  shows "runner_core r (m(adr a := v)) G" and "quiet (used_runs G - {(x, s)}) m (m(adr a := v))"
    and "within G m (m(adr a := v))"
proof -
  have t: "tiled m G" using coreD(1)[OF rc] .
  have a64: "a < 2 ^ 64" using used_range[OF t x] a by simp
  have "(x, s, False) \<in> runs G" using x by (simp add: useds_def)
  then show "within G m (m(adr a := v))" by (rule within_write) (use a a64 in simp_all)
  have other: "(m(adr a := v)) (adr c) = m (adr c)" if "c < 2 ^ 64" "c \<noteq> a" for c
    using that a64 by (simp add: adr_eq_iff)
  have apart: "c \<noteq> a" if y: "(y, u) \<in> used_runs G" "y + 8 \<le> c" "c < y + u" "(y, u) \<noteq> (x, s) \<or> c = y + 8" for y u c
  proof -
    have "(y, u) = (x, s) \<or> y + u \<le> x \<or> x + s \<le> y"
      using runs_apart[OF t, of x s False y u False] x y(1) by (auto simp: useds_def)
    then show ?thesis using y a by auto
  qed
  show "quiet (used_runs G - {(x, s)}) m (m(adr a := v))"
  proof (rule quietI)
    fix y u c assume y: "(y, u) \<in> used_runs G - {(x, s)}" "y + 8 \<le> c" "c < y + u"
    then have "c < 2 ^ 64" using used_range[OF t, of y u] by simp
    then show "(m(adr a := v)) (adr c) = m (adr c)" using apart[of y u c] y by (intro other) auto
  qed
  have "(m(adr a := v)) (adr (y + 8)) = rn_self r" if y: "(y, u) \<in> used_runs G" for y u
    using other[of "y + 8"] apart[OF y, of "y + 8"] used_range[OF t y] coreD(3)[OF rc y] by simp
  then show "runner_core r (m(adr a := v)) G"
    using tiles_write[OF coreD(2)[OF rc] x, of a v] a by (auto simp: runner_core_def)
qed

lemma runner_push_step:
  assumes inv: "runner_inv k r w G rl" and x: "(x, s) \<in> lent_runs G rl"
  defines "st \<equiv> runner_remote_push (adr (x + 16)) (r, cells w)"
  shows "runner_inv k (fst st) (w\<lparr>cells := snd st\<rparr>) G ((x + 16) # rl)"
    and "lent_runs G ((x + 16) # rl) = lent_runs G rl - {(x, s)}"
    and "quiet (used_runs G - {(x, s)}) (cells w) (snd st)"
    and "st = (r\<lparr>rn_remote := adr (x + 16)\<rparr>, (cells w)(adr (x + 16) := rn_remote r))"
    and "confined (runner_area r) w (runner_area (fst st)) (w\<lparr>cells := snd st\<rparr>)"
proof -
  have rc: "runner_core r (cells w) G" and pk: "parked_ok r (cells w) G rl" using inv by (simp_all add: runner_inv_def)
  have t: "tiled (cells w) G" using inv by (rule runner_inv_tiled)
  note xu = lent_used[OF x]
  then have x': "(x, s) \<in> used_runs G" "x + 16 \<notin> set rl" by simp_all
  note rg = used_range[OF t x'(1)]
  show st: "st = (r\<lparr>rn_remote := adr (x + 16)\<rparr>, (cells w)(adr (x + 16) := rn_remote r))"
    by (simp add: st_def runner_remote_push_def)
  have cw: "runner_core r ((cells w)(adr (x + 16) := rn_remote r)) G"
    "quiet (used_runs G - {(x, s)}) (cells w) ((cells w)(adr (x + 16) := rn_remote r))"
    "within G (cells w) ((cells w)(adr (x + 16) := rn_remote r))"
    using core_write[OF rc x'(1), of "x + 16"] rg by simp_all
  show "quiet (used_runs G - {(x, s)}) (cells w) (snd st)" using cw(2) by (simp add: st)
  show "confined (runner_area r) w (runner_area (fst st)) (w\<lparr>cells := snd st\<rparr>)"
    using within_confined[OF inv cw(3), of "fst st"] by (simp add: st)
  show "lent_runs G ((x + 16) # rl) = lent_runs G rl - {(x, s)}"
    using used_unique[OF t x'(1)] by (auto simp: lent_runs_def)
  have "parked_ok (r\<lparr>rn_remote := adr (x + 16)\<rparr>) ((cells w)(adr (x + 16) := rn_remote r)) G ((x + 16) # rl)"
    using pk x' rg by (auto simp: parked_ok_def)
  moreover have "runner_core (r\<lparr>rn_remote := adr (x + 16)\<rparr>) ((cells w)(adr (x + 16) := rn_remote r)) G"
    using cw(1) by (auto simp: runner_core_def tiles_def intro: binned_cong)
  ultimately show "runner_inv k (fst st) (w\<lparr>cells := snd st\<rparr>) G ((x + 16) # rl)"
    using inv by (simp add: st runner_inv_def world_ok_def chunk_backed_def chunks_match_def owned_bases_def)
qed

section \<open>Construction\<close>

lemma empty_core: "runner_core (runner_members sys self g) m []"
proof -
  have "bins_hold (runner_members sys self g) m (\<lambda>_. []) {}"
    by (auto simp: bins_hold_def spaced_def bin_ok_def runner_members_def bin_set_def)
  then show ?thesis by (auto simp: runner_core_def tiles_def tiled_def binned_def)
qed

lemma runner_members_inv:
  assumes "has_single_bit (detect_page_size (sys_sysconf sys))" "16 \<le> unat (detect_page_size (sys_sysconf sys))"
    and "world_ok w"
  shows "runner_inv k (runner_members sys self g) w [] []"
  using assms empty_core[of sys self g "cells w"]
  by (simp add: runner_inv_def parked_ok_def chunks_match_def owned_bases_def extents_def runner_members_def)

lemma runner_new_lazy_inv:
  assumes "has_single_bit (detect_page_size (sys_sysconf sys))" "16 \<le> unat (detect_page_size (sys_sysconf sys))"
    and "world_ok w"
  shows "runner_inv k (runner_new_lazy sys self n) w [] []"
  using runner_members_inv[OF assms] by (simp add: runner_new_lazy_def runner_inv_growth)

text \<open>The first chunk comes whole, or the constructor throws and keeps nothing.\<close>

lemma runner_new_step:
  assumes page: "has_single_bit (detect_page_size (sys_sysconf sys))" "16 \<le> unat (detect_page_size (sys_sysconf sys))"
    and wok: "world_ok w" and steady: "sys_steady sys w"
  shows "case runner_new k sys self n w of
      (Inl e, w') \<Rightarrow> e = Bad_alloc \<and> live w' = live w \<and> cells w' = cells w
    | (Inr r, w') \<Rightarrow> \<exists>b s node. runner_inv k r w' [(b, [(s, True)])] [] \<and> unat n \<le> s + 16 \<and>
        rn_self r = self \<and> rn_next_growth r = adr (s + 16) \<and> later sys w w' \<and>
        confined {} w (runner_area r) w' \<and>
        owned_bases r = [adr b, node] \<and>
        live w' = \<lparr>r_base = adr b, r_bytes = adr (s + 16), r_align = owned_alignment k\<rparr> #
                  \<lparr>r_base = node, r_bytes = sizeof_chunk_node, r_align = alignof_max_align\<rparr> # live w"
proof -
  let ?r0 = "runner_members sys self (max n 65536)"
  have inv0: "runner_inv k ?r0 w [] []" by (rule runner_members_inv[OF page wok])
  obtain res r1 w1 where add: "add_owned_chunk k sys n ?r0 w = (res, r1, w1)" by (metis prod_cases3)
  have out: "chunk_outcome k n [] [] ?r0 w (res, r1, w1)" "later sys w w1"
    using add_owned_chunk_outcome[OF inv0 steady, of n] add by simp_all
  show ?thesis
  proof (cases res)
    case (Inl e)
    then show ?thesis using out by (simp add: runner_new_def add chunk_outcome_def)
  next
    case (Inr c)
    then obtain b s node where o: "unat c = s + 16" "unat n \<le> unat c" "runner_inv k r1 w1 [(b, [(s, True)])] []"
      "live w1 = \<lparr>r_base = adr b, r_bytes = c, r_align = owned_alignment k\<rparr> #
                  \<lparr>r_base = node, r_bytes = sizeof_chunk_node, r_align = alignof_max_align\<rparr> # live w"
      "rn_self r1 = rn_self ?r0" "owned_bases r1 = adr b # node # owned_bases ?r0"
      "confined (runner_area ?r0) w (runner_area r1) w1"
      using out(1) by (auto simp: chunk_outcome_def)
    have c: "c = adr (s + 16)" using o(1) by (metis adr_unat)
    have "runner_area ?r0 = {}" "runner_area (r1\<lparr>rn_next_growth := c\<rparr>) = runner_area r1"
      by (simp_all add: runner_area_def owns_run_def runner_members_def)
    then have "confined {} w (runner_area (r1\<lparr>rn_next_growth := c\<rparr>)) w1" using o(7) by simp
    moreover have "rn_self r1 = self" "owned_bases r1 = [adr b, node]" using o(5,6) by (simp_all add: runner_members_def owned_bases_def)
    ultimately show ?thesis
      using o out(2) by (auto simp: runner_new_def add Inr c runner_inv_growth owned_bases_def)
  qed
qed

text \<open>A chunk in the caller's memory.\<close>

lemma runner_new_external_step:
  assumes page: "has_single_bit (detect_page_size (sys_sysconf sys))" "16 \<le> unat (detect_page_size (sys_sysconf sys))"
    and wok: "world_ok w"
    and reg: "reg \<in> set (live w)" "unat (r_base reg) \<le> unat data" "unat data + unat bytes \<le> region_end reg" "region_ok reg"
  shows "case runner_new_external sys self data bytes (cells w) of
      Inl e \<Rightarrow> e \<noteq> Bad_alloc \<and> \<not> (\<exists>b. 16 dvd b \<and> unat data \<le> b \<and> b + 64 \<le> unat data + unat bytes)
    | Inr (r, m') \<Rightarrow> \<exists>b s. runner_inv k r (w\<lparr>cells := m'\<rparr>) [(b, [(s, True)])] [] \<and> rn_self r = self \<and>
        unat data \<le> b \<and> b < unat data + 16 \<and> b + s + 16 \<le> unat data + unat bytes \<and>
        unat data + unat bytes < b + s + 32 \<and> owned_bases r = []"
proof -
  have lim: "unat data + unat bytes < 2 ^ 64" using reg(3,4) by (simp add: region_ok_def)
  have pos: "0 < unat data" using reg(2,4) by (auto simp: region_ok_def unat_gt_0 dest: unat_gt_0[THEN iffD2])
  have mc: "unat min_chunk_bytes = 64" "min_chunk_bytes \<noteq> 0" by (simp_all add: run_constants)
  have ra: "has_single_bit run_alignment" "unat run_alignment = 16" using has_single_bit_16 by (simp_all add: run_constants)
  let ?r0 = "runner_members sys self 0"
  show ?thesis
  proof (cases "bytes = 0")
    case True
    then show ?thesis by (auto simp: runner_new_external_def add_external_chunk_def)
  next
    case nz: False
    show ?thesis
    proof (cases "std_align run_alignment min_chunk_bytes data bytes")
      case None
      have "\<not> (\<exists>b. 16 dvd b \<and> unat data \<le> b \<and> b + 64 \<le> unat data + unat bytes)"
        using std_align_NoneD[OF ra(1) None] ra(2) mc(1) by auto
      then show ?thesis using None nz by (simp add: runner_new_external_def add_external_chunk_def)
    next
      case (Some as)
      obtain aligned space where as: "as = (aligned, space)" by (cases as)
      have room: "unat data + unat bytes \<le> 2 ^ 64" using lim by simp
      note sa = std_align_SomeD[OF ra(1) Some[unfolded as] room mc(2), unfolded ra(2) mc(1)]
      define b where "b = unat aligned"
      define cb where "cb = space - space mod run_alignment"
      have "unat (space mod run_alignment) = unat space mod 16" by (simp add: unat_mod ra(2))
      moreover have "space mod run_alignment \<le> space" by (simp add: word_le_nat_alt unat_mod)
      ultimately have cb: "unat cb = unat space - unat space mod 16" by (simp add: cb_def unat_sub)
      have q: "unat cb = 16 * (unat space div 16)" unfolding cb by (rule minus_mod_eq_mult_div)
      moreover have "4 \<le> unat space div 16" using div_le_mono[OF sa(5), of 16] by simp
      moreover have "unat space = 16 * (unat space div 16) + unat space mod 16" "unat space mod 16 < 16" by simp_all
      ultimately have "64 \<le> unat cb" "unat cb \<le> unat space" "unat space < unat cb + 16" by linarith+
      moreover have "16 dvd unat cb" by (simp add: q)
      ultimately have cbp: "16 dvd unat cb" "64 \<le> unat cb" "unat cb \<le> unat space" "unat space < unat cb + 16"
        by blast+
      define s where "s = unat cb - 16"
      have cbs: "cb = adr (s + 16)" "unat cb = s + 16" using cbp(2) by (simp_all add: s_def)
      have "16 dvd s" unfolding s_def by (rule dvd_diff_nat[OF cbp(1)]) simp
      moreover have "0 < b" using sa(2) pos by (simp add: b_def)
      moreover have "16 dvd b" using sa(1) by (simp add: b_def)
      moreover have "48 \<le> s" using cbp(2) by (simp add: s_def)
      moreover have ends: "b + s + 16 \<le> unat data + unat bytes" using sa(4) cbp(3) cbs(2) unfolding b_def by linarith
      moreover from this have "b + s + 16 < 2 ^ 64" using lim by linarith
      ultimately have bs: "0 < b" "16 dvd b" "48 \<le> s" "16 dvd s" "b + s + 16 < 2 ^ 64" by blast+
      let ?c = "\<lparr>cn_node = nullptr, cn_begin = aligned, cn_bytes = cb, cn_mapping_base = nullptr, cn_mapping_bytes = 0\<rparr>"
      let ?r = "?r0\<lparr>rn_chunks := ?c # rn_chunks ?r0\<rparr>"
      have "runner_core ?r (cells w) []"
        using empty_core[of sys self 0 "cells w"] by (auto simp: runner_core_def tiles_def intro: binned_cong)
      then obtain r' m' where i: "initialize_free_run (adr b) (adr (s + 16)) (?r, cells w) = (r', m')"
        "runner_core r' m' [(b, [(s, True)])]" "core_only ?r r'"
        using initialize_core[of ?r "cells w" "[]" b s] bs by auto
      note f = core_only_fields[OF i(3)]
      have ge: "\<not> cb < min_chunk_bytes" using cbp(2) by (simp add: word_less_nat_alt mc(1))
      have eq: "runner_new_external sys self data bytes (cells w) = Inr (r', m')"
        using nz Some ge i(1)
        by (simp add: runner_new_external_def add_external_chunk_def as cb_def[symmetric] Let_def b_def cbs(1))
      have "chunk_backed k w ?c"
        using reg ends sa(2) cbs(2) by (auto simp: chunk_backed_def b_def intro!: bexI[of _ reg])
      then have backed: "\<forall>c \<in> set (rn_chunks r'). chunk_backed k (w\<lparr>cells := m'\<rparr>) c"
        using f(2) by (simp add: runner_members_def chunk_backed_def)
      have "runner_inv k r' (w\<lparr>cells := m'\<rparr>) [(b, [(s, True)])] []"
        using i(2) f page wok backed cbs(2)
        by (simp add: runner_inv_def parked_ok_def runner_members_def chunks_match_def extents_def
            owned_bases_def node_bases_def world_ok_def b_def)
      moreover have "rn_self r' = self" "owned_bases r' = []"
        using f by (simp_all add: runner_members_def owned_bases_def node_bases_def)
      moreover have "unat data + unat bytes < b + s + 32" using sa(4) cbp(4) cbs(2) by (simp add: b_def)
      ultimately show ?thesis using sa(2,3) ends by (auto simp: eq b_def)
    qed
  qed
qed

section \<open>Release\<close>

lemma release_chunk_live:
  assumes backed: "chunk_backed k w c" and dis: "distinct (map r_base (live w))" "distinct (node_bases c)"
    and linux: "rg_huge k = Huge_enabled \<longrightarrow> sys_linux sys"
  shows "live (release_chunk k sys c w) = filter (\<lambda>r. r_base r \<notin> set (node_bases c)) (live w)"
    and "cells (release_chunk k sys c w) = cells w"
proof -
  have "live (release_chunk k sys c w) = filter (\<lambda>r. r_base r \<notin> set (node_bases c)) (live w) \<and>
      cells (release_chunk k sys c w) = cells w"
  proof (cases "cn_mapping_base c = nullptr")
    case True
    then show ?thesis by (simp add: release_chunk_def node_bases_def)
  next
    case False
    let ?ar = "\<lparr>r_base = cn_mapping_base c, r_bytes = cn_mapping_bytes c, r_align = owned_alignment k\<rparr>"
    let ?nr = "\<lparr>r_base = cn_node c, r_bytes = sizeof_chunk_node, r_align = alignof_max_align\<rparr>"
    let ?om = "\<lparr>om_base = cn_mapping_base c, om_bytes = cn_mapping_bytes c,
                om_alignment = (if rg_huge k = Huge_enabled then explicit_huge_page_bytes else run_alignment)\<rparr>"
    have mem: "?ar \<in> set (live w)" "?nr \<in> set (live w)" using backed False by (simp_all add: chunk_backed_def)
    have ne: "cn_mapping_base c \<noteq> cn_node c" using dis(2) False by (simp add: node_bases_def)
    let ?w1 = "release_owned_memory sys (rg_huge k) ?om w"
    have l1: "live ?w1 = filter (\<lambda>r. r_base r \<noteq> r_base ?ar) (live w)" "cells ?w1 = cells w"
      using False linux drop_first_base[OF dis(1) mem(1), of "\<lambda>r. r_base r = cn_mapping_base c \<and> r_bytes r = cn_mapping_bytes c"]
        drop_first_base[OF dis(1) mem(1), of "\<lambda>r. r_base r = cn_mapping_base c \<and> r_align r = owned_alignment k"]
      by (auto simp: release_owned_memory_def sys_unmap_def op_delete_def owned_alignment_def)
    have d1: "distinct (map r_base (live ?w1))"
      unfolding l1 using dis(1) by (simp add: distinct_map inj_on_def)
    have m1: "?nr \<in> set (live ?w1)" unfolding l1 using mem(2) ne by simp
    have "live (release_chunk k sys c w) = filter (\<lambda>r. r_base r \<noteq> r_base ?nr) (live ?w1)"
      using False drop_first_base[OF d1 m1, of "\<lambda>r. r_base r = cn_node c \<and> r_align r = alignof_max_align"]
      by (simp add: release_chunk_def op_delete_def)
    then show ?thesis
      using False l1 by (auto simp: release_chunk_def node_bases_def intro: filter_cong)
  qed
  then show "live (release_chunk k sys c w) = filter (\<lambda>r. r_base r \<notin> set (node_bases c)) (live w)"
    "cells (release_chunk k sys c w) = cells w" by blast+
qed

lemma release_run_chunks_live:
  assumes "\<forall>c \<in> set cs. chunk_backed k w c" "distinct (map r_base (live w))"
    and "distinct (concat (map node_bases cs))" "rg_huge k = Huge_enabled \<longrightarrow> sys_linux sys"
    and "\<forall>c \<in> set cs. cn_mapping_base c \<noteq> nullptr"
  shows "live (foldl (\<lambda>w c. release_chunk k sys c w) w cs) =
      filter (\<lambda>r. r_base r \<notin> set (concat (map node_bases cs))) (live w) \<and>
    cells (foldl (\<lambda>w c. release_chunk k sys c w) w cs) = cells w"
  using assms
proof (induction cs arbitrary: w)
  case Nil
  then show ?case by simp
next
  case (Cons c cs)
  let ?w1 = "release_chunk k sys c w"
  have r: "live ?w1 = filter (\<lambda>r. r_base r \<notin> set (node_bases c)) (live w)" "cells ?w1 = cells w"
    using release_chunk_live[of k w c sys] Cons.prems by auto
  have "distinct (map r_base (live ?w1))"
    unfolding r using Cons.prems(2) by (simp add: distinct_map inj_on_def)
  moreover have "\<forall>d \<in> set cs. chunk_backed k ?w1 d"
  proof
    fix d assume d: "d \<in> set cs"
    have "chunk_backed k w d" "cn_mapping_base d \<noteq> 0" using Cons.prems(1,5) d by auto
    moreover have "set (node_bases d) \<inter> set (node_bases c) = {}" using Cons.prems(3) d by auto
    ultimately show "chunk_backed k ?w1 d" by (auto simp: chunk_backed_def r node_bases_def)
  qed
  moreover have "distinct (concat (map node_bases cs))" using Cons.prems(3) by simp
  ultimately have "live (foldl (\<lambda>w c. release_chunk k sys c w) ?w1 cs) =
      filter (\<lambda>r. r_base r \<notin> set (concat (map node_bases cs))) (live ?w1) \<and>
    cells (foldl (\<lambda>w c. release_chunk k sys c w) ?w1 cs) = cells ?w1"
    using Cons.IH Cons.prems(4,5) by simp
  then show ?case unfolding r by (auto intro: filter_cong)
qed

text \<open>External chunks are skipped.\<close>

lemma release_owned_live:
  assumes inv: "runner_inv k r w G rl" and linux: "rg_huge k = Huge_enabled \<longrightarrow> sys_linux sys"
  shows "live (release_owned_chunks k sys r w) = filter (\<lambda>reg. r_base reg \<notin> set (owned_bases r)) (live w)"
    and "cells (release_owned_chunks k sys r w) = cells w"
proof -
  let ?own = "filter (\<lambda>c. cn_mapping_base c \<noteq> nullptr) (rn_chunks r)"
  have skip: "release_owned_chunks k sys r w = foldl (\<lambda>w c. release_chunk k sys c w) w ?own"
  proof -
    have "foldl (\<lambda>w c. release_chunk k sys c w) w cs =
        foldl (\<lambda>w c. release_chunk k sys c w) w (filter (\<lambda>c. cn_mapping_base c \<noteq> nullptr) cs)" for cs w
      by (induction cs arbitrary: w) (auto simp: release_chunk_def)
    then show ?thesis by (simp add: release_owned_chunks_def)
  qed
  have ob: "concat (map node_bases ?own) = owned_bases r"
  proof -
    have "concat (map node_bases (filter (\<lambda>c. cn_mapping_base c \<noteq> nullptr) cs)) = concat (map node_bases cs)" for cs
      by (induction cs) (auto simp: node_bases_def)
    then show ?thesis by (simp add: owned_bases_def)
  qed
  have "live (foldl (\<lambda>w c. release_chunk k sys c w) w ?own) =
      filter (\<lambda>r. r_base r \<notin> set (concat (map node_bases ?own))) (live w) \<and>
    cells (foldl (\<lambda>w c. release_chunk k sys c w) w ?own) = cells w"
    by (rule release_run_chunks_live) (use inv linux ob in \<open>auto simp: runner_inv_def world_ok_def\<close>)
  then show "live (release_owned_chunks k sys r w) = filter (\<lambda>reg. r_base reg \<notin> set (owned_bases r)) (live w)"
    "cells (release_owned_chunks k sys r w) = cells w" unfolding skip ob by blast+
qed

end
