(* ===== verification/Runner_Correct.thy ===== *)
theory Runner_Correct
  imports Runner_Life Block_Source
begin

text \<open>
  The runner as a source of blocks, and the properties of its operations: allocation, deallocation
  with coalescing, expansion in place, the remote stack, routing by owner, construction, release.
\<close>

section \<open>Expansion\<close>

lemma runner_expand_step:
  assumes inv: "runner_inv k r w G rl" and x: "(x, s) \<in> lent_runs G rl"
  shows "\<exists>r' m' G' t. runner_expand k (adr (x + 16)) n (r, cells w) = (adr (t - 16), (r', m')) \<and>
    runner_inv k r' (w\<lparr>cells := m'\<rparr>) G' rl \<and> rn_self r' = rn_self r \<and> s \<le> t \<and>
    lent_runs G' rl = insert (x, t) (lent_runs G rl - {(x, s)}) \<and>
    quiet (lent_runs G rl - {(x, s)}) (cells w) m' \<and>
    (\<forall>a. x + 16 \<le> a \<and> a < x + s \<longrightarrow> m' (adr a) = cells w (adr a)) \<and>
    (unat n + 16 \<le> t \<or> t = s \<and> r' = r \<and> m' = cells w \<and>
       (\<forall>u. (x + s, u, True) \<in> runs G \<longrightarrow> s + u < run_bytes_nat (unat n))) \<and>
    confined (runner_area r) w (runner_area r') (w\<lparr>cells := m'\<rparr>)"
proof -
  have rc: "runner_core r (cells w) G" and pk: "parked_ok r (cells w) G rl" using inv by (simp_all add: runner_inv_def)
  note t = runner_inv_tiled[OF inv] and xu = lent_used[OF x]
  obtain r' m' G' u where e: "runner_expand k (adr (x + 16)) n (r, cells w) = (adr (u - 16), (r', m'))"
    "runner_core r' m' G'" "core_only r r'" "extents G' = extents G" "s \<le> u"
    "used_runs G' = insert (x, u) (used_runs G - {(x, s)})" "quiet (used_runs G - {(x, s)}) (cells w) m'"
    "\<forall>a. x + 16 \<le> a \<and> a < x + s \<longrightarrow> m' (adr a) = cells w (adr a)"
    "unat n + 16 \<le> u \<or> u = s \<and> r' = r \<and> m' = cells w \<and>
       (\<forall>v. (x + s, v, True) \<in> runs G \<longrightarrow> s + v < run_bytes_nat (unat n))"
    "within G (cells w) m'"
    using runner_expand_core[OF rc, of x s k n] xu by blast
  have pk': "parked_ok r' m' G' rl"
    by (rule parked_quiet[OF pk t e(7) Diff_subset parked_elsewhere[OF pk x]])
      (use core_only_fields(3)[OF e(3)] e(6) in auto)
  have "runner_inv k r' (w\<lparr>cells := m'\<rparr>) G' rl" by (rule runner_inv_core[OF inv e(3,2,4) pk'])
  moreover have "lent_runs G' rl = insert (x, u) (lent_runs G rl - {(x, s)})"
    using xu by (auto simp: lent_runs_def e(6))
  moreover have "quiet (lent_runs G rl - {(x, s)}) (cells w) m'"
    using quiet_mono[OF e(7)] lent_sub[of G rl] by (simp add: Diff_mono)
  moreover have "rn_self r' = rn_self r" using core_only_fields[OF e(3)] by blast
  moreover note within_confined[OF inv e(10) core_only_fields(2)[OF e(3)]]
  ultimately show ?thesis using e(1,5,8,9) by blast
qed

section \<open>The runner as a source of blocks\<close>

text \<open>The blocks a client holds, by their addresses, and how many bytes each has.\<close>

definition payloads :: "(nat \<times> nat) set \<Rightarrow> nat set" where
  "payloads L = (\<lambda>(x, t). x + 16) ` L"

definition runner_holds :: "run_cfg \<Rightarrow> runner \<times> world \<Rightarrow> nat set \<Rightarrow> bool" where
  "runner_holds k s L \<longleftrightarrow> (\<exists>G rl. runner_inv k (fst s) (snd s) G rl \<and> L = payloads (lent_runs G rl))"

definition payload_bytes :: "memory \<Rightarrow> nat \<Rightarrow> nat" where
  "payload_bytes m y = unat (run_size m (adr (y - 16))) - 16"

definition runner_request :: "run_cfg \<Rightarrow> sys \<Rightarrow> u64 \<times> u64 \<Rightarrow> runner \<times> world \<Rightarrow> ((exn + ptr) \<times> runner \<times> world) option" where
  "runner_request k sys q s = allocate_bytes k sys (fst q) (snd q) (fst s) (snd s)"

definition runner_return :: "run_cfg \<Rightarrow> way \<Rightarrow> ptr \<Rightarrow> runner \<times> world \<Rightarrow> (runner \<times> world) option" where
  "runner_return k v p s =
     (let op = (case v of Local \<Rightarrow> deallocate_bytes k p (fst s, cells (snd s))
                        | Parked \<Rightarrow> runner_remote_push p (fst s, cells (snd s)))
      in Some (fst op, (snd s)\<lparr>cells := snd op\<rparr>))"

definition runner_resize :: "run_cfg \<Rightarrow> u64 \<Rightarrow> ptr \<Rightarrow> runner \<times> world \<Rightarrow> (runner \<times> world) option" where
  "runner_resize k n p s =
     (case runner_expand k p n (fst s, cells (snd s)) of (_, r, m) \<Rightarrow> Some (r, (snd s)\<lparr>cells := m\<rparr>))"

lemma payloads_simps [simp]: "payloads (insert (x, t) L) = insert (x + 16) (payloads L)" "payloads {} = {}"
  by (simp_all add: payloads_def)

lemma lent_size:
  assumes "tiled m G" "(x, t) \<in> lent_runs G rl"
  shows "payload_bytes m (x + 16) = t - 16" "48 \<le> t"
proof -
  have r: "(x, t, False) \<in> runs G" using assms(2) by (auto simp: lent_runs_def useds_def)
  note b = run_bounds[OF assms(1) r]
  show "payload_bytes m (x + 16) = t - 16" "48 \<le> t" using b(3,5,6) by (simp_all add: payload_bytes_def unat_adr)
qed

lemma payloads_minus:
  assumes "tiled m G" "(x, t) \<in> lent_runs G rl"
  shows "payloads (lent_runs G rl - {(x, t)}) = payloads (lent_runs G rl) - {x + 16}"
proof -
  have "(y, u) = (x, t)" if "(y, u) \<in> lent_runs G rl" "y = x" for y u
    using used_unique[OF assms(1), of x u t] that assms(2) lent_used by blast
  then show ?thesis by (auto simp: payloads_def)
qed

text \<open>A step that is quiet on blocks that stay lent keeps their sizes and contents.\<close>

lemma quiet_keeps:
  assumes "tiled (cells w) G" "tiled (cells w') G'" "quiet L (cells w) (cells w')"
    and "L \<subseteq> lent_runs G rl" "L \<subseteq> lent_runs G' rl'"
  shows "keeps (\<lambda>s. payload_bytes (cells (snd s))) (\<lambda>s. cells (snd s)) (payloads L) (r, w) (r', w')"
proof -
  have "payload_bytes (cells w') y = payload_bytes (cells w) y \<and>
      (\<forall>i < payload_bytes (cells w) y. cells w' (adr (y + i)) = cells w (adr (y + i)))"
    if y: "y \<in> payloads L" for y
  proof -
    obtain x t where x: "(x, t) \<in> L" "y = x + 16" using y by (auto simp: payloads_def)
    have sz: "payload_bytes (cells w) y = t - 16" "payload_bytes (cells w') y = t - 16" "48 \<le> t"
      using lent_size[OF assms(1), of x t rl] lent_size[OF assms(2), of x t rl'] assms(4,5) x by auto
    then show ?thesis using quietD[OF assms(3) x(1)] x(2) by simp
  qed
  then show ?thesis by (simp add: keeps_def)
qed

lemma lent_runs_apart:
  assumes t: "tiled m G" and x: "(x, s) \<in> lent_runs G rl" and y: "(y, u) \<in> lent_runs G rl" and ne: "x \<noteq> y"
  shows "x + s \<le> y \<or> y + u \<le> x"
  using runs_apart[OF t, of x s False y u False] lent_used[OF x] lent_used[OF y] ne by (auto simp: useds_def)

lemma request_bytes_ge: "unat bytes + 16 \<le> request_bytes bytes"
  using run_bytes_nat_props[of "max 1 (unat bytes)"] by (simp add: request_bytes_def)

text \<open>Allocation as the laws want it.\<close>

lemma runner_request_law:
  assumes inv: "runner_inv k r w G rl" and steady: "sys_steady sys w"
  shows "\<exists>ans r' w'. runner_request k sys q (r, w) = Some (ans, r', w') \<and>
    alloc_answer (runner_holds k) (\<lambda>s. payload_bytes (cells (snd s))) (unat (fst q))
      (payloads (lent_runs G rl)) ans (r', w') \<and>
    keeps (\<lambda>s. payload_bytes (cells (snd s))) (\<lambda>s. cells (snd s)) (payloads (lent_runs G rl)) (r, w) (r', w')"
proof (cases "request_ok (fst q) (snd q)")
  case False
  obtain r' where a: "allocate_bytes k sys (fst q) (snd q) r w = Some (Inr nullptr, r', w)" "stats_only r r'"
    using allocate_bytes_refused[OF inv False] by blast
  have "runner_holds k (r', w) (payloads (lent_runs G rl))"
    using runner_inv_stats[OF inv a(2)] by (auto simp: runner_holds_def)
  then show ?thesis using a(1) by (simp add: runner_request_def alloc_answer_def keeps_def)
next
  case True
  obtain ans r' w' where a: "allocate_bytes k sys (fst q) (snd q) r w = Some (ans, r', w')"
    "runner_post k (lent_runs G rl) r w (request_bytes (fst q)) (ans, r', w')"
    using allocate_bytes_post[OF inv steady True] by (metis prod_cases3)
  obtain G' rl' where p: "runner_inv k r' w' G' rl'" "quiet (lent_runs G rl) (cells w) (cells w')"
    "answer_ok k (lent_runs G rl) (rn_deferred_bytes r) (request_bytes (fst q)) ans G' rl'"
    using a(2) by (auto simp: runner_post_def)
  note t = runner_inv_tiled[OF inv] runner_inv_tiled[OF p(1)]
  have sub: "lent_runs G rl \<subseteq> lent_runs G' rl'"
    using p(3) by (auto simp: answer_ok_def granted_def split: sum.splits if_splits)
  have "alloc_answer (runner_holds k) (\<lambda>s. payload_bytes (cells (snd s))) (unat (fst q))
      (payloads (lent_runs G rl)) ans (r', w')"
  proof (cases "\<exists>a. ans = Inr a \<and> a \<noteq> nullptr")
    case False
    then have "lent_runs G' rl' = lent_runs G rl" using p(3) by (auto simp: answer_ok_def split: sum.splits if_splits)
    then have "runner_holds k (r', w') (payloads (lent_runs G rl))"
      unfolding runner_holds_def using p(1) by (intro exI[of _ G'] exI[of _ rl']) simp
    then show ?thesis using False by (auto simp: alloc_answer_def split: sum.splits)
  next
    case True
    then obtain a where a: "ans = Inr a" "a \<noteq> nullptr" by blast
    then obtain x u where x: "a = adr (x + 16)" "request_bytes (fst q) \<le> u"
      "lent_runs G' rl' = insert (x, u) (lent_runs G rl)" "\<forall>v. (x, v) \<notin> lent_runs G rl"
      using p(3) by (auto simp: answer_ok_def granted_def)
    have "(x, u) \<in> lent_runs G' rl'" using x(3) by simp
    note sz = lent_size[OF t(2) this] and ru = used_range[OF t(2) lent_used[OF this, THEN conjunct1]]
    have ua: "unat a = x + 16" using ru x(1) by (simp add: unat_adr)
    have "runner_holds k (r', w') (insert (x + 16) (payloads (lent_runs G rl)))"
      unfolding runner_holds_def using p(1) x(3) by (intro exI[of _ G'] exI[of _ rl']) simp
    moreover have "x + 16 \<notin> payloads (lent_runs G rl)" using x(4) by (auto simp: payloads_def)
    ultimately show ?thesis
      using a ua sz x(2) request_bytes_ge[of "fst q"] by (simp add: alloc_answer_def)
  qed
  moreover note quiet_keeps[OF t p(2) subset_refl sub]
  ultimately show ?thesis using a(1) by (simp add: runner_request_def)
qed

lemma runner_return_law:
  assumes inv: "runner_inv k r w G rl" and x: "(x, s) \<in> lent_runs G rl"
  shows "\<exists>s'. runner_return k v (adr (x + 16)) (r, w) = Some s' \<and>
    runner_holds k s' (payloads (lent_runs G rl) - {x + 16}) \<and>
    keeps (\<lambda>s. payload_bytes (cells (snd s))) (\<lambda>s. cells (snd s)) (payloads (lent_runs G rl) - {x + 16}) (r, w) s'"
proof -
  note t = runner_inv_tiled[OF inv]
  have "\<exists>r' m' G' rl'. (case v of Local \<Rightarrow> deallocate_bytes k (adr (x + 16)) (r, cells w)
                        | Parked \<Rightarrow> runner_remote_push (adr (x + 16)) (r, cells w)) = (r', m') \<and>
      runner_inv k r' (w\<lparr>cells := m'\<rparr>) G' rl' \<and> lent_runs G' rl' = lent_runs G rl - {(x, s)} \<and>
      quiet (used_runs G - {(x, s)}) (cells w) m'"
  proof (cases v)
    case Local
    then show ?thesis using runner_deallocate_step[OF inv x] by auto
  next
    case Parked
    then show ?thesis using runner_push_step[OF inv x] by (auto intro!: exI[of _ G])
  qed
  then obtain r' m' G' rl' where op: "(case v of Local \<Rightarrow> deallocate_bytes k (adr (x + 16)) (r, cells w)
                        | Parked \<Rightarrow> runner_remote_push (adr (x + 16)) (r, cells w)) = (r', m')"
    "runner_inv k r' (w\<lparr>cells := m'\<rparr>) G' rl'" "lent_runs G' rl' = lent_runs G rl - {(x, s)}"
    "quiet (used_runs G - {(x, s)}) (cells w) m'"
    by blast
  have q: "quiet (lent_runs G rl - {(x, s)}) (cells w) (cells (w\<lparr>cells := m'\<rparr>))"
    using quiet_mono[OF op(4)] lent_sub[of G rl] by (simp add: Diff_mono)
  have sub: "lent_runs G rl - {(x, s)} \<subseteq> lent_runs G' rl'" by (simp add: op(3))
  note keep = quiet_keeps[OF t runner_inv_tiled[OF op(2)] q Diff_subset sub, of r r', unfolded payloads_minus[OF t x]]
  have "runner_holds k (r', w\<lparr>cells := m'\<rparr>) (payloads (lent_runs G rl) - {x + 16})"
    unfolding runner_holds_def using op(2,3) payloads_minus[OF t x] by (intro exI[of _ G'] exI[of _ rl']) simp
  moreover have "runner_return k v (adr (x + 16)) (r, w) = Some (r', w\<lparr>cells := m'\<rparr>)"
    by (simp only: runner_return_def fst_conv snd_conv op(1) Let_def)
  ultimately show ?thesis using keep by blast
qed

lemma runner_store_law:
  assumes inv: "runner_inv k r w G rl" and x: "(x, s) \<in> lent_runs G rl" and i: "i < s - 16"
  shows "runner_inv k r (w\<lparr>cells := (cells w)(adr (x + 16 + i) := b)\<rparr>) G rl"
proof -
  have rc: "runner_core r (cells w) G" and pk: "parked_ok r (cells w) G rl" using inv by (simp_all add: runner_inv_def)
  note t = runner_inv_tiled[OF inv] and u = lent_used[OF x, THEN conjunct1]
  have a: "x + 16 \<le> x + 16 + i" "x + 16 + i < x + s" using i by simp_all
  note cw = core_write[OF rc u a, of b]
  from parked_quiet[OF pk t cw(2) Diff_subset parked_elsewhere[OF pk x] refl Diff_subset] show ?thesis
    by (intro runner_inv_core[OF inv _ cw(1) refl]) simp_all
qed

abbreviation kept :: "nat set \<Rightarrow> memory \<Rightarrow> memory \<Rightarrow> bool" where
  "kept \<equiv> keeps payload_bytes (\<lambda>m. m)"

text \<open>Expansion in place.\<close>

lemma held_expand:
  assumes h: "runner_holds k (r, w) H" and x: "x \<in> H"
  obtains n' r' m' where "runner_expand k (adr x) n (r, cells w) = (n', (r', m'))"
    "runner_holds k (r', w\<lparr>cells := m'\<rparr>) H" "rn_self r' = rn_self r" "kept (H - {x}) (cells w) m'"
    "unat n' = payload_bytes m' x" "payload_bytes (cells w) x \<le> payload_bytes m' x"
    "\<And>i. i < payload_bytes (cells w) x \<Longrightarrow> m' (adr (x + i)) = cells w (adr (x + i))"
    "n \<le> n' \<or> unat n' = payload_bytes (cells w) x \<and> r' = r \<and> m' = cells w"
    "confined (runner_area r) w (runner_area r') (w\<lparr>cells := m'\<rparr>)"
proof -
  obtain G rl where inv: "runner_inv k r w G rl" and H: "H = payloads (lent_runs G rl)"
    using h by (auto simp: runner_holds_def)
  then obtain y s where y: "(y, s) \<in> lent_runs G rl" "x = y + 16" using x by (auto simp: payloads_def)
  obtain r' m' G' t where e: "runner_expand k (adr (y + 16)) n (r, cells w) = (adr (t - 16), (r', m'))"
    "runner_inv k r' (w\<lparr>cells := m'\<rparr>) G' rl" "rn_self r' = rn_self r" "s \<le> t"
    "lent_runs G' rl = insert (y, t) (lent_runs G rl - {(y, s)})" "quiet (lent_runs G rl - {(y, s)}) (cells w) m'"
    "\<forall>a. y + 16 \<le> a \<and> a < y + s \<longrightarrow> m' (adr a) = cells w (adr a)"
    "unat n + 16 \<le> t \<or> t = s \<and> r' = r \<and> m' = cells w"
    "confined (runner_area r) w (runner_area r') (w\<lparr>cells := m'\<rparr>)"
    using runner_expand_step[OF inv y(1), of n] by blast
  note t0 = runner_inv_tiled[OF inv] and t1 = runner_inv_tiled[OF e(2)]
  have yt: "(y, t) \<in> lent_runs G' rl" using e(5) by simp
  have p0: "payload_bytes (cells w) x = s - 16" "48 \<le> s" using lent_size[OF t0 y(1)] y(2) by simp_all
  have p1: "payload_bytes m' x = t - 16" using lent_size[OF t1 yt] y(2) by simp
  have "y + t < 2 ^ 64" using used_range[OF t1] lent_used[OF yt] by fastforce
  then have n': "unat (adr (t - 16)) = payload_bytes m' x" by (simp add: unat_adr p1)
  have "payloads (lent_runs G' rl) = insert x (payloads (lent_runs G rl - {(y, s)}))" by (simp add: e(5) y(2))
  also have "\<dots> = H" using payloads_minus[OF t0 y(1)] x y(2) by (auto simp: H)
  finally have "runner_holds k (r', w\<lparr>cells := m'\<rparr>) H"
    using e(2) unfolding runner_holds_def by (intro exI[of _ G'] exI[of _ rl]) simp
  moreover have "keeps (\<lambda>s. payload_bytes (cells (snd s))) (\<lambda>s. cells (snd s)) (payloads (lent_runs G rl - {(y, s)}))
      (r, w) (r', w\<lparr>cells := m'\<rparr>)"
    by (rule quiet_keeps[OF t0 t1]) (use e(5,6) in auto)
  then have "kept (H - {x}) (cells w) m'"
    using payloads_minus[OF t0 y(1)] y(2) by (simp add: keeps_def H)
  moreover have "m' (adr (x + i)) = cells w (adr (x + i))" if "i < payload_bytes (cells w) x" for i
    using e(7) that p0 y(2) by simp
  moreover have "n \<le> adr (t - 16) \<or> unat (adr (t - 16)) = payload_bytes (cells w) x \<and> r' = r \<and> m' = cells w"
    using e(8) n' p0 p1 by (auto simp: word_le_nat_alt)
  moreover have "payload_bytes (cells w) x \<le> payload_bytes m' x" using e(4) p0 p1 by simp
  ultimately show thesis using that[of "adr (t - 16)" r' m'] e(1,3,9) n' y(2) by simp
qed

interpretation runner_source: block_source "runner_request k sys" "runner_return k" "runner_resize k" client_store
    "\<lambda>s. cells (snd s)" "runner_holds k" "\<lambda>s. payload_bytes (cells (snd s))" "\<lambda>q. unat (fst q)"
    "\<lambda>s. sys_steady sys (snd s)" "{Local, Parked}"
  for k sys
proof unfold_locales
  fix s L q
  assume "runner_holds k s L" "sys_steady sys (snd s)"
  then show "\<exists>r s'. runner_request k sys q s = Some (r, s') \<and>
      alloc_answer (runner_holds k) (\<lambda>s. payload_bytes (cells (snd s))) (unat (fst q)) L r s' \<and>
      keeps (\<lambda>s. payload_bytes (cells (snd s))) (\<lambda>s. cells (snd s)) L s s'"
    using runner_request_law[of k "fst s" "snd s" _ _ sys q] by (fastforce simp: runner_holds_def)
next
  fix s L x v
  assume "runner_holds k s L" and x: "x \<in> L"
  then obtain G rl where inv: "runner_inv k (fst s) (snd s) G rl" and L: "L = payloads (lent_runs G rl)"
    by (auto simp: runner_holds_def)
  then obtain y t where "(y, t) \<in> lent_runs G rl" "x = y + 16" using x by (auto simp: payloads_def)
  then show "\<exists>s'. runner_return k v (adr x) s = Some s' \<and> runner_holds k s' (L - {x}) \<and>
      keeps (\<lambda>s. payload_bytes (cells (snd s))) (\<lambda>s. cells (snd s)) (L - {x}) s s'"
    using runner_return_law[OF inv, of y t v] L by simp
next
  fix s L x n s'
  assume h: "runner_holds k s L" and x: "x \<in> L" and res: "runner_resize k n (adr x) s = Some s'"
  have h': "runner_holds k (fst s, snd s) L" using h by simp
  show "runner_holds k s' L \<and> extended (\<lambda>s. payload_bytes (cells (snd s))) (\<lambda>s. cells (snd s)) L x s s'"
    by (rule held_expand[OF h' x, where n = n]) (use res in \<open>auto simp: runner_resize_def extended_def keeps_def\<close>)
next
  fix s L x i b
  assume "runner_holds k s L" and x: "x \<in> L" and i: "i < payload_bytes (cells (snd s)) x"
  then obtain G rl where inv: "runner_inv k (fst s) (snd s) G rl" and L: "L = payloads (lent_runs G rl)"
    by (auto simp: runner_holds_def)
  then obtain y t where y: "(y, t) \<in> lent_runs G rl" "x = y + 16" using x by (auto simp: payloads_def)
  have "i < t - 16" using i lent_size[OF runner_inv_tiled[OF inv] y(1)] y(2) by simp
  then show "runner_holds k (client_store (x + i) b s) L"
    using runner_store_law[OF inv y(1)] y(2) L by (auto simp: runner_holds_def client_store_def)
next
  fix s L x y
  assume "runner_holds k s L" and xy: "x \<in> L" "y \<in> L" "x \<noteq> y"
  then obtain G rl where inv: "runner_inv k (fst s) (snd s) G rl" and L: "L = payloads (lent_runs G rl)"
    by (auto simp: runner_holds_def)
  note t = runner_inv_tiled[OF inv]
  obtain x' a y' c where p: "(x', a) \<in> lent_runs G rl" "x = x' + 16" "(y', c) \<in> lent_runs G rl" "y = y' + 16"
    using xy by (auto simp: L payloads_def)
  then show "x + payload_bytes (cells (snd s)) x \<le> y \<or> y + payload_bytes (cells (snd s)) y \<le> x"
    using lent_runs_apart[OF t p(1,3)] lent_size[OF t p(1)] lent_size[OF t p(3)] xy(3) by auto
qed

section \<open>Ownership\<close>

lemma owner_of_used:
  assumes "runner_inv k r w G rl" "(x, s) \<in> used_runs G"
  shows "owner_of (adr (x + 16)) (cells w) = rn_self r"
  using coreD(3)[of r "cells w" G x s] assms
  by (simp add: owner_of_def runner_inv_def sizeof_ptr_def adr_minus_numeral add.commute)

text \<open>Among the sizes up to 4096 a smaller bin means a smaller run, and an equal bin an equal one.\<close>

lemma bin_nat_best:
  assumes "8 dvd s" "8 dvd u" "bin_nat s \<le> bin_nat u" "s < 4096"
  shows "s \<le> u"
proof (cases "bin_nat s = bin_nat u")
  case True
  have "bin_nat s < 512" using assms(1,4) by (auto simp: bin_nat_def elim!: dvdE)
  then show ?thesis using bin_nat_linear[OF True] assms(1,2) by simp
next
  case False
  then show ?thesis using bin_nat_mono[of u s] assms(3) by linarith
qed

section \<open>The counter of a search\<close>

text \<open>The walk does not depend on where its counter starts.\<close>

lemma scan_bin_shift:
  assumes "scan_bin k n m h c = Some (h', c')"
  shows "scan_bin k n m h d = Some (h', d + (c' - c))"
proof -
  have "\<forall>d. scan_bin k n m h d = Some (fst y, d + (snd y - c))" if "scan_bin k n m h c = Some y" for y
  proof (rule scan_bin.raw_induct[where P = "\<lambda>k n m h c y. \<forall>d. scan_bin k n m h d = Some (fst y, d + (snd y - c))", OF _ that])
    fix scan k n m h c and y :: "ptr \<times> u64"
    assume IH: "\<And>k n m h c y. scan k n m h c = Some y \<Longrightarrow> \<forall>d. scan_bin k n m h d = Some (fst y, d + (snd y - c))"
      and eq: "(if h = 0 then Some (0, c)
        else let scan' = if rg_collect_stats k then c + 1 else c
             in if n \<le> run_size m h then Some (h, scan') else scan k n m (m (link_next h)) scan') = Some y"
    show "\<forall>d. scan_bin k n m h d = Some (fst y, d + (snd y - c))"
    proof (cases "h = 0 \<or> n \<le> run_size m h")
      case True
      then show ?thesis using eq by (subst scan_bin.simps) (auto simp: Let_def)
    next
      case False
      then have "scan k n m (m (link_next h)) (if rg_collect_stats k then c + 1 else c) = Some y"
        using eq by (simp add: Let_def)
      note step = IH[OF this]
      show ?thesis
      proof
        fix d
        show "scan_bin k n m h d = Some (fst y, d + (snd y - c))"
          using False step[rule_format, of "if rg_collect_stats k then d + 1 else d"]
          by (subst scan_bin.simps) (simp add: Let_def)
      qed
    qed
  qed
  from this[OF assms] show ?thesis by simp
qed

lemma find_fit_loop_shift:
  assumes "find_fit_loop k n start idx c r m = Some (h, c', r')"
  shows "find_fit_loop k n start idx d r m = Some (h, d + (c' - c), count_scanned k (d + (c' - c)) r) \<and>
    r' = count_scanned k c' r"
proof -
  define P where "P = (\<lambda>k n start idx c r m (y :: ptr \<times> u64 \<times> runner). \<forall>d. find_fit_loop k n start idx d r m =
      Some (fst y, d + (fst (snd y) - c), count_scanned k (d + (fst (snd y) - c)) r) \<and>
      snd (snd y) = count_scanned k (fst (snd y)) r)"
  have "P k n start idx c r m y" if "find_fit_loop k n start idx c r m = Some y" for y
  proof (rule find_fit_loop.raw_induct[where P = P, OF _ that])
    fix loop k n start idx c r m and y :: "ptr \<times> u64 \<times> runner"
    assume IH: "\<And>k n start idx c r m y. loop k n start idx c r m = Some y \<Longrightarrow> P k n start idx c r m y"
      and eq: "(if \<not> idx < bin_count then Some (0, c, count_scanned k c r)
        else if idx \<noteq> start \<or> idx < linear_bin_count
        then let scan' = if rg_collect_stats k then c + 1 else c
             in Some (rn_bins r (unat idx), scan', count_scanned k scan' r)
        else scan_bin k n m (rn_bins r (unat idx)) c \<bind>
          (\<lambda>(h, scan'). if h \<noteq> 0 then Some (h, scan', count_scanned k scan' r)
             else loop k n start (first_nonempty_bin_from (idx + 1) r) scan' r m)) = Some y"
    show "P k n start idx c r m y"
    proof (cases "idx < bin_count \<and> idx = start \<and> \<not> idx < linear_bin_count")
      case stop: False
      show ?thesis
      proof (cases "idx < bin_count")
        case True
        then have go: "idx \<noteq> start \<or> idx < linear_bin_count" using stop by blast
        then have "y = (rn_bins r (unat idx), if rg_collect_stats k then c + 1 else c,
            count_scanned k (if rg_collect_stats k then c + 1 else c) r)"
          using eq True by (simp add: Let_def split: if_splits)
        then show ?thesis using go True by (subst P_def, subst find_fit_loop.simps) (simp add: Let_def)
      next
        case False
        then have "y = (0, c, count_scanned k c r)" using eq by simp
        then show ?thesis using False by (subst P_def, subst find_fit_loop.simps) simp
      qed
    next
      case True
      then have "\<not> \<not> idx < bin_count" "\<not> (idx \<noteq> start \<or> idx < linear_bin_count)" by blast+
      note eq' = eq[unfolded if_not_P[OF this(1)] if_not_P[OF this(2)]]
      obtain h1 c1 where sc: "scan_bin k n m (rn_bins r (unat idx)) c = Some (h1, c1)"
        using eq' by (cases "scan_bin k n m (rn_bins r (unat idx)) c") auto
      note sd = scan_bin_shift[OF sc]
      show ?thesis
      proof (cases "h1 = nullptr")
        case False
        then have "y = (h1, c1, count_scanned k c1 r)" using eq' sc by simp
        then show ?thesis using True sd False by (subst P_def, subst find_fit_loop.simps) simp
      next
        case null: True
        have "loop k n start (first_nonempty_bin_from (idx + 1) r) c1 r m = Some y"
          using eq' sc null by simp
        note step = IH[OF this, unfolded P_def]
        show ?thesis
          using True sd null step by (subst P_def, subst find_fit_loop.simps) (simp add: algebra_simps)
      qed
    qed
  qed
  from this[OF assms] show ?thesis by (simp add: P_def)
qed

end
