(* ===== verification/Runner_Refusal.thy ===== *)
theory Runner_Refusal
  imports Runner_Alloc
begin

text \<open>
  When an allocation throws.  \<open>growth_denied\<close> says in terms of the system alone what the runner
  would have to get and does not: the bytes it asks for, the number of each request, and the refusal.
  Each operation on the way from \<open>_add_owned_chunk\<close> to \<open>allocate_bytes\<close> throws under it only.
\<close>

section \<open>What the system refuses\<close>

text \<open>
  No chunk of \<open>b\<close> bytes can be had by the requests number \<open>i\<close> and \<open>i + 1\<close>: its size, at least
  \<open>min_chunk_bytes\<close> and rounded up to whole pages, does not fit in 64 bits; or there is no memory for the
  node; or none for the chunk.
\<close>

definition chunk_refused :: "run_cfg \<Rightarrow> sys \<Rightarrow> u64 \<Rightarrow> nat \<Rightarrow> nat \<Rightarrow> bool" where
  "chunk_refused k sys page b i \<longleftrightarrow>
     (let c = nat_round_up (max b 64) (if rg_huge k = Huge_enabled then 2097152 else unat page) in
        2 ^ 64 \<le> c \<or>
        sys_new sys i sizeof_chunk_node alignof_max_align = nullptr \<or>
        (if rg_huge k = Huge_enabled then \<not> sys_linux sys \<or> sys_mmap sys (Suc i) (adr c) = None
         else sys_new sys (Suc i) (adr c) run_alignment = nullptr))"

text \<open>
  A runner that has to provide a run of \<open>n\<close> bytes, the next request being number \<open>i\<close>.  Its first chunk, if
  it is deferred, is refused; or it may grow, and the chunk that would grow it is refused.  It grows by its
  next growth or by the run with 64 bytes of overhead, whichever is more; a first chunk that was too
  small sets the next growth below that.
\<close>

definition growth_denied :: "run_cfg \<Rightarrow> sys \<Rightarrow> nat \<Rightarrow> runner \<Rightarrow> nat \<Rightarrow> bool" where
  "growth_denied k sys n r i \<longleftrightarrow>
     (if rn_deferred_bytes r = 0
      then rg_can_grow k \<and> chunk_refused k sys (rn_page_size r) (max (unat (rn_next_growth r)) (n + 64)) i
      else chunk_refused k sys (rn_page_size r) (unat (rn_deferred_bytes r)) i \<or>
           rg_can_grow k \<and> chunk_refused k sys (rn_page_size r) (n + 64) (i + 2))"

section \<open>Adding a chunk\<close>

lemma owned_chunk_bytes_exact:
  assumes "rn_page_size r \<noteq> 0"
  shows "owned_chunk_bytes_for k r bytes =
    (let c = nat_round_up (max (unat bytes) 64) (if rg_huge k = Huge_enabled then 2097152 else unat (rn_page_size r))
     in if c < 2 ^ 64 then Inr (adr c) else Inl Bad_alloc)"
proof -
  have g: "owned_chunk_granularity k r \<noteq> 0"
    using assms by (simp add: owned_chunk_granularity_def huge_page_bytes_nat)
  have "unat (owned_chunk_granularity k r) = (if rg_huge k = Huge_enabled then 2097152 else unat (rn_page_size r))"
    by (simp add: owned_chunk_granularity_def huge_page_bytes_nat)
  moreover have "unat (max bytes min_chunk_bytes) = max (unat bytes) 64" by (simp add: unat_max run_constants)
  ultimately show ?thesis by (simp add: owned_chunk_bytes_for_def checked_round_eq[OF g] Let_def)
qed

lemma op_new_result:
  "op_new sys bytes al w = (p, w') \<Longrightarrow> p = sys_new sys (calls w) bytes al \<and> calls w' = Suc (calls w)"
  by (auto simp: op_new_def Let_def split: if_splits)

text \<open>An arena of whole pages is one request, and fails when that request does.\<close>

lemma arena_result:
  assumes al: "allocate_owned_memory sys (rg_huge k) cb run_alignment w = (res, w')" and cb: "64 \<le> unat cb"
    and huge: "rg_huge k = Huge_enabled \<longrightarrow> 2097152 dvd unat cb"
  shows "\<And>om. res = Inr om \<Longrightarrow> calls w' = Suc (calls w)"
    and "\<And>e. res = Inl e \<Longrightarrow>
      (if rg_huge k = Huge_enabled then \<not> sys_linux sys \<or> sys_mmap sys (calls w) cb = None
       else sys_new sys (calls w) cb run_alignment = nullptr)"
proof -
  have nz: "cb \<noteq> 0" "\<not> run_alignment < sizeof_ptr" "has_single_bit run_alignment"
    "\<not> run_alignment > explicit_huge_page_bytes"
    using cb has_single_bit_16 by (auto simp: run_constants sizeof_ptr_def huge_page_bytes_nat)
  have round: "checked_round_to_multiple_of cb explicit_huge_page_bytes = Some cb" if "rg_huge k = Huge_enabled"
    using nat_round_up_id[OF huge[rule_format, OF that]] unat_lt_64[of cb] by (simp add: checked_round_eq huge_page_bytes_nat)
  show "\<And>om. res = Inr om \<Longrightarrow> calls w' = Suc (calls w)"
    "\<And>e. res = Inl e \<Longrightarrow>
      (if rg_huge k = Huge_enabled then \<not> sys_linux sys \<or> sys_mmap sys (calls w) cb = None
       else sys_new sys (calls w) cb run_alignment = nullptr)"
    using al nz round
    by (auto simp: allocate_owned_memory_def sys_map_huge_def op_new_def Let_def split: if_splits option.splits)
qed

lemma initialize_page [simp]: "rn_page_size (fst (initialize_free_run b n s)) = rn_page_size (fst s)"
  by (simp add: initialize_free_run_def link_free_def set_bin_nonempty_def Let_def split: prod.splits)

lemma add_owned_chunk_exact:
  assumes page: "has_single_bit (rn_page_size r)" "16 \<le> unat (rn_page_size r)"
    and add: "add_owned_chunk k sys bytes r w = (res, r', w')"
  shows "case res of
      Inl e \<Rightarrow> chunk_refused k sys (rn_page_size r) (unat bytes) (calls w)
    | Inr cb \<Rightarrow> calls w' = calls w + 2 \<and> rn_page_size r' = rn_page_size r"
proof (cases "owned_chunk_bytes_for k r bytes")
  case (Inl e)
  have "rn_page_size r \<noteq> 0" using page(2) by auto
  then show ?thesis
    using Inl add by (auto simp: add_owned_chunk_def chunk_refused_def owned_chunk_bytes_exact Let_def split: if_splits)
next
  case (Inr cb)
  have pz: "rn_page_size r \<noteq> 0" using page(2) by auto
  define c where "c = nat_round_up (max (unat bytes) 64) (if rg_huge k = Huge_enabled then 2097152 else unat (rn_page_size r))"
  have c: "cb = adr c" using Inr by (auto simp: owned_chunk_bytes_exact[OF pz] c_def[symmetric] Let_def split: if_splits)
  obtain node w1 where nw: "op_new sys sizeof_chunk_node alignof_max_align w = (node, w1)" by fastforce
  obtain ans w2 where al: "allocate_owned_memory sys (rg_huge k) cb run_alignment w1 = (ans, w2)" by fastforce
  note cb = owned_chunk_bytes[OF page Inr]
  have "rg_huge k = Huge_enabled \<longrightarrow> 2097152 dvd unat cb" using cb(4) by blast
  note o = op_new_result[OF nw] and a = arena_result[OF al cb(2) this]
  show ?thesis
  proof (cases "node = nullptr \<or> isl ans")
    case True
    then have "chunk_refused k sys (rn_page_size r) (unat bytes) (calls w)"
      using o a(2) unfolding chunk_refused_def c_def[symmetric] Let_def c[symmetric] by (cases ans) auto
    moreover have "isl res" using True add Inr nw al by (auto simp: add_owned_chunk_def split: sum.splits if_splits)
    ultimately show ?thesis by (cases res) simp_all
  next
    case False
    then obtain om where om: "ans = Inr om" by (cases ans) auto
    let ?c = "\<lparr>cn_node = node, cn_begin = om_base om, cn_bytes = om_bytes om,
               cn_mapping_base = om_base om, cn_mapping_bytes = om_bytes om\<rparr>"
    obtain r3 m3 where i:
      "initialize_free_run (om_base om) (om_bytes om) (r\<lparr>rn_chunks := ?c # rn_chunks r\<rparr>, cells w2) = (r3, m3)"
      by fastforce
    have "rn_page_size r3 = rn_page_size r"
      using initialize_page[of "om_base om" "om_bytes om" "(r\<lparr>rn_chunks := ?c # rn_chunks r\<rparr>, cells w2)"] i by simp
    then have "res = Inr cb \<and> calls w' = calls w2 \<and> rn_page_size r' = rn_page_size r"
      using False om add Inr nw al i by (auto simp: add_owned_chunk_def Let_def)
    then show ?thesis using o a(1)[OF om] by simp
  qed
qed

section \<open>Throwing\<close>

lemma runner_finish_returns: "runner_finish k d h r w \<noteq> (Inl e, s)"
  by (auto simp: runner_finish_def Let_def split: prod.splits)

lemma runner_inv_page: "runner_inv k r w G rl \<Longrightarrow> has_single_bit (rn_page_size r) \<and> 16 \<le> unat (rn_page_size r)"
  by (simp add: runner_inv_def)

lemma grow_for_refused:
  assumes inv: "runner_inv k r w G rl" and n: "n < 2 ^ 64" and g: "grow_for k sys (adr n) r w = (Inl e, r', w')"
  shows "chunk_refused k sys (rn_page_size r) (max (unat (rn_next_growth r)) (n + 64)) (calls w)"
proof -
  define r1 where "r1 = count k (\<lambda>st. st\<lparr>st_grow_calls := st_grow_calls st + 1\<rparr>) r"
  have so: "stats_only r r1" by (simp add: r1_def)
  note f = stats_only_fields(7,8)[OF so]
  have page: "has_single_bit (rn_page_size r1)" "16 \<le> unat (rn_page_size r1)"
    using runner_inv_page[OF inv] f by simp_all
  show ?thesis
  proof (cases "checked_add (adr n) min_chunk_bytes")
    case None
    then have "2 ^ 64 \<le> n + 64" using n by (auto simp: checked_add_eq run_constants unat_adr split: if_splits)
    moreover have "0 < (if rg_huge k = Huge_enabled then 2097152 else unat (rn_page_size r))"
      using page(2) f by auto
    note nat_round_up_props(2)[OF this, of "max (max (unat (rn_next_growth r)) (n + 64)) 64"]
    ultimately show ?thesis by (simp add: chunk_refused_def Let_def)
  next
    case (Some q)
    then have q: "unat q = n + 64"
      using n by (auto simp: checked_add_eq run_constants unat_adr unat_plus_le split: if_splits)
    obtain res r2 w2 where add: "add_owned_chunk k sys (max (rn_next_growth r1) q) r1 w = (res, r2, w2)"
      by (metis prod_cases3)
    then have "isl res" using g Some by (auto simp: grow_for_def r1_def[symmetric] Let_def split: sum.splits)
    then show ?thesis
      using add_owned_chunk_exact[OF page add] f q by (cases res) (simp_all add: unat_max)
  qed
qed

lemma runner_allocate_grow_refused:
  assumes "runner_inv k r w G rl" "n < 2 ^ 64" "runner_allocate_grow k sys (adr n) c r w = Some (Inl e, s)"
  shows "rg_can_grow k \<and> chunk_refused k sys (rn_page_size r) (max (unat (rn_next_growth r)) (n + 64)) (calls w)"
  using assms grow_for_refused[OF assms(1,2)]
  by (auto simp: runner_allocate_grow_def runner_finish_returns bind_eq_Some_conv split: if_splits sum.splits prod.splits)
lemma runner_allocate_deferred_refused:
  assumes inv: "runner_inv k r w G []" and steady: "sys_steady sys w" and n: "8 dvd n" "n + 8 < 2 ^ 64"
    and t: "runner_allocate_deferred k sys (adr n) c r w = Some (Inl e, s)"
  shows "growth_denied k sys n r (calls w)"
proof (cases "rn_deferred_bytes r = 0")
  case True
  have n64: "n < 2 ^ 64" using n(2) by simp
  show ?thesis
    using runner_allocate_grow_refused[OF inv n64] t True by (simp add: runner_allocate_deferred_def growth_denied_def)
next
  case False
  note page = runner_inv_page[OF inv, THEN conjunct1] runner_inv_page[OF inv, THEN conjunct2]
  obtain res r1 w1 where add: "add_owned_chunk k sys (rn_deferred_bytes r) r w = (res, r1, w1)" by (metis prod_cases3)
  note x = add_owned_chunk_exact[OF page add]
  show ?thesis
  proof (cases res)
    case (Inl e)
    then show ?thesis using x False by (simp add: growth_denied_def)
  next
    case (Inr cb)
    have "chunk_outcome k (rn_deferred_bytes r) G [] r w (Inr cb, r1, w1)"
      using add_owned_chunk_outcome[OF inv steady, of "rn_deferred_bytes r"] add Inr by simp
    then obtain b m where o: "unat cb = m + 16" "housekeeping k G [] r w ((b, [(m, True)]) # G) [] r1 w1"
      by (rule chunk_outcome_housekeeping)
    let ?r = "r1\<lparr>rn_next_growth := cb, rn_deferred_bytes := 0\<rparr>" and ?G = "(b, [(m, True)]) # G"
    have inv1: "runner_inv k ?r w1 ?G []" using o(2) by (simp add: housekeeping_def runner_inv_growth)
    from inv1 n show ?thesis
    proof (cases rule: find_fit_step[where c = c])
      case (none c' r2)
      have inv2: "runner_inv k r2 w1 ?G []" by (rule runner_inv_stats[OF inv1 none(3)])
      have m: "m < n" using none(2) by (simp add: no_fit_def)
      have t': "runner_allocate_grow k sys (adr n) c' r2 w1 = Some (Inl e, s)"
        using t False add Inr none(1) by (simp add: runner_allocate_deferred_def)
      have n64: "n < 2 ^ 64" using n(2) by simp
      note f = stats_only_fields(7,8)[OF none(3)]
      have "max (unat (rn_next_growth r2)) (n + 64) = n + 64" using f o(1) m by simp
      then show ?thesis
        using runner_allocate_grow_refused[OF inv2 n64 t'] f x Inr False by (simp add: growth_denied_def)
    next
      case (found y u c' r2)
      then show ?thesis
        using t False add Inr runner_finish_returns[of k "adr n" "adr y" r2 w1 e s]
        by (simp add: runner_allocate_deferred_def)
    qed
  qed
qed

lemma growth_denied_same:
  "growth_denied k sys n r i \<Longrightarrow> rn_page_size r' = rn_page_size r \<Longrightarrow> rn_next_growth r' = rn_next_growth r \<Longrightarrow>
     rn_deferred_bytes r' = rn_deferred_bytes r \<Longrightarrow> growth_denied k sys n r' i"
  by (simp only: growth_denied_def)

lemma allocate_bytes_denied:
  assumes inv: "runner_inv k r w G rl" and steady: "sys_steady sys w" and ok: "request_ok bytes alignment"
    and t: "allocate_bytes k sys bytes alignment r w = Some (Inl e, s)"
  shows "growth_denied k sys (request_bytes bytes) r (calls w)"
proof -
  let ?n = "request_bytes bytes"
  define b where "b = (if bytes = 0 then 1 else bytes)"
  have "unat b = max 1 (unat bytes)"
    by (auto simp: b_def max_def unat_eq_zero not_le dest: unat_gt_0[THEN iffD2])
  then have norm: "normalized_run_bytes b = Some (adr ?n)"
    using ok by (simp add: request_ok_def request_bytes_def normalized_run_bytes_eq)
  have al: "\<not> alignment > run_alignment" using ok by (auto simp: request_ok_def run_constants)
  have "16 dvd ?n" unfolding request_bytes_def by (rule run_bytes_nat_props)
  then have n: "8 dvd ?n" "?n + 8 < 2 ^ 64"
    using ok by (auto simp: request_ok_def request_bytes_def run_bytes_nat_def elim: dvd_trans[rotated])
  define r1 where "r1 = count k (\<lambda>st. st\<lparr>st_allocate_calls := st_allocate_calls st + 1,
                   st_requested_bytes := st_requested_bytes st + b\<rparr>) r"
  have so: "stats_only r r1" by (simp add: r1_def)
  note inv1 = runner_inv_stats[OF inv so]
  note t = t[unfolded allocate_bytes_def Let_def, folded b_def, folded r1_def, unfolded norm]
  from inv1 n show ?thesis
  proof (cases rule: find_fit_step[where c = 0])
    case (found x u c' r2)
    then show ?thesis using t al runner_finish_returns[of k "adr ?n" "adr x" r2 w e s] by simp
  next
    case (none c' r2)
    note so2 = stats_only_trans[OF so none(3)]
    obtain r3 m3 G3 where d: "runner_drain_remote k (r2, cells w) = Some (rl \<noteq> [], (r3, m3))"
      "housekeeping k G rl r2 w G3 [] r3 (w\<lparr>cells := m3\<rparr>)" "rn_deferred_bytes r3 = rn_deferred_bytes r2"
      "rn_next_growth r3 = rn_next_growth r2" "rn_page_size r3 = rn_page_size r2"
      using runner_drain_housekeeping[OF runner_inv_stats[OF inv1 none(3)]] by blast
    let ?w3 = "w\<lparr>cells := m3\<rparr>"
    have inv3: "runner_inv k r3 ?w3 G3 []" using d(2) by (simp add: housekeeping_def)
    have steady3: "sys_steady sys ?w3" by (rule sys_steady_later[OF steady later_cells[OF later.now]])
    have refused: "growth_denied k sys ?n r (calls w)"
      if "runner_allocate_deferred k sys (adr ?n) c'' r4 ?w3 = Some (Inl e, s)" "stats_only r3 r4" for c'' r4
    proof (rule growth_denied_same)
      show "growth_denied k sys ?n r4 (calls w)"
        using runner_allocate_deferred_refused[OF runner_inv_stats[OF inv3 that(2)] steady3 n that(1)] by simp
    qed (use d(3-5) stats_only_fields(6-8)[OF that(2)] stats_only_fields(6-8)[OF so2] in simp_all)
    show ?thesis
    proof (cases "rl = []")
      case True
      then show ?thesis using t al none(1) d(1) refused[of c' r3] by simp
    next
      case False
      from inv3 n show ?thesis
      proof (cases rule: find_fit_step[where c = c'])
        case (found x u c'' r4)
        then show ?thesis
          using t al none(1) d(1) False runner_finish_returns[of k "adr ?n" "adr x" r4 ?w3 e s] by simp
      next
        case later: (none c'' r4)
        then show ?thesis using t al none(1) d(1) False refused[of c'' r4] by simp
      qed
    qed
  qed
qed

end
