(* ===== verification/Runner_Properties.thy ===== *)
theory Runner_Properties
  imports Runner_Correct Runner_Refusal
begin

text \<open>
  The properties of the runner, each with a witness on the bump system: what an allocation returns,
  what a deallocation merges, what an expansion keeps, what the search finds, how a foreign thread
  finds the owner of a block, and that construction and release balance.
\<close>

section \<open>Allocation and deallocation\<close>

text \<open>
  C2. An allocation always ends.  It answers a request with null when the alignment or the size
  cannot be served, and otherwise with \<open>bad_alloc\<close> or null only when no free run is large enough and
  nothing is left on the remote stack: with null only if the runner may not grow, with \<open>bad_alloc\<close> only
  if the system has refused the memory (\<open>growth_denied\<close>: the node or the chunk of the deferred first chunk, or
  of the chunk for the runner's next growth, or a size beyond 64 bits).  A block that is granted is
  aligned to 16 bytes, has room for the request, overlaps no block that is lent, and has the runner
  as its owner; a request that some free run satisfies is granted.  Every other block that is lent
  keeps its size and its contents.
\<close>

theorem runner_allocate_correct:
  assumes inv: "runner_inv k r w G rl" and steady: "sys_steady sys w"
  shows "\<exists>ans r' w' G' rl'. allocate_bytes k sys bytes alignment r w = Some (ans, r', w') \<and>
    runner_inv k r' w' G' rl' \<and> quiet (lent_runs G rl) (cells w) (cells w') \<and> rn_self r' = rn_self r \<and>
    (case ans of
       Inl e \<Rightarrow> e = Bad_alloc \<and> request_ok bytes alignment \<and> lent_runs G' rl' = lent_runs G rl \<and>
               no_fit G' (request_bytes bytes) \<and> rl' = [] \<and>
               growth_denied k sys (request_bytes bytes) r (calls w)
     | Inr a \<Rightarrow>
        if a = nullptr
        then lent_runs G' rl' = lent_runs G rl \<and>
             (request_ok bytes alignment \<longrightarrow> no_fit G' (request_bytes bytes) \<and> rl' = [] \<and> \<not> rg_can_grow k)
        else request_ok bytes alignment \<and> 16 dvd unat a \<and>
          (\<exists>x t. a = adr (x + 16) \<and> unat bytes + 16 \<le> t \<and> run_size (cells w') (adr x) = adr t \<and>
             lent_runs G' rl' = insert (x, t) (lent_runs G rl) \<and> owner_of a (cells w') = rn_self r \<and>
             (\<forall>(y, u) \<in> lent_runs G rl. x + t \<le> y \<or> y + u \<le> x))) \<and>
    (request_ok bytes alignment \<and> \<not> no_fit G (request_bytes bytes) \<longrightarrow> (\<exists>a. ans = Inr a \<and> a \<noteq> nullptr))"
proof (cases "request_ok bytes alignment")
  case False
  obtain r' where a: "allocate_bytes k sys bytes alignment r w = Some (Inr nullptr, r', w)" "stats_only r r'"
    using allocate_bytes_refused[OF inv False] by blast
  have "runner_inv k r' w G rl" "rn_self r' = rn_self r"
    using runner_inv_stats[OF inv a(2)] stats_only_fields(3)[OF a(2)] by simp_all
  then show ?thesis using a(1) False by (intro exI[of _ "Inr nullptr"] exI[of _ r'] exI[of _ w] exI[of _ G] exI[of _ rl]) simp
next
  case True
  obtain ans r' w' G' rl' where a: "allocate_bytes k sys bytes alignment r w = Some (ans, r', w')"
    "runner_inv k r' w' G' rl'" "quiet (lent_runs G rl) (cells w) (cells w')" "rn_self r' = rn_self r"
    "answer_ok k (lent_runs G rl) (rn_deferred_bytes r) (request_bytes bytes) ans G' rl'"
    "no_fit G (request_bytes bytes) \<or> (\<exists>a. ans = Inr a \<and> a \<noteq> nullptr)"
    using allocate_bytes_post[OF inv steady True] by (fastforce simp: runner_post_def)
  note t = runner_inv_tiled[OF a(2)]
  have grant: "16 dvd unat b \<and> (\<exists>x t. b = adr (x + 16) \<and> unat bytes + 16 \<le> t \<and> run_size (cells w') (adr x) = adr t \<and>
             lent_runs G' rl' = insert (x, t) (lent_runs G rl) \<and> owner_of b (cells w') = rn_self r \<and>
             (\<forall>(y, u) \<in> lent_runs G rl. x + t \<le> y \<or> y + u \<le> x))" if b: "ans = Inr b" "b \<noteq> nullptr" for b
  proof -
    obtain x u where x: "b = adr (x + 16)" "request_bytes bytes \<le> u" "lent_runs G' rl' = insert (x, u) (lent_runs G rl)"
      "\<forall>v. (x, v) \<notin> lent_runs G rl"
      using a(5) b by (auto simp: answer_ok_def granted_def)
    then have xl: "(x, u) \<in> lent_runs G' rl'" by simp
    then have xr: "(x, u, False) \<in> runs G'" "(x, u) \<in> used_runs G'" by (auto simp: lent_runs_def useds_def)
    note rb = run_bounds[OF t xr(1)]
    have "x + u \<le> y \<or> y + v \<le> x" if "(y, v) \<in> lent_runs G rl" for y v
      using lent_runs_apart[OF t xl, of y v] that x(3,4) by auto
    moreover have "owner_of b (cells w') = rn_self r'"
      using owner_of_used[OF a(2) xr(2)] x(1) by simp
    moreover have "16 dvd unat b" using rb(2,5) x(1) by (simp add: unat_adr)
    moreover have "unat bytes + 16 \<le> u" using request_bytes_ge[of bytes] x(2) by simp
    ultimately show ?thesis using x(1,3) rb(6) a(4) by auto
  qed
  moreover have "growth_denied k sys (request_bytes bytes) r (calls w)" if "ans = Inl e" for e
    using allocate_bytes_denied[OF inv steady True] a(1) that by blast
  ultimately show ?thesis
    using a True
    by (intro exI[of _ ans] exI[of _ r'] exI[of _ w'] exI[of _ G'] exI[of _ rl'])
      (auto simp: answer_ok_def split: sum.splits)
qed

text \<open>
  C7. Giving a block back on the owner's thread merges it with the free runs on both sides: the
  block is gone from the lent ones, the free run that covers it has no free neighbour, every other
  lent block keeps its place, its size and its contents, and the runner's chunks stay.
\<close>

theorem runner_deallocate_correct:
  assumes inv: "runner_inv k r w G rl" and x: "(x, s) \<in> lent_runs G rl"
  shows "\<exists>r' m' G' y t. deallocate_bytes k (adr (x + 16)) (r, cells w) = (r', m') \<and>
    runner_inv k r' (w\<lparr>cells := m'\<rparr>) G' rl \<and> lent_runs G' rl = lent_runs G rl - {(x, s)} \<and>
    quiet (lent_runs G rl - {(x, s)}) (cells w) m' \<and> rn_chunks r' = rn_chunks r \<and> rn_self r' = rn_self r \<and>
    (y, t, True) \<in> runs G' \<and> y \<le> x \<and> x + s \<le> y + t \<and>
    (\<forall>u. (y + t, u, True) \<notin> runs G') \<and> (\<forall>z u. (z, u, True) \<in> runs G' \<longrightarrow> z + u \<noteq> y)"
proof -
  obtain r' m' G' y t where d: "deallocate_bytes k (adr (x + 16)) (r, cells w) = (r', m')"
    "runner_inv k r' (w\<lparr>cells := m'\<rparr>) G' rl" "lent_runs G' rl = lent_runs G rl - {(x, s)}"
    "core_only r r'" "quiet (used_runs G - {(x, s)}) (cells w) m'"
    "(y, t, True) \<in> runs G'" "y \<le> x" "x + s \<le> y + t"
    using runner_deallocate_step[OF inv x] by blast
  have tl: "tiled m' G'" using runner_inv_tiled[OF d(2)] by simp
  have "quiet (lent_runs G rl - {(x, s)}) (cells w) m'"
    using quiet_mono[OF d(5)] lent_sub[of G rl] by (simp add: Diff_mono)
  moreover have "\<forall>u. (y + t, u, True) \<notin> runs G'" using no_free_pair[OF tl d(6)] by blast
  moreover have "\<forall>z u. (z, u, True) \<in> runs G' \<longrightarrow> z + u \<noteq> y" using no_free_pair[OF tl] d(6) by blast
  ultimately show ?thesis using d core_only_fields(1,2)[OF d(4)] by blast
qed

text \<open>
  C23. Expansion in place: the block stays where it is with its contents, does not shrink, and
  afterwards has the size asked for, or nothing has changed and the run after it is not a free run
  that would have been enough.  Every other lent block keeps its size and its contents; the result
  is the new size of the block.
\<close>

theorem runner_expand_correct:
  assumes inv: "runner_inv k r w G rl" and x: "(x, s) \<in> lent_runs G rl"
  shows "\<exists>r' m' G' t. runner_expand k (adr (x + 16)) n (r, cells w) = (adr (t - 16), (r', m')) \<and>
    runner_inv k r' (w\<lparr>cells := m'\<rparr>) G' rl \<and> s \<le> t \<and>
    lent_runs G' rl = insert (x, t) (lent_runs G rl - {(x, s)}) \<and>
    quiet (lent_runs G rl - {(x, s)}) (cells w) m' \<and>
    (\<forall>a. x + 16 \<le> a \<and> a < x + s \<longrightarrow> m' (adr a) = cells w (adr a)) \<and>
    (unat n + 16 \<le> t \<or> t = s \<and> r' = r \<and> m' = cells w \<and>
       (\<forall>u. (x + s, u, True) \<in> runs G \<longrightarrow> s + u < run_bytes_nat (unat n)))"
  using runner_expand_step[OF inv x, of n] by blast

text \<open>
  C11. Whatever a client does with a runner and the blocks it holds, in any order - asking, writing
  anywhere in its blocks, having them extended in place, giving back on the owner's thread or through
  the remote stack - the next request is answered, a block that is granted overlaps none that is held
  and has the size asked for, a block that is held can be given back on either path or extended, which
  never shrinks it and keeps its contents, and none of this changes a byte of the other blocks or
  their sizes.
\<close>

theorem runner_session_safe:
  assumes "session (runner_request k sys) (runner_return k) (runner_resize k) client_store (\<lambda>s. payload_bytes (cells (snd s)))
             (\<lambda>s. sys_steady sys (snd s)) {Local, Parked} s0 s L"
    and "runner_holds k s0 {}"
  shows "(sys_steady sys (snd s) \<longrightarrow> (\<exists>ans s'. runner_request k sys q s = Some (ans, s') \<and>
      (\<forall>y \<in> L. payload_bytes (cells (snd s')) y = payload_bytes (cells (snd s)) y \<and>
         (\<forall>i < payload_bytes (cells (snd s)) y. cells (snd s') (adr (y + i)) = cells (snd s) (adr (y + i)))) \<and>
      (\<forall>a. ans = Inr a \<longrightarrow> a \<noteq> nullptr \<longrightarrow>
         unat a \<notin> L \<and> unat (fst q) \<le> payload_bytes (cells (snd s')) (unat a) \<and>
         (\<forall>y \<in> L. unat a + payload_bytes (cells (snd s')) (unat a) \<le> y \<or>
            y + payload_bytes (cells (snd s)) y \<le> unat a)))) \<and>
    (x \<in> L \<longrightarrow> (\<exists>s'. runner_return k v (adr x) s = Some s' \<and>
      (\<forall>y \<in> L - {x}. payload_bytes (cells (snd s')) y = payload_bytes (cells (snd s)) y \<and>
         (\<forall>i < payload_bytes (cells (snd s)) y. cells (snd s') (adr (y + i)) = cells (snd s) (adr (y + i))))) \<and>
      (\<exists>s'. runner_resize k n (adr x) s = Some s' \<and> payload_bytes (cells (snd s)) x \<le> payload_bytes (cells (snd s')) x \<and>
      (\<forall>i < payload_bytes (cells (snd s)) x. cells (snd s') (adr (x + i)) = cells (snd s) (adr (x + i))) \<and>
      (\<forall>y \<in> L - {x}. payload_bytes (cells (snd s')) y = payload_bytes (cells (snd s)) y \<and>
         (\<forall>i < payload_bytes (cells (snd s)) y. cells (snd s') (adr (y + i)) = cells (snd s) (adr (y + i))))))"
proof -
  have v: "v \<in> {Local, Parked}" by (cases v) simp_all
  obtain s' where r: "runner_resize k n (adr x) s = Some s'"
    by (cases "runner_expand k (adr x) n (fst s, cells (snd s))" rule: prod_cases3) (simp add: runner_resize_def)
  have "x \<in> L \<Longrightarrow> extended (\<lambda>s. payload_bytes (cells (snd s))) (\<lambda>s. cells (snd s)) L x s s'"
    using runner_source.reached_safe(3)[OF assms(2,1) _ r] .
  then show ?thesis
    using runner_source.reached_safe(1)[OF assms(2,1), where q = q]
      runner_source.reached_safe(2)[OF assms(2,1) _ v] r
    unfolding keeps_def extended_def by blast
qed

section \<open>The search\<close>

text \<open>
  C24. The search for a free run of \<open>n\<close> bytes ends, and it is exact: null when no free run has
  \<open>n\<close> bytes, otherwise a free run that has.  Below 4096 bytes the run it finds is the smallest
  that fits; above, no run that fits is in a smaller bin, and so none is less than half as large.
\<close>

theorem find_fit_correct:
  assumes inv: "runner_inv k r w G rl" and n: "8 dvd n" "n + 8 < 2 ^ 64"
  shows "\<exists>h c' r'. find_fit k (adr n) c (r, cells w) = Some (h, c', r') \<and> stats_only r r' \<and>
    (if h = nullptr then \<forall>x s. (x, s, True) \<in> runs G \<longrightarrow> s < n
     else \<exists>x s. h = adr x \<and> (x, s, True) \<in> runs G \<and> n \<le> s \<and>
       (\<forall>y u. (y, u, True) \<in> runs G \<longrightarrow> n \<le> u \<longrightarrow> bin_nat s \<le> bin_nat u \<and> (s < 4096 \<longrightarrow> s \<le> u)))"
proof -
  have rc: "runner_core r (cells w) G" using inv by (simp add: runner_inv_def)
  then have t: "tiled (cells w) G" and bin: "binned r (cells w) (free_runs G)"
    using coreD(1,2) by (auto simp: tiles_def)
  obtain h c' r' where f: "find_fit k (adr n) c (r, cells w) = Some (h, c', r')"
    "fits (cells w) (free_runs G) n h" "stats_only r r'"
    using find_fit_fits[OF bin n] by blast
  have bytes: "run_bytes_at (cells w) x = s" "x \<in> free_runs G" if "(x, s, True) \<in> runs G" for x s
    using run_bounds(5,6)[OF t that] that by (auto simp: run_bytes_at_def unat_adr frees_def)
  have "if h = nullptr then \<forall>x s. (x, s, True) \<in> runs G \<longrightarrow> s < n
     else \<exists>x s. h = adr x \<and> (x, s, True) \<in> runs G \<and> n \<le> s \<and>
       (\<forall>y u. (y, u, True) \<in> runs G \<longrightarrow> n \<le> u \<longrightarrow> bin_nat s \<le> bin_nat u \<and> (s < 4096 \<longrightarrow> s \<le> u))"
  proof (cases "h = nullptr")
    case True
    have "s < n" if "(x, s, True) \<in> runs G" for x s
      using f(2) True bytes[OF that] by (auto simp: fits_def)
    then show ?thesis using True by simp
  next
    case False
    then obtain x where x: "x \<in> free_runs G" "h = adr x" "n \<le> run_bytes_at (cells w) x"
      "\<forall>y \<in> free_runs G. n \<le> run_bytes_at (cells w) y \<longrightarrow> bin_of (cells w) x \<le> bin_of (cells w) y"
      using f(2) by (auto simp: fits_def)
    then obtain s where s: "(x, s, True) \<in> runs G" by (auto simp: frees_def)
    have "bin_nat s \<le> bin_nat u \<and> (s < 4096 \<longrightarrow> s \<le> u)" if u: "(y, u, True) \<in> runs G" "n \<le> u" for y u
    proof -
      have b: "bin_nat s \<le> bin_nat u" using x(4) bytes[OF s] bytes[OF u(1)] u(2) by (auto simp: bin_of_bytes)
      have "8 dvd s" "8 dvd u" using run_bounds(4)[OF t s] run_bounds(4)[OF t u(1)] by (simp_all add: dvd_trans[of 8 16])
      then show ?thesis using b bin_nat_best[of s u] by blast
    qed
    then show ?thesis using False x(2,3) s bytes[OF s] by auto
  qed
  then show ?thesis using f(1,3) by blast
qed

text \<open>
  The bin of a size: the index computed from the bit width is below 536 for every size, never
  falls when the size grows, and the 512 linear bins hold one size each.
\<close>

theorem bin_index_correct:
  assumes "8 dvd s" "s + 8 < 2 ^ 64"
  shows "bin_index_for (adr s) = adr (bin_nat s) \<and> bin_index_for (adr s) < bin_count \<and>
    (\<forall>t \<ge> s. bin_nat s \<le> bin_nat t) \<and>
    (\<forall>t. 8 dvd t \<and> bin_nat t = bin_nat s \<and> bin_nat s < 512 \<longrightarrow> t = s)"
proof -
  have "bin_index_for (adr s) < bin_count"
    using bin_nat_less[of s] by (simp add: bin_index_word[OF assms] bin_constants word_less_nat_alt unat_adr)
  moreover have "\<forall>t. 8 dvd t \<and> bin_nat t = bin_nat s \<and> bin_nat s < 512 \<longrightarrow> t = s"
    using bin_nat_linear[of _ s] assms(1) by simp
  ultimately show ?thesis using bin_index_word[OF assms] bin_nat_mono by blast
qed

text \<open>
  The scan of the bitmap, word by word with a count of trailing zeros, is the plain search: it
  returns the first bin at or after the given one whose bit is set, or the number of bins.
\<close>

theorem first_nonempty_correct:
  assumes "i \<le> 536"
  shows "\<exists>j. first_nonempty_bin_from (adr i) r = adr j \<and> i \<le> j \<and> j \<le> 536 \<and>
    (j < 536 \<longrightarrow> bit (rn_mask r (j div 64)) (j mod 64)) \<and>
    (\<forall>k. i \<le> k \<and> k < j \<longrightarrow> \<not> bit (rn_mask r (k div 64)) (k mod 64))"
  using first_nonempty_spec[OF assms, of r] by (auto simp: first_from_def bin_set_def)

text \<open>
  The size of the run for a payload: the least multiple of 16 that has room for the payload and
  the header and is not below the smallest free run; refused when the sum would wrap.
\<close>

theorem normalized_run_bytes_correct:
  "case normalized_run_bytes p of
     None \<Rightarrow> 2 ^ 64 \<le> unat p + 46
   | Some n \<Rightarrow> 16 dvd unat n \<and> unat p + 16 \<le> unat n \<and> 48 \<le> unat n \<and>
       unat n = (LEAST q. 16 dvd q \<and> unat p + 16 \<le> q \<and> 48 \<le> q)"
proof -
  let ?q = "run_bytes_nat (unat p)"
  note rb = run_bytes_nat_props[of "unat p"] and up = nat_round_up_props[of 16 "unat p", simplified]
  have "?q \<le> q" if q: "16 dvd q" "unat p + 16 \<le> q" "48 \<le> q" for q
  proof -
    have "16 dvd q - 16" using q(1) by (simp add: dvd_diff_nat)
    then have "nat_round_up (unat p) 16 \<le> q - 16" using q(2) by (intro nat_round_up_least) simp_all
    then show ?thesis using q(2,3) by (simp add: run_bytes_nat_def)
  qed
  then have "?q = (LEAST q. 16 dvd q \<and> unat p + 16 \<le> q \<and> 48 \<le> q)"
    using rb by (intro Least_equality[symmetric]) simp_all
  moreover have "unat (adr ?q) = ?q" if "nat_round_up (unat p) 16 + 31 < 2 ^ 64"
    using that by (simp add: unat_adr run_bytes_nat_def)
  ultimately show ?thesis using rb up by (auto simp: normalized_run_bytes_eq)
qed

text \<open>
  The counter \<open>scanned_nodes\<close>: a search that starts with the counter of an earlier search adds
  that counter to the statistics once more.  It finds the same as a search that starts at zero and
  looks at the same nodes, but counts \<open>c\<close> of them too many.
\<close>

theorem scanned_nodes_overcounted:
  assumes "find_fit k n c (r, m) = Some (h, c', r')" "rg_collect_stats k"
  shows "\<exists>r0. find_fit k n 0 (r, m) = Some (h, c' - c, r0) \<and>
    st_scanned_nodes (rn_stats r0) = st_scanned_nodes (rn_stats r) + (c' - c) \<and>
    st_scanned_nodes (rn_stats r') = st_scanned_nodes (rn_stats r0) + c"
proof -
  have "find_fit k n 0 (r, m) = Some (h, c' - c, count_scanned k (c' - c)
      (count k (\<lambda>st. st\<lparr>st_find_fit_calls := st_find_fit_calls st + 1\<rparr>) r)) \<and>
    r' = count_scanned k c' (count k (\<lambda>st. st\<lparr>st_find_fit_calls := st_find_fit_calls st + 1\<rparr>) r)"
    using find_fit_loop_shift assms(1) by (simp add: find_fit_def Let_def)
  then show ?thesis using assms(2) by (simp add: count_scanned_def count_def)
qed

section \<open>The remote stack\<close>

text \<open>
  C25. A foreign thread parks a block by linking it into the remote stack through its first word and
  by nothing else; the block is no longer lent, and the owner word next to it stays readable.
  Draining gives every parked block back through \<open>deallocate_bytes\<close>: afterwards the stack is empty,
  no block that was lent is touched, and no parked block is used any more.
\<close>

theorem runner_remote_correct:
  assumes inv: "runner_inv k r w G rl" and x: "(x, s) \<in> lent_runs G rl"
  shows "(\<exists>m. runner_remote_push (adr (x + 16)) (r, cells w) = (r\<lparr>rn_remote := adr (x + 16)\<rparr>, m) \<and>
      m = (cells w)(adr (x + 16) := rn_remote r) \<and> owner_of (adr (x + 16)) m = rn_self r \<and>
      runner_inv k (r\<lparr>rn_remote := adr (x + 16)\<rparr>) (w\<lparr>cells := m\<rparr>) G ((x + 16) # rl) \<and>
      lent_runs G ((x + 16) # rl) = lent_runs G rl - {(x, s)}) \<and>
    (\<exists>r' m' G'. runner_drain_remote k (r, cells w) = Some (rl \<noteq> [], (r', m')) \<and>
      runner_inv k r' (w\<lparr>cells := m'\<rparr>) G' [] \<and> used_runs G' = lent_runs G rl \<and>
      quiet (lent_runs G rl) (cells w) m' \<and> rn_remote r' = nullptr)"
proof -
  note p = runner_push_step[OF inv x]
  let ?m = "(cells w)(adr (x + 16) := rn_remote r)"
  have u: "(x, s) \<in> used_runs G" using lent_used[OF x] by simp
  have "owner_of (adr (x + 16)) ?m = rn_self r"
    using owner_of_used[OF p(1), of x s, unfolded p(4)] u by simp
  then have part1: "\<exists>m. runner_remote_push (adr (x + 16)) (r, cells w) = (r\<lparr>rn_remote := adr (x + 16)\<rparr>, m) \<and>
      m = ?m \<and> owner_of (adr (x + 16)) m = rn_self r \<and>
      runner_inv k (r\<lparr>rn_remote := adr (x + 16)\<rparr>) (w\<lparr>cells := m\<rparr>) G ((x + 16) # rl) \<and>
      lent_runs G ((x + 16) # rl) = lent_runs G rl - {(x, s)}"
    using p(1,2) unfolding p(4) by simp
  obtain r' m' G' where d: "runner_drain_remote k (r, cells w) = Some (rl \<noteq> [], (r', m'))"
    "housekeeping k G rl r w G' [] r' (w\<lparr>cells := m'\<rparr>)"
    using runner_drain_housekeeping[OF inv] by blast
  have i: "runner_inv k r' (w\<lparr>cells := m'\<rparr>) G' []" using d(2) by (simp add: housekeeping_def)
  then have "rn_remote r' = nullptr" by (simp add: runner_inv_def parked_ok_def)
  moreover have "used_runs G' = lent_runs G rl" using d(2) by (simp add: housekeeping_def lent_runs_def)
  moreover have "quiet (lent_runs G rl) (cells w) m'" using d(2) by (simp add: housekeeping_def)
  ultimately have part2: "\<exists>r' m' G'. runner_drain_remote k (r, cells w) = Some (rl \<noteq> [], (r', m')) \<and>
      runner_inv k r' (w\<lparr>cells := m'\<rparr>) G' [] \<and> used_runs G' = lent_runs G rl \<and>
      quiet (lent_runs G rl) (cells w) m' \<and> rn_remote r' = nullptr"
    using d(1) i by blast
  show ?thesis using part1 part2 by blast
qed

text \<open>
  C26. Routing: the word before every used payload is the runner's own address, parked or lent, and
  \<open>owns_run\<close> is exact: it accepts the addresses of the runner's chunks and no others.
\<close>

theorem runner_routing_correct:
  assumes inv: "runner_inv k r w G rl"
  shows "(\<forall>(x, s) \<in> used_runs G. owner_of (adr (x + 16)) (cells w) = rn_self r \<and> owns_run r (adr (x + 16))) \<and>
    (owns_run r p \<longleftrightarrow> (\<exists>(b, rs) \<in> set G. b \<le> unat p \<and> unat p < b + run_total rs + 16))"
proof -
  note t = runner_inv_tiled[OF inv]
  have exact: "owns_run r p \<longleftrightarrow> (\<exists>(b, rs) \<in> set G. b \<le> unat p \<and> unat p < b + run_total rs + 16)" for p
    by (rule owns_run_exact[OF inv])
  have "owns_run r (adr (x + 16))" if x: "(x, s) \<in> used_runs G" for x s
  proof -
    obtain b rs where c: "(b, rs) \<in> set G" "(x, s, False) \<in> set (place b rs)"
      using x by (auto simp: useds_def runs_def)
    have "x + 16 < b + run_total rs + 16" "b \<le> x" "unat (adr (x + 16)) = x + 16"
      using place_bounds[OF c(2)] used_range[OF t x] by (simp_all add: unat_adr)
    then show ?thesis unfolding exact using c(1) by (intro bexI[of _ "(b, rs)"]) simp_all
  qed
  then show ?thesis using owner_of_used[OF inv] exact by blast
qed

section \<open>Construction and release\<close>

text \<open>
  The eager constructor takes one chunk and its node from the system and makes one free run of
  the chunk, or throws \<open>bad_alloc\<close> and has given back what it took; the deferred one takes nothing.
\<close>

theorem runner_new_correct:
  assumes page: "has_single_bit (detect_page_size (sys_sysconf sys))" "16 \<le> unat (detect_page_size (sys_sysconf sys))"
    and wok: "world_ok w" and steady: "sys_steady sys w"
  shows "(case runner_new k sys self n w of
      (Inl e, w') \<Rightarrow> e = Bad_alloc \<and> live w' = live w \<and> cells w' = cells w
    | (Inr r, w') \<Rightarrow> \<exists>b s node. runner_inv k r w' [(b, [(s, True)])] [] \<and> unat n \<le> s + 16 \<and>
        lent_runs [(b, [(s, True)])] [] = {} \<and> rn_self r = self \<and> rn_next_growth r = adr (s + 16) \<and>
        live w' = \<lparr>r_base = adr b, r_bytes = adr (s + 16), r_align = owned_alignment k\<rparr> #
                  \<lparr>r_base = node, r_bytes = sizeof_chunk_node, r_align = alignof_max_align\<rparr> # live w) \<and>
    runner_inv k (runner_new_lazy sys self n) w [] []"
proof -
  have lazy: "runner_inv k (runner_new_lazy sys self n) w [] []" by (rule runner_new_lazy_inv[OF page wok])
  have none: "lent_runs [(b, [(s, True)])] [] = {}" for b s by (simp add: lent_runs_def)
  obtain res w' where eq: "runner_new k sys self n w = (res, w')" by fastforce
  show ?thesis
    using runner_new_step[OF page wok steady, where k = k and self = self and n = n] lazy none
    by (cases res) (auto simp: eq)
qed

text \<open>
  A runner over the caller's memory uses the part of it that is aligned to 16 bytes, whole
  granules only, and nothing outside; it throws exactly when 64 aligned bytes do not fit.
\<close>

theorem runner_external_correct:
  assumes page: "has_single_bit (detect_page_size (sys_sysconf sys))" "16 \<le> unat (detect_page_size (sys_sysconf sys))"
    and wok: "world_ok w"
    and reg: "reg \<in> set (live w)" "unat (r_base reg) \<le> unat data" "unat data + unat bytes \<le> region_end reg" "region_ok reg"
  shows "case runner_new_external sys self data bytes (cells w) of
      Inl e \<Rightarrow> e \<noteq> Bad_alloc \<and> \<not> (\<exists>b. 16 dvd b \<and> unat data \<le> b \<and> b + 64 \<le> unat data + unat bytes)
    | Inr (r, m') \<Rightarrow> \<exists>b s. runner_inv k r (w\<lparr>cells := m'\<rparr>) [(b, [(s, True)])] [] \<and> rn_self r = self \<and>
        unat data \<le> b \<and> b < unat data + 16 \<and> b + s + 16 \<le> unat data + unat bytes \<and>
        unat data + unat bytes < b + s + 32"
  using runner_new_external_step[OF page wok reg, where k = k and self = self] by (auto split: sum.splits)

text \<open>
  Releasing the chunks gives exactly the runner's own regions back, chunks and nodes, each with
  the size and alignment it was taken with, however many chunks there are; memory that belongs to
  the caller stays out, and a runner that was just constructed leaves the system as it found it.
\<close>

theorem runner_release_correct:
  assumes inv: "runner_inv k r w G rl" and linux: "rg_huge k = Huge_enabled \<longrightarrow> sys_linux sys"
  shows "live (release_owned_chunks k sys r w) = filter (\<lambda>reg. r_base reg \<notin> set (owned_bases r)) (live w) \<and>
    cells (release_owned_chunks k sys r w) = cells w \<and>
    (\<forall>c \<in> set (rn_chunks r). cn_mapping_base c \<noteq> nullptr \<longrightarrow>
       cn_mapping_base c \<in> set (owned_bases r) \<and> cn_node c \<in> set (owned_bases r))"
proof -
  have "\<forall>c \<in> set (rn_chunks r). cn_mapping_base c \<noteq> nullptr \<longrightarrow>
       cn_mapping_base c \<in> set (owned_bases r) \<and> cn_node c \<in> set (owned_bases r)"
    by (auto simp: owned_bases_def node_bases_def)
  then show ?thesis using release_owned_live[OF inv linux] by blast
qed


section \<open>Witnesses\<close>

text \<open>A runner with counters, in ordinary memory of the bump system.\<close>

definition demo_run_cfg :: run_cfg where
  "demo_run_cfg = \<lparr>rg_can_grow = True, rg_collect_stats = True, rg_huge = Huge_disabled\<rparr>"

lemma demo_runner_page:
  "has_single_bit (detect_page_size (sys_sysconf bump_sys))" "16 \<le> unat (detect_page_size (sys_sysconf bump_sys))"
  using has_single_bit_4096 by (simp_all add: demo_page)

lemma demo_steady: "sys_steady bump_sys empty_world"
  by (rule bump_sys_steady) (simp add: empty_world_def)

lemma demo_runner_new:
  "\<exists>r w. runner_new demo_run_cfg bump_sys 77 65536 empty_world = (Inr r, w)"
proof -
  have "owned_chunk_bytes_for demo_run_cfg (runner_members bump_sys 77 65536) 65536 = Inr 65536"
    by (simp add: owned_chunk_bytes_for_def owned_chunk_granularity_def demo_run_cfg_def runner_members_def
        demo_page run_constants checked_round_to_multiple_of_def checked_add_eq)
  then show ?thesis
    using has_single_bit_16
    by (auto simp: runner_new_def add_owned_chunk_def demo_run_cfg_def op_new_def bump_sys_def empty_world_def
        alignof_max_align_def sizeof_chunk_node_def allocate_owned_memory_def sizeof_ptr_def run_constants
        Let_def adr_eq_0_iff split: prod.splits)
qed

lemma demo_runner:
  obtains r w b s where "runner_new demo_run_cfg bump_sys 77 65536 empty_world = (Inr r, w)"
    "runner_inv demo_run_cfg r w [(b, [(s, True)])] []" "65520 \<le> s" "sys_steady bump_sys w" "rn_self r = 77"
proof -
  obtain r w where n: "runner_new demo_run_cfg bump_sys 77 65536 empty_world = (Inr r, w)"
    using demo_runner_new by blast
  have "\<exists>b s. runner_inv demo_run_cfg r w [(b, [(s, True)])] [] \<and> unat (65536 :: u64) \<le> s + 16 \<and>
      rn_self r = 77 \<and> later bump_sys empty_world w"
    using runner_new_step[OF demo_runner_page empty_world_ok demo_steady, where k = demo_run_cfg and self = 77 and n = 65536]
    unfolding n by auto
  then obtain b s where i: "runner_inv demo_run_cfg r w [(b, [(s, True)])] []" "65520 \<le> s" "rn_self r = 77"
      "later bump_sys empty_world w"
    by auto
  then show thesis using that[OF n i(1,2) _ i(3)] sys_steady_later[OF demo_steady] by blast
qed

lemma demo_request: "request_ok 100 8" "request_bytes 100 = 128"
  by (simp_all add: request_ok_def request_bytes_def run_bytes_nat_def nat_round_up_def)

lemma demo_fit: "65520 \<le> s \<Longrightarrow> \<not> no_fit [(b, [(s, True)])] (request_bytes 100)"
  by (auto simp: no_fit_def demo_request)

text \<open>One block lent.\<close>

lemma demo_block:
  obtains r w G rl x s where "runner_inv demo_run_cfg r w G rl" "lent_runs G rl = {(x, s)}"
proof -
  obtain r w b s where d: "runner_inv demo_run_cfg r w [(b, [(s, True)])] []" "65520 \<le> s" "sys_steady bump_sys w"
    by (rule demo_runner)
  have l: "lent_runs [(b, [(s, True)])] [] = {}" by (simp add: lent_runs_def)
  obtain a r' w' G' rl' where "runner_inv demo_run_cfg r' w' G' rl'" "a \<noteq> nullptr"
    "answer_ok demo_run_cfg {} (rn_deferred_bytes r) (request_bytes 100) (Inr a) G' rl'"
    using allocate_bytes_post[OF d(1,3) demo_request(1)] demo_fit[OF d(2)] l by (fastforce simp: runner_post_def)
  then show thesis using that[of r' w' G' rl'] by (auto simp: answer_ok_def granted_def)
qed

theorem runner_allocate_correct_witness:
  "\<exists>r w b s a r' w' G' rl' x t. runner_new demo_run_cfg bump_sys 77 65536 empty_world = (Inr r, w) \<and>
     allocate_bytes demo_run_cfg bump_sys 100 8 r w = Some (Inr a, r', w') \<and> runner_inv demo_run_cfg r' w' G' rl' \<and>
     a \<noteq> nullptr \<and> a = adr (x + 16) \<and> 116 \<le> t \<and> lent_runs G' rl' = insert (x, t) (lent_runs [(b, [(s, True)])] []) \<and>
     owner_of a (cells w') = 77"
proof -
  obtain r w b s where d: "runner_new demo_run_cfg bump_sys 77 65536 empty_world = (Inr r, w)"
    "runner_inv demo_run_cfg r w [(b, [(s, True)])] []" "65520 \<le> s" "sys_steady bump_sys w" "rn_self r = 77"
    by (rule demo_runner)
  have "request_ok 100 8 \<and> \<not> no_fit [(b, [(s, True)])] (request_bytes 100)"
    using demo_request(1) demo_fit[OF d(3)] by blast
  note req = this
  show ?thesis
    using runner_allocate_correct[OF d(2,4), of 100 8]
  proof (elim exE conjE, goal_cases)
    case (1 ans r' w' G' rl')
    from 1(6) req obtain a where a: "ans = Inr a" "a \<noteq> nullptr" by blast
    then obtain x t where "a = adr (x + 16)" "116 \<le> t"
      "lent_runs G' rl' = insert (x, t) (lent_runs [(b, [(s, True)])] [])" "owner_of a (cells w') = 77"
      using 1(5) d(5) by auto
    then show ?thesis using d(1) 1(1,2) a by blast
  qed
qed

theorem runner_deallocate_correct_witness:
  "\<exists>r (w :: world) G rl x s r' m' G'. runner_inv demo_run_cfg r w G rl \<and> lent_runs G rl = {(x, s)} \<and>
     deallocate_bytes demo_run_cfg (adr (x + 16)) (r, cells w) = (r', m') \<and>
     runner_inv demo_run_cfg r' (w\<lparr>cells := m'\<rparr>) G' rl \<and> lent_runs G' rl = {}"
proof -
  obtain r w G rl x s where d: "runner_inv demo_run_cfg r w G rl" "lent_runs G rl = {(x, s)}" by (rule demo_block)
  have "(x, s) \<in> lent_runs G rl" using d(2) by simp
  from runner_deallocate_correct[OF d(1) this] d show ?thesis by fastforce
qed

theorem runner_expand_correct_witness:
  "\<exists>r (w :: world) G rl x s r' m' t. runner_inv demo_run_cfg r w G rl \<and> lent_runs G rl = {(x, s)} \<and>
     runner_expand demo_run_cfg (adr (x + 16)) 1000 (r, cells w) = (adr (t - 16), (r', m')) \<and> s \<le> t"
proof -
  obtain r w G rl x s where d: "runner_inv demo_run_cfg r w G rl" "lent_runs G rl = {(x, s)}" by (rule demo_block)
  have "(x, s) \<in> lent_runs G rl" using d(2) by simp
  from runner_expand_correct[OF d(1) this, of 1000] d show ?thesis by blast
qed

theorem runner_session_safe_witness:
  "\<exists>s0 a s1. runner_holds demo_run_cfg s0 {} \<and> runner_request demo_run_cfg bump_sys (100, 8) s0 = Some (Inr a, s1) \<and>
     a \<noteq> nullptr \<and> (\<exists>s2. runner_return demo_run_cfg Parked (adr (unat a)) s1 = Some s2)"
proof -
  obtain r w b s where d: "runner_inv demo_run_cfg r w [(b, [(s, True)])] []" "65520 \<le> s" "sys_steady bump_sys w"
    by (rule demo_runner)
  have "lent_runs [(b, [(s, True)])] [] = {}" by (simp add: lent_runs_def)
  then have h: "runner_holds demo_run_cfg (r, w) {}"
    using d(1) by (auto simp: runner_holds_def payloads_def)
  obtain a r' w' where a: "runner_request demo_run_cfg bump_sys (100, 8) (r, w) = Some (Inr a, r', w')" "a \<noteq> nullptr"
    using allocate_bytes_post[OF d(1,3) demo_request(1)] demo_fit[OF d(2)] by (fastforce simp: runner_request_def)
  note st = session.start[of "runner_request demo_run_cfg bump_sys" "runner_return demo_run_cfg" "runner_resize demo_run_cfg" client_store
    "\<lambda>s. payload_bytes (cells (snd s))" "\<lambda>s. sys_steady bump_sys (snd s)" "{Local, Parked}" "(r, w)"]
  have "sys_steady bump_sys (snd (r, w))" using d(3) by simp
  from session.grant[OF st this a] have
    "session (runner_request demo_run_cfg bump_sys) (runner_return demo_run_cfg) (runner_resize demo_run_cfg) client_store
       (\<lambda>s. payload_bytes (cells (snd s))) (\<lambda>s. sys_steady bump_sys (snd s)) {Local, Parked} (r, w) (r', w') {unat a}"
    by simp
  from runner_session_safe[OF this h, where x = "unat a" and v = Parked and n = 0]
  have "\<exists>s2. runner_return demo_run_cfg Parked (adr (unat a)) (r', w') = Some s2" by blast
  then show ?thesis using h a by blast
qed

theorem find_fit_correct_witness:
  "\<exists>r (w :: world) b s c' r'. runner_inv demo_run_cfg r w [(b, [(s, True)])] [] \<and>
     find_fit demo_run_cfg (adr 128) 0 (r, cells w) = Some (adr b, c', r')"
proof -
  obtain r w b s where d: "runner_inv demo_run_cfg r w [(b, [(s, True)])] []" "65520 \<le> s" "sys_steady bump_sys w"
    by (rule demo_runner)
  have "8 dvd (128 :: nat)" "(128 :: nat) + 8 < 2 ^ 64" by simp_all
  from find_fit_correct[OF d(1) this, of 0]
  obtain c' r' where "find_fit demo_run_cfg (adr 128) 0 (r, cells w) = Some (adr b, c', r')"
    using d(2) by (auto split: if_splits)
  then show ?thesis using d(1) by blast
qed

theorem bin_index_correct_witness:
  "bin_index_for (adr 4112) < bin_count \<and> bin_nat 4112 = 512 \<and> bin_nat 48 = 6 \<and> bin_index_for (adr 48) = adr 6"
proof -
  have "bin_nat 4112 = 512" "bin_nat 48 = 6" using nat_width_le_iff[of 4119 13] by (simp_all add: bin_nat_def)
  moreover have h: "8 dvd (4112 :: nat)" "(4112 :: nat) + 8 < 2 ^ 64" "8 dvd (48 :: nat)" "(48 :: nat) + 8 < 2 ^ 64"
    by simp_all
  moreover have "bin_index_for (adr 4112) < bin_count" "bin_index_for (adr 48) = adr (bin_nat 48)"
    using bin_index_correct[OF h(1,2)] bin_index_correct[OF h(3,4)] by blast+
  ultimately show ?thesis by simp
qed

theorem first_nonempty_correct_witness:
  "\<exists>j. first_nonempty_bin_from (adr 3) ((runner_members bump_sys 77 0)\<lparr>rn_mask := \<lambda>_. 32\<rparr>) = adr j \<and> 3 \<le> j \<and> j \<le> 5"
proof -
  let ?r = "(runner_members bump_sys 77 0)\<lparr>rn_mask := \<lambda>_. 32\<rparr>"
  obtain j where j: "first_nonempty_bin_from (adr 3) ?r = adr j" "3 \<le> j"
    "\<forall>k. 3 \<le> k \<and> k < j \<longrightarrow> \<not> bit (rn_mask ?r (k div 64)) (k mod 64)"
    using first_nonempty_correct[of 3 ?r] by auto
  have "bit (32 :: u64) 5" by (simp add: bit_iff_odd)
  then have "bit (rn_mask ?r (5 div 64)) (5 mod 64)" by simp
  then have "\<not> 5 < j" using j(3)[rule_format, of 5] by auto
  then show ?thesis using j(1,2) by auto
qed

lemma demo_empty_search:
  "find_fit demo_run_cfg 48 5 (runner_members bump_sys 77 0, \<lambda>_. 0) =
     Some (nullptr, 5, count_scanned demo_run_cfg 5
       (count demo_run_cfg (\<lambda>st. st\<lparr>st_find_fit_calls := st_find_fit_calls st + 1\<rparr>) (runner_members bump_sys 77 0)))"
proof -
  let ?r = "count demo_run_cfg (\<lambda>st. st\<lparr>st_find_fit_calls := st_find_fit_calls st + 1\<rparr>) (runner_members bump_sys 77 0)"
  have mask: "rn_mask ?r = (\<lambda>_. 0)" by (simp add: count_def runner_members_def)
  have "bin_index_for 48 = adr (bin_nat 48)" using bin_index_word[of 48] by (simp add: adr_def)
  then have b: "bin_index_for 48 = adr 6" by (simp add: bin_nat_def)
  obtain j where "first_nonempty_bin_from (adr 6) ?r = adr j" "first_from (bin_set (rn_mask ?r)) 6 j"
    using first_nonempty_spec[of 6 ?r] by auto
  then have "first_nonempty_bin_from (adr 6) ?r = adr 536"
    by (cases "j = 536") (auto simp: first_from_def bin_set_def mask)
  then have "first_nonempty_bin_from (adr 6) ?r = bin_count" by (simp add: bin_constants adr_def)
  then show ?thesis by (simp add: find_fit_def b find_fit_loop_none)
qed

theorem scanned_nodes_overcounted_witness:
  "\<exists>r' r0. find_fit demo_run_cfg 48 5 (runner_members bump_sys 77 0, \<lambda>_. 0) = Some (nullptr, 5, r') \<and>
     find_fit demo_run_cfg 48 0 (runner_members bump_sys 77 0, \<lambda>_. 0) = Some (nullptr, 0, r0) \<and>
     st_scanned_nodes (rn_stats r0) = 0 \<and> st_scanned_nodes (rn_stats r') = 5"
proof -
  have "rg_collect_stats demo_run_cfg" by (simp add: demo_run_cfg_def)
  from scanned_nodes_overcounted[OF demo_empty_search this] demo_empty_search show ?thesis
    by (auto simp: runner_members_def stats_zero_def)
qed

theorem runner_remote_correct_witness:
  "\<exists>r (w :: world) G rl x s m r' m'. runner_inv demo_run_cfg r w G rl \<and> lent_runs G rl = {(x, s)} \<and>
     runner_remote_push (adr (x + 16)) (r, cells w) = (r\<lparr>rn_remote := adr (x + 16)\<rparr>, m) \<and>
     runner_inv demo_run_cfg (r\<lparr>rn_remote := adr (x + 16)\<rparr>) (w\<lparr>cells := m\<rparr>) G ((x + 16) # rl) \<and>
     runner_drain_remote demo_run_cfg (r, cells w) = Some (rl \<noteq> [], (r', m'))"
proof -
  obtain r w G rl x s where d: "runner_inv demo_run_cfg r w G rl" "lent_runs G rl = {(x, s)}" by (rule demo_block)
  have l: "(x, s) \<in> lent_runs G rl" using d(2) by simp
  show ?thesis
    using runner_remote_correct[OF d(1) l]
  proof (elim exE conjE, goal_cases)
    case (1 m r' m' G')
    show ?thesis
      by (intro exI[of _ r] exI[of _ w] exI[of _ G] exI[of _ rl] exI[of _ x] exI[of _ s] exI[of _ m]
          exI[of _ r'] exI[of _ m'] conjI d 1)
  qed
qed

theorem runner_routing_correct_witness:
  "\<exists>r (w :: world) G rl x s. runner_inv demo_run_cfg r w G rl \<and> lent_runs G rl = {(x, s)} \<and>
     owner_of (adr (x + 16)) (cells w) = rn_self r \<and> owns_run r (adr (x + 16)) \<and> \<not> owns_run r nullptr"
proof -
  obtain r w G rl x s where d: "runner_inv demo_run_cfg r w G rl" "lent_runs G rl = {(x, s)}" by (rule demo_block)
  then have u: "(x, s) \<in> used_runs G" using lent_sub[of G rl] by auto
  note c = runner_routing_correct[OF d(1), of nullptr]
  have "owner_of (adr (x + 16)) (cells w) = rn_self r \<and> owns_run r (adr (x + 16))"
    using bspec[OF conjunct1[OF c] u] by simp
  moreover have "\<not> (\<exists>(b, rs) \<in> set G. b \<le> unat (nullptr :: ptr) \<and> unat (nullptr :: ptr) < b + run_total rs + 16)"
    using runner_inv_tiled[OF d(1)] by (auto simp: tiled_def laid_def)
  then have "\<not> owns_run r nullptr" using conjunct2[OF c] by simp
  ultimately show ?thesis using d by blast
qed

theorem runner_new_correct_witness:
  "(case runner_new demo_run_cfg bump_sys 77 65536 empty_world of
      (Inl e, w') \<Rightarrow> False
    | (Inr r, w') \<Rightarrow> \<exists>b s. runner_inv demo_run_cfg r w' [(b, [(s, True)])] [] \<and> 65520 \<le> s \<and> length (live w') = 2) \<and>
   runner_inv demo_run_cfg (runner_new_lazy bump_sys 77 65536) empty_world [] []"
proof -
  obtain r w where n: "runner_new demo_run_cfg bump_sys 77 65536 empty_world = (Inr r, w)"
    using demo_runner_new by blast
  note c = runner_new_correct[OF demo_runner_page empty_world_ok demo_steady, where k = demo_run_cfg and self = 77
      and n = 65536, unfolded n]
  then obtain b s node where "runner_inv demo_run_cfg r w [(b, [(s, True)])] []" "65520 \<le> s"
    "live w = \<lparr>r_base = adr b, r_bytes = adr (s + 16), r_align = owned_alignment demo_run_cfg\<rparr> #
                  \<lparr>r_base = node, r_bytes = sizeof_chunk_node, r_align = alignof_max_align\<rparr> # live empty_world"
    by auto
  moreover from this(3) have "length (live w) = 2" by (simp add: empty_world_def)
  moreover have "runner_inv demo_run_cfg (runner_new_lazy bump_sys 77 65536) empty_world [] []" using c by blast
  ultimately show ?thesis unfolding n by auto
qed

theorem runner_external_correct_witness:
  "case runner_new_external bump_sys 77 4104 200 (cells \<lparr>cells = (\<lambda>_. 0), calls = 0,
       live = [\<lparr>r_base = 4096, r_bytes = 4096, r_align = 4096\<rparr>]\<rparr>) of
      Inl e \<Rightarrow> False
    | Inr (r, m') \<Rightarrow> rn_self r = 77"
proof -
  let ?reg = "\<lparr>r_base = 4096, r_bytes = 4096, r_align = 4096\<rparr>" and ?w = "\<lparr>cells = (\<lambda>_. 0), calls = 0,
       live = [\<lparr>r_base = 4096, r_bytes = 4096, r_align = 4096\<rparr>]\<rparr>"
  have h: "world_ok ?w" "?reg \<in> set (live ?w)" "unat (r_base ?reg) \<le> unat (4104 :: u64)"
    "unat (4104 :: u64) + unat (200 :: u64) \<le> region_end ?reg" "region_ok ?reg"
    using has_single_bit_4096 by (simp_all add: world_ok_def region_end_def region_ok_def is_aligned_iff)
  have "\<exists>b. 16 dvd b \<and> unat (4104 :: u64) \<le> b \<and> b + 64 \<le> unat (4104 :: u64) + unat (200 :: u64)"
    by (intro exI[of _ 4112]) simp
  then show ?thesis
    using runner_external_correct[OF demo_runner_page h, where k = demo_run_cfg and self = 77]
    by (auto split: sum.splits prod.splits)
qed

theorem runner_release_correct_witness:
  "\<exists>r w. runner_new demo_run_cfg bump_sys 77 65536 empty_world = (Inr r, w) \<and>
     live (release_owned_chunks demo_run_cfg bump_sys r w) = []"
proof -
  obtain r w where n: "runner_new demo_run_cfg bump_sys 77 65536 empty_world = (Inr r, w)"
    using demo_runner_new by blast
  obtain b s node where i: "runner_inv demo_run_cfg r w [(b, [(s, True)])] []" "owned_bases r = [adr b, node]"
    "live w = [\<lparr>r_base = adr b, r_bytes = adr (s + 16), r_align = owned_alignment demo_run_cfg\<rparr>,
               \<lparr>r_base = node, r_bytes = sizeof_chunk_node, r_align = alignof_max_align\<rparr>]"
    using runner_new_step[OF demo_runner_page empty_world_ok demo_steady, where k = demo_run_cfg and self = 77 and n = 65536]
    unfolding n by (auto simp: empty_world_def)
  have "rg_huge demo_run_cfg = Huge_enabled \<longrightarrow> sys_linux bump_sys" by (simp add: demo_run_cfg_def)
  from runner_release_correct[OF i(1) this] n show ?thesis by (simp add: i(2,3))
qed

end
