(* ===== verification/Remote_Stack.thy ===== *)
theory Remote_Stack
  imports Pool_Correct Runner_Properties
begin

text \<open>
  The remote stack under concurrency: \<open>remote_push\<close> of any number of threads, step by step with the
  compare-and-swap loop, interleaved with the owner's drain, with the reuse of drained blocks and
  with writes of clients.  Pool and runner use the same loop on the same layout: the first word of
  the payload is the link.  Elsewhere \<open>pool_remote_push\<close> and \<open>runner_remote_push\<close> are single steps;
  the refinement below is what allows that.
\<close>

section \<open>The steps\<close>

text \<open>
  Where a thread is in \<open>remote_push\<close>: outside; about to store the head it has seen into the block;
  about to compare and swap.
\<close>

datatype push_pc = Outside | Linking nat ptr | Swapping nat ptr

text \<open>
  The owner is outside \<open>_drain_remote\<close> (\<open>None\<close>) or walks the list it has taken over, with the
  block it is at.  \<open>rm_held\<close> are the blocks of the clients, \<open>rm_back\<close> those the owner has back.
\<close>

record remote =
  rm_head :: ptr
  rm_mem :: memory
  rm_pc :: "nat \<Rightarrow> push_pc"
  rm_owner :: "ptr option"
  rm_held :: "nat set"
  rm_back :: "nat set"

text \<open>
  A thread in \<open>remote_push\<close>.  The first load is relaxed and the failed exchange may be spurious, so the
  head it works with is any value; the exchange succeeds only on the current head.
\<close>

inductive push_step :: "remote \<Rightarrow> remote \<Rightarrow> bool" where
  push_load: "rm_pc s t = Outside \<Longrightarrow> x \<in> rm_held s \<Longrightarrow>
    push_step s (s\<lparr>rm_pc := (rm_pc s)(t := Linking x h), rm_held := rm_held s - {x}\<rparr>)"
| push_link: "rm_pc s t = Linking x h \<Longrightarrow>
    push_step s (s\<lparr>rm_mem := (rm_mem s)(adr x := h), rm_pc := (rm_pc s)(t := Swapping x h)\<rparr>)"
| push_swap: "rm_pc s t = Swapping x h \<Longrightarrow> rm_head s = h \<Longrightarrow>
    push_step s (s\<lparr>rm_head := adr x, rm_pc := (rm_pc s)(t := Outside)\<rparr>)"
| push_retry: "rm_pc s t = Swapping x h \<Longrightarrow>
    push_step s (s\<lparr>rm_pc := (rm_pc s)(t := Linking x h')\<rparr>)"

text \<open>
  The owner in \<open>_drain_remote\<close>: one exchange, then block by block; the link is read before the block is
  given back.  Giving it back may change the words of the blocks the owner has, and of no others in \<open>U\<close>.
\<close>

inductive drain_step :: "nat set \<Rightarrow> remote \<Rightarrow> remote \<Rightarrow> bool" for U where
  drain_take: "rm_owner s = None \<Longrightarrow>
    drain_step U s (s\<lparr>rm_head := nullptr, rm_owner := Some (rm_head s)\<rparr>)"
| drain_next: "rm_owner s = Some (adr x) \<Longrightarrow> adr x \<noteq> nullptr \<Longrightarrow> x < 2 ^ 64 \<Longrightarrow>
    \<forall>y \<in> U - insert x (rm_back s). m (adr y) = rm_mem s (adr y) \<Longrightarrow>
    drain_step U s (s\<lparr>rm_mem := m, rm_owner := Some (rm_mem s (adr x)), rm_back := insert x (rm_back s)\<rparr>)"
| drain_end: "rm_owner s = Some nullptr \<Longrightarrow> drain_step U s (s\<lparr>rm_owner := None\<rparr>)"

text \<open>
  The machine: a step of some thread in \<open>remote_push\<close>, a step of the owner in \<open>_drain_remote\<close>, the owner
  granting a block it has back (which again may change the words of the blocks it has), or a client
  writing into the first word of a block it holds.
\<close>

inductive remote_step :: "nat set \<Rightarrow> remote \<Rightarrow> remote \<Rightarrow> bool" for U where
  pushing_thread: "push_step s s' \<Longrightarrow> remote_step U s s'"
| draining_owner: "drain_step U s s' \<Longrightarrow> remote_step U s s'"
| grant: "x \<in> rm_back s \<Longrightarrow> \<forall>y \<in> U - rm_back s. m (adr y) = rm_mem s (adr y) \<Longrightarrow>
    remote_step U s (s\<lparr>rm_mem := m, rm_held := insert x (rm_held s), rm_back := rm_back s - {x}\<rparr>)"
| client_word: "x \<in> rm_held s \<Longrightarrow> remote_step U s (s\<lparr>rm_mem := (rm_mem s)(adr x := v)\<rparr>)"

inductive remote_reached :: "nat set \<Rightarrow> remote \<Rightarrow> remote \<Rightarrow> bool" for U s0 where
  begin_here: "remote_reached U s0 s0"
| one_more: "remote_reached U s0 s \<Longrightarrow> remote_step U s s' \<Longrightarrow> remote_reached U s0 s'"

section \<open>The specification\<close>

text \<open>
  An atomic stack: a block that a client gives up is under way, then on the stack; the owner takes
  the whole stack over and gets its blocks back one by one.
\<close>

record stack_spec =
  sp_held :: "nat set"
  sp_under_way :: "nat set"
  sp_stack :: "nat list"
  sp_taken :: "nat list"
  sp_back :: "nat set"

inductive spec_step :: "stack_spec \<Rightarrow> stack_spec \<Rightarrow> bool" where
  give_up: "x \<in> sp_held a \<Longrightarrow>
    spec_step a (a\<lparr>sp_held := sp_held a - {x}, sp_under_way := insert x (sp_under_way a)\<rparr>)"
| push: "x \<in> sp_under_way a \<Longrightarrow>
    spec_step a (a\<lparr>sp_under_way := sp_under_way a - {x}, sp_stack := x # sp_stack a\<rparr>)"
| take_all: "sp_taken a = [] \<Longrightarrow> spec_step a (a\<lparr>sp_stack := [], sp_taken := sp_stack a\<rparr>)"
| get_back: "sp_taken a = x # xs \<Longrightarrow> spec_step a (a\<lparr>sp_taken := xs, sp_back := insert x (sp_back a)\<rparr>)"
| hand_out: "x \<in> sp_back a \<Longrightarrow>
    spec_step a (a\<lparr>sp_held := insert x (sp_held a), sp_back := sp_back a - {x}\<rparr>)"

inductive_cases remote_stepE: "remote_step U s s'"
inductive_cases push_stepE: "push_step s s'"
inductive_cases drain_stepE: "drain_step U s s'"
inductive_cases spec_stepE: "spec_step a a'"

inductive_simps remote_reached_iff: "remote_reached U s0 s"

definition pushing :: "remote \<Rightarrow> nat \<Rightarrow> nat \<Rightarrow> bool" where
  "pushing s t x \<longleftrightarrow> (\<exists>h. rm_pc s t = Linking x h \<or> rm_pc s t = Swapping x h)"

text \<open>The five places a block can be in, and that each block of \<open>U\<close> is in exactly one.\<close>

definition placed :: "nat set \<Rightarrow> stack_spec \<Rightarrow> bool" where
  "placed U a \<longleftrightarrow> distinct (sp_stack a @ sp_taken a) \<and>
     sp_held a \<inter> (sp_under_way a \<union> set (sp_stack a) \<union> set (sp_taken a) \<union> sp_back a) = {} \<and>
     sp_under_way a \<inter> (set (sp_stack a) \<union> set (sp_taken a) \<union> sp_back a) = {} \<and>
     (set (sp_stack a) \<union> set (sp_taken a)) \<inter> sp_back a = {} \<and>
     sp_held a \<union> sp_under_way a \<union> set (sp_stack a) \<union> set (sp_taken a) \<union> sp_back a = U"

fun walks :: "memory \<Rightarrow> ptr option \<Rightarrow> nat list \<Rightarrow> bool" where
  "walks m None xs \<longleftrightarrow> xs = []"
| "walks m (Some n) xs \<longleftrightarrow> slist m n xs"

text \<open>How the machine state stands for the specification's.\<close>

definition stands_for :: "nat set \<Rightarrow> remote \<Rightarrow> stack_spec \<Rightarrow> bool" where
  "stands_for U s a \<longleftrightarrow> placed U a \<and> (\<forall>x \<in> U. 0 < x \<and> x < 2 ^ 64) \<and>
     rm_held s = sp_held a \<and> rm_back s = sp_back a \<and>
     slist (rm_mem s) (rm_head s) (sp_stack a) \<and>
     walks (rm_mem s) (rm_owner s) (sp_taken a) \<and>
     (\<forall>x. x \<in> sp_under_way a \<longleftrightarrow> (\<exists>t. pushing s t x)) \<and>
     (\<forall>t t' x. pushing s t x \<longrightarrow> pushing s t' x \<longrightarrow> t = t') \<and>
     (\<forall>t x h. rm_pc s t = Swapping x h \<longrightarrow> rm_mem s (adr x) = h)"

section \<open>The simulation\<close>

lemma placed_range:
  assumes "stands_for U s a" "x \<in> sp_held a \<union> sp_under_way a \<union> set (sp_stack a) \<union> set (sp_taken a) \<union> sp_back a"
  shows "x \<in> U" "0 < x" "x < 2 ^ 64"
  using assms by (auto simp: stands_for_def placed_def)

lemma under_way: "stands_for U s a \<Longrightarrow> pushing s t x \<Longrightarrow> x \<in> sp_under_way a"
  by (auto simp: stands_for_def)

lemma swapping_word:
  "stands_for U s a \<Longrightarrow> rm_pc s t = Swapping x h \<Longrightarrow> x \<in> sp_under_way a \<and> rm_mem s (adr x) = h"
  using under_way[of U s a t x] by (auto simp: stands_for_def pushing_def)

lemma pushing_pc:
  "rm_pc s t = Linking x h \<Longrightarrow> pushing s t y \<longleftrightarrow> y = x"
  "rm_pc s t = Swapping x h \<Longrightarrow> pushing s t y \<longleftrightarrow> y = x"
  "rm_pc s t = Outside \<Longrightarrow> \<not> pushing s t y"
  by (auto simp: pushing_def)

lemma pushing_upd:
  "rm_pc s' = (rm_pc s)(t := c) \<Longrightarrow>
     pushing s' t' x \<longleftrightarrow> (if t' = t then \<exists>h. c = Linking x h \<or> c = Swapping x h else pushing s t' x)"
  by (auto simp: pushing_def)

text \<open>Lists of blocks do not change when only other words do.\<close>

lemma links_kept:
  assumes "stands_for U s a" "\<forall>y \<in> U - B. m (adr y) = rm_mem s (adr y)"
    and "B \<inter> (sp_under_way a \<union> set (sp_stack a) \<union> set zs) = {}" "set zs \<subseteq> U"
  shows "slist m (rm_head s) (sp_stack a)" "walks m n zs \<longleftrightarrow> walks (rm_mem s) n zs"
    and "rm_pc s t = Swapping x h \<Longrightarrow> m (adr x) = h"
proof -
  have U: "set (sp_stack a) \<subseteq> U" "sp_under_way a \<subseteq> U" using assms(1) by (auto simp: stands_for_def placed_def)
  have "slist m p zs = slist (rm_mem s) p zs" for p using assms(2,3,4) by (intro slist_cong) blast
  then show "walks m n zs \<longleftrightarrow> walks (rm_mem s) n zs" by (cases n) simp_all
  have "slist m (rm_head s) (sp_stack a) = slist (rm_mem s) (rm_head s) (sp_stack a)"
    using assms(2,3) U by (intro slist_cong) blast
  then show "slist m (rm_head s) (sp_stack a)" using assms(1) by (simp add: stands_for_def)
  show "m (adr x) = h" if pc: "rm_pc s t = Swapping x h"
  proof -
    have x: "x \<in> sp_under_way a" "rm_mem s (adr x) = h" using swapping_word[OF assms(1) pc] by simp_all
    then have "x \<in> U - B" using assms(3) U by blast
    then show ?thesis using assms(2) x(2) by simp
  qed
qed

text \<open>A step that only changes memory, and no word that matters.\<close>

lemma stands_for_memory:
  assumes "stands_for U s a" "\<forall>y \<in> U - B. m (adr y) = rm_mem s (adr y)"
    and "B \<inter> (sp_under_way a \<union> set (sp_stack a) \<union> set (sp_taken a)) = {}"
  shows "stands_for U (s\<lparr>rm_mem := m\<rparr>) a"
proof -
  have "set (sp_taken a) \<subseteq> U" using assms(1) by (auto simp: stands_for_def placed_def)
  note k = links_kept[OF assms this]
  show ?thesis using assms(1) k by (simp add: stands_for_def pushing_def)
qed

lemma push_step_simulates:
  assumes step: "push_step s s'" and rel: "stands_for U s a"
  shows "\<exists>a'. stands_for U s' a' \<and> (a' = a \<or> spec_step a a')"
  using step
proof (cases rule: push_step.cases)
  case (push_load t x h)
  let ?a = "a\<lparr>sp_held := sp_held a - {x}, sp_under_way := insert x (sp_under_way a)\<rparr>"
  have x: "x \<in> sp_held a" "\<not> pushing s t' x" for t'
    using push_load(3) rel by (auto simp: stands_for_def placed_def)
  have "placed U ?a" using rel x(1) by (auto simp: stands_for_def placed_def)
  moreover have "pushing s' t' y \<longleftrightarrow> (if t' = t then y = x else pushing s t' y)" for t' y
    using push_load(1) pushing_upd[of s' s t "Linking x h"] by auto
  ultimately have "stands_for U s' ?a"
    using rel x(2) pushing_pc(3)[OF push_load(2)] unfolding push_load(1) stands_for_def
    by (simp; metis push_pc.distinct(5))
  then show ?thesis using give_up[OF x(1)] by blast
next
  case (push_link t x h)
  have px: "pushing s t x" using pushing_pc(1)[OF push_link(2)] by blast
  have x: "x \<in> sp_under_way a" by (rule under_way[OF rel px])
  then have x64: "x < 2 ^ 64" using placed_range[OF rel] by blast
  have off: "x \<notin> set (sp_stack a)" "x \<notin> set (sp_taken a)" using x rel by (auto simp: stands_for_def placed_def)
  have lists: "slist ((rm_mem s)(adr x := h)) (rm_head s) (sp_stack a)"
    "walks ((rm_mem s)(adr x := h)) (rm_owner s) (sp_taken a)"
    using rel off x64 by (cases "rm_owner s"; simp add: stands_for_def)+
  have same: "pushing s' t' y = pushing s t' y" for t' y
    using pushing_upd[of s' s t "Swapping x h"] push_link(1) pushing_pc(1)[OF push_link(2), of y] by auto
  have words: "rm_mem s' (adr y) = h'" if y: "rm_pc s' t' = Swapping y h'" for t' y h'
  proof (cases "t' = t")
    case True
    then show ?thesis using y by (simp add: push_link(1))
  next
    case False
    then have pc: "rm_pc s t' = Swapping y h'" using y by (simp add: push_link(1))
    have "pushing s t' y" using pushing_pc(2)[OF pc] by blast
    then have "y \<noteq> x" using rel px False by (auto simp: stands_for_def)
    moreover have "y < 2 ^ 64" using swapping_word[OF rel pc] placed_range[OF rel, of y] by blast
    ultimately have "adr y \<noteq> adr x" using x64 by (simp add: adr_eq_iff)
    then show ?thesis using swapping_word[OF rel pc] by (simp add: push_link(1))
  qed
  have "stands_for U s' a"
    using rel lists words unfolding stands_for_def same by (simp add: push_link(1))
  then show ?thesis by blast
next
  case (push_swap t x h)
  let ?a = "a\<lparr>sp_under_way := sp_under_way a - {x}, sp_stack := x # sp_stack a\<rparr>"
  note sw = swapping_word[OF rel push_swap(2)]
  have px: "pushing s t y \<longleftrightarrow> y = x" for y by (rule pushing_pc(2)[OF push_swap(2)])
  have upd: "pushing s' t' y \<longleftrightarrow> t' \<noteq> t \<and> pushing s t' y" for t' y
    using pushing_upd[of s' s t Outside] push_swap(1) by auto
  have unique: "pushing s t1 y \<Longrightarrow> pushing s t2 y \<Longrightarrow> t1 = t2" and way: "y \<in> sp_under_way a \<longleftrightarrow> (\<exists>t. pushing s t y)"
    for t1 t2 y using rel by (simp_all add: stands_for_def)
  have "y \<in> sp_under_way ?a \<longleftrightarrow> (\<exists>t'. pushing s' t' y)" for y
  proof -
    have "y \<in> sp_under_way ?a \<longleftrightarrow> (\<exists>t'. pushing s t' y) \<and> \<not> pushing s t y" by (simp add: px way)
    also have "\<dots> \<longleftrightarrow> (\<exists>t'. t' \<noteq> t \<and> pushing s t' y)" using unique by metis
    finally show ?thesis unfolding upd .
  qed
  moreover have "placed U ?a" using rel sw by (auto simp: stands_for_def placed_def)
  moreover have "slist (rm_mem s) (adr x) (x # sp_stack a)"
    using rel sw push_swap(3) placed_range[OF rel, of x] by (simp add: stands_for_def)
  moreover have "\<forall>t1 t2 y. pushing s' t1 y \<longrightarrow> pushing s' t2 y \<longrightarrow> t1 = t2" using unique upd by blast
  ultimately have "stands_for U s' ?a"
    using rel unfolding stands_for_def by (simp add: push_swap(1))
  then show ?thesis using push sw by blast
next
  case (push_retry t x h h')
  have same: "pushing s' t' y = pushing s t' y" for t' y
    using pushing_upd[of s' s t "Linking x h'"] push_retry(1) pushing_pc(2)[OF push_retry(2), of y] by auto
  have "stands_for U s' a"
    using rel unfolding stands_for_def same by (simp add: push_retry(1))
  then show ?thesis by blast
qed

lemma drain_step_simulates:
  assumes step: "drain_step U s s'" and rel: "stands_for U s a"
  shows "\<exists>a'. stands_for U s' a' \<and> (a' = a \<or> spec_step a a')"
  using step
proof (cases rule: drain_step.cases)
  case drain_take
  let ?a = "a\<lparr>sp_stack := [], sp_taken := sp_stack a\<rparr>"
  have t: "sp_taken a = []" using drain_take(2) rel by (simp add: stands_for_def)
  have "placed U ?a" using rel t by (auto simp: stands_for_def placed_def)
  then have "stands_for U s' ?a"
    using rel unfolding drain_take(1) stands_for_def by (simp add: pushing_def)
  then show ?thesis using take_all[OF t] by blast
next
  case (drain_next x m)
  have "slist (rm_mem s) (adr x) (sp_taken a)" using drain_next(2) rel by (simp add: stands_for_def)
  then obtain xs where xs: "sp_taken a = x # xs" "slist (rm_mem s) (rm_mem s (adr x)) xs"
  proof (cases "sp_taken a")
    case Nil
    with \<open>slist (rm_mem s) (adr x) (sp_taken a)\<close> drain_next(3) show thesis by simp
  next
    case (Cons y ys)
    with \<open>slist (rm_mem s) (adr x) (sp_taken a)\<close> have "adr x = adr y" "y < 2 ^ 64" "slist (rm_mem s) (rm_mem s (adr y)) ys"
      by simp_all
    moreover from this(1,2) have "x = y" using drain_next(4) by (simp only: adr_eq_iff)
    ultimately show thesis using Cons that[of ys] by simp
  qed
  let ?a = "a\<lparr>sp_taken := xs, sp_back := insert x (sp_back a)\<rparr>"
  have pl: "placed U ?a" using rel xs(1) by (auto simp: stands_for_def placed_def)
  have fr: "\<forall>y \<in> U - insert x (sp_back a). m (adr y) = rm_mem s (adr y)"
    "insert x (sp_back a) \<inter> (sp_under_way a \<union> set (sp_stack a) \<union> set xs) = {}" "set xs \<subseteq> U"
    using drain_next(5) rel xs(1) by (auto simp: stands_for_def placed_def)
  note k = links_kept[OF rel fr]
  have "stands_for U s' ?a"
    using rel pl k(1,3) k(2)[of "Some (rm_mem s (adr x))"] xs(2)
    unfolding drain_next(1) stands_for_def by (simp add: pushing_def)
  then show ?thesis using get_back[OF xs(1)] by blast
next
  case drain_end
  have "stands_for U s' a" using rel drain_end(2) unfolding drain_end(1) stands_for_def by (simp add: pushing_def)
  then show ?thesis by blast
qed

lemma remote_step_simulates:
  assumes step: "remote_step U s s'" and rel: "stands_for U s a"
  shows "\<exists>a'. stands_for U s' a' \<and> (a' = a \<or> spec_step a a')"
  using step
proof (cases rule: remote_step.cases)
  case pushing_thread
  then show ?thesis using push_step_simulates rel by blast
next
  case draining_owner
  then show ?thesis using drain_step_simulates rel by blast
next
  case (grant x m)
  let ?a = "a\<lparr>sp_held := insert x (sp_held a), sp_back := sp_back a - {x}\<rparr>"
  have x: "x \<in> sp_back a" using grant(2) rel by (simp add: stands_for_def)
  have pl: "placed U ?a" using rel x by (auto simp: stands_for_def placed_def)
  have "stands_for U (s\<lparr>rm_mem := m\<rparr>) a"
    by (rule stands_for_memory[OF rel, of "sp_back a"])
      (use grant(3) rel in \<open>auto simp: stands_for_def placed_def\<close>)
  then have "stands_for U s' ?a" using pl unfolding grant(1) stands_for_def by (simp add: pushing_def)
  then show ?thesis using hand_out[OF x] by blast
next
  case (client_word x v)
  have x: "x \<in> sp_held a" using client_word(2) rel by (simp add: stands_for_def)
  have "stands_for U s' a"
    unfolding client_word(1)
    by (rule stands_for_memory[OF rel, of "{x}"])
      (use rel x placed_range[OF rel, of x] in \<open>auto simp: stands_for_def placed_def adr_eq_iff\<close>)
  then show ?thesis by blast
qed

text \<open>At the exchange that succeeds, the state is the one a single step of the push leads to.\<close>

lemma swap_is_push:
  assumes "stands_for U s a" "rm_pc s t = Swapping x (rm_head s)"
  shows "pool_remote_push (adr x) (p\<lparr>p_remote := rm_head s\<rparr>, rm_mem s) = (p\<lparr>p_remote := adr x\<rparr>, rm_mem s)"
    and "runner_remote_push (adr x) (r\<lparr>rn_remote := rm_head s\<rparr>, rm_mem s) = (r\<lparr>rn_remote := adr x\<rparr>, rm_mem s)"
proof -
  have "(rm_mem s)(adr x := rm_head s) = rm_mem s" using swapping_word[OF assms] by auto
  then show "pool_remote_push (adr x) (p\<lparr>p_remote := rm_head s\<rparr>, rm_mem s) = (p\<lparr>p_remote := adr x\<rparr>, rm_mem s)"
    "runner_remote_push (adr x) (r\<lparr>rn_remote := rm_head s\<rparr>, rm_mem s) = (r\<lparr>rn_remote := adr x\<rparr>, rm_mem s)"
    by (simp_all add: pool_remote_push_def runner_remote_push_def)
qed

definition remote_start :: "nat set \<Rightarrow> remote \<Rightarrow> bool" where
  "remote_start U s \<longleftrightarrow> rm_head s = nullptr \<and> rm_owner s = None \<and> (\<forall>t. rm_pc s t = Outside) \<and>
     rm_held s = U \<and> rm_back s = {} \<and> (\<forall>x \<in> U. 0 < x \<and> x < 2 ^ 64)"

lemma remote_reached_stands:
  assumes "remote_reached U s0 s" "remote_start U s0"
  shows "\<exists>a. stands_for U s a"
  using assms
proof (induction rule: remote_reached.induct)
  case begin_here
  then have "stands_for U s0 \<lparr>sp_held = U, sp_under_way = {}, sp_stack = [], sp_taken = [], sp_back = {}\<rparr>"
    by (simp add: stands_for_def placed_def remote_start_def pushing_def)
  then show ?case by blast
next
  case (one_more s s')
  then show ?case using remote_step_simulates by blast
qed

section \<open>The properties\<close>

text \<open>
  C5. The compare-and-swap loop of any number of threads, interleaved with the owner's drain, with
  stale loads, spurious failures and reuse of blocks, refines an atomic stack: every step is a step
  of the specification or changes nothing of it, and the exchange that succeeds leaves exactly the
  head and the memory that \<open>pool_remote_push\<close> and \<open>runner_remote_push\<close> compute in one step.
\<close>

theorem remote_push_refines:
  assumes rel: "stands_for U s a" and step: "remote_step U s s'"
  shows "(\<exists>a'. stands_for U s' a' \<and> (a' = a \<or> spec_step a a')) \<and>
    (\<forall>t x. rm_pc s t = Swapping x (rm_head s) \<longrightarrow>
       pool_remote_push (adr x) (p\<lparr>p_remote := rm_head s\<rparr>, rm_mem s) = (p\<lparr>p_remote := adr x\<rparr>, rm_mem s) \<and>
       runner_remote_push (adr x) (r\<lparr>rn_remote := rm_head s\<rparr>, rm_mem s) = (r\<lparr>rn_remote := adr x\<rparr>, rm_mem s))"
  using remote_step_simulates[OF step rel] swap_is_push[OF rel] by blast

text \<open>
  C6. No interleaving loses a block or hands one out twice: in every state that is reached the words
  from the head on form a list, each block is with a client, under way on exactly one thread, on the
  stack, in the part the owner has taken over, or back with the owner, and in one of these only.
\<close>

theorem remote_stack_keeps_blocks:
  assumes "remote_reached U s0 s" "remote_start U s0"
  shows "\<exists>st tk. slist (rm_mem s) (rm_head s) st \<and> walks (rm_mem s) (rm_owner s) tk \<and> distinct (st @ tk) \<and>
    U = rm_held s \<union> {x. \<exists>t. pushing s t x} \<union> set st \<union> set tk \<union> rm_back s \<and>
    rm_held s \<inter> ({x. \<exists>t. pushing s t x} \<union> set st \<union> set tk \<union> rm_back s) = {} \<and>
    {x. \<exists>t. pushing s t x} \<inter> (set st \<union> set tk \<union> rm_back s) = {} \<and> (set st \<union> set tk) \<inter> rm_back s = {} \<and>
    (\<forall>t t' x. pushing s t x \<and> pushing s t' x \<longrightarrow> t = t')"
proof -
  obtain a where a: "stands_for U s a" using remote_reached_stands[OF assms] by blast
  then have w: "{x. \<exists>t. pushing s t x} = sp_under_way a" by (auto simp: stands_for_def)
  have "\<forall>t t' x. pushing s t x \<and> pushing s t' x \<longrightarrow> t = t'" using a by (auto simp: stands_for_def)
  then show ?thesis
    using a unfolding w stands_for_def placed_def
    by (intro exI[of _ "sp_stack a"] exI[of _ "sp_taken a"]) simp
qed

section \<open>Witnesses\<close>

text \<open>Two threads that race: the second sees the stack empty, fails, and tries again.\<close>

definition demo_start :: remote where
  "demo_start = \<lparr>rm_head = nullptr, rm_mem = (\<lambda>_. 0), rm_pc = (\<lambda>_. Outside), rm_owner = None,
     rm_held = {64, 128}, rm_back = {}\<rparr>"

lemma demo_race:
  obtains s where "remote_reached {64, 128} demo_start s" "rm_pc s 1 = Swapping 128 nullptr"
    "rm_head s = adr 64" "rm_held s = {}" "rm_owner s = None" "rm_back s = {}" "rm_pc s 0 = Outside"
proof -
  let ?R = "remote_reached {64, 128} demo_start"
  note r = one_more[of "{64, 128}" demo_start]
  define s1 where "s1 = demo_start\<lparr>rm_pc := (rm_pc demo_start)(0 := Linking 64 0), rm_held := rm_held demo_start - {64}\<rparr>"
  define s2 where "s2 = s1\<lparr>rm_pc := (rm_pc s1)(1 := Linking 128 0), rm_held := rm_held s1 - {128}\<rparr>"
  define s3 where "s3 = s2\<lparr>rm_mem := (rm_mem s2)(adr 64 := 0), rm_pc := (rm_pc s2)(0 := Swapping 64 0)\<rparr>"
  define s4 where "s4 = s3\<lparr>rm_mem := (rm_mem s3)(adr 128 := 0), rm_pc := (rm_pc s3)(1 := Swapping 128 0)\<rparr>"
  define s5 where "s5 = s4\<lparr>rm_head := adr 64, rm_pc := (rm_pc s4)(0 := Outside)\<rparr>"
  have "?R s1" unfolding s1_def by (rule r[OF begin_here pushing_thread[OF push_load]]) (simp_all add: demo_start_def)
  then have "?R s2" unfolding s2_def by (rule r[OF _ pushing_thread[OF push_load]]) (simp_all add: s1_def demo_start_def)
  then have "?R s3" unfolding s3_def by (rule r[OF _ pushing_thread[OF push_link]]) (simp add: s2_def s1_def)
  then have "?R s4" unfolding s4_def by (rule r[OF _ pushing_thread[OF push_link]]) (simp add: s3_def s2_def)
  then have "?R s5" unfolding s5_def
    by (rule r[OF _ pushing_thread[OF push_swap]]) (simp_all add: s4_def s3_def s2_def s1_def demo_start_def)
  then show thesis
    by (rule that) (simp_all add: s5_def s4_def s3_def s2_def s1_def demo_start_def)
qed

lemma demo_start_ok: "remote_start {64, 128} demo_start"
  by (simp add: remote_start_def demo_start_def)

theorem remote_push_refines_witness:
  "\<exists>s s' a a'. rm_pc s 1 = Swapping 128 0 \<and> rm_head s = adr 64 \<and> s' = s\<lparr>rm_pc := (rm_pc s)(1 := Linking 128 (adr 64))\<rparr> \<and>
     stands_for {64, 128} s a \<and> stands_for {64, 128} s' a' \<and> (a' = a \<or> spec_step a a')"
proof -
  obtain s where s: "remote_reached {64, 128} demo_start s" "rm_pc s 1 = Swapping 128 nullptr" "rm_head s = adr 64"
    by (rule demo_race)
  obtain a where a: "stands_for {64, 128} s a" using remote_reached_stands[OF s(1) demo_start_ok] by blast
  show ?thesis
    using conjunct1[OF remote_push_refines[OF a pushing_thread[OF push_retry[OF s(2), of "adr 64"]]]] a s(2,3) by metis
qed

theorem remote_stack_keeps_blocks_witness:
  "\<exists>s st. remote_reached {64, 128} demo_start s \<and> slist (rm_mem s) (adr 64) st \<and> set st = {64} \<and> pushing s 1 128"
proof -
  obtain s where s: "remote_reached {64, 128} demo_start s" "rm_pc s 1 = Swapping 128 nullptr" "rm_head s = adr 64"
    "rm_held s = {}" "rm_owner s = None" "rm_back s = {}" "rm_pc s 0 = Outside"
    by (rule demo_race)
  obtain st tk where k: "slist (rm_mem s) (rm_head s) st" "walks (rm_mem s) (rm_owner s) tk"
    "{64, 128} = rm_held s \<union> {x. \<exists>t. pushing s t x} \<union> set st \<union> set tk \<union> rm_back s"
    "{x. \<exists>t. pushing s t x} \<inter> (set st \<union> set tk \<union> rm_back s) = {}"
    using remote_stack_keeps_blocks[OF s(1) demo_start_ok] by (elim exE conjE) (rule that)
  have p: "pushing s 1 128" using pushing_pc(2)[OF s(2)] by simp
  have "128 \<notin> set st" using k(4) p by auto
  moreover have "set st \<subseteq> {64, 128}" using k(3) by auto
  moreover have "st \<noteq> []" using k(1) s(3) by (auto simp: adr_eq_0_iff)
  ultimately have "set st = {64}" by (cases st) auto
  then show ?thesis using k(1) s(1,3) p by auto
qed

end
