(* ===== verification/Sub_State.thy ===== *)
theory Sub_State
  imports Pool Runner
begin

text \<open>
  The resources behind the suballocated \<open>allocazam_std_allocator\<close> of \<open>lib/allocazam.hpp\<close>:
  \<open>allocazam_std_state\<close> (a node pool beside a runner), the states that exist in the process, the
  registry of the default states, and the thread-local pointers to them.
\<close>

section \<open>Configuration\<close>

datatype resource_mode = Default_state | Explicit_state | Runs_override

text \<open>
  The template parameters, and what the C++ layout fixes for them: where \<open>runs\<close> lies in the state
  object (\<open>pool\<close> is the first member) and how many bytes the object has.
\<close>

record sub_cfg =
  sc_mode :: memory_mode
  sc_huge :: huge_pages
  sc_ty :: ty
  sc_runs_offset :: u64
  sc_state_bytes :: u64

definition cache_line_size :: "sys \<Rightarrow> u64" where
  "cache_line_size sys =
     (case sys_interference sys of
        Some s \<Rightarrow> (if has_single_bit s then s else 64)
      | None \<Rightarrow> 64)"

definition node_pool_cfg :: "sub_cfg \<Rightarrow> pool_cfg" where
  "node_pool_cfg k = \<lparr>cfg_mode = sc_mode k, cfg_headers = heap_backed_mode (sc_mode k), cfg_ty = sc_ty k\<rparr>"

definition runs_cfg :: "sub_cfg \<Rightarrow> run_cfg" where
  "runs_cfg k = \<lparr>rg_can_grow = dynamic_mode (sc_mode k), rg_collect_stats = False, rg_huge = sc_huge k\<rparr>"

definition runs_of :: "sub_cfg \<Rightarrow> ptr \<Rightarrow> ptr" where
  "runs_of k state = state + sc_runs_offset k"

text \<open>\<open>if constexpr (heap_backed_mode<Mode> && Huge == huge_pages::disabled)\<close>.\<close>

definition has_thread_state :: "sub_cfg \<Rightarrow> bool" where
  "has_thread_state k \<longleftrightarrow> heap_backed_mode (sc_mode k) \<and> sc_huge k = Huge_disabled"

section \<open>Constructing a state\<close>

record std_state =
  ss_pool :: pool
  ss_runs :: runner

text \<open>A constructor whose second member throws destroys the first.\<close>

definition state_new :: "sub_cfg \<Rightarrow> sys \<Rightarrow> ptr \<Rightarrow> u64 \<Rightarrow> u64 \<Rightarrow> world \<Rightarrow> ((exn + std_state) \<times> world) option" where
  "state_new k sys self pool_size runner_bytes w =
     (case pool_new (node_pool_cfg k) sys self pool_size w of
        (Inl e, w1) \<Rightarrow> Some (Inl e, w1)
      | (Inr p, w1) \<Rightarrow>
          (case runner_new (runs_cfg k) sys (runs_of k self) runner_bytes w1 of
             (Inl e, w2) \<Rightarrow> map_option (Pair (Inl e)) (pool_destroy (node_pool_cfg k) p w2)
           | (Inr r, w2) \<Rightarrow> Some (Inr \<lparr>ss_pool = p, ss_runs = r\<rparr>, w2)))"

definition fixed_state_new :: "sub_cfg \<Rightarrow> sys \<Rightarrow> ptr \<Rightarrow> u64 \<Rightarrow> world \<Rightarrow> ((exn + std_state) \<times> world) option" where
  "fixed_state_new k sys self pool_size w =
     state_new k sys self pool_size (max (pool_size * sizeof (sc_ty k)) 4096) w"

definition dynamic_state_new :: "sub_cfg \<Rightarrow> sys \<Rightarrow> ptr \<Rightarrow> u64 \<Rightarrow> u64 \<Rightarrow> world \<Rightarrow> ((exn + std_state) \<times> world) option" where
  "dynamic_state_new k sys self pool_size runner_bytes w = state_new k sys self pool_size runner_bytes w"

text \<open>The deferred constructors of the default states, fixed and dynamic.\<close>

definition lazy_runner_bytes :: "sub_cfg \<Rightarrow> u64" where
  "lazy_runner_bytes k = (if dynamic_mode (sc_mode k) then 65536 else max (4096 * sizeof (sc_ty k)) 4096)"

definition state_new_lazy :: "sub_cfg \<Rightarrow> sys \<Rightarrow> ptr \<Rightarrow> exn + std_state" where
  "state_new_lazy k sys self =
     (case pool_new_lazy (node_pool_cfg k) sys self 4096 of
        Inl e \<Rightarrow> Inl e
      | Inr p \<Rightarrow> Inr \<lparr>ss_pool = p, ss_runs = runner_new_lazy sys (runs_of k self) (lazy_runner_bytes k)\<rparr>)"

text \<open>The noheap states: two spans, or one span that is cut in the middle.\<close>

definition noheap_state_new ::
    "sub_cfg \<Rightarrow> sys \<Rightarrow> ptr \<Rightarrow> ptr \<Rightarrow> u64 \<Rightarrow> ptr \<Rightarrow> u64 \<Rightarrow> memory \<Rightarrow> (exn + std_state) \<times> memory" where
  "noheap_state_new k sys self nodes node_bytes run_mem run_bytes m =
     (case pool_new_external (node_pool_cfg k) self nodes node_bytes m of
        (Inl e, m1) \<Rightarrow> (Inl e, m1)
      | (Inr p, m1) \<Rightarrow>
          (case runner_new_external sys (runs_of k self) run_mem run_bytes m1 of
             Inl e \<Rightarrow> (Inl e, m1)
           | Inr (r, m2) \<Rightarrow> (Inr \<lparr>ss_pool = p, ss_runs = r\<rparr>, m2)))"

definition noheap_state_new_split ::
    "sub_cfg \<Rightarrow> sys \<Rightarrow> ptr \<Rightarrow> ptr \<Rightarrow> u64 \<Rightarrow> memory \<Rightarrow> (exn + std_state) \<times> memory" where
  "noheap_state_new_split k sys self backing bytes m =
     (let half = bytes div 2 in noheap_state_new k sys self backing half (backing + half) (bytes - half) m)"

section \<open>The process\<close>

text \<open>
  Pools and runners by their addresses, \<open>registry_next\<close> of the default states, the head of the
  registry, \<open>_tls_state\<close> of each thread, and the thread-local cache: for each thread and size class
  the head of a list in memory and its length.
\<close>

record tls_class =
  tc_head :: ptr
  tc_count :: u64

record process =
  pr_world :: world
  pr_pools :: "ptr \<Rightarrow> pool"
  pr_runs :: "ptr \<Rightarrow> runner"
  pr_next :: "ptr \<Rightarrow> ptr"
  pr_registry :: ptr
  pr_tls :: "nat \<Rightarrow> ptr"
  pr_cache :: "nat \<Rightarrow> nat \<Rightarrow> tls_class"

abbreviation mem_of :: "process \<Rightarrow> memory" where
  "mem_of P \<equiv> cells (pr_world P)"

text \<open>A step of one runner or one pool.\<close>

definition on_runs :: "ptr \<Rightarrow> (runner_mem \<Rightarrow> runner_mem) \<Rightarrow> process \<Rightarrow> process" where
  "on_runs o' f P = (case f (pr_runs P o', mem_of P) of (r, m) \<Rightarrow>
     P\<lparr>pr_runs := (pr_runs P)(o' := r), pr_world := (pr_world P)\<lparr>cells := m\<rparr>\<rparr>)"

definition on_pool :: "ptr \<Rightarrow> (pool_mem \<Rightarrow> pool_mem) \<Rightarrow> process \<Rightarrow> process" where
  "on_pool o' f P = (case f (pr_pools P o', mem_of P) of (p, m) \<Rightarrow>
     P\<lparr>pr_pools := (pr_pools P)(o' := p), pr_world := (pr_world P)\<lparr>cells := m\<rparr>\<rparr>)"

text \<open>
  A call that may throw, and may walk a list: \<open>None\<close> when the walk does not end, \<open>Inl\<close> when it
  throws; the state at the throw is kept.
\<close>

type_synonym 'a act = "process \<Rightarrow> ((exn + 'a) \<times> process) option"

definition ret :: "'a \<Rightarrow> 'a act" where
  "ret a P = Some (Inr a, P)"

definition throw :: "exn \<Rightarrow> 'a act" where
  "throw e P = Some (Inl e, P)"

definition andthen :: "'a act \<Rightarrow> ('a \<Rightarrow> 'b act) \<Rightarrow> 'b act" where
  "andthen f g P = (case f P of None \<Rightarrow> None
     | Some (Inl e, P') \<Rightarrow> Some (Inl e, P')
     | Some (Inr a, P') \<Rightarrow> g a P')"

lemma act_simps [simp]:
  "andthen (ret a) g = g a" "andthen (throw e) g = throw e"
  "ret a P = Some (Inr a, P)" "throw e P = Some (Inl e, P)"
  by (rule ext, simp add: andthen_def ret_def throw_def)+ (simp_all add: ret_def throw_def)

lemma andthen_eq:
  "f P = Some (Inr a, P') \<Longrightarrow> andthen f g P = g a P'"
  "f P = Some (Inl e, P') \<Longrightarrow> andthen f g P = Some (Inl e, P')"
  "f P = None \<Longrightarrow> andthen f g P = None"
  by (simp_all add: andthen_def)

definition runs_allocate :: "sub_cfg \<Rightarrow> sys \<Rightarrow> ptr \<Rightarrow> u64 \<Rightarrow> u64 \<Rightarrow> ptr act" where
  "runs_allocate k sys o' bytes alignment P =
     (case allocate_bytes (runs_cfg k) sys bytes alignment (pr_runs P o') (pr_world P) of
        None \<Rightarrow> None
      | Some (ans, r, w) \<Rightarrow> Some (ans, P\<lparr>pr_runs := (pr_runs P)(o' := r), pr_world := w\<rparr>))"

definition nodes_allocate :: "sub_cfg \<Rightarrow> sys \<Rightarrow> ptr \<Rightarrow> ptr act" where
  "nodes_allocate k sys o' P =
     (case pool_allocate (node_pool_cfg k) sys (pr_pools P o') (pr_world P) of
        None \<Rightarrow> None
      | Some (ans, p, w) \<Rightarrow> Some (ans, P\<lparr>pr_pools := (pr_pools P)(o' := p), pr_world := w\<rparr>))"

section \<open>The state of the calling thread\<close>

text \<open>
  \<open>_thread_state\<close>: created on first touch, pushed on the registry, then found in the thread-local
  pointer.  The compare-and-swap loop of the registry is one step here.
\<close>

definition thread_state :: "sub_cfg \<Rightarrow> sys \<Rightarrow> nat \<Rightarrow> ptr act" where
  "thread_state k sys t P =
     (if pr_tls P t \<noteq> nullptr then ret (pr_tls P t) P
      else case op_new sys (sc_state_bytes k) (cache_line_size sys) (pr_world P) of
        (fresh, w) \<Rightarrow>
          if fresh = nullptr then throw Bad_alloc (P\<lparr>pr_world := w\<rparr>)
          else case state_new_lazy k sys fresh of
            Inl e \<Rightarrow> throw e (P\<lparr>pr_world := op_delete fresh (cache_line_size sys) w\<rparr>)
          | Inr s \<Rightarrow>
              ret fresh (P\<lparr>pr_world := w, pr_pools := (pr_pools P)(fresh := ss_pool s),
                pr_runs := (pr_runs P)(runs_of k fresh := ss_runs s),
                pr_next := (pr_next P)(fresh := pr_registry P), pr_registry := fresh,
                pr_tls := (pr_tls P)(t := fresh)\<rparr>))"

definition thread_state_registry :: "process \<Rightarrow> ptr" where
  "thread_state_registry P = pr_registry P"

definition local_state_or_null :: "sub_cfg \<Rightarrow> nat \<Rightarrow> process \<Rightarrow> ptr" where
  "local_state_or_null k t P = (if has_thread_state k then pr_tls P t else nullptr)"

end
