(* ===== verification/Std_Suballocated.thy ===== *)
theory Std_Suballocated
  imports Sub_State Exclusive_Allocator
begin

text \<open>
  The suballocated \<open>allocazam_std_allocator\<close> of \<open>lib/allocazam.hpp\<close>: the handle that containers copy,
  the thread-local cache of runs, and the owner-routed frees.  One node goes to the node pool,
  several elements to the runner, byte buffers up to 4 KiB through the cache.
\<close>

section \<open>The handle\<close>

record handle =
  ah_state :: ptr
  ah_runs_override :: ptr
  ah_mode :: resource_mode

definition handle_default :: handle where
  "handle_default = \<lparr>ah_state = nullptr, ah_runs_override = nullptr, ah_mode = Default_state\<rparr>"

definition handle_explicit :: "ptr \<Rightarrow> handle" where
  "handle_explicit state = \<lparr>ah_state = state, ah_runs_override = nullptr, ah_mode = Explicit_state\<rparr>"

text \<open>\<open>_runs_ptr\<close>: it creates the state of the calling thread for a default handle.\<close>

definition runs_ptr :: "sub_cfg \<Rightarrow> sys \<Rightarrow> nat \<Rightarrow> handle \<Rightarrow> ptr act" where
  "runs_ptr k sys t h =
     (if ah_mode h = Default_state \<and> has_thread_state k
      then andthen (thread_state k sys t) (\<lambda>s. ret (runs_of k s))
      else if ah_state h \<noteq> nullptr then ret (runs_of k (ah_state h))
      else ret (ah_runs_override h))"

text \<open>What \<open>_runs_ptr\<close> answers for a handle that is not a default one: no state is created.\<close>

definition confined_runs :: "sub_cfg \<Rightarrow> handle \<Rightarrow> ptr" where
  "confined_runs k h = (if ah_state h \<noteq> nullptr then runs_of k (ah_state h) else ah_runs_override h)"

text \<open>
  Rebinding to another element type; \<open>k\<close> is the configuration of the source.  The handle that is
  bound to a state of the other type forgets the source.
\<close>

definition handle_rebind :: "sub_cfg \<Rightarrow> handle \<Rightarrow> handle" where
  "handle_rebind k other =
     (if ah_mode other \<noteq> Default_state
      then \<lparr>ah_state = nullptr, ah_runs_override = confined_runs k other, ah_mode = Runs_override\<rparr>
      else handle_default)"

definition handle_rebind_to :: "handle \<Rightarrow> ptr \<Rightarrow> handle" where
  "handle_rebind_to other state = \<lparr>ah_state = state, ah_runs_override = nullptr, ah_mode = Explicit_state\<rparr>"

definition handle_eq :: "handle \<Rightarrow> handle \<Rightarrow> bool" where
  "handle_eq lhs rhs \<longleftrightarrow> ah_state lhs = ah_state rhs \<and> ah_runs_override lhs = ah_runs_override rhs"

definition handle_neq :: "handle \<Rightarrow> handle \<Rightarrow> bool" where
  "handle_neq lhs rhs \<longleftrightarrow> \<not> handle_eq lhs rhs"

definition has_allocation_resource :: "handle \<Rightarrow> bool" where
  "has_allocation_resource h =
     (case ah_mode h of
        Default_state \<Rightarrow> True
      | Runs_override \<Rightarrow> ah_runs_override h \<noteq> nullptr
      | Explicit_state \<Rightarrow> ah_state h \<noteq> nullptr)"

definition alloc_state :: "sub_cfg \<Rightarrow> sys \<Rightarrow> nat \<Rightarrow> handle \<Rightarrow> ptr act" where
  "alloc_state k sys t h =
     (if ah_mode h = Default_state \<and> has_thread_state k then thread_state k sys t else ret (ah_state h))"

definition handle_state :: "sub_cfg \<Rightarrow> sys \<Rightarrow> nat \<Rightarrow> handle \<Rightarrow> ptr act" where
  "handle_state k sys t h =
     (if ah_mode h = Default_state \<and> has_thread_state k then thread_state k sys t else ret (ah_state h))"

definition local_runs_or_null :: "sub_cfg \<Rightarrow> nat \<Rightarrow> handle \<Rightarrow> process \<Rightarrow> ptr" where
  "local_runs_or_null k t h P =
     (if ah_mode h = Default_state
      then let local = local_state_or_null k t P
           in if local \<noteq> nullptr then runs_of k local else nullptr
      else confined_runs k h)"

definition sub_max_size :: "sub_cfg \<Rightarrow> u64" where
  "sub_max_size k = size_max div sizeof (sc_ty k)"

section \<open>The thread-local cache\<close>

definition tls_run_quantum :: u64 where
  "tls_run_quantum = alignof_max_align"

definition linear_cache_cutoff :: u64 where
  "linear_cache_cutoff = 4096"

definition tls_run_cutoff :: u64 where
  "tls_run_cutoff = linear_cache_cutoff"

definition tls_run_class_count :: u64 where
  "tls_run_class_count = tls_run_cutoff div tls_run_quantum"

definition tls_refill_batch :: nat where
  "tls_refill_batch = 4"

definition tls_high_watermark :: u64 where
  "tls_high_watermark = 32"

definition tls_drain_low_watermark :: u64 where
  "tls_drain_low_watermark = 16"

definition tls_align_up :: "u64 \<Rightarrow> u64" where
  "tls_align_up bytes = (let msk = tls_run_quantum - 1 in (bytes + msk) AND NOT msk)"

definition tls_class_index_for :: "u64 \<Rightarrow> u64" where
  "tls_class_index_for bytes = tls_align_up bytes div tls_run_quantum - 1"

definition tls_class_bytes :: "u64 \<Rightarrow> u64" where
  "tls_class_bytes idx = (idx + 1) * tls_run_quantum"

definition can_use_tls_run_cache :: "sub_cfg \<Rightarrow> handle \<Rightarrow> u64 \<Rightarrow> bool" where
  "can_use_tls_run_cache k h bytes \<longleftrightarrow>
     heap_backed_mode (sc_mode k) \<and> sizeof (sc_ty k) = 1 \<and> ah_mode h = Default_state \<and> bytes \<le> tls_run_cutoff"

text \<open>A \<open>tls_run_node\<close> lies in the payload: the next node, then the owner.\<close>

definition node_owner :: "ptr \<Rightarrow> ptr" where
  "node_owner node = node + sizeof_ptr"

definition set_class :: "nat \<Rightarrow> u64 \<Rightarrow> tls_class \<Rightarrow> process \<Rightarrow> process" where
  "set_class t idx c P = P\<lparr>pr_cache := (pr_cache P)(t := (pr_cache P t)(unat idx := c))\<rparr>"

definition set_mem :: "memory \<Rightarrow> process \<Rightarrow> process" where
  "set_mem m P = P\<lparr>pr_world := (pr_world P)\<lparr>cells := m\<rparr>\<rparr>"

definition tls_push :: "nat \<Rightarrow> u64 \<Rightarrow> ptr \<Rightarrow> ptr \<Rightarrow> process \<Rightarrow> process" where
  "tls_push t idx p owner P =
     (let cls = pr_cache P t (unat idx);
          P1 = set_mem ((mem_of P)(p := tc_head cls, node_owner p := owner)) P
      in set_class t idx \<lparr>tc_head = p, tc_count = tc_count cls + 1\<rparr> P1)"

text \<open>The loop of \<open>_tls_pop_for_owner\<close>: the node that was found, and the one before it.\<close>

partial_function (option) tls_search :: "memory \<Rightarrow> ptr \<Rightarrow> ptr \<Rightarrow> ptr \<Rightarrow> (ptr \<times> ptr) option" where
  "tls_search m owner prev node =
     (if node = nullptr then Some (prev, nullptr)
      else if m (node_owner node) \<noteq> owner then tls_search m owner node (m node)
      else Some (prev, node))"

declare tls_search.simps [code]

definition tls_pop_for_owner :: "nat \<Rightarrow> u64 \<Rightarrow> ptr \<Rightarrow> process \<Rightarrow> (ptr \<times> process) option" where
  "tls_pop_for_owner t idx owner P =
     (let cls = pr_cache P t (unat idx); m = mem_of P in
      case tls_search m owner nullptr (tc_head cls) of
        None \<Rightarrow> None
      | Some (prev, node) \<Rightarrow>
          if node = nullptr then Some (nullptr, P)
          else if prev = nullptr
          then Some (node, set_class t idx \<lparr>tc_head = m node, tc_count = tc_count cls - 1\<rparr> P)
          else Some (node, set_class t idx (cls\<lparr>tc_count := tc_count cls - 1\<rparr>) (set_mem (m(prev := m node)) P)))"

definition tls_pop_any :: "nat \<Rightarrow> u64 \<Rightarrow> process \<Rightarrow> ptr \<times> process" where
  "tls_pop_any t idx P =
     (let cls = pr_cache P t (unat idx); node = tc_head cls in
      if node = nullptr then (nullptr, P)
      else (node, set_class t idx \<lparr>tc_head = mem_of P node, tc_count = tc_count cls - 1\<rparr> P))"

text \<open>A cached run goes home: freed here when the local runner owns it, parked otherwise.\<close>

definition send_home :: "sub_cfg \<Rightarrow> ptr \<Rightarrow> ptr \<Rightarrow> ptr \<Rightarrow> process \<Rightarrow> process" where
  "send_home k local owner p P =
     (if owner = local then on_runs owner (deallocate_bytes (runs_cfg k) p) P
      else on_runs owner (runner_remote_push p) P)"

lemma cache_simps [simp]:
  "pr_cache (on_runs o' f P) = pr_cache P" "pr_cache (send_home k l o' p P) = pr_cache P"
  "pr_cache (set_mem m P) = pr_cache P" "pr_cache (set_class t idx c P) t (unat idx) = c"
  by (simp_all add: on_runs_def send_home_def set_mem_def set_class_def split: prod.split)

lemma unat_pred: "keep_count < c \<Longrightarrow> unat (c - 1) < unat c" for c :: u64
  by (cases "c = 0") (simp_all add: unat_minus_one unat_gt_0)

function tls_drain_class :: "sub_cfg \<Rightarrow> nat \<Rightarrow> handle \<Rightarrow> u64 \<Rightarrow> u64 \<Rightarrow> process \<Rightarrow> process" where
  "tls_drain_class k t h idx keep_count P =
     (if tc_count (pr_cache P t (unat idx)) > keep_count
      then case tls_pop_any t idx P of (node, P1) \<Rightarrow>
        if node = nullptr then P1
        else tls_drain_class k t h idx keep_count
               (send_home k (local_runs_or_null k t h P1) (mem_of P1 (node_owner node)) node P1)
      else P)"
  by pat_completeness auto
termination
  by (relation "measure (\<lambda>(k, t, h, idx, keep_count, P). unat (tc_count (pr_cache P t (unat idx))))")
    (auto simp: tls_pop_any_def Let_def unat_pred split: if_splits)

declare tls_drain_class.simps [simp del]

definition tls_drain_all :: "sub_cfg \<Rightarrow> nat \<Rightarrow> handle \<Rightarrow> process \<Rightarrow> process" where
  "tls_drain_all k t h P =
     foldl (\<lambda>P i. tls_drain_class k t h (adr i) 0 P) P [0..<unat tls_run_class_count]"

text \<open>The destructor of the cache, at thread exit.\<close>

partial_function (option) tls_send_all :: "sub_cfg \<Rightarrow> ptr \<Rightarrow> ptr \<Rightarrow> process \<Rightarrow> process option" where
  "tls_send_all k local node P =
     (if node = nullptr then Some P
      else let after = mem_of P node; owner = mem_of P (node_owner node)
           in tls_send_all k local after (if owner \<noteq> nullptr then send_home k local owner node P else P))"

declare tls_send_all.simps [code]

definition tls_destroy_class :: "sub_cfg \<Rightarrow> nat \<Rightarrow> ptr \<Rightarrow> u64 \<Rightarrow> process \<Rightarrow> process option" where
  "tls_destroy_class k t local idx P =
     map_option (set_class t idx \<lparr>tc_head = nullptr, tc_count = 0\<rparr>)
       (tls_send_all k local (tc_head (pr_cache P t (unat idx))) P)"

definition tls_cache_destroy :: "sub_cfg \<Rightarrow> nat \<Rightarrow> process \<Rightarrow> process option" where
  "tls_cache_destroy k t P =
     (let s = local_state_or_null k t P;
          local = (if s \<noteq> nullptr then runs_of k s else nullptr)
      in foldl (\<lambda>Q i. Option.bind Q (tls_destroy_class k t local (adr i))) (Some P) [0..<unat tls_run_class_count])"

section \<open>Allocation\<close>

text \<open>The refill of a dynamic allocator: up to three more runs of the class, pushed on the cache.\<close>

fun tls_refill :: "sub_cfg \<Rightarrow> sys \<Rightarrow> nat \<Rightarrow> handle \<Rightarrow> u64 \<Rightarrow> ptr \<Rightarrow> nat \<Rightarrow> unit act" where
  "tls_refill k sys t h idx owner 0 = ret ()"
| "tls_refill k sys t h idx owner (Suc n) =
     andthen (runs_ptr k sys t h) (\<lambda>o'.
     andthen (runs_allocate k sys o' (tls_class_bytes idx) (alignof (sc_ty k))) (\<lambda>extra.
       if extra = nullptr then ret ()
       else (\<lambda>P. tls_refill k sys t h idx owner n (tls_push t idx extra owner P))))"

definition tls_fresh :: "sub_cfg \<Rightarrow> sys \<Rightarrow> nat \<Rightarrow> handle \<Rightarrow> u64 \<Rightarrow> ptr \<Rightarrow> ptr \<Rightarrow> ptr act" where
  "tls_fresh k sys t h idx owner raw =
     (if dynamic_mode (sc_mode k)
      then andthen (tls_refill k sys t h idx owner (tls_refill_batch - 1)) (\<lambda>_. ret raw)
      else ret raw)"

definition allocate_from_tls_run_cache :: "sub_cfg \<Rightarrow> sys \<Rightarrow> nat \<Rightarrow> handle \<Rightarrow> u64 \<Rightarrow> ptr act" where
  "allocate_from_tls_run_cache k sys t h bytes =
     (let idx = tls_class_index_for bytes; class_bytes = tls_class_bytes idx;
          more = andthen (runs_ptr k sys t h) (\<lambda>o'. runs_allocate k sys o' class_bytes (alignof (sc_ty k))) in
      andthen (runs_ptr k sys t h) (\<lambda>owner P.
        case tls_pop_for_owner t idx owner P of
          None \<Rightarrow> None
        | Some (node, P1) \<Rightarrow>
            if node \<noteq> nullptr then ret node P1
            else andthen more (\<lambda>raw.
              if raw \<noteq> nullptr then tls_fresh k sys t h idx owner raw
              else (\<lambda>P2. andthen more (\<lambda>raw'.
                if raw' = nullptr then ret nullptr else tls_fresh k sys t h idx owner raw')
                  (tls_drain_all k t h P2))) P1))"

text \<open>The two ways of \<open>allocate\<close>: one element, and several.\<close>

definition runs_or_throw :: "sub_cfg \<Rightarrow> sys \<Rightarrow> nat \<Rightarrow> handle \<Rightarrow> u64 \<Rightarrow> ptr act" where
  "runs_or_throw k sys t h bytes =
     andthen (runs_ptr k sys t h) (\<lambda>o'.
     andthen (runs_allocate k sys o' bytes (alignof (sc_ty k))) (\<lambda>raw.
       if raw = nullptr then throw Bad_alloc else ret raw))"

definition allocate_one :: "sub_cfg \<Rightarrow> sys \<Rightarrow> nat \<Rightarrow> handle \<Rightarrow> ptr act" where
  "allocate_one k sys t h =
     andthen (alloc_state k sys t h) (\<lambda>s.
       if s \<noteq> nullptr
       then andthen (nodes_allocate k sys s) (\<lambda>p. if p = nullptr then throw Bad_alloc else ret p)
       else runs_or_throw k sys t h (sizeof (sc_ty k)))"

definition allocate_many :: "sub_cfg \<Rightarrow> sys \<Rightarrow> nat \<Rightarrow> handle \<Rightarrow> u64 \<Rightarrow> ptr act" where
  "allocate_many k sys t h n =
     (case checked_mul n (sizeof (sc_ty k)) of
        None \<Rightarrow> throw Bad_array_new_length
      | Some bytes \<Rightarrow>
          if can_use_tls_run_cache k h bytes
          then andthen (allocate_from_tls_run_cache k sys t h bytes) (\<lambda>p.
                 if p \<noteq> nullptr then ret p else runs_or_throw k sys t h bytes)
          else runs_or_throw k sys t h bytes)"

definition sub_allocate :: "sub_cfg \<Rightarrow> sys \<Rightarrow> nat \<Rightarrow> handle \<Rightarrow> u64 \<Rightarrow> ptr act" where
  "sub_allocate k sys t h n =
     (if n = 0 then ret nullptr
      else if n > sub_max_size k then throw Bad_array_new_length
      else if n = 1 then allocate_one k sys t h
      else allocate_many k sys t h n)"

definition at_least_count :: "sub_cfg \<Rightarrow> u64 \<Rightarrow> u64" where
  "at_least_count k n =
     (if dynamic_mode (sc_mode k) \<and> n > 1
      then let extra = n div 2
           in if n > sub_max_size k - extra then sub_max_size k else n + extra
      else n)"

definition sub_allocate_at_least :: "sub_cfg \<Rightarrow> sys \<Rightarrow> nat \<Rightarrow> handle \<Rightarrow> u64 \<Rightarrow> (ptr \<times> u64) act" where
  "sub_allocate_at_least k sys t h n =
     (if n = 0 then ret (nullptr, 0)
      else let count = at_least_count k n
           in andthen (sub_allocate k sys t h count) (\<lambda>p. ret (p, count)))"

section \<open>Deallocation and expansion\<close>

definition free_node_routed :: "sub_cfg \<Rightarrow> sys \<Rightarrow> nat \<Rightarrow> handle \<Rightarrow> ptr \<Rightarrow> process \<Rightarrow> process" where
  "free_node_routed k sys t h p P =
     (if heap_backed_mode (sc_mode k) \<and> ah_mode h = Default_state
      then let granule = granule_for (sc_ty k) (detect_page_size (sys_sysconf sys));
               owner = mem_of P (granule_of granule p);
               local = local_state_or_null k t P
           in if local \<noteq> nullptr \<and> owner = local then on_pool owner (pool_deallocate p) P
              else on_pool owner (pool_remote_push p) P
      else on_pool (ah_state h) (pool_deallocate p) P)"

definition free_run_routed :: "sub_cfg \<Rightarrow> nat \<Rightarrow> handle \<Rightarrow> ptr \<Rightarrow> process \<Rightarrow> process" where
  "free_run_routed k t h p P =
     (if ah_mode h = Default_state
      then send_home k (local_runs_or_null k t h P) (owner_of p (mem_of P)) p P
      else on_runs (confined_runs k h) (deallocate_bytes (runs_cfg k) p) P)"

definition deallocate_to_tls_run_cache :: "sub_cfg \<Rightarrow> nat \<Rightarrow> handle \<Rightarrow> ptr \<Rightarrow> u64 \<Rightarrow> process \<Rightarrow> process" where
  "deallocate_to_tls_run_cache k t h p bytes P =
     (let idx = tls_class_index_for bytes;
          P1 = (if tc_count (pr_cache P t (unat idx)) \<ge> tls_high_watermark
                then tls_drain_class k t h idx tls_drain_low_watermark P else P)
      in tls_push t idx p (owner_of p (mem_of P1)) P1)"

definition deallocate_many :: "sub_cfg \<Rightarrow> nat \<Rightarrow> handle \<Rightarrow> ptr \<Rightarrow> u64 \<Rightarrow> process \<Rightarrow> process" where
  "deallocate_many k t h p n P =
     (case checked_mul n (sizeof (sc_ty k)) of
        None \<Rightarrow> free_run_routed k t h p P
      | Some bytes \<Rightarrow>
          if can_use_tls_run_cache k h bytes then deallocate_to_tls_run_cache k t h p bytes P
          else free_run_routed k t h p P)"

definition sub_deallocate :: "sub_cfg \<Rightarrow> sys \<Rightarrow> nat \<Rightarrow> handle \<Rightarrow> ptr \<Rightarrow> u64 \<Rightarrow> process \<Rightarrow> process" where
  "sub_deallocate k sys t h p n P =
     (if p = nullptr \<or> n = 0 then P
      else if n = 1
      then if ah_mode h = Default_state \<or> ah_state h \<noteq> nullptr then free_node_routed k sys t h p P
           else free_run_routed k t h p P
      else deallocate_many k t h p n P)"

definition sub_expand_in :: "sub_cfg \<Rightarrow> ptr \<Rightarrow> ptr \<Rightarrow> u64 \<Rightarrow> process \<Rightarrow> u64 \<times> process" where
  "sub_expand_in k o' p min_new_bytes P =
     (case runner_expand (runs_cfg k) p min_new_bytes (pr_runs P o', mem_of P) of
        (bytes, s) \<Rightarrow> (bytes, on_runs o' (\<lambda>_. s) P))"

definition sub_expand :: "sub_cfg \<Rightarrow> nat \<Rightarrow> handle \<Rightarrow> ptr \<Rightarrow> u64 \<Rightarrow> process \<Rightarrow> u64 \<times> process" where
  "sub_expand k t h p min_new_bytes P =
     (if p = nullptr then (0, P)
      else if ah_mode h = Default_state
      then let local = local_state_or_null k t P
           in if local = nullptr then (0, P)
              else if pool_owns (node_pool_cfg k) (pr_pools P local) p then (sizeof (sc_ty k), P)
              else if owner_of p (mem_of P) = runs_of k local \<and> owns_run (pr_runs P (runs_of k local)) p
              then sub_expand_in k (runs_of k local) p min_new_bytes P
              else (0, P)
      else if ah_state h \<noteq> nullptr \<and> pool_owns (node_pool_cfg k) (pr_pools P (ah_state h)) p
      then (sizeof (sc_ty k), P)
      else sub_expand_in k (confined_runs k h) p min_new_bytes P)"

end
