(* ===== verification/Held_Runs.thy ===== *)
theory Held_Runs
  imports Runner_Correct
begin

text \<open>
  The runner for its clients: what is known of a block that is lent, and the laws of the interface
  \<open>block_source\<close> in the words of memory - allocation, both ways back, and a store.  An allocation
  only moves the world forward.
\<close>

section \<open>The world after an allocation\<close>

lemma add_owned_chunk_later: "later sys w (snd (snd (add_owned_chunk k sys bytes r w)))"
proof (cases "owned_chunk_bytes_for k r bytes")
  case (Inl e)
  then show ?thesis by (simp add: add_owned_chunk_def later.now)
next
  case (Inr cb)
  obtain node w1 where n: "op_new sys sizeof_chunk_node alignof_max_align w = (node, w1)" by fastforce
  have l1: "later sys w w1"
    using later.requested[OF later.now, where sys = sys and w = w and bytes = sizeof_chunk_node and al = alignof_max_align] n
    by simp
  obtain res w2 where a: "allocate_owned_memory sys (rg_huge k) cb run_alignment w1 = (res, w2)" by fastforce
  have l2: "later sys w w2" using later_trans[OF later_allocate[of sys w1 "rg_huge k" cb run_alignment] l1] a by simp
  show ?thesis
    using l1 l2 by (auto simp: add_owned_chunk_def Inr n a Let_def later.returned later.written split: sum.splits prod.splits)
qed

lemma grow_for_later: "later sys w (snd (snd (grow_for k sys needed r w)))"
proof (cases "checked_add needed min_chunk_bytes")
  case None
  then show ?thesis by (simp add: grow_for_def Let_def later.now)
next
  case (Some q)
  define r1 where "r1 = count k (\<lambda>st. st\<lparr>st_grow_calls := st_grow_calls st + 1\<rparr>) r"
  obtain ans r2 w2 where a: "add_owned_chunk k sys (max (rn_next_growth r1) q) r1 w = (ans, r2, w2)"
    by (metis prod_cases3)
  have "later sys w w2" using add_owned_chunk_later[of sys w k "max (rn_next_growth r1) q" r1] by (simp add: a)
  then show ?thesis by (cases ans) (simp_all add: grow_for_def r1_def[symmetric] Let_def Some a)
qed

lemma runner_finish_later: "later sys w0 w \<Longrightarrow> later sys w0 (snd (snd (runner_finish k n h r w)))"
  by (simp add: runner_finish_def Let_def later.written split: prod.split)

lemma runner_allocate_grow_later:
  assumes "runner_allocate_grow k sys n c r w = Some res" "later sys w0 w"
  shows "later sys w0 (snd (snd res))"
proof -
  obtain ans r1 w1 where g: "grow_for k sys n r w = (ans, r1, w1)" by (metis prod_cases3)
  have "later sys w0 w1" using later_trans[OF _ assms(2)] grow_for_later[of sys w k n r] g by simp
  then show ?thesis
    using assms runner_finish_later
    by (cases ans) (auto simp: runner_allocate_grow_def g split: if_splits bind_splits)
qed

lemma runner_allocate_deferred_later:
  assumes "runner_allocate_deferred k sys n c r w = Some res" "later sys w0 w"
  shows "later sys w0 (snd (snd res))"
proof -
  obtain ans r1 w1 where g: "add_owned_chunk k sys (rn_deferred_bytes r) r w = (ans, r1, w1)" by (metis prod_cases3)
  have "later sys w0 w1" using later_trans[OF _ assms(2)] add_owned_chunk_later[of sys w k _ r] g by (metis snd_conv)
  then show ?thesis
    using assms
    by (cases ans) (auto simp: runner_allocate_deferred_def g split: if_splits bind_splits
        intro: runner_finish_later runner_allocate_grow_later)
qed

lemma allocate_bytes_later:
  assumes "allocate_bytes k sys bytes al r w = Some res"
  shows "later sys w (snd (snd res))"
proof -
  have f: "later sys w (snd (snd (runner_finish k n h r' w)))"
    "later sys w (snd (snd (runner_finish k n h r' (w\<lparr>cells := m\<rparr>))))" for n h r' m
    by (rule runner_finish_later[OF later.now], rule runner_finish_later[OF later.written[OF later.now]])
  have d: "runner_allocate_deferred k sys n c r' (w\<lparr>cells := m\<rparr>) = Some res \<Longrightarrow> later sys w (snd (snd res))" for n c r' m
    by (rule runner_allocate_deferred_later[OF _ later.written[OF later.now]])
  show ?thesis
    using assms
    by (auto simp: allocate_bytes_def Let_def f later.now split: if_splits option.splits bind_splits)
      (erule d)+
qed

section \<open>The blocks a runner has lent\<close>

lemma keptD:
  assumes "kept B m m'" "y \<in> B"
  shows "payload_bytes m' y = payload_bytes m y" "i < payload_bytes m y \<Longrightarrow> m' (adr (y + i)) = m (adr (y + i))"
  using assms by (auto simp: keeps_def)

lemma held_block:
  assumes "runner_holds k (r, w) H" "x \<in> H"
  shows "16 dvd payload_bytes (cells w) x" "32 \<le> payload_bytes (cells w) x" "16 \<le> x"
    and "x + payload_bytes (cells w) x < 2 ^ 64" "owner_of (adr x) (cells w) = rn_self r"
proof -
  obtain G rl where inv: "runner_inv k r w G rl" and H: "H = payloads (lent_runs G rl)"
    using assms(1) by (auto simp: runner_holds_def)
  then obtain y t where y: "(y, t) \<in> lent_runs G rl" "x = y + 16" using assms(2) by (auto simp: payloads_def)
  note t = runner_inv_tiled[OF inv] and u = lent_used[OF y(1), THEN conjunct1]
  then have "(y, t, False) \<in> runs G" by (simp add: useds_def)
  note b = run_bounds[OF t this] and sz = lent_size(1)[OF t y(1), folded y(2)]
  show "16 dvd payload_bytes (cells w) x" unfolding sz using b(3,4) by (intro dvd_diff_nat) simp_all
  show "32 \<le> payload_bytes (cells w) x" "16 \<le> x" "x + payload_bytes (cells w) x < 2 ^ 64"
    unfolding sz using b(1,3,5) y(2) by simp_all
  show "owner_of (adr x) (cells w) = rn_self r" using owner_of_used[OF inv u] y(2) by simp
qed

lemma held_apart:
  assumes "runner_holds k (r, w) H" "x \<in> H" "y \<in> H" "x \<noteq> y"
  shows "x + payload_bytes (cells w) x \<le> y \<or> y + payload_bytes (cells w) y \<le> x"
  using runner_source.apart_law[of k "(r, w)" H x y] assms by simp

lemma held_request:
  assumes h: "runner_holds k (r, w) H" and steady: "sys_steady sys w"
  shows "\<exists>ans r' w'. allocate_bytes k sys b al r w = Some (ans, r', w') \<and> rn_self r' = rn_self r \<and>
    later sys w w' \<and> kept H (cells w) (cells w') \<and> confined (runner_area r) w (runner_area r') w' \<and>
    alloc_answer (runner_holds k) (\<lambda>s. payload_bytes (cells (snd s))) (unat b) H ans (r', w')"
proof -
  obtain ans s' where a: "runner_request k sys (b, al) (r, w) = Some (ans, s')"
    "alloc_answer (runner_holds k) (\<lambda>s. payload_bytes (cells (snd s))) (unat b) H ans s'"
    "keeps (\<lambda>s. payload_bytes (cells (snd s))) (\<lambda>s. cells (snd s)) H (r, w) s'"
    using runner_source.alloc_law[of k "(r, w)" H sys "(b, al)"] h steady by auto
  obtain r' w' where s': "s' = (r', w')" by (cases s')
  have al: "allocate_bytes k sys b al r w = Some (ans, r', w')" using a(1) by (simp add: runner_request_def s')
  have "rn_self r' = rn_self r \<and> confined (runner_area r) w (runner_area r') w'"
  proof -
    obtain G rl where inv: "runner_inv k r w G rl" using h by (auto simp: runner_holds_def)
    show ?thesis
    proof (cases "request_ok b al")
      case True
      then show ?thesis using allocate_bytes_post[OF inv steady True] al by (auto simp: runner_post_def)
    next
      case False
      then have "stats_only r r'" "w' = w" using allocate_bytes_refused[OF inv False, of sys] al by auto
      then show ?thesis by (simp add: stats_only_fields(3) runner_area_stats)
    qed
  qed
  moreover have "kept H (cells w) (cells w')" using a(3) by (simp add: keeps_def s')
  moreover note allocate_bytes_later[OF al]
  ultimately show ?thesis using al a(2) by (simp add: s')
qed

lemma held_return:
  assumes h: "runner_holds k (r, w) H" and x: "x \<in> H"
  shows "\<exists>r' m'. deallocate_bytes k (adr x) (r, cells w) = (r', m') \<and> rn_self r' = rn_self r \<and>
      kept (H - {x}) (cells w) m' \<and> runner_holds k (r', w\<lparr>cells := m'\<rparr>) (H - {x}) \<and>
      confined (runner_area r) w (runner_area r') (w\<lparr>cells := m'\<rparr>)"
    and "\<exists>r' m'. runner_remote_push (adr x) (r, cells w) = (r', m') \<and> rn_self r' = rn_self r \<and>
      kept (H - {x}) (cells w) m' \<and> runner_holds k (r', w\<lparr>cells := m'\<rparr>) (H - {x}) \<and>
      confined (runner_area r) w (runner_area r') (w\<lparr>cells := m'\<rparr>)"
proof -
  have law: "\<exists>s'. runner_return k v (adr x) (r, w) = Some s' \<and> runner_holds k s' (H - {x}) \<and>
      keeps (\<lambda>s. payload_bytes (cells (snd s))) (\<lambda>s. cells (snd s)) (H - {x}) (r, w) s'" for v
    using runner_source.give_law[of k "(r, w)" H x v] h x by (cases v) simp_all
  obtain G rl where inv: "runner_inv k r w G rl" and H: "H = payloads (lent_runs G rl)"
    using h by (auto simp: runner_holds_def)
  then obtain y t where y: "(y, t) \<in> lent_runs G rl" "x = y + 16" using x by (auto simp: payloads_def)
  obtain r' m' where d: "deallocate_bytes k (adr x) (r, cells w) = (r', m')" "core_only r r'"
    "confined (runner_area r) w (runner_area r') (w\<lparr>cells := m'\<rparr>)"
    using runner_deallocate_step[OF inv y(1)] y(2) by auto
  show "\<exists>r' m'. deallocate_bytes k (adr x) (r, cells w) = (r', m') \<and> rn_self r' = rn_self r \<and>
      kept (H - {x}) (cells w) m' \<and> runner_holds k (r', w\<lparr>cells := m'\<rparr>) (H - {x}) \<and>
      confined (runner_area r) w (runner_area r') (w\<lparr>cells := m'\<rparr>)"
    using law[of Local] d core_only_fields[OF d(2)] by (simp add: runner_return_def keeps_def)
  show "\<exists>r' m'. runner_remote_push (adr x) (r, cells w) = (r', m') \<and> rn_self r' = rn_self r \<and>
      kept (H - {x}) (cells w) m' \<and> runner_holds k (r', w\<lparr>cells := m'\<rparr>) (H - {x}) \<and>
      confined (runner_area r) w (runner_area r') (w\<lparr>cells := m'\<rparr>)"
    using law[of Parked] runner_push_step(5)[OF inv y(1)] y(2)
    by (simp add: runner_return_def keeps_def runner_remote_push_def)
qed

text \<open>A word inside a block may change.\<close>

lemma held_store:
  fixes b :: u64
  assumes h: "runner_holds k (r, w) H" and x: "x \<in> H" and i: "i < payload_bytes (cells w) x"
  defines "m' \<equiv> (cells w)(adr (x + i) := b)"
  shows "runner_holds k (r, w\<lparr>cells := m'\<rparr>) H" "kept (H - {x}) (cells w) m'"
    and "payload_bytes m' x = payload_bytes (cells w) x"
    and "confined (runner_area r) w (runner_area r) (w\<lparr>cells := m'\<rparr>)"
proof -
  obtain G rl where inv: "runner_inv k r w G rl" and H: "H = payloads (lent_runs G rl)"
    using h by (auto simp: runner_holds_def)
  then obtain y t where y: "(y, t) \<in> lent_runs G rl" "x = y + 16" using x by (auto simp: payloads_def)
  note t = runner_inv_tiled[OF inv]
  have it: "i < t - 16" using i lent_size[OF t y(1)] y(2) by simp
  have a: "y + 16 \<le> x + i" "x + i < y + t" using it y(2) by simp_all
  have "runner_core r (cells w) G" using inv by (simp add: runner_inv_def)
  from core_write(3)[OF this lent_used[OF y(1), THEN conjunct1] a, of b, folded m'_def]
  show "confined (runner_area r) w (runner_area r) (w\<lparr>cells := m'\<rparr>)" by (rule within_confined[OF inv _ refl])
  note inv' = runner_store_law[OF inv y(1) it, of b, folded y(2) m'_def]
  then show "runner_holds k (r, w\<lparr>cells := m'\<rparr>) H" using H by (auto simp: runner_holds_def)
  have t': "tiled m' G" using runner_inv_tiled[OF inv'] by simp
  show "payload_bytes m' x = payload_bytes (cells w) x"
    using lent_size[OF t y(1)] lent_size[OF t' y(1)] y(2) by simp
  have "payload_bytes m' z = payload_bytes (cells w) z \<and>
      (\<forall>j < payload_bytes (cells w) z. m' (adr (z + j)) = cells w (adr (z + j)))"
    if z: "z \<in> H" "z \<noteq> x" for z
  proof -
    obtain u s where u: "(u, s) \<in> lent_runs G rl" "z = u + 16" using z(1) H by (auto simp: payloads_def)
    have "adr (z + j) \<noteq> adr (x + i)" if "j < payload_bytes (cells w) z" for j
      using held_apart[OF h x z(1)] z(2) held_block(4)[OF h x] held_block(4)[OF h z(1)] i that
      by (auto simp: adr_eq_iff)
    then show ?thesis
      using lent_size[OF t u(1)] lent_size[OF t' u(1)] u(2) by (simp add: m'_def)
  qed
  then show "kept (H - {x}) (cells w) m'" by (simp add: keeps_def)
qed

section \<open>A runner among other components\<close>

text \<open>What a runner owns is memory that is out, and its blocks lie in it.\<close>

lemma runner_area_live:
  assumes "runner_inv k r w G rl" "a \<in> runner_area r"
  shows "live_at w a"
proof -
  have "a < 2 ^ 64" using assms(2) by (simp add: runner_area_def)
  then have "\<not> clear_at G a" using runner_area_iff[OF assms(1)] assms(2) by blast
  then obtain c where c: "c \<in> set G" "fst c \<le> a" "a < chunk_extent c" by (auto simp: clear_at_def not_le not_less)
  then obtain reg where "reg \<in> set (live w)" "unat (r_base reg) \<le> fst c" "chunk_extent c \<le> region_end reg"
    using chunk_in_region[OF assms(1), of "fst c" "snd c"] by (auto simp: chunk_extent_def)
  then show ?thesis using c(2,3) unfolding live_at_def by (intro bexI[of _ reg]) simp_all
qed

lemma held_area:
  assumes h: "runner_holds k (r, w) H" and x: "x \<in> H" and i: "i < payload_bytes (cells w) x + 16"
  shows "x - 16 + i \<in> runner_area r"
proof -
  obtain G rl where inv: "runner_inv k r w G rl" and H: "H = payloads (lent_runs G rl)"
    using h by (auto simp: runner_holds_def)
  then obtain y t where y: "(y, t) \<in> lent_runs G rl" "x = y + 16" using x by (auto simp: payloads_def)
  note t = runner_inv_tiled[OF inv] and u = lent_used[OF y(1), THEN conjunct1]
  have r: "(y, t, False) \<in> runs G" using u by (simp add: useds_def)
  have "i < t" using i lent_size[OF t y(1)] used_range[OF t u] y(2) by simp
  moreover from this have "y + i < 2 ^ 64" using used_range[OF t u] by simp
  ultimately show ?thesis using runner_area_iff[OF inv, of "y + i"] clear_at_run[OF _ r, of "y + i"] y(2) by auto
qed

text \<open>A runner does not mind what happens outside its own memory.\<close>

lemma runner_inv_beside:
  assumes inv: "runner_inv k r w G rl" and wok: "world_ok w'" and live: "set (live w) \<subseteq> set (live w')"
    and same: "\<And>a. a \<in> runner_area r \<Longrightarrow> cells w' (adr a) = cells w (adr a)"
  shows "runner_inv k r w' G rl"
proof -
  have rc: "runner_core r (cells w) G" and pk: "parked_ok r (cells w) G rl" using inv by (simp_all add: runner_inv_def)
  have t: "tiled (cells w) G" and bin: "binned r (cells w) (free_runs G)" using coreD(1,2)[OF rc] by (auto simp: tiles_def)
  have cell: "cells w' (adr a) = cells w (adr a)" if "a < 2 ^ 64" "\<not> clear_at G a" for a
    using same[of a] runner_area_iff[OF inv that(1)] that(2) by blast
  have run: "cells w' (adr a) = cells w (adr a)" if "(x, s, f) \<in> runs G" "x \<le> a" "a < x + s + 16" for x s f a
  proof (rule cell)
    show "a < 2 ^ 64" using run_bounds(5)[OF t that(1)] that(3) by simp
    show "\<not> clear_at G a" using clear_at_run[OF _ that(1), of a] that(2,3) by auto
  qed
  have "tiled (cells w') G"
  proof (rule tiled_cong[OF t])
    fix a assume a: "a \<in> layout_cells G"
    have "\<not> clear_at G a"
      using a
    proof (cases rule: layout_cellE)
      case (tag q)
      obtain x s f where q: "q = (x, s, f)" by (cases q)
      have "48 \<le> s" using run_bounds(3)[OF t] tag(1) by (simp add: q)
      then show ?thesis
        using clear_at_run[of G a x s f] tag by (auto simp: q tag_cells_def split: if_splits)
    next
      case (close d rs)
      then show ?thesis by (force simp: clear_at_def chunk_extent_def)
    qed
    then show "cells w' (adr a) = cells w (adr a)" using cell layout_cells_small[OF t a] by blast
  qed
  moreover have "binned r (cells w') (free_runs G)"
  proof (rule binned_cong[OF bin refl refl])
    fix y assume "y \<in> free_runs G"
    then obtain s where s: "(y, s, True) \<in> runs G" by (auto simp: frees_def)
    then show "cells w' (adr y) = cells w (adr y)" by (rule run) simp_all
  next
    fix a assume "a \<in> link_cells (free_runs G)"
    then obtain x s where x: "(x, s, True) \<in> runs G" "a \<in> inside (x, s, True)"
      using links_inside[OF t subset_refl] by blast
    then show "cells w' (adr a) = cells w (adr a)" by (intro run[OF x(1)]) (auto simp: inside_def)
  qed
  moreover have used: "cells w' (adr a) = cells w (adr a)" if "(y, s) \<in> used_runs G" "y \<le> a" "a < y + s" for y s a
    using that by (intro run[of y s False]) (auto simp: useds_def)
  have "cells w' (adr (y + 8)) = rn_self r" if y: "(y, s) \<in> used_runs G" for y s
    using used[OF y, of "y + 8"] coreD(3)[OF rc y] used_range[OF t y] by simp
  ultimately have "runner_core r (cells w') G" by (auto simp: runner_core_def tiles_def)
  moreover have "parked_ok r (cells w') G rl"
  proof -
    have "cells w' (adr p) = cells w (adr p)" if "p \<in> set rl" for p
    proof -
      have "p \<in> (\<lambda>(x, s). x + 16) ` used_runs G" using pk that by (auto simp: parked_ok_def)
      then obtain y s where y: "(y, s) \<in> used_runs G" "p = y + 16" by auto
      then show ?thesis using used[OF y(1), of p] used_range[OF t y(1)] by simp
    qed
    then show ?thesis using pk slist_cong[of rl "cells w'" "cells w"] by (simp add: parked_ok_def)
  qed
  moreover have "chunk_backed k w' c" if "chunk_backed k w c" for c
    using that live by (auto simp: chunk_backed_def split: if_splits)
  ultimately show ?thesis using inv wok by (simp add: runner_inv_def)
qed

lemma runner_holds_beside:
  assumes "runner_holds k (r, w) H" "world_ok w'" "set (live w) \<subseteq> set (live w')"
    and "\<And>a. a \<in> runner_area r \<Longrightarrow> cells w' (adr a) = cells w (adr a)"
  shows "runner_holds k (r, w') H"
proof -
  obtain G rl where "runner_inv k r w G rl" "H = payloads (lent_runs G rl)" using assms(1) by (auto simp: runner_holds_def)
  moreover from this(1) have "runner_inv k r w' G rl" using assms(2-4) by (rule runner_inv_beside)
  ultimately show ?thesis by (auto simp: runner_holds_def)
qed

end
