(* ===== verification/Held_Nodes.thy ===== *)
theory Held_Nodes
  imports Pool_Correct
begin

text \<open>
  The node pool for its clients and its neighbours: the laws of the interface \<open>block_source\<close> in the
  words of memory, together with what a step of the pool leaves alone outside of its own memory;
  and the pool that others work beside.
\<close>

section \<open>The world after an allocation\<close>

lemma op_new_later: "op_new sys bytes al w = (a, w') \<Longrightarrow> later sys w w'"
  using later.requested[OF later.now, where sys = sys and w = w and bytes = bytes and al = al] by simp

lemma chunk_new_later:
  assumes "chunk_new h sys t n page al w = (res, w')"
  shows "later sys w w'"
proof -
  have "chunk_new_headered sys t n page w = (res, w') \<Longrightarrow> later sys w w'"
    by (auto simp: chunk_new_headered_def Let_def later.now split: option.splits prod.splits if_splits
        intro!: later.written intro: op_new_later)
  moreover have "chunk_new_raw sys t n page al w = (res, w') \<Longrightarrow> later sys w w'"
    by (auto simp: chunk_new_raw_def later.now split: option.splits prod.splits if_splits intro: op_new_later)
  ultimately show ?thesis using assms by (simp add: chunk_new_def split: if_splits)
qed

lemma pool_add_chunk_later:
  assumes "pool_add_chunk k sys n p w = (res, p', w')"
  shows "later sys w w'"
proof -
  obtain c w1 where c: "chunk_new (cfg_headers k) sys (cfg_ty k) n (p_page_size p) (p_alloc_align p) w = (c, w1)" by fastforce
  note l = chunk_new_later[OF c]
  have r: "later sys w (snd (chunk_release own d w1))" for own d
    using l by (simp add: chunk_release_def later.returned)
  show ?thesis
  proof (cases c)
    case (Inl e)
    then show ?thesis using assms c l by (simp add: pool_add_chunk_def)
  next
    case (Inr d)
    then show ?thesis
      using assms c l r[of True "p_chunks p ! 0"]
      by (auto simp: pool_add_chunk_def chunk_move_assign_def Let_def split: prod.splits if_splits intro!: later.written)
  qed
qed

lemma pool_allocate_grow_later:
  assumes "pool_allocate_grow k sys p w = (r, p', w')"
  shows "later sys w w'"
  using assms
  by (auto simp: pool_allocate_grow_def pool_grow_def pool_take_node_def Let_def later.now
      split: if_splits option.splits prod.splits sum.splits dest: pool_add_chunk_later)

lemma pool_allocate_first_later:
  assumes "pool_allocate_first k sys p w = (r, p', w')"
  shows "later sys w w'"
proof -
  obtain a p1 w1 where add: "pool_add_chunk k sys (p_next_growth p) p w = (a, p1, w1)" by (metis prod_cases3)
  note l = pool_add_chunk_later[OF add]
  have g: "pool_allocate_grow k sys q w1 = (r, p', w') \<Longrightarrow> later sys w w'" for q
    using pool_allocate_grow_later l by (blast intro: later_trans)
  show ?thesis
    using assms add l g pool_allocate_grow_later[of k sys p w]
    by (auto simp: pool_allocate_first_def pool_take_node_def split: if_splits prod.splits sum.splits)
qed

lemma pool_allocate_later:
  assumes "pool_allocate k sys p w = Some (r, p', w')"
  shows "later sys w w'"
proof -
  have w: "later sys w (w\<lparr>cells := m\<rparr>)" for m by (rule later.written[OF later.now])
  have "pool_allocate_first k sys q (w\<lparr>cells := m\<rparr>) = (r, p', w') \<Longrightarrow> later sys w w'" for q m
    using pool_allocate_first_later w by (blast intro: later_trans)
  then show ?thesis
    using assms w pool_allocate_first_later
    by (auto simp: pool_allocate_def pool_take_node_def Let_def later.now split: if_splits prod.splits bind_splits)
qed

section \<open>The laws\<close>

lemma node_request:
  assumes h: "pool_holds k (p, w) H" and honest: "sys_honest sys w"
  shows "\<exists>ans p' w'. pool_allocate k sys p w = Some (ans, p', w') \<and> later sys w w' \<and> pool_step k p w p' w' \<and>
    keeps (\<lambda>_ _. node_bytes k) (\<lambda>m. m) H (cells w) (cells w') \<and>
    alloc_answer (pool_holds k) (\<lambda>_ _. node_bytes k) (unat (sizeof (cfg_ty k))) H ans (p', w')"
proof -
  obtain ans p' w' where a: "pool_request k sys () (p, w) = Some (ans, p', w')"
    "alloc_answer (pool_holds k) (\<lambda>_ _. node_bytes k) (unat (sizeof (cfg_ty k))) H ans (p', w')"
    "keeps (\<lambda>_ _. node_bytes k) (\<lambda>s. cells (snd s)) H (p, w) (p', w')"
    using pool_source.alloc_law[of k "(p, w)" H sys "()"] h honest by auto
  have eq: "pool_allocate k sys p w = Some (ans, p', w')" using a(1) by (simp add: pool_request_def)
  moreover obtain fl rl where inv: "pool_inv k p w fl rl" using h by (auto simp: pool_holds_def)
  have "alloc_post k p w fl rl (ans, p', w')" using pool_allocate_post[OF inv honest] eq by auto
  then have "pool_step k p w p' w'" by (auto simp: alloc_post_def)
  ultimately show ?thesis using a(2,3) pool_allocate_later[OF eq] by (auto simp: keeps_def)
qed

text \<open>The steps that write into one node.\<close>

lemma node_write_step:
  assumes "pool_inv k p w fl rl" "x \<in> set (pool_slots k p)" "i < node_bytes k"
    and "p_chunks p' = p_chunks p" "p_self p' = p_self p" "p_page_size p' = p_page_size p"
  shows "pool_step k p w p' (w\<lparr>cells := (cells w)(adr (x + i) := b)\<rparr>)"
proof -
  have a: "x + i \<in> pool_area k p" by (rule slot_area[OF assms(1-3)])
  then have "x + i < 2 ^ 64" by (simp add: pool_area_def)
  then show ?thesis using a assms(4-6) by (auto simp: pool_step_def confined_def pool_area_def adr_eq_iff)
qed

lemma node_apart:
  assumes "pool_holds k (p, w) H" "x \<in> H" "y \<in> H" "x \<noteq> y"
  shows "x + node_bytes k \<le> y \<or> y + node_bytes k \<le> x"
  using pool_source.apart_law[of k "(p, w)" H x y] assms by simp

lemma node_slot:
  assumes "pool_holds k (p, w) H" "x \<in> H"
  shows "0 < x" "x + node_bytes k < 2 ^ 64" "8 \<le> node_bytes k" "adr x \<noteq> nullptr"
    and "\<And>i. i < node_bytes k \<Longrightarrow> x + i \<in> pool_area k p"
proof -
  obtain fl rl where inv: "pool_inv k p w fl rl" and H: "H = lent k p fl rl" using assms(1) by (auto simp: pool_holds_def)
  note l = lent_slot[OF inv assms(2)[unfolded H]]
  show "0 < x" "x + node_bytes k < 2 ^ 64" "8 \<le> node_bytes k" using pool_inv_slots(2)[OF inv l(1)] by simp_all
  show "adr x \<noteq> nullptr" by (rule l(6))
  show "\<And>i. i < node_bytes k \<Longrightarrow> x + i \<in> pool_area k p" by (rule slot_area[OF inv l(1)])
qed

lemma node_write_keeps:
  assumes h: "pool_holds k (p, w) H" and x: "x \<in> H" and i: "i < node_bytes k"
  shows "keeps (\<lambda>_ _. node_bytes k) (\<lambda>m. m) (H - {x}) (cells w) ((cells w)(adr (x + i) := b))"
proof -
  have "adr (y + j) \<noteq> adr (x + i)" if "y \<in> H - {x}" "j < node_bytes k" for y j
  proof -
    have y: "y \<in> H" "x \<noteq> y" using that(1) by auto
    have "x + i < 2 ^ 64" "y + j < 2 ^ 64" using node_slot(2)[OF h x] node_slot(2)[OF h y(1)] i that(2) by linarith+
    then show ?thesis using node_apart[OF h x y] i that(2) by (auto simp: adr_eq_iff)
  qed
  then show ?thesis by (simp add: keeps_def)
qed

lemma node_return:
  assumes h: "pool_holds k (p, w) H" and x: "x \<in> H" and hd: "cfg_headers k"
    and op: "op = pool_deallocate (adr x) \<or> op = pool_remote_push (adr x)"
  shows "\<exists>p' m'. op (p, cells w) = (p', m') \<and> pool_holds k (p', w\<lparr>cells := m'\<rparr>) (H - {x}) \<and>
    pool_step k p w p' (w\<lparr>cells := m'\<rparr>) \<and> keeps (\<lambda>_ _. node_bytes k) (\<lambda>m. m) (H - {x}) (cells w) m'"
proof -
  obtain fl rl where inv: "pool_inv k p w fl rl" and H: "H = lent k p fl rl" using h by (auto simp: pool_holds_def)
  note l = lent_slot[OF inv x[unfolded H]]
  obtain p' m' where e: "op (p, cells w) = (p', m')" by fastforce
  have "\<exists>b. pool_holds k (p', w\<lparr>cells := m'\<rparr>) (H - {x}) \<and> m' = (cells w)(adr x := b) \<and>
      p_chunks p' = p_chunks p \<and> p_self p' = p_self p \<and> p_page_size p' = p_page_size p"
    using op
  proof
    assume o: "op = pool_deallocate (adr x)"
    note d = pool_deallocate_inv[OF inv x[unfolded H], of p' m'] e[unfolded o]
    have "p_chunks p' = p_chunks p \<and> p_self p' = p_self p \<and> p_page_size p' = p_page_size p"
      using d(4) by (auto simp: pool_deallocate_def push_free_node_def split: if_splits)
    then show ?thesis using d by (auto simp: pool_holds_def H)
  next
    assume o: "op = pool_remote_push (adr x)"
    note d = pool_remote_push_inv[OF inv x[unfolded H] hd, of p' m'] e[unfolded o]
    show ?thesis using d by (auto simp: pool_holds_def H)
  qed
  then obtain b where b: "pool_holds k (p', w\<lparr>cells := m'\<rparr>) (H - {x})" "m' = (cells w)(adr (x + 0) := b)"
    "p_chunks p' = p_chunks p" "p_self p' = p_self p" "p_page_size p' = p_page_size p" by auto
  have z: "0 < node_bytes k" using node_slot(3)[OF h x] by simp
  show ?thesis
    using e b(1) node_write_step[OF inv l(1) z b(3-5), of b] node_write_keeps[OF h x z, of b] by (simp add: b(2))
qed

lemma node_store:
  fixes b :: u64
  assumes h: "pool_holds k (p, w) H" and x: "x \<in> H" and i: "i < node_bytes k"
  defines "m' \<equiv> (cells w)(adr (x + i) := b)"
  shows "pool_holds k (p, w\<lparr>cells := m'\<rparr>) H" "pool_step k p w p (w\<lparr>cells := m'\<rparr>)"
    and "keeps (\<lambda>_ _. node_bytes k) (\<lambda>m. m) (H - {x}) (cells w) m'"
proof -
  obtain fl rl where inv: "pool_inv k p w fl rl" and H: "H = lent k p fl rl" using h by (auto simp: pool_holds_def)
  note l = lent_slot[OF inv x[unfolded H]]
  show "pool_holds k (p, w\<lparr>cells := m'\<rparr>) H"
    using client_store_inv[OF inv x[unfolded H] i] unfolding pool_holds_def H m'_def fst_conv snd_conv by blast
  show "pool_step k p w p (w\<lparr>cells := m'\<rparr>)" unfolding m'_def by (rule node_write_step[OF inv l(1) i refl refl refl])
  show "keeps (\<lambda>_ _. node_bytes k) (\<lambda>m. m) (H - {x}) (cells w) m'"
    unfolding m'_def by (rule node_write_keeps[OF h x i])
qed

section \<open>The pool beside others\<close>

lemma pool_area_live:
  assumes "pool_inv k p w fl rl" "heap_backed_mode (cfg_mode k)" "a \<in> pool_area k p"
  shows "live_at w a"
proof -
  obtain c where c: "c \<in> set (p_chunks p)" "unat (ch_nodes c) \<le> a" "a < chunk_end k c" "chunk_inv k p w c"
    using assms(1,3) by (auto simp: pool_area_def pool_inv_def)
  then have "c \<noteq> chunk_empty (cfg_ty k)" by auto
  then obtain r where "r \<in> set (live w)" "r_base r = ch_nodes c"
    "chunk_span (cfg_headers k) (cfg_ty k) c \<le> unat (r_bytes r)"
    using c(4) assms(2) by (auto simp: chunk_inv_def)
  then show ?thesis using c(2,3) unfolding live_at_def
    by (intro bexI[of _ r]) (simp_all add: chunk_end_def region_end_def)
qed

lemma pool_inv_beside:
  assumes inv: "pool_inv k p w fl rl" and wok: "world_ok w'" and live: "set (live w) \<subseteq> set (live w')"
    and same: "\<And>a. a \<in> pool_area k p \<Longrightarrow> cells w' (adr a) = cells w (adr a)"
  shows "pool_inv k p w' fl rl"
proof -
  have slot: "cells w' (adr x) = cells w (adr x)" if "x \<in> set (pool_slots k p)" for x
    using same[OF slot_area[OF inv that, of 0]] pool_inv_slots(2)[OF inv that] by simp
  have "header_frame k p w w'" using same by (auto simp: header_frame_def pool_area_def)
  then have "\<forall>c \<in> set (p_chunks p). chunk_inv k p w' c"
    using inv by (intro chunks_inv_frame[OF _ _ _ live]) (simp_all add: pool_inv_def)
  moreover have "set fl \<union> set rl \<subseteq> set (pool_slots k p)" using inv by (simp add: pool_inv_def)
  then have "slist (cells w') q fl = slist (cells w) q fl" "slist (cells w') q rl = slist (cells w) q rl" for q
    using slot by (auto intro!: slist_cong)
  ultimately show ?thesis using inv wok by (simp add: pool_inv_def free_stack_def remote_stack_def)
qed

lemma pool_holds_beside:
  assumes "pool_holds k (p, w) H" "world_ok w'" "set (live w) \<subseteq> set (live w')"
    and "\<And>a. a \<in> pool_area k p \<Longrightarrow> cells w' (adr a) = cells w (adr a)"
  shows "pool_holds k (p, w') H"
  using assms(1) pool_inv_beside[OF _ assms(2-4)] unfolding pool_holds_def fst_conv snd_conv by blast

end
