(* ===== verification/Estates.thy ===== *)
theory Estates
  imports Std_Suballocated Held_Runs Held_Nodes
begin

text \<open>
  The process as a family of parts: the node pool and the runner of every state.  Each part works in
  memory of its own - the areas of two parts never meet - so that a step of one, on whichever
  thread, leaves all the others as they are.  \<open>estates\<close> is the invariant of the family together with
  the set of blocks that are lent; the lemmas below are the steps of the process on it.
\<close>

section \<open>The parts of a process\<close>

text \<open>A part is named by the address of its state; a block by the part that lends it and its address.\<close>

datatype part = Nodes ptr | Runs ptr

type_synonym block = "part \<times> nat"

primrec part_home :: "part \<Rightarrow> ptr" where
  "part_home (Nodes s) = s"
| "part_home (Runs s) = s"

primrec part_of :: "sub_cfg \<Rightarrow> process \<Rightarrow> part \<Rightarrow> pool + runner" where
  "part_of k P (Nodes s) = Inl (pr_pools P s)"
| "part_of k P (Runs s) = Inr (pr_runs P (runs_of k s))"

primrec part_area :: "sub_cfg \<Rightarrow> process \<Rightarrow> part \<Rightarrow> nat set" where
  "part_area k P (Nodes s) = pool_area (node_pool_cfg k) (pr_pools P s)"
| "part_area k P (Runs s) = runner_area (pr_runs P (runs_of k s))"

primrec part_holds :: "sub_cfg \<Rightarrow> sys \<Rightarrow> process \<Rightarrow> part \<Rightarrow> nat set \<Rightarrow> bool" where
  "part_holds k sys P (Nodes s) H \<longleftrightarrow> pool_holds (node_pool_cfg k) (pr_pools P s, pr_world P) H \<and>
     p_self (pr_pools P s) = s \<and> p_page_size (pr_pools P s) = detect_page_size (sys_sysconf sys)"
| "part_holds k sys P (Runs s) H \<longleftrightarrow> runner_holds (runs_cfg k) (pr_runs P (runs_of k s), pr_world P) H \<and>
     rn_self (pr_runs P (runs_of k s)) = runs_of k s"

text \<open>The bytes of a block: the size of a node, or what the header before a run says.\<close>

definition span_of :: "sub_cfg \<Rightarrow> memory \<Rightarrow> block \<Rightarrow> nat" where
  "span_of k m b = (case fst b of Nodes _ \<Rightarrow> node_bytes (node_pool_cfg k) | Runs _ \<Rightarrow> payload_bytes m (snd b))"

lemma span_of_simps [simp]:
  "span_of k m (Nodes s, x) = node_bytes (node_pool_cfg k)" "span_of k m (Runs s, x) = payload_bytes m x"
  by (simp_all add: span_of_def)

text \<open>
  The invariant: the parts \<open>D\<close> are in order and lend the blocks \<open>B\<close>, the states they belong to are
  objects of their own, and no two parts share memory.
\<close>

definition estates :: "sub_cfg \<Rightarrow> sys \<Rightarrow> part set \<Rightarrow> process \<Rightarrow> block set \<Rightarrow> bool" where
  "estates k sys D P B \<longleftrightarrow> has_thread_state k \<and> world_ok (pr_world P) \<and> fst ` B \<subseteq> D \<and>
     (\<forall>p \<in> D. part_holds k sys P p (B `` {p}) \<and> part_home p \<in> r_base ` set (live (pr_world P)) \<and>
        runs_of k (part_home p) \<noteq> nullptr) \<and>
     (\<forall>p \<in> D. \<forall>q \<in> D. p \<noteq> q \<longrightarrow> part_area k P p \<inter> part_area k P q = {})"

lemma estatesD:
  assumes "estates k sys D P B"
  shows "has_thread_state k" "world_ok (pr_world P)" "b \<in> B \<Longrightarrow> fst b \<in> D"
    and "p \<in> D \<Longrightarrow> part_holds k sys P p (B `` {p})" "p \<in> D \<Longrightarrow> part_home p \<in> r_base ` set (live (pr_world P))"
    and "p \<in> D \<Longrightarrow> q \<in> D \<Longrightarrow> p \<noteq> q \<Longrightarrow> a \<in> part_area k P p \<Longrightarrow> a \<notin> part_area k P q"
    and "p \<in> D \<Longrightarrow> runs_of k (part_home p) \<noteq> nullptr"
  using assms unfolding estates_def by blast+

lemma estates_modes [simp]:
  "has_thread_state k \<Longrightarrow> heap_backed_mode (cfg_mode (node_pool_cfg k))"
  "has_thread_state k \<Longrightarrow> cfg_headers (node_pool_cfg k)"
  "cfg_ty (node_pool_cfg k) = sc_ty k"
  by (simp_all add: has_thread_state_def node_pool_cfg_def)

lemma part_holds_cache: "part_holds k sys (P\<lparr>pr_cache := K\<rparr>) p H = part_holds k sys P p H"
  by (cases p) simp_all

lemma part_of_world: "part_of k (P\<lparr>pr_world := w\<rparr>) p = part_of k P p"
  by (cases p) simp_all

lemma part_area_cache: "part_area k (P\<lparr>pr_cache := K\<rparr>) p = part_area k P p"
  by (cases p) simp_all

lemma estates_cache [simp]: "estates k sys D (P\<lparr>pr_cache := K\<rparr>) B = estates k sys D P B"
  by (simp add: estates_def part_holds_cache part_area_cache)

section \<open>What a step leaves alone\<close>

definition undisturbed :: "sub_cfg \<Rightarrow> block set \<Rightarrow> memory \<Rightarrow> memory \<Rightarrow> bool" where
  "undisturbed k B m m' \<longleftrightarrow> (\<forall>b \<in> B. span_of k m' b = span_of k m b \<and>
     (\<forall>i < span_of k m b. m' (adr (snd b + i)) = m (adr (snd b + i))))"

definition calm :: "sub_cfg \<Rightarrow> sys \<Rightarrow> block set \<Rightarrow> process \<Rightarrow> process \<Rightarrow> bool" where
  "calm k sys B P P' \<longleftrightarrow> undisturbed k B (mem_of P) (mem_of P') \<and> later sys (pr_world P) (pr_world P') \<and>
     pr_tls P' = pr_tls P"

lemma undisturbedD:
  assumes "undisturbed k B m m'" "b \<in> B"
  shows "span_of k m' b = span_of k m b" "i < span_of k m b \<Longrightarrow> m' (adr (snd b + i)) = m (adr (snd b + i))"
  using assms by (simp_all add: undisturbed_def)

lemma undisturbed_refl [simp]: "undisturbed k B m m"
  by (simp add: undisturbed_def)

lemma undisturbed_trans: "undisturbed k B m m' \<Longrightarrow> undisturbed k B m' m'' \<Longrightarrow> undisturbed k B m m''"
  by (simp add: undisturbed_def)

lemma undisturbed_mono: "undisturbed k B m m' \<Longrightarrow> A \<subseteq> B \<Longrightarrow> undisturbed k A m m'"
  by (auto simp: undisturbed_def)

lemma calm_refl [simp]: "calm k sys B P P"
  by (simp add: calm_def later.now)

lemma calm_trans: "calm k sys B P P' \<Longrightarrow> calm k sys B P' P'' \<Longrightarrow> calm k sys B P P''"
  by (auto simp: calm_def intro: undisturbed_trans later_trans)

lemma calm_mono: "calm k sys B P P' \<Longrightarrow> A \<subseteq> B \<Longrightarrow> calm k sys A P P'"
  by (auto simp: calm_def intro: undisturbed_mono)

lemma calm_steady: "calm k sys B P P' \<Longrightarrow> sys_steady sys (pr_world P) \<Longrightarrow> sys_steady sys (pr_world P')"
  by (auto simp: calm_def intro: sys_steady_later)

lemma calm_span: "calm k sys B P P' \<Longrightarrow> b \<in> B \<Longrightarrow> span_of k (mem_of P') b = span_of k (mem_of P) b"
  by (simp add: calm_def undisturbed_def)

section \<open>Blocks lie in the memory of their part\<close>

lemma part_area_live:
  assumes "estates k sys D P B" "p \<in> D" "a \<in> part_area k P p"
  shows "live_at (pr_world P) a"
proof (cases p)
  case (Nodes s)
  obtain fl rl where "pool_inv (node_pool_cfg k) (pr_pools P s) (pr_world P) fl rl"
    using estatesD(4)[OF assms(1,2)] Nodes by (auto simp: pool_holds_def)
  then show ?thesis using pool_area_live estatesD(1)[OF assms(1)] assms(3) Nodes by simp
next
  case (Runs s)
  obtain G rl where "runner_inv (runs_cfg k) (pr_runs P (runs_of k s)) (pr_world P) G rl"
    using estatesD(4)[OF assms(1,2)] Runs by (auto simp: runner_holds_def)
  then show ?thesis using runner_area_live assms(3) Runs by simp
qed

lemma part_area_range: "a \<in> part_area k P p \<Longrightarrow> a < 2 ^ 64"
  by (cases p) (simp_all add: pool_area_def runner_area_def)

text \<open>What is known of a block.\<close>

lemma lent_node:
  assumes "estates k sys D P B" "(Nodes s, x) \<in> B"
  shows "Nodes s \<in> D" "pool_holds (node_pool_cfg k) (pr_pools P s, pr_world P) (B `` {Nodes s})" "x \<in> B `` {Nodes s}"
  using estatesD(3)[OF assms] estatesD(4)[OF assms(1), of "Nodes s"] assms(2) by auto

lemma lent_run:
  assumes "estates k sys D P B" "(Runs s, x) \<in> B"
  shows "Runs s \<in> D" "runner_holds (runs_cfg k) (pr_runs P (runs_of k s), pr_world P) (B `` {Runs s})" "x \<in> B `` {Runs s}"
    and "rn_self (pr_runs P (runs_of k s)) = runs_of k s"
  using estatesD(3)[OF assms] estatesD(4)[OF assms(1), of "Runs s"] assms(2) by auto

lemma run_block:
  assumes "estates k sys D P B" "(Runs s, x) \<in> B"
  shows "16 dvd payload_bytes (mem_of P) x" "32 \<le> payload_bytes (mem_of P) x" "16 \<le> x"
    and "x + payload_bytes (mem_of P) x < 2 ^ 64" "owner_of (adr x) (mem_of P) = runs_of k s"
  using held_block[OF lent_run(2,3)[OF assms]] lent_run(4)[OF assms] by simp_all

lemma block_area:
  assumes e: "estates k sys D P B" and b: "(p, x) \<in> B" and i: "i < span_of k (mem_of P) (p, x)"
  shows "x + i \<in> part_area k P p"
proof (cases p)
  case (Nodes s)
  then show ?thesis using node_slot(5)[OF lent_node(2,3)] e b i by simp
next
  case (Runs s)
  note l = lent_run[OF e b[unfolded Runs]] and r = run_block[OF e b[unfolded Runs]]
  have "x - 16 + (i + 16) \<in> runner_area (pr_runs P (runs_of k s))" using held_area[OF l(2,3), of "i + 16"] i Runs by simp
  moreover have "x - 16 + (i + 16) = x + i" using r(3) by simp
  ultimately have "x + i \<in> runner_area (pr_runs P (runs_of k s))" by (simp only:)
  then show ?thesis using Runs by simp
qed

lemma block_range:
  assumes "estates k sys D P B" "(p, x) \<in> B"
  shows "8 \<le> span_of k (mem_of P) (p, x)" "0 < x" "x + span_of k (mem_of P) (p, x) < 2 ^ 64"
proof -
  have "8 \<le> span_of k (mem_of P) (p, x) \<and> 0 < x \<and> x + span_of k (mem_of P) (p, x) < 2 ^ 64"
  proof (cases p)
    case (Nodes s)
    then show ?thesis using node_slot(1-3)[OF lent_node(2,3)[OF assms(1), of s x]] assms(2) by simp
  next
    case (Runs s)
    then show ?thesis using run_block(2-4)[OF assms(1), of s x] assms(2) by simp
  qed
  then show "8 \<le> span_of k (mem_of P) (p, x)" "0 < x" "x + span_of k (mem_of P) (p, x) < 2 ^ 64" by simp_all
qed

lemma blocks_apart:
  assumes e: "estates k sys D P B" and b: "(p, x) \<in> B" "(q, y) \<in> B" "(p, x) \<noteq> (q, y)"
  shows "x + span_of k (mem_of P) (p, x) \<le> y \<or> y + span_of k (mem_of P) (q, y) \<le> x"
proof (cases "p = q")
  case True
  then have ne: "x \<noteq> y" using b(3) by simp
  show ?thesis
  proof (cases p)
    case (Nodes s)
    then show ?thesis using node_apart[OF lent_node(2,3)[OF e, of s x] _ ne] lent_node(3)[OF e, of s y] b(1,2) True by simp
  next
    case (Runs s)
    then show ?thesis using held_apart[OF lent_run(2,3)[OF e, of s x] _ ne] lent_run(3)[OF e, of s y] b(1,2) True by simp
  qed
next
  case False
  have D: "p \<in> D" "q \<in> D" using estatesD(3)[OF e b(1)] estatesD(3)[OF e b(2)] by simp_all
  show ?thesis
  proof (rule ccontr)
    assume "\<not> ?thesis"
    then have "max x y - x < span_of k (mem_of P) (p, x)" "max x y - y < span_of k (mem_of P) (q, y)"
      using block_range(1)[OF e b(1)] block_range(1)[OF e b(2)] by (auto simp: not_le max_def)
    from block_area[OF e b(1) this(1)] block_area[OF e b(2) this(2)] show False
      using estatesD(6)[OF e D False, of "max x y"] by simp
  qed
qed

lemma same_block: "estates k sys D P B \<Longrightarrow> (p, x) \<in> B \<Longrightarrow> (q, x) \<in> B \<Longrightarrow> p = q"
  using blocks_apart[of k sys D P B p x q x] block_range(1)[of k sys D P B] by fastforce


section \<open>A step of one part\<close>

lemma runs_of_eq [simp]: "runs_of k s = runs_of k q \<longleftrightarrow> s = q"
  by (simp add: runs_of_def)

lemma part_area_cong: "part_of k P' q = part_of k P q \<Longrightarrow> part_area k P' q = part_area k P q"
  by (cases q) simp_all

lemma part_holds_beside:
  assumes "part_holds k sys P q H" "part_of k P' q = part_of k P q" "world_ok (pr_world P')"
    and "set (live (pr_world P)) \<subseteq> set (live (pr_world P'))"
    and "\<And>a. a \<in> part_area k P q \<Longrightarrow> mem_of P' (adr a) = mem_of P (adr a)"
  shows "part_holds k sys P' q H"
  using assms by (cases q) (auto intro: pool_holds_beside runner_holds_beside)

lemma part_holds_world: "part_holds k sys P p H \<Longrightarrow> world_ok (pr_world P)"
  by (cases p) (auto simp: pool_holds_def pool_inv_def runner_holds_def runner_inv_def)

lemma payload_bytes_area:
  assumes "estates k sys D P B" "(Runs s, x) \<in> B"
  shows "x - 16 \<in> part_area k P (Runs s)"
  using held_area[OF lent_run(2,3)[OF assms], of 0] by simp

lemma estates_step:
  assumes e: "estates k sys D P B" and p: "p \<in> D"
    and others: "\<And>q. q \<noteq> p \<Longrightarrow> part_of k P' q = part_of k P q"
    and conf: "confined (part_area k P p) (pr_world P) (part_area k P' p) (pr_world P')"
    and holds: "part_holds k sys P' p (B' `` {p})"
    and blocks: "\<And>q. q \<noteq> p \<Longrightarrow> B' `` {q} = B `` {q}"
  shows "estates k sys D P' B'" and "undisturbed k {b \<in> B. fst b \<noteq> p} (mem_of P) (mem_of P')"
proof -
  have wok: "world_ok (pr_world P')" using holds by (rule part_holds_world)
  have live: "set (live (pr_world P)) \<subseteq> set (live (pr_world P'))" using conf by (simp add: confined_def)
  have away: "a \<notin> part_area k P' p \<and> mem_of P' (adr a) = mem_of P (adr a)"
    if q: "q \<in> D" "q \<noteq> p" and a: "a \<in> part_area k P q" for q a
    using confinedD[OF conf part_area_range[OF a] part_area_live[OF e q(1) a]] estatesD(6)[OF e q(1) p q(2) a] by blast
  have area: "part_area k P' q = part_area k P q" if "q \<noteq> p" for q
    by (rule part_area_cong) (rule others[OF that])
  have "part_area k P' q \<inter> part_area k P' q' = {}" if q: "q \<in> D" "q' \<in> D" "q \<noteq> q'" for q q'
  proof (cases "q = p \<or> q' = p")
    case True
    then show ?thesis using away[of q] away[of q'] area[of q] area[of q'] q by (cases "q = p") auto
  next
    case False
    then show ?thesis using area[of q] area[of q'] e q by (simp add: estates_def)
  qed
  moreover have "part_holds k sys P' q (B' `` {q}) \<and> part_home q \<in> r_base ` set (live (pr_world P')) \<and>
      runs_of k (part_home q) \<noteq> nullptr" if q: "q \<in> D" for q
  proof (intro conjI)
    show "part_holds k sys P' q (B' `` {q})"
      using holds part_holds_beside[OF estatesD(4)[OF e q] others wok live] away[OF q] blocks[of q] by (cases "q = p") simp_all
    show "runs_of k (part_home q) \<noteq> nullptr" by (rule estatesD(7)[OF e q])
    show "part_home q \<in> r_base ` set (live (pr_world P'))" using estatesD(5)[OF e q] live by blast
  qed
  moreover have "fst b \<in> D" if b: "b \<in> B'" for b
  proof (cases "fst b = p")
    case False
    have "snd b \<in> B' `` {fst b}" using b by simp
    then have "b \<in> B" unfolding blocks[OF False] by simp
    then show ?thesis by (rule estatesD(3)[OF e])
  qed (use p in simp)
  ultimately show "estates k sys D P' B'" using estatesD(1)[OF e] wok unfolding estates_def by blast
  show "undisturbed k {b \<in> B. fst b \<noteq> p} (mem_of P) (mem_of P')"
    unfolding undisturbed_def
  proof (intro ballI conjI allI impI)
    fix b assume "b \<in> {b \<in> B. fst b \<noteq> p}"
    then obtain q x where b: "b = (q, x)" "(q, x) \<in> B" "q \<noteq> p" by (cases b) auto
    have q: "q \<in> D" using estatesD(3)[OF e b(2)] by simp
    show "span_of k (mem_of P') b = span_of k (mem_of P) b"
    proof (cases q)
      case (Runs s)
      have "mem_of P' (adr (x - 16)) = mem_of P (adr (x - 16))"
        using away[OF q b(3), of "x - 16"] payload_bytes_area[OF e, of s x] b(2) Runs by simp
      then show ?thesis using b(1) Runs by (simp add: payload_bytes_def run_size_def)
    qed (simp add: b(1))
    fix i assume "i < span_of k (mem_of P) b"
    then show "mem_of P' (adr (snd b + i)) = mem_of P (adr (snd b + i))"
      using away[OF q b(3) block_area[OF e b(2)]] b(1) by simp
  qed
qed

lemma undisturbed_join:
  assumes "undisturbed k {b \<in> B. fst b \<noteq> p} m m'" "undisturbed k (A \<inter> {p} \<times> UNIV) m m'" "A \<subseteq> B"
  shows "undisturbed k A m m'"
  unfolding undisturbed_def
proof
  fix b assume b: "b \<in> A"
  show "span_of k m' b = span_of k m b \<and> (\<forall>i < span_of k m b. m' (adr (snd b + i)) = m (adr (snd b + i)))"
  proof (cases "fst b = p")
    case True
    then have "b \<in> A \<inter> {p} \<times> UNIV" using b by (cases b) simp
    then show ?thesis using undisturbedD[OF assms(2)] by simp
  next
    case False
    then have "b \<in> {b \<in> B. fst b \<noteq> p}" using b assms(3) by blast
    then show ?thesis using undisturbedD[OF assms(1)] by simp
  qed
qed

lemma undisturbed_part:
  "kept (A `` {Runs s}) m m' \<Longrightarrow> undisturbed k (A \<inter> {Runs s} \<times> UNIV) m m'"
  "keeps (\<lambda>_ _. node_bytes (node_pool_cfg k)) (\<lambda>m. m) (A `` {Nodes s}) m m' \<Longrightarrow> undisturbed k (A \<inter> {Nodes s} \<times> UNIV) m m'"
  by (auto simp: undisturbed_def keeps_def)

lemma estates_runs_step:
  assumes e: "estates k sys D P B" and s: "Runs s \<in> D"
    and r: "runner_holds (runs_cfg k) (r', w') (B' `` {Runs s})" "rn_self r' = rn_self (pr_runs P (runs_of k s))"
      "confined (runner_area (pr_runs P (runs_of k s))) (pr_world P) (runner_area r') w'"
      "kept (A `` {Runs s}) (mem_of P) (cells w')" "later sys (pr_world P) w'"
    and A: "A \<subseteq> B" and B': "\<And>q. q \<noteq> Runs s \<Longrightarrow> B' `` {q} = B `` {q}"
  defines "P' \<equiv> P\<lparr>pr_runs := (pr_runs P)(runs_of k s := r'), pr_world := w'\<rparr>"
  shows "estates k sys D P' B'" and "calm k sys A P P'"
proof -
  have o: "part_of k P' q = part_of k P q" if "q \<noteq> Runs s" for q
    using that by (cases q) (auto simp: P'_def)
  note st = estates_step[OF e s o _ _ B']
  have h: "part_holds k sys P' (Runs s) (B' `` {Runs s})" "confined (part_area k P (Runs s)) (pr_world P) (part_area k P' (Runs s)) (pr_world P')"
    using r(1-3) estatesD(4)[OF e s] by (simp_all add: P'_def)
  show "estates k sys D P' B'" by (rule st(1)) (use h in simp_all)
  have "undisturbed k {b \<in> B. fst b \<noteq> Runs s} (mem_of P) (mem_of P')" by (rule st(2)) (use h in simp_all)
  moreover have "kept (A `` {Runs s}) (mem_of P) (mem_of P')" using r(4) by (simp add: P'_def)
  ultimately have "undisturbed k A (mem_of P) (mem_of P')"
    using undisturbed_join[OF _ undisturbed_part(1) A] by blast
  then show "calm k sys A P P'" using r(5) by (simp add: calm_def P'_def)
qed

lemma estates_nodes_step:
  assumes e: "estates k sys D P B" and s: "Nodes s \<in> D"
    and r: "pool_holds (node_pool_cfg k) (p', w') (B' `` {Nodes s})"
      "pool_step (node_pool_cfg k) (pr_pools P s) (pr_world P) p' w'"
      "keeps (\<lambda>_ _. node_bytes (node_pool_cfg k)) (\<lambda>m. m) (A `` {Nodes s}) (mem_of P) (cells w')" "later sys (pr_world P) w'"
    and A: "A \<subseteq> B" and B': "\<And>q. q \<noteq> Nodes s \<Longrightarrow> B' `` {q} = B `` {q}"
  defines "P' \<equiv> P\<lparr>pr_pools := (pr_pools P)(s := p'), pr_world := w'\<rparr>"
  shows "estates k sys D P' B'" and "calm k sys A P P'"
proof -
  have o: "part_of k P' q = part_of k P q" if "q \<noteq> Nodes s" for q
    using that by (cases q) (auto simp: P'_def)
  note st = estates_step[OF e s o _ _ B']
  have h: "part_holds k sys P' (Nodes s) (B' `` {Nodes s})" "confined (part_area k P (Nodes s)) (pr_world P) (part_area k P' (Nodes s)) (pr_world P')"
    using r(1,2) estatesD(4)[OF e s] by (simp_all add: P'_def pool_step_def)
  show "estates k sys D P' B'" by (rule st(1)) (use h in simp_all)
  have "undisturbed k {b \<in> B. fst b \<noteq> Nodes s} (mem_of P) (mem_of P')" by (rule st(2)) (use h in simp_all)
  moreover have "keeps (\<lambda>_ _. node_bytes (node_pool_cfg k)) (\<lambda>m. m) (A `` {Nodes s}) (mem_of P) (mem_of P')"
    using r(3) by (simp add: P'_def)
  ultimately have "undisturbed k A (mem_of P) (mem_of P')"
    using undisturbed_join[OF _ undisturbed_part(2) A] by blast
  then show "calm k sys A P P'" using r(4) by (simp add: calm_def P'_def)
qed


section \<open>The steps of the process\<close>

lemma block_image [simp]:
  "insert (p, x) B `` {p} = insert x (B `` {p})" "(B - {(p, x)}) `` {p} = B `` {p} - {x}"
  "q \<noteq> p \<Longrightarrow> insert (p, x) B `` {q} = B `` {q}" "q \<noteq> p \<Longrightarrow> (B - {(p, x)}) `` {q} = B `` {q}"
  by auto

text \<open>An answered request to the part \<open>p\<close>: nothing new is lent, or one block that was not.\<close>

definition granted ::
    "(process \<Rightarrow> block set \<Rightarrow> bool) \<Rightarrow> sub_cfg \<Rightarrow> part \<Rightarrow> nat \<Rightarrow> block set \<Rightarrow> exn + ptr \<Rightarrow> process \<Rightarrow> bool" where
  "granted ok k p n B ans P' =
     (case ans of
        Inl _ \<Rightarrow> ok P' B
      | Inr a \<Rightarrow> if a = nullptr then ok P' B
                 else (p, unat a) \<notin> B \<and> ok P' (insert (p, unat a) B) \<and> n \<le> span_of k (mem_of P') (p, unat a))"

lemma run_request:
  assumes e: "estates k sys D P B" and s: "Runs s \<in> D" and steady: "sys_steady sys (pr_world P)"
  shows "\<exists>ans P'. runs_allocate k sys (runs_of k s) b al P = Some (ans, P') \<and> calm k sys B P P' \<and>
    pr_cache P' = pr_cache P \<and> granted (estates k sys D) k (Runs s) (unat b) B ans P'"
proof -
  have h: "runner_holds (runs_cfg k) (pr_runs P (runs_of k s), pr_world P) (B `` {Runs s})"
    using estatesD(4)[OF e s] by simp
  obtain ans r' w' where a: "allocate_bytes (runs_cfg k) sys b al (pr_runs P (runs_of k s)) (pr_world P) = Some (ans, r', w')"
    "rn_self r' = rn_self (pr_runs P (runs_of k s))" "later sys (pr_world P) w'" "kept (B `` {Runs s}) (mem_of P) (cells w')"
    "confined (runner_area (pr_runs P (runs_of k s))) (pr_world P) (runner_area r') w'"
    "alloc_answer (runner_holds (runs_cfg k)) (\<lambda>s. payload_bytes (cells (snd s))) (unat b) (B `` {Runs s}) ans (r', w')"
    using held_request[OF h steady, of b al] by blast
  define P' where "P' = P\<lparr>pr_runs := (pr_runs P)(runs_of k s := r'), pr_world := w'\<rparr>"
  note st = estates_runs_step[OF e s _ a(2,5,4,3) subset_refl, folded P'_def]
  have "granted (estates k sys D) k (Runs s) (unat b) B ans P' \<and> calm k sys B P P'"
  proof (cases "\<exists>x. ans = Inr x \<and> x \<noteq> nullptr")
    case True
    then obtain x where x: "ans = Inr x" "x \<noteq> nullptr" by blast
    then have g: "unat x \<notin> B `` {Runs s}" "runner_holds (runs_cfg k) (r', w') (insert (Runs s, unat x) B `` {Runs s})"
      "unat b \<le> payload_bytes (cells w') (unat x)"
      using a(6) by (simp_all add: alloc_answer_def)
    show ?thesis using st[OF g(2)] g(1,3) x by (simp add: granted_def P'_def)
  next
    case False
    then have "runner_holds (runs_cfg k) (r', w') (B `` {Runs s})" using a(6) by (auto simp: alloc_answer_def split: sum.splits)
    then show ?thesis using st[of B] False by (auto simp: granted_def split: sum.splits)
  qed
  moreover have "runs_allocate k sys (runs_of k s) b al P = Some (ans, P')" by (simp add: runs_allocate_def a(1) P'_def)
  moreover have "pr_cache P' = pr_cache P" by (simp add: P'_def)
  ultimately show ?thesis by blast
qed

lemma run_return:
  assumes e: "estates k sys D P B" and b: "(Runs s, x) \<in> B"
  shows "estates k sys D (send_home k local (runs_of k s) (adr x) P) (B - {(Runs s, x)})"
    and "calm k sys (B - {(Runs s, x)}) P (send_home k local (runs_of k s) (adr x) P)"
proof -
  note l = lent_run[OF e b]
  define op where "op = (if runs_of k s = local then deallocate_bytes (runs_cfg k) (adr x) (pr_runs P (runs_of k s), mem_of P)
                         else runner_remote_push (adr x) (pr_runs P (runs_of k s), mem_of P))"
  obtain r' m' where o: "op = (r', m')" "rn_self r' = rn_self (pr_runs P (runs_of k s))"
    "kept (B `` {Runs s} - {x}) (mem_of P) m'"
    "runner_holds (runs_cfg k) (r', (pr_world P)\<lparr>cells := m'\<rparr>) (B `` {Runs s} - {x})"
    "confined (runner_area (pr_runs P (runs_of k s))) (pr_world P) (runner_area r') ((pr_world P)\<lparr>cells := m'\<rparr>)"
    unfolding op_def using held_return[OF l(2,3)] by (cases "runs_of k s = local") auto
  have eq: "send_home k local (runs_of k s) (adr x) P =
      P\<lparr>pr_runs := (pr_runs P)(runs_of k s := r'), pr_world := (pr_world P)\<lparr>cells := m'\<rparr>\<rparr>"
    using o(1) by (auto simp: send_home_def on_runs_def op_def split: if_splits)
  note st = estates_runs_step[OF e l(1), where A = "B - {(Runs s, x)}" and B' = "B - {(Runs s, x)}"]
  show "estates k sys D (send_home k local (runs_of k s) (adr x) P) (B - {(Runs s, x)})"
    unfolding eq by (rule st(1)) (use o in \<open>simp_all add: later.written later.now Diff_subset\<close>)
  show "calm k sys (B - {(Runs s, x)}) P (send_home k local (runs_of k s) (adr x) P)"
    unfolding eq by (rule st(2)) (use o in \<open>simp_all add: later.written later.now Diff_subset\<close>)
qed

lemma block_store:
  fixes v :: u64
  assumes e: "estates k sys D P B" and b: "(p, x) \<in> B" and i: "i < span_of k (mem_of P) (p, x)"
  defines "P' \<equiv> set_mem ((mem_of P)(adr (x + i) := v)) P"
  shows "estates k sys D P' B" and "calm k sys (B - {(p, x)}) P P'"
    and "span_of k (mem_of P') (p, x) = span_of k (mem_of P) (p, x)"
proof -
  have "estates k sys D P' B \<and> calm k sys (B - {(p, x)}) P P' \<and> span_of k (mem_of P') (p, x) = span_of k (mem_of P) (p, x)"
  proof (cases p)
    case (Nodes s)
    note l = lent_node[OF e b[unfolded Nodes]]
    have j: "i < node_bytes (node_pool_cfg k)" using i Nodes by simp
    note o = node_store[OF l(2,3) j, of v]
    have eq: "P' = P\<lparr>pr_pools := (pr_pools P)(s := pr_pools P s), pr_world := (pr_world P)\<lparr>cells := (mem_of P)(adr (x + i) := v)\<rparr>\<rparr>"
      by (simp add: P'_def set_mem_def)
    note st = estates_nodes_step[OF e l(1), where A = "B - {(Nodes s, x)}" and B' = B]
    have "estates k sys D P' B" unfolding eq by (rule st(1)) (use o in \<open>simp_all add: later.written later.now Diff_subset\<close>)
    moreover have "calm k sys (B - {(Nodes s, x)}) P P'"
      unfolding eq by (rule st(2)) (use o in \<open>simp_all add: later.written later.now Diff_subset\<close>)
    ultimately show ?thesis using Nodes by simp
  next
    case (Runs s)
    note l = lent_run[OF e b[unfolded Runs]]
    have j: "i < payload_bytes (mem_of P) x" using i Runs by simp
    note o = held_store[OF l(2,3) j, of v]
    have eq: "P' = P\<lparr>pr_runs := (pr_runs P)(runs_of k s := pr_runs P (runs_of k s)),
        pr_world := (pr_world P)\<lparr>cells := (mem_of P)(adr (x + i) := v)\<rparr>\<rparr>"
      by (simp add: P'_def set_mem_def)
    note st = estates_runs_step[OF e l(1), where A = "B - {(Runs s, x)}" and B' = B]
    have "estates k sys D P' B" unfolding eq by (rule st(1)) (use o in \<open>simp_all add: later.written later.now Diff_subset\<close>)
    moreover have "calm k sys (B - {(Runs s, x)}) P P'"
      unfolding eq by (rule st(2)) (use o in \<open>simp_all add: later.written later.now Diff_subset\<close>)
    ultimately show ?thesis using Runs o(3) by (simp add: P'_def set_mem_def)
  qed
  then show "estates k sys D P' B" "calm k sys (B - {(p, x)}) P P'" "span_of k (mem_of P') (p, x) = span_of k (mem_of P) (p, x)"
    by blast+
qed


lemma node_request_step:
  assumes e: "estates k sys D P B" and s: "Nodes s \<in> D" and steady: "sys_steady sys (pr_world P)"
  shows "\<exists>ans P'. nodes_allocate k sys s P = Some (ans, P') \<and> calm k sys B P P' \<and>
    pr_cache P' = pr_cache P \<and>
    granted (estates k sys D) k (Nodes s) (unat (sizeof (sc_ty k))) B ans P'"
proof -
  let ?c = "node_pool_cfg k"
  have h: "pool_holds ?c (pr_pools P s, pr_world P) (B `` {Nodes s})" using estatesD(4)[OF e s] by simp
  obtain ans p' w' where a: "pool_allocate ?c sys (pr_pools P s) (pr_world P) = Some (ans, p', w')"
    "later sys (pr_world P) w'" "pool_step ?c (pr_pools P s) (pr_world P) p' w'"
    "keeps (\<lambda>_ _. node_bytes ?c) (\<lambda>m. m) (B `` {Nodes s}) (mem_of P) (cells w')"
    "alloc_answer (pool_holds ?c) (\<lambda>_ _. node_bytes ?c) (unat (sizeof (cfg_ty ?c))) (B `` {Nodes s}) ans (p', w')"
    using node_request[OF h sys_steady_honest[OF steady]] by blast
  define P' where "P' = P\<lparr>pr_pools := (pr_pools P)(s := p'), pr_world := w'\<rparr>"
  note st = estates_nodes_step[OF e s _ a(3,4,2) subset_refl, folded P'_def]
  have "granted (estates k sys D) k (Nodes s) (unat (sizeof (sc_ty k))) B ans P' \<and> calm k sys B P P'"
  proof (cases "\<exists>x. ans = Inr x \<and> x \<noteq> nullptr")
    case True
    then obtain x where x: "ans = Inr x" "x \<noteq> nullptr" by blast
    then have g: "unat x \<notin> B `` {Nodes s}" "pool_holds ?c (p', w') (insert (Nodes s, unat x) B `` {Nodes s})"
      "unat (sizeof (sc_ty k)) \<le> node_bytes ?c"
      using a(5) by (simp_all add: alloc_answer_def)
    show ?thesis using st[OF g(2)] g(1,3) x by (simp add: granted_def)
  next
    case False
    then have "pool_holds ?c (p', w') (B `` {Nodes s})" using a(5) by (auto simp: alloc_answer_def split: sum.splits)
    then show ?thesis using st[of B] False by (auto simp: granted_def split: sum.splits)
  qed
  moreover have "nodes_allocate k sys s P = Some (ans, P')" by (simp add: nodes_allocate_def a(1) P'_def)
  moreover have "pr_cache P' = pr_cache P" by (simp add: P'_def)
  ultimately show ?thesis by blast
qed

text \<open>A node goes home: masking its address reaches the pool, whichever thread asks.\<close>

lemma node_owner_word:
  assumes e: "estates k sys D P B" and b: "(Nodes s, x) \<in> B"
  shows "mem_of P (granule_of (granule_for (sc_ty k) (detect_page_size (sys_sysconf sys))) (adr x)) = s"
proof -
  note l = lent_node[OF e b]
  obtain fl rl where inv: "pool_inv (node_pool_cfg k) (pr_pools P s) (pr_world P) fl rl"
    and H: "B `` {Nodes s} = lent (node_pool_cfg k) (pr_pools P s) fl rl" using l(2) by (auto simp: pool_holds_def)
  have "p_self (pr_pools P s) = s" "p_page_size (pr_pools P s) = detect_page_size (sys_sysconf sys)"
    using estatesD(4)[OF e l(1)] by simp_all
  then show ?thesis
    using owner_word_of_slot[OF inv _ lent_slot(1)[OF inv l(3)[unfolded H]]] estatesD(1)[OF e] by simp
qed

lemma node_home_step:
  assumes e: "estates k sys D P B" and b: "(Nodes s, x) \<in> B"
    and way: "op = pool_deallocate (adr x) \<or> op = pool_remote_push (adr x)"
  shows "estates k sys D (on_pool s op P) (B - {(Nodes s, x)})" and "calm k sys (B - {(Nodes s, x)}) P (on_pool s op P)"
    and "pr_cache (on_pool s op P) = pr_cache P"
proof -
  let ?c = "node_pool_cfg k"
  note l = lent_node[OF e b]
  have hd: "cfg_headers ?c" using estatesD(1)[OF e] by simp
  obtain p' m' where o: "op (pr_pools P s, mem_of P) = (p', m')"
    "pool_holds ?c (p', (pr_world P)\<lparr>cells := m'\<rparr>) (B `` {Nodes s} - {x})"
    "pool_step ?c (pr_pools P s) (pr_world P) p' ((pr_world P)\<lparr>cells := m'\<rparr>)"
    "keeps (\<lambda>_ _. node_bytes ?c) (\<lambda>m. m) (B `` {Nodes s} - {x}) (mem_of P) m'"
    using node_return[OF l(2,3) hd way] by blast
  have eq: "on_pool s op P = P\<lparr>pr_pools := (pr_pools P)(s := p'), pr_world := (pr_world P)\<lparr>cells := m'\<rparr>\<rparr>"
    using o(1) by (simp add: on_pool_def)
  note st = estates_nodes_step[OF e l(1), where A = "B - {(Nodes s, x)}" and B' = "B - {(Nodes s, x)}"]
  show "estates k sys D (on_pool s op P) (B - {(Nodes s, x)})"
    unfolding eq by (rule st(1)) (use o in \<open>simp_all add: later.written later.now Diff_subset\<close>)
  show "calm k sys (B - {(Nodes s, x)}) P (on_pool s op P)"
    unfolding eq by (rule st(2)) (use o in \<open>simp_all add: later.written later.now Diff_subset\<close>)
  show "pr_cache (on_pool s op P) = pr_cache P" by (simp add: eq)
qed

lemma node_return_step:
  fixes t :: nat
  assumes e: "estates k sys D P B" and b: "(Nodes s, x) \<in> B"
  defines "P' \<equiv> free_node_routed k sys t handle_default (adr x) P"
  shows "estates k sys D P' (B - {(Nodes s, x)})" and "calm k sys (B - {(Nodes s, x)}) P P'"
    and "pr_cache P' = pr_cache P"
proof -
  let ?op = "if local_state_or_null k t P \<noteq> nullptr \<and> s = local_state_or_null k t P
      then pool_deallocate (adr x) else pool_remote_push (adr x)"
  have "heap_backed_mode (sc_mode k)" using estatesD(1)[OF e] by (simp add: has_thread_state_def)
  then have P': "P' = on_pool s ?op P"
    using node_owner_word[OF e b] by (simp add: P'_def free_node_routed_def handle_default_def Let_def)
  have "?op = pool_deallocate (adr x) \<or> ?op = pool_remote_push (adr x)" by simp
  note h = node_home_step[OF e b this]
  show "estates k sys D P' (B - {(Nodes s, x)})" "calm k sys (B - {(Nodes s, x)}) P P'" "pr_cache P' = pr_cache P"
    unfolding P' by (rule h)+
qed

lemma run_expand_step:
  assumes e: "estates k sys D P B" and b: "(Runs s, x) \<in> B"
  obtains bytes st where "runner_expand (runs_cfg k) (adr x) n (pr_runs P (runs_of k s), mem_of P) = (bytes, st)"
    "estates k sys D (on_runs (runs_of k s) (\<lambda>_. st) P) B"
    "calm k sys (B - {(Runs s, x)}) P (on_runs (runs_of k s) (\<lambda>_. st) P)"
    "unat bytes = payload_bytes (snd st) x" "payload_bytes (mem_of P) x \<le> payload_bytes (snd st) x"
    "\<And>i. i < payload_bytes (mem_of P) x \<Longrightarrow> snd st (adr (x + i)) = mem_of P (adr (x + i))"
    "n \<le> bytes \<or> on_runs (runs_of k s) (\<lambda>_. st) P = P"
proof -
  note l = lent_run[OF e b]
  obtain n' r' m' where o: "runner_expand (runs_cfg k) (adr x) n (pr_runs P (runs_of k s), mem_of P) = (n', (r', m'))"
    "runner_holds (runs_cfg k) (r', (pr_world P)\<lparr>cells := m'\<rparr>) (B `` {Runs s})" "rn_self r' = rn_self (pr_runs P (runs_of k s))"
    "kept (B `` {Runs s} - {x}) (mem_of P) m'" "unat n' = payload_bytes m' x"
    "payload_bytes (mem_of P) x \<le> payload_bytes m' x"
    "\<And>i. i < payload_bytes (mem_of P) x \<Longrightarrow> m' (adr (x + i)) = mem_of P (adr (x + i))"
    "n \<le> n' \<or> unat n' = payload_bytes (mem_of P) x \<and> r' = pr_runs P (runs_of k s) \<and> m' = mem_of P"
    "confined (runner_area (pr_runs P (runs_of k s))) (pr_world P) (runner_area r') ((pr_world P)\<lparr>cells := m'\<rparr>)"
    by (rule held_expand[OF l(2,3), where n = n]) blast
  have eq: "on_runs (runs_of k s) (\<lambda>_. (r', m')) P =
      P\<lparr>pr_runs := (pr_runs P)(runs_of k s := r'), pr_world := (pr_world P)\<lparr>cells := m'\<rparr>\<rparr>"
    by (simp add: on_runs_def)
  note st = estates_runs_step[OF e l(1), where A = "B - {(Runs s, x)}" and B' = B]
  show thesis
  proof (rule that[OF o(1)])
    show "estates k sys D (on_runs (runs_of k s) (\<lambda>_. (r', m')) P) B"
      unfolding eq by (rule st(1)) (use o in \<open>simp_all add: later.written later.now Diff_subset\<close>)
    show "calm k sys (B - {(Runs s, x)}) P (on_runs (runs_of k s) (\<lambda>_. (r', m')) P)"
      unfolding eq by (rule st(2)) (use o in \<open>simp_all add: later.written later.now Diff_subset\<close>)
    show "n \<le> n' \<or> on_runs (runs_of k s) (\<lambda>_. (r', m')) P = P" using o(8) by (auto simp: eq)
  qed (use o(5-7) in simp_all)
qed

section \<open>Founding a state\<close>

text \<open>What a configuration and a system have to offer for a state to be created.\<close>

definition founded_on :: "sub_cfg \<Rightarrow> sys \<Rightarrow> bool" where
  "founded_on k sys \<longleftrightarrow> layout_ok (sc_ty k) \<and> sc_runs_offset k < sc_state_bytes k \<and>
     has_single_bit (detect_page_size (sys_sysconf sys)) \<and> 16 \<le> unat (detect_page_size (sys_sysconf sys))"

text \<open>
  What is outside the memory that was out before is of no concern to the parts and their blocks; and
  two parts whose areas lie there join the family.
\<close>

definition live_kept :: "world \<Rightarrow> world \<Rightarrow> bool" where
  "live_kept w w' \<longleftrightarrow> set (live w) \<subseteq> set (live w') \<and> (\<forall>a < 2 ^ 64. live_at w a \<longrightarrow> cells w' (adr a) = cells w (adr a))"

lemma live_kept_same: "cells w' = cells w \<Longrightarrow> set (live w) \<subseteq> set (live w') \<Longrightarrow> live_kept w w'"
  by (simp add: live_kept_def)

lemma live_kept_cell:
  "live_kept (pr_world P) w' \<Longrightarrow> estates k sys D P B \<Longrightarrow> q \<in> D \<Longrightarrow> a \<in> part_area k P q \<Longrightarrow>
     cells w' (adr a) = mem_of P (adr a)"
  using part_area_live[of k sys D P B q a] part_area_range[of a k P q] by (simp add: live_kept_def)

lemma estates_live:
  assumes e: "estates k sys D P B" and kept: "live_kept (pr_world P) (pr_world P')" and wok: "world_ok (pr_world P')"
    and parts: "\<And>q. q \<in> D \<Longrightarrow> part_of k P' q = part_of k P q"
  shows "estates k sys D P' B" and "undisturbed k B (mem_of P) (mem_of P')"
proof -
  note same = live_kept_cell[OF kept e]
  have live: "set (live (pr_world P)) \<subseteq> set (live (pr_world P'))" using kept by (simp add: live_kept_def)
  have "part_holds k sys P' q (B `` {q})" "part_area k P' q = part_area k P q" if q: "q \<in> D" for q
    using part_holds_beside[OF estatesD(4)[OF e q] parts[OF q] wok live same[OF q]] part_area_cong[OF parts[OF q]] by blast+
  moreover have "part_home q \<in> r_base ` set (live (pr_world P'))" if "q \<in> D" for q
    using estatesD(5)[OF e that] live by blast
  ultimately show "estates k sys D P' B" using e wok unfolding estates_def by auto
  show "undisturbed k B (mem_of P) (mem_of P')"
    unfolding undisturbed_def
  proof (intro ballI conjI allI impI)
    fix b assume "b \<in> B"
    then obtain q x where b: "b = (q, x)" "(q, x) \<in> B" by (cases b) auto
    have q: "q \<in> D" using estatesD(3)[OF e b(2)] by simp
    show "span_of k (mem_of P') b = span_of k (mem_of P) b"
    proof (cases q)
      case (Runs s)
      then have "mem_of P' (adr (x - 16)) = mem_of P (adr (x - 16))"
        using same[OF q] payload_bytes_area[OF e, of s x] b(2) by simp
      then show ?thesis using b(1) Runs by (simp add: payload_bytes_def run_size_def)
    qed (simp add: b(1))
    fix i assume "i < span_of k (mem_of P) b"
    then show "mem_of P' (adr (snd b + i)) = mem_of P (adr (snd b + i))"
      using same[OF q block_area[OF e b(2)]] b(1) by simp
  qed
qed

lemma estates_join:
  fixes p :: pool and r :: runner
  assumes e: "estates k sys D P B" and kept: "live_kept (pr_world P) (pr_world P')" and wok: "world_ok (pr_world P')"
    and P': "pr_pools P' = (pr_pools P)(s := p)" "pr_runs P' = (pr_runs P)(runs_of k s := r)"
    and s: "\<And>q. q \<in> D \<Longrightarrow> part_home q \<noteq> s" "s \<in> r_base ` set (live (pr_world P'))" "runs_of k s \<noteq> nullptr"
    and holds: "pool_holds (node_pool_cfg k) (p, pr_world P') {}" "runner_holds (runs_cfg k) (r, pr_world P') {}"
    and own: "p_self p = s" "p_page_size p = detect_page_size (sys_sysconf sys)" "rn_self r = runs_of k s"
    and apart: "pool_area (node_pool_cfg k) p \<inter> runner_area r = {}"
    and new: "\<And>a. a < 2 ^ 64 \<Longrightarrow> live_at (pr_world P) a \<Longrightarrow> a \<notin> pool_area (node_pool_cfg k) p \<union> runner_area r"
  shows "estates k sys (insert (Nodes s) (insert (Runs s) D)) P' B" and "undisturbed k B (mem_of P) (mem_of P')"
    and "Nodes s \<notin> D" "Runs s \<notin> D"
proof -
  show nD: "Nodes s \<notin> D" "Runs s \<notin> D" using s(1) by fastforce+
  have old: "part_of k P' q = part_of k P q" if "q \<in> D" for q using s(1)[OF that] by (cases q) (simp_all add: P')
  note o = estates_live[OF e kept wok old]
  show "undisturbed k B (mem_of P) (mem_of P')" by (rule o(2))
  have none: "B `` {Nodes s} = {}" "B `` {Runs s} = {}" using nD estatesD(3)[OF e] by fastforce+
  have "part_holds k sys P' (Nodes s) (B `` {Nodes s})" "part_holds k sys P' (Runs s) (B `` {Runs s})"
    unfolding none using holds own by (simp_all add: P')
  moreover have away: "part_area k P' q \<inter> part_area k P' (Nodes s) = {}" "part_area k P' q \<inter> part_area k P' (Runs s) = {}"
    if q: "q \<in> D" for q
  proof -
    have "a \<notin> part_area k P' (Nodes s) \<and> a \<notin> part_area k P' (Runs s)" if "a \<in> part_area k P' q" for a
      using new[OF part_area_range part_area_live[OF e q]] that part_area_cong[OF old[OF q]] by (simp add: P')
    then show "part_area k P' q \<inter> part_area k P' (Nodes s) = {}" "part_area k P' q \<inter> part_area k P' (Runs s) = {}"
      by blast+
  qed
  moreover have "part_area k P' (Nodes s) \<inter> part_area k P' (Runs s) = {}" using apart by (simp add: P')
  ultimately show "estates k sys (insert (Nodes s) (insert (Runs s) D)) P' B"
    using o(1) s(2,3) unfolding estates_def by (auto simp: Int_commute)
qed

lemma lazy_state:
  assumes "has_thread_state k" "founded_on k sys" "world_ok w"
  obtains st where "state_new_lazy k sys fresh = Inr st" "pool_inv (node_pool_cfg k) (ss_pool st) w [] []"
    "runner_holds (runs_cfg k) (ss_runs st, w) {}" "rn_self (ss_runs st) = runs_of k fresh"
    "pool_holds (node_pool_cfg k) (ss_pool st, w) {}"
    "p_self (ss_pool st) = fresh" "p_page_size (ss_pool st) = detect_page_size (sys_sysconf sys)"
    "pool_area (node_pool_cfg k) (ss_pool st) = {}" "runner_area (ss_runs st) = {}"
proof -
  have hb: "heap_backed_mode (sc_mode k)" using assms(1) by (simp add: has_thread_state_def)
  let ?p = "(pool_members (node_pool_cfg k) sys fresh)\<lparr>p_next_growth := 4096\<rparr>"
  have p: "pool_inv (node_pool_cfg k) ?p w [] []"
    using assms hb by (intro pool_members_inv) (simp_all add: node_pool_cfg_def has_single_bit_4096 founded_on_def)
  let ?r = "runner_new_lazy sys (runs_of k fresh) (lazy_runner_bytes k)"
  have r: "runner_holds (runs_cfg k) (?r, w) {}"
    using runner_new_lazy_inv[OF _ _ assms(3), of sys "runs_cfg k" "runs_of k fresh" "lazy_runner_bytes k"] assms(2)
    by (auto simp: runner_holds_def lent_runs_def useds_def founded_on_def intro!: exI[of _ "[]"])
  have m: "p_self ?p = fresh" "p_page_size ?p = detect_page_size (sys_sysconf sys)" "pool_area (node_pool_cfg k) ?p = {}"
    "runner_area ?r = {}" "rn_self ?r = runs_of k fresh"
    by (simp_all add: pool_members_def Let_def pool_area_def runner_area_def owns_run_def runner_new_lazy_def runner_members_def)
  have "state_new_lazy k sys fresh = Inr \<lparr>ss_pool = ?p, ss_runs = ?r\<rparr>"
    by (simp add: state_new_lazy_def pool_new_lazy_def has_single_bit_4096)
  moreover have "pool_slots (node_pool_cfg k) ?p = []" by (simp add: pool_slots_def pool_members_def Let_def)
  then have "pool_holds (node_pool_cfg k) (?p, w) {}"
    unfolding pool_holds_def using p by (intro exI[of _ "[]"]) (simp add: lent_def)
  ultimately show thesis using that p r m by simp
qed

lemma cache_line_single_bit: "has_single_bit (cache_line_size sys)"
proof -
  have "has_single_bit 64" unfolding has_single_bit_iff by (rule exI[of _ 6]) simp
  then show ?thesis by (simp add: cache_line_size_def split: option.split)
qed

lemma op_new_found:
  assumes n: "op_new sys (sc_state_bytes k) (cache_line_size sys) w = (fresh, w1)" "fresh \<noteq> nullptr"
    and f: "founded_on k sys" and honest: "sys_honest sys w" and wok: "world_ok w"
  shows "world_ok w1" "live w1 = \<lparr>r_base = fresh, r_bytes = sc_state_bytes k, r_align = cache_line_size sys\<rparr> # live w"
    and "cells w1 = cells w" "runs_of k fresh \<noteq> nullptr" "fresh \<notin> r_base ` set (live w)"
proof -
  let ?reg = "\<lparr>r_base = fresh, r_bytes = sc_state_bytes k, r_align = cache_line_size sys\<rparr>"
  show lc: "live w1 = ?reg # live w" "cells w1 = cells w" using n by (auto simp: op_new_def Let_def split: if_splits)
  have fr: "fresh_region w ?reg"
    using honest n cache_line_single_bit by (auto simp: sys_honest_def op_new_def Let_def split: if_splits)
  have nz: "sc_state_bytes k \<noteq> 0" using f by (auto simp: founded_on_def word_less_nat_alt)
  show wok1: "world_ok w1" using world_ok_Cons[OF wok fr _ lc(1)] nz by (simp add: unat_gt_0)
  then show "fresh \<notin> r_base ` set (live w)" by (simp add: world_ok_def lc(1))
  have "unat fresh + unat (sc_state_bytes k) < 2 ^ 64"
    using fr by (simp add: fresh_region_def region_ok_def region_end_def)
  moreover have "unat (sc_runs_offset k) < unat (sc_state_bytes k)" using f by (simp add: founded_on_def word_less_nat_alt)
  ultimately have "unat (runs_of k fresh) = unat fresh + unat (sc_runs_offset k)"
    unfolding runs_of_def by (intro unat_plus_le) linarith
  then show "runs_of k fresh \<noteq> nullptr" using n(2) by (metis add_is_0 unat_0 unat_eq_0)
qed

lemma found_state:
  assumes e: "estates k sys D P B" and f: "founded_on k sys" and honest: "sys_honest sys (pr_world P)"
    and t: "pr_tls P t = nullptr"
  shows "\<exists>ans P'. thread_state k sys t P = Some (ans, P') \<and> mem_of P' = mem_of P \<and> pr_cache P' = pr_cache P \<and>
    later sys (pr_world P) (pr_world P') \<and>
    (case ans of
       Inl _ \<Rightarrow> estates k sys D P' B \<and> pr_tls P' = pr_tls P
     | Inr s \<Rightarrow> s \<noteq> nullptr \<and> Nodes s \<notin> D \<and> Runs s \<notin> D \<and> pr_tls P' = (pr_tls P)(t := s) \<and>
         estates k sys (insert (Nodes s) (insert (Runs s) D)) P' B)"
proof -
  obtain fresh w where n: "op_new sys (sc_state_bytes k) (cache_line_size sys) (pr_world P) = (fresh, w)" by fastforce
  have l: "later sys (pr_world P) w" using op_new_later[OF n] .
  show ?thesis
  proof (cases "fresh = nullptr")
    case True
    then have lc: "live w = live (pr_world P)" "cells w = mem_of P" using n by (auto simp: op_new_def Let_def split: if_splits)
    have "estates k sys D (P\<lparr>pr_world := w\<rparr>) B"
      by (rule estates_live(1)[OF e live_kept_same]) (use estatesD(2)[OF e] lc in \<open>simp_all add: world_ok_def part_of_world\<close>)
    then show ?thesis using t n True l lc by (simp add: thread_state_def calm_def)
  next
    case False
    note o = op_new_found[OF n False f honest estatesD(2)[OF e]]
    note wok = o(1) and lc = o(2,3) and runs = o(4)
    have new: "part_home q \<noteq> fresh" if "q \<in> D" for q using estatesD(5)[OF e that] o(5) by auto
    obtain st where st: "state_new_lazy k sys fresh = Inr st" "pool_inv (node_pool_cfg k) (ss_pool st) w [] []"
      "runner_holds (runs_cfg k) (ss_runs st, w) {}" "rn_self (ss_runs st) = runs_of k fresh"
      "pool_holds (node_pool_cfg k) (ss_pool st, w) {}" "p_self (ss_pool st) = fresh" "p_page_size (ss_pool st) = detect_page_size (sys_sysconf sys)"
      "pool_area (node_pool_cfg k) (ss_pool st) = {}" "runner_area (ss_runs st) = {}"
      by (rule lazy_state[OF estatesD(1)[OF e] f wok])
    define P' where "P' = P\<lparr>pr_world := w, pr_pools := (pr_pools P)(fresh := ss_pool st),
                pr_runs := (pr_runs P)(runs_of k fresh := ss_runs st),
                pr_next := (pr_next P)(fresh := pr_registry P), pr_registry := fresh,
                pr_tls := (pr_tls P)(t := fresh)\<rparr>"
    have eq: "thread_state k sys t P = Some (Inr fresh, P')"
      using t n False st(1) by (simp add: thread_state_def P'_def)
    have kept: "live_kept (pr_world P) (pr_world P')" using lc by (intro live_kept_same) (auto simp: P'_def)
    have "estates k sys (insert (Nodes fresh) (insert (Runs fresh) D)) P' B" "Nodes fresh \<notin> D" "Runs fresh \<notin> D"
      by (rule estates_join[OF e kept, where p = "ss_pool st" and r = "ss_runs st"];
          use wok st new runs lc in \<open>simp add: P'_def\<close>)+
    then show ?thesis using eq l lc(2) False by (auto simp: P'_def calm_def)
  qed
qed

end
