(* ===== verification/Sub_Construct.thy ===== *)
theory Sub_Construct
  imports Estates
begin

text \<open>
  Constructing a state: a node pool and a runner in one object.  The new runner writes only into the
  chunk it has just taken, so the pool beside it keeps its invariant; when the runner cannot be
  built the pool's memory goes back.
\<close>

section \<open>The pool's first chunk\<close>

lemma seed_chunk_chunks: "p_chunks (fst (seed_chunk k c s)) = p_chunks (fst s)"
proof -
  have "p_chunks (fst (foldl (\<lambda>s i. push_free_node (chunk_at (cfg_headers k) (cfg_ty k) c (adr i)) s) s is)) =
      p_chunks (fst s)" for "is"
    by (induction "is" arbitrary: s) (simp_all add: push_free_node_def split: prod.split)
  then show ?thesis by (simp add: seed_chunk_def split: prod.split) (metis fst_conv)
qed

lemma chunk_new_takes:
  assumes "chunk_new h sys t n page al w = (Inr c, w')"
  shows "later sys w w'" "\<exists>r. live w' = r # live w \<and> r_base r = ch_nodes c" "ch_nodes c \<noteq> nullptr"
proof -
  have "\<exists>bytes al' w1 m. op_new sys bytes al' w = (ch_nodes c, w1) \<and> ch_nodes c \<noteq> nullptr \<and> w' = w1\<lparr>cells := m\<rparr>"
  proof (cases h)
    case True
    then show ?thesis using assms
      by (fastforce simp: chunk_new_def chunk_new_headered_def Let_def split: option.splits prod.splits if_splits)
  next
    case False
    obtain bytes w1 where "op_new sys bytes al w = (ch_nodes c, w1)" "ch_nodes c \<noteq> nullptr" "w' = w1"
      using assms False by (auto simp: chunk_new_def chunk_new_raw_def Let_def split: option.splits prod.splits if_splits)
    then show ?thesis by (intro exI[of _ bytes] exI[of _ al] exI[of _ w1] exI[of _ "cells w1"]) simp
  qed
  then obtain bytes al' w1 m where o: "op_new sys bytes al' w = (ch_nodes c, w1)" "ch_nodes c \<noteq> nullptr" "w' = w1\<lparr>cells := m\<rparr>"
    by blast
  have "later sys w w1" using later.requested[OF later.now, where sys = sys and w = w and bytes = bytes and al = al'] o(1) by simp
  then show "later sys w w'" unfolding o(3) by (rule later.written)
  show "\<exists>r. live w' = r # live w \<and> r_base r = ch_nodes c" "ch_nodes c \<noteq> nullptr"
    using o by (auto simp: op_new_def Let_def split: if_splits)
qed

lemma pool_new_takes:
  assumes new: "pool_new k sys self n w = (Inr p, w')" and hb: "heap_backed_mode (cfg_mode k)"
  shows "later sys w w'" "\<exists>c r. p_chunks p = [c] \<and> live w' = r # live w \<and> r_base r = ch_nodes c \<and> ch_nodes c \<noteq> nullptr"
proof -
  define p0 where "p0 = (pool_members k sys self)\<lparr>p_next_growth := n\<rparr>"
  obtain u where add: "pool_add_chunk k sys n p0 w = (Inr u, p, w')"
    using new by (auto simp: pool_new_def p0_def Let_def pool_members_def split: if_splits prod.splits sum.splits)
  obtain c w1 where c: "chunk_new (cfg_headers k) sys (cfg_ty k) n (p_page_size p0) (p_alloc_align p0) w = (Inr c, w1)"
    using add by (auto simp: pool_add_chunk_def split: prod.splits sum.splits)
  note t = chunk_new_takes[OF c]
  have "p_chunks p0 = (if dynamic_mode (cfg_mode k) then [] else [chunk_empty (cfg_ty k)])"
    by (simp add: p0_def pool_members_def Let_def)
  moreover have "fixed_mode (cfg_mode k) \<longleftrightarrow> \<not> dynamic_mode (cfg_mode k)" using hb by (cases "cfg_mode k") (simp_all add: mode_defs)
  moreover have "chunk_move_assign True (cfg_ty k) (chunk_empty (cfg_ty k)) c w1 = (c, chunk_empty (cfg_ty k), w1)"
    by (simp add: chunk_move_assign_def chunk_release_def chunk_empty_def)
  ultimately obtain p1 m where s: "seed_chunk k c (p1, m) = (p, cells w')" "p_chunks p1 = [c]" "live w' = live w1" "w' = w1\<lparr>cells := cells w'\<rparr>"
    using add c by (auto simp: pool_add_chunk_def Let_def split: prod.splits if_splits)
  then have "p_chunks p = [c]" using seed_chunk_chunks[of k c "(p1, m)"] by simp
  then show "\<exists>c r. p_chunks p = [c] \<and> live w' = r # live w \<and> r_base r = ch_nodes c \<and> ch_nodes c \<noteq> nullptr"
    using t(2,3) s(3) by auto
  show "later sys w w'" by (subst s(4)) (rule later.written[OF t(1)])
qed

section \<open>Taking it back\<close>

lemma pool_new_later: "pool_new k sys self n w = (res, w') \<Longrightarrow> later sys w w'"
  by (auto simp: pool_new_def Let_def later.now split: if_splits prod.splits sum.splits dest: pool_add_chunk_later)

lemma runner_new_later: "runner_new k sys self n w = (res, w') \<Longrightarrow> later sys w w'"
  using add_owned_chunk_later[of sys w k n "runner_members sys self (max n 65536)"]
  by (auto simp: runner_new_def split: prod.splits sum.splits)

lemma release_chunks_frame: "cells (release_chunks k cs w) = cells w \<and> later sys w (release_chunks k cs w)"
proof (induction cs rule: rev_induct)
  case (snoc c cs)
  have "release_chunks k (cs @ [c]) w = snd (chunk_release (heap_backed_mode (cfg_mode k)) c (release_chunks k cs w))"
    by (simp add: release_chunks_def)
  then show ?case using snoc by (auto simp: chunk_release_def op_delete_def[symmetric] intro: later.returned)
qed (simp add: release_chunks_def later.now)

lemma pool_destroy_unused:
  assumes "pool_inv k p w fl []" "pool_destroy k p w = Some w'"
  shows "cells w' = cells w" "later sys w w'"
proof -
  have c: "cells (w\<lparr>cells := m\<rparr>) = m" "later sys w (w\<lparr>cells := m\<rparr>)" for m by (simp_all add: later.written later.now)
  obtain p' m' where d: "pool_drain_remote (p, cells w) = Some (False, (p', m'))"
    "\<forall>a < 2 ^ 64. m' (adr a) = cells w (adr a)" using drain_inv[OF assms(1)] by auto
  have "m' (adr (unat q)) = cells w (adr (unat q))" for q :: ptr using d(2) unat_lt_64[of q] by blast
  then have m: "m' = cells w" by (intro ext) simp
  have "w' = release_chunks k (p_chunks p) w \<or> w' = release_chunks k (p_chunks p') (w\<lparr>cells := m'\<rparr>)"
    using assms(2) d(1) by (auto simp: pool_destroy_def split: if_splits)
  then show "cells w' = cells w" "later sys w w'"
    using release_chunks_frame[of k "p_chunks p" w sys] release_chunks_frame[of k "p_chunks p'" "w\<lparr>cells := m'\<rparr>" sys] c m
    by (auto intro: later_trans)
qed

section \<open>A state, or nothing\<close>

text \<open>Nothing of what was out is touched, and the areas of the two new parts lie apart from it and from each other.\<close>

lemma state_new_step:
  fixes k :: sub_cfg
  assumes ty: "layout_ok (sc_ty k)" "heap_backed_mode (sc_mode k)"
    and page: "has_single_bit (detect_page_size (sys_sysconf sys))" "16 \<le> unat (detect_page_size (sys_sysconf sys))"
    and w: "world_ok w" "sys_steady sys w"
  shows "\<exists>res w'. state_new k sys self n bytes w = Some (res, w') \<and> later sys w w' \<and> live_kept w w' \<and> world_ok w' \<and>
    (case res of
       Inl e \<Rightarrow> live w' = live w
     | Inr st \<Rightarrow> \<exists>fl b s. pool_inv (node_pool_cfg k) (ss_pool st) w' fl [] \<and> length fl = unat n \<and>
         set fl = set (pool_slots (node_pool_cfg k) (ss_pool st)) \<and>
         p_self (ss_pool st) = self \<and> p_page_size (ss_pool st) = detect_page_size (sys_sysconf sys) \<and>
         runner_inv (runs_cfg k) (ss_runs st) w' [(b, [(s, True)])] [] \<and> unat bytes \<le> s + 16 \<and>
         rn_self (ss_runs st) = runs_of k self \<and>
         pool_area (node_pool_cfg k) (ss_pool st) \<inter> runner_area (ss_runs st) = {} \<and>
         (\<forall>a < 2 ^ 64. live_at w a \<longrightarrow> a \<notin> pool_area (node_pool_cfg k) (ss_pool st) \<union> runner_area (ss_runs st)))"
proof -
  let ?k = "node_pool_cfg k"
  have cfg: "layout_ok (cfg_ty ?k)" "heap_backed_mode (cfg_mode ?k)" using ty by (simp_all add: node_pool_cfg_def)
  obtain r1 w1 where p: "pool_new ?k sys self n w = (r1, w1)" by fastforce
  show ?thesis
  proof (cases r1)
    case (Inl e)
    then have f: "live w1 = live w" "cells w1 = cells w" using p pool_new_failed(1,2)[of ?k sys self n w e w1] by simp_all
    then show ?thesis using p Inl w(1) pool_new_later[OF p]
      by (simp add: state_new_def world_ok_def live_kept_same)
  next
    case (Inr pl)
    obtain fl where fl: "pool_inv ?k pl w1 fl []" "p_capacity pl = n" "p_size pl = 0" "p_self pl = self"
      "set fl = set (pool_slots ?k pl)" "p_page_size pl = detect_page_size (sys_sysconf sys)" "confined {} w (pool_area ?k pl) w1"
      using pool_new_inv[OF cfg page(1) w(1) sys_steady_honest[OF w(2)] p[unfolded Inr]] by blast
    have wok1: "world_ok w1" and len: "length fl = unat n" using fl by (simp_all add: pool_inv_def)
    note takes = pool_new_takes[OF p[unfolded Inr] cfg(2)]
    obtain c reg where c: "p_chunks pl = [c]" "live w1 = reg # live w" "r_base reg = ch_nodes c" "ch_nodes c \<noteq> nullptr"
      using takes(2) by blast
    have steady1: "sys_steady sys w1" using sys_steady_later[OF w(2) takes(1)] .
    have k1: "live_kept w w1" using fl(7) by (auto simp: live_kept_def confined_def)
    obtain r2 w2 where r: "runner_new (runs_cfg k) sys (runs_of k self) bytes w1 = (r2, w2)" by fastforce
    note step = runner_new_step[OF page wok1 steady1, where k = "runs_cfg k" and self = "runs_of k self" and n = bytes, unfolded r]
    show ?thesis
    proof (cases r2)
      case (Inl e)
      then have w2: "live w2 = live w1" "cells w2 = cells w1" using step by simp_all
      have "world_ok w2" using wok1 w2(1) by (simp add: world_ok_def)
      from pool_inv_beside[OF fl(1) this] w2 have inv2: "pool_inv ?k pl w2 fl []" by simp
      from pool_destroy_live[OF inv2] obtain w3 where w3: "pool_destroy ?k pl w2 = Some w3"
        "live w3 = filter (\<lambda>r. r_base r \<notin> chunk_bases [c]) (reg # live w)"
        using cfg(2) w2(1) c(1,2) by auto
      note u = pool_destroy_unused[OF inv2 w3(1)]
      have "r_base reg \<notin> r_base ` set (live w)" using wok1 by (simp add: world_ok_def c(2))
      then have "r_base q \<noteq> ch_nodes c" if "q \<in> set (live w)" for q using that c(3) by (metis imageI)
      then have same: "live w3 = live w" unfolding w3(2) using c(3,4) by (auto simp: chunk_bases_def filter_id_conv)
      moreover have "later sys w w3"
        using later_trans[OF u(2)] later_trans[OF runner_new_later[OF r]] takes(1) by blast
      moreover have "live_kept w w3" using k1 same u(1) w2(2) by (simp add: live_kept_def)
      ultimately show ?thesis using p Inr r Inl w3(1) w(1) by (simp add: state_new_def world_ok_def)
    next
      case runs: (Inr rn)
      obtain b s node where rs: "runner_inv (runs_cfg k) rn w2 [(b, [(s, True)])] []" "unat bytes \<le> s + 16"
        "rn_self rn = runs_of k self" "later sys w1 w2" "confined {} w1 (runner_area rn) w2"
        using step runs by auto
      have away: "a \<notin> runner_area rn \<and> cells w2 (adr a) = cells w1 (adr a)" if "a < 2 ^ 64" "live_at w1 a" for a
        using confinedD[OF rs(5) that] by simp
      have area: "live_at w1 a" "a < 2 ^ 64" if "a \<in> pool_area ?k pl" for a
        using pool_area_live[OF fl(1) cfg(2) that] that by (simp_all add: pool_area_def)
      have wok2: "world_ok w2" using rs(1) by (simp add: runner_inv_def)
      have live2: "set (live w1) \<subseteq> set (live w2)" using rs(5) by (simp add: confined_def)
      have inv2: "pool_inv ?k pl w2 fl []"
        by (rule pool_inv_beside[OF fl(1) wok2 live2]) (use area away in blast)
      have up: "live_at w1 a" if "live_at w a" for a using live_at_mono[OF _ that] k1 by (simp add: live_kept_def)
      have k2: "live_kept w w2" using k1 live2 away up by (auto simp: live_kept_def)
      have "a \<notin> pool_area ?k pl \<union> runner_area rn" if "a < 2 ^ 64" "live_at w a" for a
        using confinedD(1)[OF fl(7) that] away[OF that(1) up[OF that(2)]] by simp
      moreover have "pool_area ?k pl \<inter> runner_area rn = {}" using area away by blast
      ultimately show ?thesis
        using p Inr r runs fl(4-6) len rs(1-3) inv2 k2 wok2 later_trans[OF rs(4) takes(1)]
        by (auto simp: state_new_def)
    qed
  qed
qed

text \<open>
  C16. Constructing a state with memory of its own ends in one of two ways: it throws and every byte
  that was taken has gone back, also the pool's when only the runner could not be built; or both
  parts are ready, the pool with all its nodes free, the runner with one free run of at least the
  bytes asked for, each carrying its own address, and neither has disturbed the other.
\<close>

theorem state_new_correct:
  assumes "layout_ok (sc_ty k)" "heap_backed_mode (sc_mode k)"
    and "has_single_bit (detect_page_size (sys_sysconf sys))" "16 \<le> unat (detect_page_size (sys_sysconf sys))"
    and "world_ok w" "sys_steady sys w"
  shows "\<exists>res w'. state_new k sys self n bytes w = Some (res, w') \<and>
    (case res of
       Inl e \<Rightarrow> live w' = live w
     | Inr st \<Rightarrow> \<exists>fl b s. pool_inv (node_pool_cfg k) (ss_pool st) w' fl [] \<and> length fl = unat n \<and>
         p_self (ss_pool st) = self \<and>
         runner_inv (runs_cfg k) (ss_runs st) w' [(b, [(s, True)])] [] \<and> unat bytes \<le> s + 16 \<and>
         rn_self (ss_runs st) = runs_of k self)"
  using state_new_step[OF assms, of self n bytes] by (fastforce split: sum.splits)

end
