(* ===== verification/Run_Cache.thy ===== *)
theory Run_Cache
  imports Estates
begin

text \<open>
  The thread-local caches over the runners of a process.  What is lent by the parts and not held by
  a client lies in the lists of the caches; every operation of the allocator is a sequence of a few
  steps - ask a part, give back to a part, store, push, pop - and each keeps \<open>sub_holds\<close>.  A cache
  may hold runs of any runner: what is pushed carries its owner.
\<close>

section \<open>The caches and their invariant\<close>

text \<open>The lists of the classes; every node is a lent run that is large enough for its class.\<close>

definition class_ok :: "sub_cfg \<Rightarrow> memory \<Rightarrow> block set \<Rightarrow> nat \<Rightarrow> tls_class \<Rightarrow> block list \<Rightarrow> bool" where
  "class_ok k m B i c xs \<longleftrightarrow> slist m (tc_head c) (map snd xs) \<and> unat (tc_count c) = length xs \<and> distinct (map snd xs) \<and>
     (\<forall>b \<in> set xs. b \<in> B \<and> (\<exists>s. fst b = Runs s \<and> m (node_owner (adr (snd b))) = runs_of k s) \<and>
        16 * i + 16 \<le> payload_bytes m (snd b))"

definition stocked ::
    "sub_cfg \<Rightarrow> memory \<Rightarrow> block set \<Rightarrow> (nat \<Rightarrow> nat \<Rightarrow> tls_class) \<Rightarrow> (nat \<Rightarrow> nat \<Rightarrow> block list) \<Rightarrow> bool" where
  "stocked k m B K C \<longleftrightarrow> (\<forall>t. \<forall>i < 256. class_ok k m B i (K t i) (C t i)) \<and>
     (\<forall>t u. \<forall>i < 256. \<forall>j < 256. (t, i) \<noteq> (u, j) \<longrightarrow> set (C t i) \<inter> set (C u j) = {})"

definition cached :: "(nat \<Rightarrow> nat \<Rightarrow> block list) \<Rightarrow> block set" where
  "cached C = (\<Union>t. \<Union>i \<in> {..<256}. set (C t i))"

text \<open>The client holds \<open>L\<close>: lent blocks that lie in no cache.\<close>

definition sub_holds :: "sub_cfg \<Rightarrow> sys \<Rightarrow> part set \<Rightarrow> process \<Rightarrow> block set \<Rightarrow> bool" where
  "sub_holds k sys D P L \<longleftrightarrow> (\<exists>B C. estates k sys D P B \<and> stocked k (mem_of P) B (pr_cache P) C \<and>
     L \<subseteq> B \<and> L \<inter> cached C = {})"

lemma stockedD:
  assumes "stocked k m B K C" "i < 256"
  shows "class_ok k m B i (K t i) (C t i)"
    and "j < 256 \<Longrightarrow> (t, i) \<noteq> (u, j) \<Longrightarrow> set (C t i) \<inter> set (C u j) = {}"
  using assms by (simp_all add: stocked_def)

lemma cached_lent: "stocked k m B K C \<Longrightarrow> cached C \<subseteq> B"
  by (fastforce simp: cached_def stocked_def class_ok_def)

lemma cachedI: "i < 256 \<Longrightarrow> b \<in> set (C t i) \<Longrightarrow> b \<in> cached C"
  by (auto simp: cached_def)

lemma sub_holds_mono: "sub_holds k sys D P L \<Longrightarrow> L' \<subseteq> L \<Longrightarrow> sub_holds k sys D P L'"
  by (fastforce simp: sub_holds_def)

lemma sub_holdsE:
  assumes "sub_holds k sys D P L"
  obtains B C where "estates k sys D P B" "stocked k (mem_of P) B (pr_cache P) C" "L \<subseteq> B" "L \<inter> cached C = {}"
    "cached C \<subseteq> B"
  using assms cached_lent by (auto simp: sub_holds_def)

lemma sub_holds_thread: "sub_holds k sys D P L \<Longrightarrow> has_thread_state k"
  using estatesD(1) by (auto simp: sub_holds_def)

text \<open>A run that is held outside the caches.\<close>

lemma sub_run:
  assumes "sub_holds k sys D P L" "(Runs s, x) \<in> L"
  shows "16 dvd payload_bytes (mem_of P) x" "32 \<le> payload_bytes (mem_of P) x" "16 \<le> x"
    and "x + payload_bytes (mem_of P) x < 2 ^ 64" "owner_of (adr x) (mem_of P) = runs_of k s"
    and "adr x \<noteq> nullptr" "unat (adr x) = x"
proof -
  obtain B where e: "estates k sys D P B" "(Runs s, x) \<in> B" using assms by (auto simp: sub_holds_def)
  note b = run_block[OF e]
  show "16 dvd payload_bytes (mem_of P) x" "32 \<le> payload_bytes (mem_of P) x" "16 \<le> x"
    "x + payload_bytes (mem_of P) x < 2 ^ 64" "owner_of (adr x) (mem_of P) = runs_of k s" by (fact b)+
  show "adr x \<noteq> nullptr" "unat (adr x) = x" using b(3,4) by (simp_all add: adr_eq_0_iff unat_adr)
qed

lemma sub_apart:
  assumes "sub_holds k sys D P L" "(p, x) \<in> L" "(q, y) \<in> L" "(p, x) \<noteq> (q, y)"
  shows "x + span_of k (mem_of P) (p, x) \<le> y \<or> y + span_of k (mem_of P) (q, y) \<le> x"
proof -
  obtain B where "estates k sys D P B" "L \<subseteq> B" using assms(1) by (rule sub_holdsE)
  then show ?thesis using blocks_apart assms(2-4) by blast
qed

lemma sub_range:
  assumes "sub_holds k sys D P L" "(p, x) \<in> L"
  shows "8 \<le> span_of k (mem_of P) (p, x)" "0 < x" "x + span_of k (mem_of P) (p, x) < 2 ^ 64" "p \<in> D"
proof -
  obtain B where e: "estates k sys D P B" "(p, x) \<in> B" using assms by (auto simp: sub_holds_def)
  show "8 \<le> span_of k (mem_of P) (p, x)" "0 < x" "x + span_of k (mem_of P) (p, x) < 2 ^ 64" "p \<in> D"
    using block_range[OF e] estatesD(3)[OF e] by simp_all
qed

lemma sub_same: "sub_holds k sys D P L \<Longrightarrow> (p, x) \<in> L \<Longrightarrow> (q, x) \<in> L \<Longrightarrow> p = q"
  using same_block by (fastforce simp: sub_holds_def)

lemma slist_length:
  assumes "slist m p xs" "distinct xs"
  shows "length xs < 2 ^ 64"
proof -
  have "set xs \<subseteq> {1..<2 ^ 64}" using slist_range[OF assms(1)] by (auto simp: Suc_le_eq)
  then have "card (set xs) \<le> card {1..<2 ^ 64 :: nat}" by (intro card_mono) simp_all
  then show ?thesis using distinct_card[OF assms(2)] by simp
qed

section \<open>Changing a class\<close>

definition with_class :: "nat \<Rightarrow> nat \<Rightarrow> 'a \<Rightarrow> (nat \<Rightarrow> nat \<Rightarrow> 'a) \<Rightarrow> nat \<Rightarrow> nat \<Rightarrow> 'a" where
  "with_class t i c K = K(t := (K t)(i := c))"

lemma with_class_simps [simp]:
  "with_class t i c K t i = c" "(u, j) \<noteq> (t, i) \<Longrightarrow> with_class t i c K u j = K u j"
  "with_class t i c (with_class t i d K) = with_class t i c K"
  by (auto simp: with_class_def)

lemma set_class_cache: "i < 256 \<Longrightarrow> pr_cache (set_class t (adr i) c P) = with_class t i c (pr_cache P)"
  by (simp add: set_class_def with_class_def unat_adr)

lemma stocked_class:
  assumes st: "stocked k m B K C" and i: "i < 256" and c: "class_ok k m B i c xs"
    and new: "(set xs - set (C t i)) \<inter> cached C = {}"
  shows "stocked k m B (with_class t i c K) (with_class t i xs C)"
    and "cached (with_class t i xs C) = cached C - set (C t i) \<union> set xs"
proof -
  have other: "set xs \<inter> set (C u j) = {}" if "j < 256" "(u, j) \<noteq> (t, i)" for u j
  proof -
    have "set (C u j) \<subseteq> cached C" using that(1) by (auto simp: cached_def)
    moreover have "set (C t i) \<inter> set (C u j) = {}" using stockedD(2)[OF st i that(1)] that(2) by metis
    ultimately show ?thesis using new by blast
  qed
  have "class_ok k m B j (with_class t i c K u j) (with_class t i xs C u j)" if "j < 256" for u j
    using stockedD(1)[OF st that] c by (cases "(u, j) = (t, i)") simp_all
  moreover have "set (with_class t i xs C u j) \<inter> set (with_class t i xs C v l) = {}"
    if "j < 256" "l < 256" "(u, j) \<noteq> (v, l)" for u j v l
    using stockedD(2)[OF st that] other[of j u] other[of l v] that
    by (cases "(u, j) = (t, i)"; cases "(v, l) = (t, i)") auto
  ultimately show "stocked k m B (with_class t i c K) (with_class t i xs C)" by (simp add: stocked_def)
  show "cached (with_class t i xs C) = cached C - set (C t i) \<union> set xs"
  proof (intro set_eqI iffI)
    fix b assume "b \<in> cached (with_class t i xs C)"
    then obtain u j where b: "j < 256" "b \<in> set (with_class t i xs C u j)" by (auto simp: cached_def)
    show "b \<in> cached C - set (C t i) \<union> set xs"
    proof (cases "(u, j) = (t, i)")
      case False
      then have "b \<in> set (C u j)" using b(2) by simp
      then show ?thesis using stockedD(2)[OF st i b(1), of t u] False cachedI[OF b(1)] by blast
    qed (use b in simp)
  next
    fix b assume b: "b \<in> cached C - set (C t i) \<union> set xs"
    show "b \<in> cached (with_class t i xs C)"
    proof (cases "b \<in> set xs")
      case False
      then obtain u j where "j < 256" "b \<in> set (C u j)" "b \<notin> set (C t i)" using b by (auto simp: cached_def)
      moreover from this have "(u, j) \<noteq> (t, i)" by auto
      ultimately have "b \<in> set (with_class t i xs C u j)" by simp
      then show ?thesis by (rule cachedI[OF \<open>j < 256\<close>])
    qed (use cachedI[OF i, of b "with_class t i xs C" t] in simp)
  qed
qed

text \<open>The lists outlive every step that keeps the blocks in them.\<close>

lemma stocked_kept:
  assumes e: "estates k sys D P B" and st: "stocked k (mem_of P) B K C"
    and u: "undisturbed k (cached C) (mem_of P) m'" and B': "cached C \<subseteq> B'"
  shows "stocked k m' B' K C"
proof -
  have "class_ok k m' B' i (K t i) (C t i)" if i: "i < 256" for i t
  proof -
    have c: "class_ok k (mem_of P) B i (K t i) (C t i)" by (rule stockedD(1)[OF st i])
    have w: "b \<in> B'" "m' (adr (snd b)) = mem_of P (adr (snd b))"
      "m' (node_owner (adr (snd b))) = mem_of P (node_owner (adr (snd b)))"
      "payload_bytes m' (snd b) = payload_bytes (mem_of P) (snd b)" if b: "b \<in> set (C t i)" for b
    proof -
      have bc: "b \<in> cached C" using i b by (rule cachedI)
      then show "b \<in> B'" using B' by blast
      obtain s x where s: "b = (Runs s, x)" "(Runs s, x) \<in> B" using c b by (cases b) (auto simp: class_ok_def)
      have big: "32 \<le> payload_bytes (mem_of P) x" using run_block(2)[OF e s(2)] .
      note un = undisturbedD[OF u bc]
      show "m' (adr (snd b)) = mem_of P (adr (snd b))" using un(2)[of 0] big s(1) by simp
      show "m' (node_owner (adr (snd b))) = mem_of P (node_owner (adr (snd b)))"
        using un(2)[of 8] big s(1) by (simp add: node_owner_def sizeof_ptr_def adr_plus_numeral)
      show "payload_bytes m' (snd b) = payload_bytes (mem_of P) (snd b)" using un(1) s(1) by simp
    qed
    have "slist m' (tc_head (K t i)) (map snd (C t i)) = slist (mem_of P) (tc_head (K t i)) (map snd (C t i))"
      using w(2) by (intro slist_cong) auto
    then show ?thesis using c w by (simp add: class_ok_def)
  qed
  then show ?thesis using st by (simp add: stocked_def)
qed

lemma sub_holds_step:
  assumes "estates k sys D P B" "stocked k (mem_of P) B (pr_cache P) C"
    and "estates k sys E P' B'" "calm k sys A P P'" "cached C \<subseteq> A" "cached C \<subseteq> B'" "L \<subseteq> B'" "L \<inter> cached C = {}"
    and "pr_cache P' = pr_cache P"
  shows "sub_holds k sys E P' L"
proof -
  have "undisturbed k (cached C) (mem_of P) (mem_of P')"
    using calm_mono[OF assms(4,5)] by (simp add: calm_def)
  from stocked_kept[OF assms(1,2) this assms(6)] show ?thesis
    using assms(3,7-9) by (auto simp: sub_holds_def)
qed


section \<open>The primitive steps\<close>

lemma sub_granted:
  assumes e: "estates k sys D P B" and st: "stocked k (mem_of P) B (pr_cache P) C" and L: "L \<subseteq> B" "L \<inter> cached C = {}"
    and g: "granted (estates k sys D) k p n B ans P'" and c: "calm k sys B P P'" and cache: "pr_cache P' = pr_cache P"
  shows "granted (sub_holds k sys D) k p n L ans P'" and "calm k sys L P P'"
proof -
  note step = sub_holds_step[OF e st _ c cached_lent[OF st] _ _ _ cache]
  have "sub_holds k sys D P' L" if "estates k sys D P' B" by (rule step[OF that cached_lent[OF st] L])
  moreover have "sub_holds k sys D P' (insert b L)" if "estates k sys D P' (insert b B)" "b \<notin> B" for b
    by (rule step[OF that(1)]) (use that(2) L cached_lent[OF st] in auto)
  ultimately show "granted (sub_holds k sys D) k p n L ans P'"
    using g L(1) by (auto simp: granted_def split: sum.splits)
  show "calm k sys L P P'" by (rule calm_mono[OF c L(1)])
qed

lemma sub_request:
  assumes h: "sub_holds k sys D P L" and s: "Runs s \<in> D" and steady: "sys_steady sys (pr_world P)"
  shows "\<exists>ans P'. runs_allocate k sys (runs_of k s) b al P = Some (ans, P') \<and> calm k sys L P P' \<and>
    pr_cache P' = pr_cache P \<and> granted (sub_holds k sys D) k (Runs s) (unat b) L ans P'"
proof -
  obtain B C where hs: "estates k sys D P B" "stocked k (mem_of P) B (pr_cache P) C" "L \<subseteq> B" "L \<inter> cached C = {}"
    using h by (rule sub_holdsE)
  obtain ans P' where a: "runs_allocate k sys (runs_of k s) b al P = Some (ans, P')" "calm k sys B P P'"
    "pr_cache P' = pr_cache P" "granted (estates k sys D) k (Runs s) (unat b) B ans P'"
    using run_request[OF hs(1) s steady, of b al] by blast
  show ?thesis using a(1,3) sub_granted[OF hs a(4,2,3)] by blast
qed

lemma sub_node_request:
  assumes h: "sub_holds k sys D P L" and s: "Nodes s \<in> D" and steady: "sys_steady sys (pr_world P)"
  shows "\<exists>ans P'. nodes_allocate k sys s P = Some (ans, P') \<and> calm k sys L P P' \<and>
    granted (sub_holds k sys D) k (Nodes s) (unat (sizeof (sc_ty k))) L ans P'"
proof -
  obtain B C where hs: "estates k sys D P B" "stocked k (mem_of P) B (pr_cache P) C" "L \<subseteq> B" "L \<inter> cached C = {}"
    using h by (rule sub_holdsE)
  obtain ans P' where a: "nodes_allocate k sys s P = Some (ans, P')" "calm k sys B P P'"
    "pr_cache P' = pr_cache P" "granted (estates k sys D) k (Nodes s) (unat (sizeof (sc_ty k))) B ans P'"
    using node_request_step[OF hs(1) s steady] by blast
  show ?thesis using a(1) sub_granted[OF hs a(4,2,3)] by blast
qed

text \<open>A block goes home, freed here or parked.\<close>

lemma sub_returned:
  assumes h: "sub_holds k sys D P L" and b: "b \<in> L"
    and r: "\<And>B. estates k sys D P B \<Longrightarrow> b \<in> B \<Longrightarrow>
      estates k sys D P' (B - {b}) \<and> calm k sys (B - {b}) P P' \<and> pr_cache P' = pr_cache P"
  shows "sub_holds k sys D P' (L - {b})" and "calm k sys (L - {b}) P P'"
proof -
  obtain B C where hs: "estates k sys D P B" "stocked k (mem_of P) B (pr_cache P) C" "L \<subseteq> B" "L \<inter> cached C = {}"
    "cached C \<subseteq> B" using h by (rule sub_holdsE)
  have bB: "b \<in> B" using b hs(3) by blast
  note r' = r[OF hs(1) bB]
  have c: "cached C \<subseteq> B - {b}" using hs(4,5) b by blast
  show "sub_holds k sys D P' (L - {b})"
    by (rule sub_holds_step[OF hs(1,2), where A = "B - {b}" and B' = "B - {b}"]) (use r' c hs(3,4) in auto)
  show "calm k sys (L - {b}) P P'" by (rule calm_mono[OF _ Diff_mono[OF hs(3) subset_refl]]) (use r' in simp)
qed

lemma sub_send_home:
  assumes "sub_holds k sys D P L" "(Runs s, x) \<in> L"
  shows "sub_holds k sys D (send_home k local (runs_of k s) (adr x) P) (L - {(Runs s, x)})"
    and "calm k sys (L - {(Runs s, x)}) P (send_home k local (runs_of k s) (adr x) P)"
  using sub_returned[OF assms, where P' = "send_home k local (runs_of k s) (adr x) P"] run_return by auto

lemma sub_free_node:
  fixes t :: nat
  assumes "sub_holds k sys D P L" "(Nodes s, x) \<in> L"
  shows "sub_holds k sys D (free_node_routed k sys t handle_default (adr x) P) (L - {(Nodes s, x)})"
    and "calm k sys (L - {(Nodes s, x)}) P (free_node_routed k sys t handle_default (adr x) P)"
  using sub_returned[OF assms, where P' = "free_node_routed k sys t handle_default (adr x) P"]
    node_return_step[where k = k and sys = sys and t = t] by auto

text \<open>A store into a block outside the lists.\<close>

lemma sub_store:
  fixes v :: u64
  assumes h: "sub_holds k sys D P L" and b: "(p, x) \<in> L" and i: "i < span_of k (mem_of P) (p, x)"
  defines "P' \<equiv> set_mem ((mem_of P)(adr (x + i) := v)) P"
  shows "sub_holds k sys D P' L" and "calm k sys (L - {(p, x)}) P P'"
    and "span_of k (mem_of P') (p, x) = span_of k (mem_of P) (p, x)"
proof -
  obtain B C where hs: "estates k sys D P B" "stocked k (mem_of P) B (pr_cache P) C" "L \<subseteq> B" "L \<inter> cached C = {}"
    "cached C \<subseteq> B" using h by (rule sub_holdsE)
  have bB: "(p, x) \<in> B" using b hs(3) by blast
  note st = block_store[OF hs(1) bB i, of v, folded P'_def]
  show "span_of k (mem_of P') (p, x) = span_of k (mem_of P) (p, x)" by (rule st(3))
  have c: "cached C \<subseteq> B - {(p, x)}" using hs(4,5) b by blast
  show "sub_holds k sys D P' L"
    by (rule sub_holds_step[OF hs(1,2) st(1,2) c hs(5,3,4)]) (simp add: P'_def)
  show "calm k sys (L - {(p, x)}) P P'" by (rule calm_mono[OF st(2) Diff_mono[OF hs(3) subset_refl]])
qed

section \<open>Push and pop\<close>

lemma sub_push:
  fixes t :: nat
  assumes h: "sub_holds k sys D P L" and b: "(Runs s, x) \<in> L" and i: "i < 256"
    and big: "16 * i + 16 \<le> payload_bytes (mem_of P) x"
  defines "P' \<equiv> tls_push t (adr i) (adr x) (runs_of k s) P"
  shows "sub_holds k sys D P' (L - {(Runs s, x)})" and "calm k sys (L - {(Runs s, x)}) P P'"
    and "pr_cache P' = with_class t i \<lparr>tc_head = adr x, tc_count = tc_count (pr_cache P t i) + 1\<rparr> (pr_cache P)"
proof -
  let ?b = "(Runs s, x)" and ?c = "\<lparr>tc_head = adr x, tc_count = tc_count (pr_cache P t i) + 1\<rparr>"
  note r = sub_run[OF h b]
  define P1 where "P1 = set_mem ((mem_of P)(adr (x + 0) := tc_head (pr_cache P t i))) P"
  have i0: "0 < span_of k (mem_of P) ?b" using r(2) by simp
  note s1 = sub_store[OF h b i0, where v = "tc_head (pr_cache P t i)", folded P1_def]
  define P2 where "P2 = set_mem ((mem_of P1)(adr (x + 8) := runs_of k s)) P1"
  have i8: "8 < span_of k (mem_of P1) ?b" using r(2) s1(3) by simp
  note s2 = sub_store[OF s1(1) b i8, where v = "runs_of k s", folded P2_def]
  have i64: "unat (adr i) = i" using i by (simp add: unat_adr)
  have c2: "pr_cache P2 = pr_cache P" by (simp add: P2_def P1_def)
  have "P' = set_class t (adr i) ?c P2"
    using i64 by (simp add: P'_def tls_push_def Let_def P1_def P2_def set_mem_def node_owner_def sizeof_ptr_def adr_plus_numeral)
  then have P': "pr_cache P' = with_class t i ?c (pr_cache P)" "mem_of P' = mem_of P2"
    "\<And>B. estates k sys D P' B = estates k sys D P2 B" "\<And>A. calm k sys A P P' = calm k sys A P P2"
    using set_class_cache[OF i, of t ?c P2] c2
    by (simp_all add: set_class_def calm_def)
  show "pr_cache P' = with_class t i ?c (pr_cache P)" by (rule P'(1))
  obtain B C where hs: "estates k sys D P2 B" "stocked k (mem_of P2) B (pr_cache P) C" "L \<subseteq> B" "L \<inter> cached C = {}"
    "cached C \<subseteq> B" using s2(1) unfolding c2[symmetric] by (rule sub_holdsE)
  have bB: "?b \<in> B" "?b \<notin> cached C" using b hs(3,4) by blast+
  have ci: "class_ok k (mem_of P2) B i (pr_cache P t i) (C t i)" by (rule stockedD(1)[OF hs(2) i])
  have fresh: "x \<notin> snd ` set (C t i)"
  proof
    assume "x \<in> snd ` set (C t i)"
    then obtain q where q: "(q, x) \<in> set (C t i)" by auto
    then have "(q, x) \<in> B" using ci by (auto simp: class_ok_def)
    then have "q = Runs s" using same_block[OF hs(1)] bB(1) by blast
    then show False using q bB(2) i by (auto simp: cached_def)
  qed
  have ne: "adr (x + 8) \<noteq> adr x" using r(2,4) by (simp add: adr_eq_iff)
  have w: "mem_of P2 (adr x) = tc_head (pr_cache P t i)" "mem_of P2 (node_owner (adr x)) = runs_of k s"
    using ne by (simp_all add: P2_def P1_def set_mem_def node_owner_def sizeof_ptr_def adr_plus_numeral)
  have big2: "16 * i + 16 \<le> payload_bytes (mem_of P2) x" using big s1(3) s2(3) by simp
  have sl: "slist (mem_of P2) (adr x) (map snd (?b # C t i))" "distinct (map snd (?b # C t i))"
    using ci w(1) r(3,4) fresh by (simp_all add: class_ok_def)
  have "unat (tc_count (pr_cache P t i) + 1) = length (?b # C t i)"
    using slist_length[OF sl] ci unat_plus_le[of "tc_count (pr_cache P t i)" 1] by (simp add: class_ok_def)
  then have ok: "class_ok k (mem_of P2) B i ?c (?b # C t i)"
    using ci sl bB(1) big2 w(2) by (simp add: class_ok_def)
  have "set (?b # C t i) - set (C t i) \<subseteq> {?b}" by auto
  then have new: "(set (?b # C t i) - set (C t i)) \<inter> cached C = {}" using bB(2) by blast
  note sc = stocked_class[OF hs(2) i ok new]
  have "cached (with_class t i (?b # C t i) C) = insert ?b (cached C)"
    unfolding sc(2) using i by (auto simp: cached_def)
  then have "(L - {?b}) \<inter> cached (with_class t i (?b # C t i) C) = {}" using hs(4) by blast
  moreover have "L - {?b} \<subseteq> B" using hs(3) by blast
  ultimately show "sub_holds k sys D P' (L - {?b})"
    unfolding sub_holds_def P' using hs(1) sc(1) by blast
  show "calm k sys (L - {?b}) P P'" unfolding P'(4) by (rule calm_trans[OF s1(2) s2(2)])
qed


text \<open>Taking a node out of its list, at the front or behind the node \<open>last ys\<close>.\<close>

definition tls_unlink :: "nat \<Rightarrow> nat \<Rightarrow> nat list \<Rightarrow> nat \<Rightarrow> process \<Rightarrow> process" where
  "tls_unlink t i ys x P =
     (let cls = pr_cache P t i; m = mem_of P in
      if ys = [] then set_class t (adr i) \<lparr>tc_head = m (adr x), tc_count = tc_count cls - 1\<rparr> P
      else set_class t (adr i) (cls\<lparr>tc_count := tc_count cls - 1\<rparr>) (set_mem (m(adr (last ys) := m (adr x))) P))"

lemma slist_unlink:
  "slist m p (us @ a # x # zs) \<Longrightarrow> distinct (us @ a # x # zs) \<Longrightarrow> slist (m(adr a := m (adr x))) p (us @ a # zs)"
proof (induction us arbitrary: p)
  case Nil
  then have "slist (m(adr a := m (adr x))) (m (adr x)) zs = slist m (m (adr x)) zs" by (intro slist_upd) auto
  then show ?case using Nil by (simp del: slist_upd fun_upd_apply add: fun_upd_same)
next
  case (Cons u us)
  then have "adr u \<noteq> adr a" using slist_range[OF Cons.prems(1), of a] by (auto simp: adr_eq_iff)
  then show ?case using Cons by simp
qed

lemma sub_unlink:
  assumes e: "estates k sys D P B" and st: "stocked k (mem_of P) B (pr_cache P) C" and i: "i < 256"
    and split: "C t i = ys @ b # zs"
  defines "P' \<equiv> tls_unlink t i (map snd ys) (snd b) P"
  shows "estates k sys D P' B" and "calm k sys (B - cached C) P P'"
    and "\<exists>C'. stocked k (mem_of P') B (pr_cache P') C' \<and> cached C' = cached C - {b} \<and> b \<in> cached C"
    and "\<exists>c. pr_cache P' = with_class t i c (pr_cache P) \<and> tc_count c = tc_count (pr_cache P t i) - 1"
    and "0 < tc_count (pr_cache P t i)" and "b \<in> B" and "payload_bytes (mem_of P') (snd b) = payload_bytes (mem_of P) (snd b)"
    and "16 * i + 16 \<le> payload_bytes (mem_of P) (snd b)"
    and "mem_of P' (node_owner (adr (snd b))) = mem_of P (node_owner (adr (snd b)))"
proof -
  let ?m = "mem_of P" and ?cls = "pr_cache P t i"
  have ci: "class_ok k ?m B i ?cls (ys @ b # zs)" using stockedD(1)[OF st i, of t] split by simp
  then have cb: "\<And>a. a \<in> set (ys @ b # zs) \<Longrightarrow> a \<in> B \<and> (\<exists>s. fst a = Runs s \<and> ?m (node_owner (adr (snd a))) = runs_of k s) \<and>
      16 * i + 16 \<le> payload_bytes ?m (snd a)"
    unfolding class_ok_def by blast
  have sl: "slist ?m (tc_head ?cls) (map snd ys @ snd b # map snd zs)" "distinct (map snd ys @ snd b # map snd zs)"
    and n: "unat (tc_count ?cls) = Suc (length (ys @ zs))"
    using ci unfolding class_ok_def by simp_all
  show "b \<in> B" "16 * i + 16 \<le> payload_bytes ?m (snd b)" using cb[of b] by simp_all
  show pos: "0 < tc_count ?cls" using n by (metis unat_gt_0 word_neq_0_conv zero_less_Suc)
  then have n': "unat (tc_count ?cls - 1) = length (ys @ zs)" using n by (simp add: unat_minus_one word_neq_0_conv)
  define P1 where "P1 = (if ys = [] then P else set_mem (?m(adr (snd (last ys)) := ?m (adr (snd b)))) P)"
  define c' where "c' = (if ys = [] then \<lparr>tc_head = ?m (adr (snd b)), tc_count = tc_count ?cls - 1\<rparr>
    else ?cls\<lparr>tc_count := tc_count ?cls - 1\<rparr>)"
  have P': "P' = set_class t (adr i) c' P1" by (simp add: P'_def tls_unlink_def Let_def P1_def c'_def last_map)
  have P1: "estates k sys D P1 B \<and> calm k sys (B - set ys) P P1 \<and>
      slist (mem_of P1) (tc_head c') (map snd (ys @ zs)) \<and>
      (\<forall>a \<in> set (ys @ b # zs). payload_bytes (mem_of P1) (snd a) = payload_bytes ?m (snd a) \<and>
        mem_of P1 (node_owner (adr (snd a))) = ?m (node_owner (adr (snd a))))"
  proof (cases "ys = []")
    case True
    then show ?thesis using e sl by (simp add: P1_def c'_def)
  next
    case False
    then obtain us a where us: "ys = us @ [a]" by (cases ys rule: rev_cases) auto
    obtain s y where a: "a = (Runs s, y)" "(Runs s, y) \<in> B" using cb[of a] us by (cases a) auto
    note ra = run_block[OF e a(2)]
    have z: "0 < span_of k ?m (Runs s, y)" using ra(2) by simp
    have eq: "P1 = set_mem (?m(adr (y + 0) := ?m (adr (snd b)))) P" using us a(1) by (simp add: P1_def)
    note bs = block_store[OF e a(2) z, where v = "?m (adr (snd b))", folded eq]
    have "slist (mem_of P1) (tc_head c') (map snd (ys @ zs))"
      using slist_unlink[of ?m "tc_head ?cls" "map snd us" y "snd b" "map snd zs"] sl us a(1)
      by (simp add: eq c'_def set_mem_def)
    moreover have "payload_bytes (mem_of P1) (snd d) = payload_bytes ?m (snd d) \<and>
        mem_of P1 (node_owner (adr (snd d))) = ?m (node_owner (adr (snd d)))" if d: "d \<in> set (ys @ b # zs)" for d
    proof (cases "d = (Runs s, y)")
      case True
      have "adr (y + 8) \<noteq> adr y" using ra(2,4) by (simp add: adr_eq_iff)
      then show ?thesis
        using bs(3) True by (simp add: eq set_mem_def node_owner_def sizeof_ptr_def adr_plus_numeral)
    next
      case False
      obtain s' x where d': "d = (Runs s', x)" "(Runs s', x) \<in> B" using cb[OF d] by (cases d) auto
      have "undisturbed k (B - {(Runs s, y)}) ?m (mem_of P1)" using bs(2) by (simp add: calm_def)
      note un = undisturbedD[OF this, of d]
      show ?thesis using un(1) un(2)[of 8] run_block(2)[OF e d'(2)] d' False
        by (simp add: node_owner_def sizeof_ptr_def adr_plus_numeral)
    qed
    moreover have "calm k sys (B - set ys) P P1" by (rule calm_mono[OF bs(2)]) (use us a(1) in auto)
    ultimately show ?thesis using bs(1) by blast
  qed
  then have same: "payload_bytes (mem_of P1) (snd a) = payload_bytes ?m (snd a)"
      "mem_of P1 (node_owner (adr (snd a))) = ?m (node_owner (adr (snd a)))" if "a \<in> set (ys @ b # zs)" for a
    using that by blast+
  have P'1: "mem_of P' = mem_of P1" "pr_cache P' = with_class t i c' (pr_cache P)" "\<And>B. estates k sys D P' B = estates k sys D P1 B"
    "\<And>A. calm k sys A P P' = calm k sys A P P1"
    using set_class_cache[OF i, of t c' P1] by (simp_all add: P' set_class_def calm_def P1_def)
  show "estates k sys D P' B" unfolding P'1 using P1 by blast
  have sub: "set ys \<subseteq> cached C" using cachedI[OF i, of _ C t] split by auto
  show "calm k sys (B - cached C) P P'" unfolding P'1 using P1 sub calm_mono[of k sys "B - set ys" P P1] by blast
  show "payload_bytes (mem_of P') (snd b) = payload_bytes ?m (snd b)"
    "mem_of P' (node_owner (adr (snd b))) = ?m (node_owner (adr (snd b)))" using same[of b] by (simp_all add: P'1)
  show "\<exists>c. pr_cache P' = with_class t i c (pr_cache P) \<and> tc_count c = tc_count ?cls - 1"
    unfolding P'1 by (rule exI[of _ c']) (simp add: c'_def)
  let ?e = "\<lparr>tc_head = nullptr, tc_count = 0\<rparr>" and ?C0 = "with_class t i [] C"
  have e0: "class_ok k ?m B i ?e []" by (simp add: class_ok_def)
  have no: "(set [] - set (C t i)) \<inter> cached C = {}" by simp
  note s0 = stocked_class[OF st i e0 no]
  have "cached ?C0 \<subseteq> B - set ys" unfolding s0(2) using cached_lent[OF st] split by auto
  then have "undisturbed k (cached ?C0) ?m (mem_of P1)" using P1 calm_mono[of k sys "B - set ys" P P1] by (auto simp: calm_def)
  from stocked_kept[OF e s0(1) this] have s1: "stocked k (mem_of P1) B (with_class t i ?e (pr_cache P)) ?C0"
    using cached_lent[OF s0(1)] .
  have ok: "class_ok k (mem_of P1) B i c' (ys @ zs)"
    using P1 sl(2) n' cb same unfolding class_ok_def by (auto simp: c'_def)
  have "(set (ys @ zs) - set (?C0 t i)) \<inter> cached ?C0 = {}" unfolding s0(2) using split by auto
  note s2 = stocked_class[OF s1 i ok this]
  have "b \<notin> set (ys @ zs)" using sl(2) by auto
  then have "cached (with_class t i (ys @ zs) ?C0) = cached C - {b}"
    unfolding s2(2) s0(2) using split cachedI[OF i, of _ C t] by auto
  moreover have "b \<in> cached C" using cachedI[OF i, of b C t] split by simp
  ultimately show "\<exists>C'. stocked k (mem_of P') B (pr_cache P') C' \<and> cached C' = cached C - {b} \<and> b \<in> cached C"
    using s2(1) unfolding P'1 with_class_simps by blast
qed


lemma sub_taken:
  assumes e: "estates k sys D P B" and st: "stocked k (mem_of P) B (pr_cache P) C" and L: "L \<subseteq> B" "L \<inter> cached C = {}"
    and i: "i < 256" and split: "C t i = ys @ (Runs s, x) # zs"
  defines "P' \<equiv> tls_unlink t i (map snd ys) x P"
  shows "(Runs s, x) \<notin> L" "sub_holds k sys D P' (insert (Runs s, x) L)" "calm k sys L P P'"
    and "adr x \<noteq> nullptr" "unat (adr x) = x" "16 * i + 16 \<le> payload_bytes (mem_of P') x"
    and "mem_of P' (node_owner (adr x)) = mem_of P (node_owner (adr x))"
    and "mem_of P (node_owner (adr x)) = runs_of k s" "0 < tc_count (pr_cache P t i)"
    and "\<exists>c. pr_cache P' = with_class t i c (pr_cache P) \<and> tc_count c = tc_count (pr_cache P t i) - 1"
proof -
  note u = sub_unlink[OF e st i split, unfolded snd_conv, folded P'_def]
  obtain C' where C': "stocked k (mem_of P') B (pr_cache P') C'" "cached C' = cached C - {(Runs s, x)}" "(Runs s, x) \<in> cached C"
    using u(3) by blast
  show "(Runs s, x) \<notin> L" using C'(3) L(2) by blast
  show "sub_holds k sys D P' (insert (Runs s, x) L)"
    unfolding sub_holds_def using u(1) C' L u(6) by (intro exI[of _ B] exI[of _ C']) auto
  have "L \<subseteq> B - cached C" using L by blast
  then show "calm k sys L P P'" by (rule calm_mono[OF u(2)])
  show "16 * i + 16 \<le> payload_bytes (mem_of P') x" using u(7,8) by simp
  show "mem_of P' (node_owner (adr x)) = mem_of P (node_owner (adr x))" by (rule u(9))
  show "\<exists>c. pr_cache P' = with_class t i c (pr_cache P) \<and> tc_count c = tc_count (pr_cache P t i) - 1" by (rule u(4))
  show "0 < tc_count (pr_cache P t i)" by (rule u(5))
  have "class_ok k (mem_of P) B i (pr_cache P t i) (C t i)" by (rule stockedD(1)[OF st i])
  then show "mem_of P (node_owner (adr x)) = runs_of k s" unfolding split class_ok_def by auto
  show "adr x \<noteq> nullptr" "unat (adr x) = x" using run_block(2-4)[OF e u(6)] by (simp_all add: adr_eq_0_iff unat_adr)
qed

lemma class_runs: "class_ok k m B i c xs \<Longrightarrow> b \<in> set xs \<Longrightarrow> \<exists>s x. b = (Runs s, x) \<and> m (node_owner (adr x)) = runs_of k s"
  unfolding class_ok_def by (cases b) fastforce

lemma sub_pop_any:
  assumes h: "sub_holds k sys D P L" and i: "i < 256"
  obtains (none) "tls_pop_any t (adr i) P = (nullptr, P)" "tc_count (pr_cache P t i) = 0"
    | (node) s x P' where "tls_pop_any t (adr i) P = (adr x, P')" "adr x \<noteq> nullptr" "(Runs s, x) \<notin> L"
      "sub_holds k sys D P' (insert (Runs s, x) L)" "mem_of P' (node_owner (adr x)) = runs_of k s" "calm k sys L P P'"
      "0 < tc_count (pr_cache P t i)" "tc_count (pr_cache P' t i) = tc_count (pr_cache P t i) - 1"
proof -
  obtain B C where hs: "estates k sys D P B" "stocked k (mem_of P) B (pr_cache P) C" "L \<subseteq> B" "L \<inter> cached C = {}"
    using h by (rule sub_holdsE)
  have ci: "class_ok k (mem_of P) B i (pr_cache P t i) (C t i)" by (rule stockedD(1)[OF hs(2) i])
  show thesis
  proof (cases "C t i")
    case Nil
    then have "tc_head (pr_cache P t i) = nullptr" "tc_count (pr_cache P t i) = 0"
      using ci by (simp_all add: class_ok_def unat_eq_0)
    then show thesis using i by (intro none) (simp_all add: tls_pop_any_def Let_def unat_adr)
  next
    case (Cons b zs)
    then obtain s x where b: "b = (Runs s, x)" using class_runs[OF ci, of b] by auto
    have split: "C t i = [] @ (Runs s, x) # zs" using Cons b by simp
    note tk = sub_taken[OF hs i split]
    have "tc_head (pr_cache P t i) = adr x" using ci Cons b by (simp add: class_ok_def)
    then have eq: "tls_pop_any t (adr i) P = (adr x, tls_unlink t i (map snd []) x P)"
      using tk(4) i by (simp add: tls_pop_any_def tls_unlink_def Let_def unat_adr)
    show thesis by (rule node[OF eq tk(4,1,2) _ tk(3,9)]) (use tk(7,8,10) in auto)
  qed
qed

text \<open>The search for a run of a given owner.\<close>

lemma tls_search_spec:
  assumes "slist m p (map snd xs)"
  shows "tls_search m o' prev p =
    (let ys = takeWhile (\<lambda>b. m (node_owner (adr (snd b))) \<noteq> o') xs
     in Some (if ys = [] then prev else adr (snd (last ys)),
              case drop (length ys) xs of [] \<Rightarrow> nullptr | b # _ \<Rightarrow> adr (snd b)))"
  using assms
proof (induction xs arbitrary: p prev)
  case Nil
  then show ?case by (simp add: tls_search.simps)
next
  case (Cons b xs)
  then have p: "p = adr (snd b)" "p \<noteq> nullptr" "slist m (m p) (map snd xs)" by (auto simp: adr_eq_0_iff)
  show ?case
  proof (cases "m (node_owner p) = o'")
    case True
    then show ?thesis using p(1,2) by (subst tls_search.simps) simp
  next
    case False
    then have "tls_search m o' prev p = tls_search m o' p (m p)" using p(2) by (subst tls_search.simps) simp
    then show ?thesis using Cons.IH[OF p(3), of p] False p(1) by (simp add: Let_def)
  qed
qed

lemma sub_pop_for:
  assumes h: "sub_holds k sys D P L" and i: "i < 256"
  obtains (none) "tls_pop_for_owner t (adr i) (runs_of k s) P = Some (nullptr, P)"
    | (node) x P' where "tls_pop_for_owner t (adr i) (runs_of k s) P = Some (adr x, P')"
      "adr x \<noteq> nullptr" "unat (adr x) = x" "(Runs s, x) \<notin> L" "sub_holds k sys D P' (insert (Runs s, x) L)"
      "16 * i + 16 \<le> payload_bytes (mem_of P') x" "calm k sys L P P'" "0 < tc_count (pr_cache P t i)"
proof -
  let ?m = "mem_of P" and ?cls = "pr_cache P t i"
  obtain B C where hs: "estates k sys D P B" "stocked k ?m B (pr_cache P) C" "L \<subseteq> B" "L \<inter> cached C = {}"
    using h by (rule sub_holdsE)
  have ci: "class_ok k ?m B i ?cls (C t i)" by (rule stockedD(1)[OF hs(2) i])
  then have sl: "slist ?m (tc_head ?cls) (map snd (C t i))" by (simp add: class_ok_def)
  define ys where "ys = takeWhile (\<lambda>b. ?m (node_owner (adr (snd b))) \<noteq> runs_of k s) (C t i)"
  have search: "tls_search ?m (runs_of k s) nullptr (tc_head ?cls) =
      Some (if ys = [] then nullptr else adr (snd (last ys)), case drop (length ys) (C t i) of [] \<Rightarrow> nullptr | b # _ \<Rightarrow> adr (snd b))"
    unfolding tls_search_spec[OF sl] by (simp only: Let_def ys_def)
  have i64: "unat (adr i) = i" using i by (simp add: unat_adr)
  show thesis
  proof (cases "drop (length ys) (C t i)")
    case Nil
    then show thesis using search i64 by (intro none) (simp add: tls_pop_for_owner_def Let_def)
  next
    case (Cons b zs)
    have dw: "dropWhile (\<lambda>b. ?m (node_owner (adr (snd b))) \<noteq> runs_of k s) (C t i) = b # zs"
      using Cons unfolding ys_def dropWhile_eq_drop .
    have split0: "C t i = ys @ b # zs" unfolding ys_def dw[symmetric] by simp
    have "?m (node_owner (adr (snd b))) = runs_of k s"
      using hd_dropWhile[of "\<lambda>b. ?m (node_owner (adr (snd b))) \<noteq> runs_of k s" "C t i"] dw by simp
    then obtain x where b: "b = (Runs s, x)" using class_runs[OF ci, of b] split0 by auto
    have split: "C t i = ys @ (Runs s, x) # zs" using split0 b by simp
    note tk = sub_taken[OF hs i split]
    have "adr (snd (last ys)) \<noteq> nullptr" if "ys \<noteq> []"
      using slist_range[OF sl, of "snd (last ys)"] that split by (simp add: adr_eq_0_iff)
    then have eq: "tls_pop_for_owner t (adr i) (runs_of k s) P = Some (adr x, tls_unlink t i (map snd ys) x P)"
      using search tk(4) i64 Cons b by (auto simp: tls_pop_for_owner_def tls_unlink_def Let_def last_map)
    show thesis by (rule node[OF eq tk(4,5,1,2,6,3,9)])
  qed
qed

end
