(* ===== verification/Sub_Cache.thy ===== *)
theory Sub_Cache
  imports Run_Cache
begin

text \<open>
  The operations of the suballocated allocator on the caches and the parts: draining, allocation on
  every path, deallocation.  A request ends in one of three ways - it throws, it answers null, or it
  grants a block that was not held - and whatever a client holds elsewhere keeps its size and its
  contents.
\<close>

section \<open>The calling thread\<close>

text \<open>Thread \<open>t\<close> has the state \<open>s\<close>, whose runner is one of the parts.\<close>

definition house :: "part set \<Rightarrow> nat \<Rightarrow> ptr \<Rightarrow> process \<Rightarrow> bool" where
  "house D t s P \<longleftrightarrow> pr_tls P t = s \<and> s \<noteq> nullptr \<and> Runs s \<in> D"

lemma house_calm: "house D t s P \<Longrightarrow> calm k sys B P P' \<Longrightarrow> house D t s P'"
  by (simp add: house_def calm_def)

lemma house_runs:
  assumes "house D t s P" "sub_holds k sys D P L"
  shows "local_runs_or_null k t handle_default P = runs_of k s"
    and "runs_ptr k sys t handle_default P = Some (Inr (runs_of k s), P)"
    and "andthen (runs_ptr k sys t handle_default) g P = g (runs_of k s) P"
proof -
  have th: "has_thread_state k" by (rule sub_holds_thread[OF assms(2)])
  then show "local_runs_or_null k t handle_default P = runs_of k s"
    "runs_ptr k sys t handle_default P = Some (Inr (runs_of k s), P)"
    using assms(1) by (auto simp: house_def local_runs_or_null_def local_state_or_null_def handle_default_def runs_ptr_def
      thread_state_def andthen_def)
  then show "andthen (runs_ptr k sys t handle_default) g P = g (runs_of k s) P" by (simp add: andthen_eq(1))
qed

section \<open>Size classes\<close>

lemma class_index [simp]: "i < 256 \<Longrightarrow> unat (adr i) = i" for i :: nat
  by (simp add: unat_adr)

lemma tls_constants:
  "tls_run_quantum = 16" "tls_run_cutoff = 4096" "unat tls_run_class_count = 256"
  by (simp_all add: tls_run_quantum_def alignof_max_align_def tls_run_cutoff_def linear_cache_cutoff_def
      tls_run_class_count_def)

lemma tls_class_index:
  assumes "0 < unat bytes" "unat bytes \<le> 4096"
  shows "tls_class_index_for bytes = adr ((unat bytes - 1) div 16)" "(unat bytes - 1) div 16 < 256"
proof -
  have "(16 :: u64) - 1 = mask 4" by (simp add: mask_eq_exp_minus_1)
  then have "unat (tls_align_up bytes) = unat (bytes + 15) - unat (bytes + 15) mod 16"
    using unat_clear_low[of "bytes + 15" 4] by (simp add: tls_align_up_def tls_constants Let_def)
  moreover have "unat (bytes + 15) = unat bytes + 15"
    using assms unat_plus_le[of bytes 15] by simp
  ultimately have "unat (tls_align_up bytes) = 16 * ((unat bytes + 15) div 16)"
    by (simp add: minus_mod_eq_mult_div)
  then have "unat (tls_align_up bytes div tls_run_quantum) = (unat bytes + 15) div 16"
    by (simp add: unat_div tls_constants)
  moreover have "(unat bytes + 15) div 16 = (unat bytes - 1) div 16 + 1"
    using assms(1) by (cases "unat bytes") simp_all
  ultimately have "tls_align_up bytes div tls_run_quantum = adr ((unat bytes - 1) div 16 + 1)" by (metis adr_unat)
  then show "tls_class_index_for bytes = adr ((unat bytes - 1) div 16)"
    by (simp add: tls_class_index_for_def adr_def)
  show "(unat bytes - 1) div 16 < 256" using assms by simp
qed

lemma tls_class_bytes: "tls_class_bytes (adr i) = adr (16 * i + 16)"
  by (simp add: tls_class_bytes_def tls_constants adr_def algebra_simps)

section \<open>Draining\<close>

lemma send_home_frame:
  "pr_cache (send_home k l o' p P) = pr_cache P" "pr_tls (send_home k l o' p P) = pr_tls P"
  by (simp_all add: send_home_def on_runs_def split: prod.split)

lemma sub_drain:
  fixes c :: u64 and t :: nat
  assumes "sub_holds k sys D P L" "i < 256"
  defines "P' \<equiv> tls_drain_class k t handle_default (adr i) c P"
  shows "sub_holds k sys D P' L \<and> calm k sys L P P' \<and> tc_count (pr_cache P' t i) = min (tc_count (pr_cache P t i)) c"
  using assms(1) unfolding P'_def
proof (induction "unat (tc_count (pr_cache P t i))" arbitrary: P rule: less_induct)
  case less
  note eq = tls_drain_class.simps[of k t handle_default "adr i" c P]
  show ?case
  proof (cases "c < tc_count (pr_cache P t i)")
    case False
    then show ?thesis using less.prems assms(2) by (simp add: eq min_absorb1)
  next
    case more: True
    from less.prems assms(2) show ?thesis
    proof (cases rule: sub_pop_any[where t = t])
      case none
      then show ?thesis using more by simp
    next
      case (node s x P1)
      let ?P2 = "send_home k (local_runs_or_null k t handle_default P1) (runs_of k s) (adr x) P1"
      have eq': "tls_drain_class k t handle_default (adr i) c P = tls_drain_class k t handle_default (adr i) c ?P2"
        using more assms(2) node(1,2,5) by (simp add: eq)
      have h2: "sub_holds k sys D ?P2 L" "calm k sys L P1 ?P2"
        using sub_send_home[OF node(4), where x = x and s = s] node(3) by auto
      have cnt: "tc_count (pr_cache ?P2 t i) = tc_count (pr_cache P t i) - 1" using node(8) by simp
      have "unat (tc_count (pr_cache ?P2 t i)) < unat (tc_count (pr_cache P t i))"
        using cnt unat_pred[of 0 "tc_count (pr_cache P t i)"] node(7) by simp
      note IH = less.hyps[OF this h2(1)]
      have "min (tc_count (pr_cache ?P2 t i)) c = min (tc_count (pr_cache P t i)) c"
      proof -
        have "c \<le> tc_count (pr_cache P t i) - 1"
          using more node(7) by (simp add: word_le_nat_alt word_less_nat_alt unat_minus_one word_neq_0_conv)
        then show ?thesis using more cnt by (simp add: min_absorb2)
      qed
      then show ?thesis using IH calm_trans[OF calm_trans[OF node(6) h2(2)]] by (simp add: eq')
    qed
  qed
qed

lemma sub_drain_all:
  assumes "sub_holds k sys D P L"
  shows "sub_holds k sys D (tls_drain_all k t handle_default P) L \<and> calm k sys L P (tls_drain_all k t handle_default P)"
proof -
  have "sub_holds k sys D (foldl (\<lambda>P i. tls_drain_class k t handle_default (adr i) 0 P) P is) L \<and>
      calm k sys L P (foldl (\<lambda>P i. tls_drain_class k t handle_default (adr i) 0 P) P is)"
    if "set is \<subseteq> {..<256}" for "is"
    using that assms
  proof (induction "is" arbitrary: P)
    case Nil
    then show ?case by simp
  next
    case (Cons i js)
    then have i: "i < 256" by simp
    note d = sub_drain[OF Cons.prems(2) i, where t = t and c = 0]
    have "set js \<subseteq> {..<256}" using Cons.prems(1) by simp
    from Cons.IH[OF this] show ?case using d by (auto intro: calm_trans)
  qed
  from this[of "[0..<256]"] show ?thesis by (simp add: tls_drain_all_def tls_constants atLeast0LessThan)
qed

section \<open>Allocation\<close>

text \<open>An answered request to the part \<open>p\<close> for \<open>n\<close> bytes while \<open>L\<close> is held.\<close>

definition granting ::
    "sub_cfg \<Rightarrow> sys \<Rightarrow> part set \<Rightarrow> part \<Rightarrow> nat \<Rightarrow> block set \<Rightarrow> process \<Rightarrow> ((exn + ptr) \<times> process) option \<Rightarrow> bool" where
  "granting k sys D p n L P res \<longleftrightarrow> (\<exists>ans P'. res = Some (ans, P') \<and> calm k sys L P P' \<and>
     granted (sub_holds k sys D) k p n L ans P')"

lemma grantingE:
  assumes "granting k sys D p n L P res"
  obtains (thrown) e P' where "res = Some (Inl e, P')" "calm k sys L P P'" "sub_holds k sys D P' L"
    | (null) P' where "res = Some (Inr nullptr, P')" "calm k sys L P P'" "sub_holds k sys D P' L"
    | (block) a P' where "res = Some (Inr a, P')" "calm k sys L P P'" "a \<noteq> nullptr" "(p, unat a) \<notin> L"
        "sub_holds k sys D P' (insert (p, unat a) L)" "n \<le> span_of k (mem_of P') (p, unat a)"
proof -
  obtain ans P' where a: "res = Some (ans, P')" "calm k sys L P P'" "granted (sub_holds k sys D) k p n L ans P'"
    using assms by (auto simp: granting_def)
  show thesis
  proof (cases ans)
    case (Inl e)
    then show thesis using a thrown by (simp add: granted_def)
  next
    case (Inr q)
    then show thesis using a null block by (cases "q = nullptr") (simp_all add: granted_def)
  qed
qed

lemma granting_thrown: "sub_holds k sys D P' L \<Longrightarrow> calm k sys L P P' \<Longrightarrow> granting k sys D p n L P (Some (Inl e, P'))"
  by (simp add: granting_def granted_def)

lemma granting_null: "sub_holds k sys D P' L \<Longrightarrow> calm k sys L P P' \<Longrightarrow> granting k sys D p n L P (Some (Inr nullptr, P'))"
  by (simp add: granting_def granted_def)

lemma granting_block:
  "sub_holds k sys D P' (insert (p, unat a) L) \<Longrightarrow> (p, unat a) \<notin> L \<Longrightarrow> n \<le> span_of k (mem_of P') (p, unat a) \<Longrightarrow>
   calm k sys L P P' \<Longrightarrow> granting k sys D p n L P (Some (Inr a, P'))"
  using sub_holds_mono[of k sys D P' "insert (p, unat a) L" L]
  by (auto simp: granting_def granted_def)

lemma granting_later: "calm k sys L P P' \<Longrightarrow> granting k sys D p n L P' res \<Longrightarrow> granting k sys D p n L P res"
  by (auto simp: granting_def intro: calm_trans)

lemma granting_runs:
  assumes "sub_holds k sys D P L" "house D t s P" "sys_steady sys (pr_world P)"
  shows "granting k sys D (Runs s) (unat b) L P
    (andthen (runs_ptr k sys t handle_default) (\<lambda>o'. runs_allocate k sys o' b al) P)"
proof -
  have "Runs s \<in> D" using assms(2) by (simp add: house_def)
  from sub_request[OF assms(1) this assms(3), of b al] show ?thesis
    by (auto simp: granting_def house_runs(3)[OF assms(2,1)])
qed

text \<open>The refill of a class: it may throw, and then the runs it has pushed stay in the cache.\<close>

lemma sub_refill:
  assumes "sub_holds k sys D P L" "house D t s P" "sys_steady sys (pr_world P)" "i < 256"
  shows "\<exists>ans P'. tls_refill k sys t handle_default (adr i) (runs_of k s) n P = Some (ans, P') \<and>
    sub_holds k sys D P' L \<and> calm k sys L P P'"
  using assms(1-3)
proof (induction n arbitrary: P)
  case 0
  then show ?case by simp
next
  case (Suc n)
  let ?one = "runs_allocate k sys (runs_of k s) (tls_class_bytes (adr i)) (alignof (sc_ty k))"
  note r = house_runs(3)[OF Suc.prems(2,1)]
  have g: "granting k sys D (Runs s) (16 * i + 16) L P (?one P)"
    using granting_runs[OF Suc.prems, of "tls_class_bytes (adr i)" "alignof (sc_ty k)"] assms(4)
    by (simp add: r tls_class_bytes unat_adr)
  from g show ?case
  proof (cases rule: grantingE)
    case (thrown e P')
    then show ?thesis by (simp add: r andthen_eq)
  next
    case (null P')
    then show ?thesis by (simp add: r andthen_eq)
  next
    case (block a P1)
    let ?P2 = "tls_push t (adr i) a (runs_of k s) P1"
    have big: "16 * i + 16 \<le> payload_bytes (mem_of P1) (unat a)" using block(6) by simp
    have p: "sub_holds k sys D ?P2 L" "calm k sys L P1 ?P2"
      using sub_push[OF block(5) insertI1 assms(4) big, where t = t] block(4) by simp_all
    have c: "calm k sys L P ?P2" using calm_trans[OF block(2) p(2)] .
    have "tls_refill k sys t handle_default (adr i) (runs_of k s) (Suc n) P = tls_refill k sys t handle_default (adr i) (runs_of k s) n ?P2"
      by (simp add: r andthen_eq(1)[of ?one, OF block(1)] block(3))
    then show ?thesis
      using Suc.IH[OF p(1) house_calm[OF Suc.prems(2) c] calm_steady[OF c Suc.prems(3)]] c by (auto intro: calm_trans)
  qed
qed

lemma sub_fresh:
  assumes h: "sub_holds k sys D P (insert (Runs s, unat a) L)" and t: "house D t s P"
    and a: "(Runs s, unat a) \<notin> L" "n \<le> payload_bytes (mem_of P) (unat a)"
    and steady: "sys_steady sys (pr_world P)" and i: "i < 256"
  shows "granting k sys D (Runs s) n L P (tls_fresh k sys t handle_default (adr i) (runs_of k s) a P)"
proof (cases "dynamic_mode (sc_mode k)")
  case False
  then show ?thesis using granting_block[OF h a(1) _ calm_refl] a(2) by (simp add: tls_fresh_def)
next
  case True
  let ?b = "(Runs s, unat a)"
  obtain ans P' where r: "tls_refill k sys t handle_default (adr i) (runs_of k s) (tls_refill_batch - 1) P = Some (ans, P')"
    "sub_holds k sys D P' (insert ?b L)" "calm k sys (insert ?b L) P P'"
    using sub_refill[OF h t steady i] by blast
  have c: "calm k sys L P P'" using calm_mono[OF r(3)] by blast
  have n: "n \<le> span_of k (mem_of P') ?b" using calm_span[OF r(3) insertI1] a(2) by simp
  show ?thesis
  proof (cases ans)
    case (Inl e)
    then show ?thesis
      using granting_thrown[OF sub_holds_mono[OF r(2) subset_insertI] c] r(1) True by (simp add: tls_fresh_def andthen_def)
  next
    case (Inr u)
    then show ?thesis using granting_block[OF r(2) a(1) n c] r(1) True by (simp add: tls_fresh_def andthen_def)
  qed
qed

lemma sub_from_cache:
  assumes h: "sub_holds k sys D P L" and t: "house D t s P" and steady: "sys_steady sys (pr_world P)"
    and b: "0 < unat bytes" "unat bytes \<le> 4096"
  shows "granting k sys D (Runs s) (unat bytes) L P (allocate_from_tls_run_cache k sys t handle_default bytes P)"
proof -
  define i where "i = (unat bytes - 1) div 16"
  have idx: "tls_class_index_for bytes = adr i" and i: "i < 256" using tls_class_index[OF b] by (simp_all add: i_def)
  have enough: "unat bytes \<le> 16 * i + 16" unfolding i_def by linarith
  define more where "more = andthen (runs_ptr k sys t handle_default)
      (\<lambda>o'. runs_allocate k sys o' (tls_class_bytes (adr i)) (alignof (sc_ty k)))"
  define fresh where "fresh = tls_fresh k sys t handle_default (adr i) (runs_of k s)"
  have fresh: "granting k sys D (Runs s) (unat bytes) L P1
      (andthen more (\<lambda>raw. if raw \<noteq> nullptr then fresh raw else g) P1)"
    if P1: "sub_holds k sys D P1 L" "calm k sys L P P1"
      and g: "\<And>P2. sub_holds k sys D P2 L \<Longrightarrow> calm k sys L P P2 \<Longrightarrow> granting k sys D (Runs s) (unat bytes) L P (g P2)"
      and start: "P1 = P \<or> g = ret nullptr" for P1 g
  proof -
    note st = calm_steady[OF P1(2) steady] and t1 = house_calm[OF t P1(2)]
    have "granting k sys D (Runs s) (16 * i + 16) L P1 (more P1)"
      using granting_runs[OF P1(1) t1 st, of "tls_class_bytes (adr i)" "alignof (sc_ty k)"] i
      by (simp add: more_def tls_class_bytes unat_adr)
    then show ?thesis
    proof (cases rule: grantingE)
      case (thrown e P2)
      then show ?thesis by (simp add: andthen_eq granting_thrown)
    next
      case (null P2)
      then show ?thesis
        using start g[OF null(3) calm_trans[OF P1(2) null(2)]] by (auto simp: andthen_eq granting_null)
    next
      case (block a P2)
      have "granting k sys D (Runs s) (unat bytes) L P2 (fresh a P2)"
        unfolding fresh_def using enough block(6)
        by (intro sub_fresh[OF block(5) house_calm[OF t1 block(2)] block(4) _ calm_steady[OF block(2) st] i]) simp
      from granting_later[OF block(2) this] show ?thesis by (simp add: andthen_eq(1)[of more, OF block(1)] block(3))
    qed
  qed
  have retry: "granting k sys D (Runs s) (unat bytes) L P (andthen more (\<lambda>raw'. if raw' = nullptr then ret nullptr
      else fresh raw') (tls_drain_all k t handle_default P2))"
    if P2: "sub_holds k sys D P2 L" "calm k sys L P P2" for P2
  proof -
    note d = sub_drain_all[OF P2(1), of t]
    have c: "calm k sys L P (tls_drain_all k t handle_default P2)" using calm_trans[OF P2(2)] d by blast
    have "(\<lambda>raw'. if raw' = nullptr then ret nullptr else fresh raw') =
        (\<lambda>raw. if raw \<noteq> nullptr then fresh raw else ret nullptr)" by auto
    then show ?thesis
      using granting_later[OF c fresh[OF _ c, of "ret nullptr"]] d by (simp add: granting_null)
  qed
  from h i show ?thesis
  proof (cases rule: sub_pop_for[where t = t and s = s])
    case none
    have "granting k sys D (Runs s) (unat bytes) L P (andthen more (\<lambda>raw. if raw \<noteq> nullptr
        then fresh raw
        else (\<lambda>P2. andthen more (\<lambda>raw'. if raw' = nullptr then ret nullptr
          else fresh raw') (tls_drain_all k t handle_default P2))) P)"
      by (rule fresh[OF h calm_refl retry]) simp_all
    then show ?thesis
      unfolding allocate_from_tls_run_cache_def Let_def idx more_def[symmetric] fresh_def
      by (simp add: none house_runs(3)[OF t h])
  next
    case (node x P')
    have "unat bytes \<le> span_of k (mem_of P') (Runs s, x)" using node(6) enough by simp
    then have "granting k sys D (Runs s) (unat bytes) L P (Some (Inr (adr x), P'))"
      using node by (intro granting_block) simp_all
    then show ?thesis
      using node(1,2) by (simp add: allocate_from_tls_run_cache_def Let_def idx house_runs(3)[OF t h])
  qed
qed

lemma sub_runs_or_throw:
  assumes "sub_holds k sys D P L" "house D t s P" "sys_steady sys (pr_world P)"
  shows "granting k sys D (Runs s) (unat bytes) L P (runs_or_throw k sys t handle_default bytes P)"
proof -
  let ?one = "runs_allocate k sys (runs_of k s) bytes (alignof (sc_ty k))"
  note r = house_runs(3)[OF assms(2,1)]
  have g: "granting k sys D (Runs s) (unat bytes) L P (?one P)"
    using granting_runs[OF assms, of bytes "alignof (sc_ty k)"] by (simp add: r)
  from g show ?thesis
    by (cases rule: grantingE) (simp_all add: runs_or_throw_def r andthen_eq granting_thrown granting_block)
qed

lemma sub_allocate_many:
  assumes h: "sub_holds k sys D P L" and t: "house D t s P" and steady: "sys_steady sys (pr_world P)" and n: "n \<noteq> 1"
  shows "granting k sys D (Runs s) (unat n * unat (sizeof (sc_ty k))) L P (sub_allocate k sys t handle_default n P)"
proof -
  consider "n = 0" | "n \<noteq> 0" "n > sub_max_size k" | "n \<noteq> 0" "\<not> n > sub_max_size k"
      "checked_mul n (sizeof (sc_ty k)) = None"
    | bytes where "n \<noteq> 0" "\<not> n > sub_max_size k" "checked_mul n (sizeof (sc_ty k)) = Some bytes" by fastforce
  then show ?thesis
  proof cases
    case 1
    then show ?thesis by (simp add: sub_allocate_def granting_null h)
  next
    case 2
    then show ?thesis by (simp add: sub_allocate_def granting_thrown h)
  next
    case 3
    then show ?thesis using n by (simp add: sub_allocate_def allocate_many_def granting_thrown h)
  next
    case (4 bytes)
    note b = checked_mul_SomeD(2)[OF 4(3)]
    have eq: "sub_allocate k sys t handle_default n P = (if can_use_tls_run_cache k handle_default bytes
        then andthen (allocate_from_tls_run_cache k sys t handle_default bytes) (\<lambda>p.
               if p \<noteq> nullptr then ret p else runs_or_throw k sys t handle_default bytes) P
        else runs_or_throw k sys t handle_default bytes P)"
      using 4 n by (simp add: sub_allocate_def allocate_many_def)
    show ?thesis
    proof (cases "can_use_tls_run_cache k handle_default bytes")
      case False
      then show ?thesis using sub_runs_or_throw[OF h t steady, of bytes] b by (simp add: eq)
    next
      case True
      then have "unat bytes \<le> 4096" by (simp add: can_use_tls_run_cache_def tls_constants word_le_nat_alt)
      moreover have "0 < unat bytes" using True 4(1) b by (simp add: can_use_tls_run_cache_def unat_gt_0)
      ultimately have g: "granting k sys D (Runs s) (unat bytes) L P (allocate_from_tls_run_cache k sys t handle_default bytes P)"
        using sub_from_cache[OF h t steady] by blast
      then show ?thesis
      proof (cases rule: grantingE)
        case (thrown e P')
        then show ?thesis using True by (simp add: eq andthen_eq granting_thrown)
      next
        case (null P')
        note later = granting_later[OF null(2) sub_runs_or_throw[OF null(3) house_calm[OF t null(2)]
            calm_steady[OF null(2) steady]], of bytes]
        then show ?thesis using True b null(1) by (simp add: eq andthen_eq)
      next
        case (block a P')
        then show ?thesis using True b by (simp add: eq andthen_eq granting_block)
      qed
    qed
  qed
qed

lemma max_size_pos: "ty_ok (sc_ty k) \<Longrightarrow> \<not> 1 > sub_max_size k"
proof -
  assume "ty_ok (sc_ty k)"
  then have "0 < unat (sizeof (sc_ty k))" by (rule ty_ok_pos)
  moreover have "unat (sizeof (sc_ty k)) \<le> unat size_max" using unat_lt_64[of "sizeof (sc_ty k)"] by (simp add: unat_size_max)
  ultimately have "0 < unat size_max div unat (sizeof (sc_ty k))" by (simp add: div_greater_zero_iff)
  then have "0 < unat (sub_max_size k)" by (simp add: sub_max_size_def unat_div del: unat_size_max)
  then show ?thesis by (simp add: unat_gt_0)
qed

lemma sub_allocate_one:
  assumes h: "sub_holds k sys D P L" and t: "house D t s P" and n: "Nodes s \<in> D" and steady: "sys_steady sys (pr_world P)"
    and ty: "ty_ok (sc_ty k)"
  shows "granting k sys D (Nodes s) (unat (sizeof (sc_ty k))) L P (sub_allocate k sys t handle_default 1 P)"
proof -
  have s: "pr_tls P t = s" "s \<noteq> nullptr" using t by (simp_all add: house_def)
  have "alloc_state k sys t handle_default P = Some (Inr s, P)"
    using sub_holds_thread[OF h] s by (simp add: alloc_state_def handle_default_def thread_state_def)
  then have eq: "sub_allocate k sys t handle_default 1 P =
      andthen (nodes_allocate k sys s) (\<lambda>p. if p = nullptr then throw Bad_alloc else ret p) P"
    using s(2) max_size_pos[OF ty] by (simp add: sub_allocate_def allocate_one_def andthen_eq(1))
  have g: "granting k sys D (Nodes s) (unat (sizeof (sc_ty k))) L P (nodes_allocate k sys s P)"
    using sub_node_request[OF h n steady] by (auto simp: granting_def)
  from g show ?thesis
    by (cases rule: grantingE) (simp_all add: eq andthen_eq granting_thrown granting_block)
qed

section \<open>Deallocation\<close>

lemma sub_free_run:
  assumes "sub_holds k sys D P L" "(Runs s, x) \<in> L"
  shows "sub_holds k sys D (free_run_routed k u handle_default (adr x) P) (L - {(Runs s, x)})"
    and "calm k sys (L - {(Runs s, x)}) P (free_run_routed k u handle_default (adr x) P)"
  using sub_send_home[OF assms, where local = "local_runs_or_null k u handle_default P"] sub_run(5)[OF assms]
  by (simp_all add: free_run_routed_def handle_default_def)

lemma sub_give_back_many:
  assumes h: "sub_holds k sys D P L" and b: "(Runs s, x) \<in> L"
    and n: "1 < n" "unat n * unat (sizeof (sc_ty k)) \<le> payload_bytes (mem_of P) x"
  shows "sub_holds k sys D (sub_deallocate k sys' t handle_default (adr x) n P) (L - {(Runs s, x)})"
    and "calm k sys (L - {(Runs s, x)}) P (sub_deallocate k sys' t handle_default (adr x) n P)"
proof -
  let ?b = "(Runs s, x)"
  note r = sub_run[OF h b]
  have n2: "n \<noteq> 0" "n \<noteq> 1" using n(1) by auto
  obtain bytes where m: "checked_mul n (sizeof (sc_ty k)) = Some bytes" "unat bytes = unat n * unat (sizeof (sc_ty k))"
    using n(2) r(4) by (auto simp: checked_mul_eq unat_times_le)
  have eq: "sub_deallocate k sys' t handle_default (adr x) n P =
      (if can_use_tls_run_cache k handle_default bytes then deallocate_to_tls_run_cache k t handle_default (adr x) bytes P
       else free_run_routed k t handle_default (adr x) P)"
    using r(6) n2 m(1) by (simp add: sub_deallocate_def deallocate_many_def)
  have "sub_holds k sys D (sub_deallocate k sys' t handle_default (adr x) n P) (L - {?b}) \<and>
      calm k sys (L - {?b}) P (sub_deallocate k sys' t handle_default (adr x) n P)"
  proof (cases "can_use_tls_run_cache k handle_default bytes")
    case False
    then show ?thesis using sub_free_run[OF h b, where u = t] by (simp add: eq)
  next
    case True
    then have "unat bytes \<le> 4096" by (simp add: can_use_tls_run_cache_def tls_constants word_le_nat_alt)
    moreover have "0 < unat bytes" using True n2 m(2) by (simp add: can_use_tls_run_cache_def unat_gt_0)
    moreover define j where "j = (unat bytes - 1) div 16"
    ultimately have i: "tls_class_index_for bytes = adr j" "j < 256" using tls_class_index by blast+
    define P1 where "P1 = (if tc_count (pr_cache P t j) \<ge> tls_high_watermark
        then tls_drain_class k t handle_default (adr j) tls_drain_low_watermark P else P)"
    have P1: "sub_holds k sys D P1 L" "calm k sys L P P1" using sub_drain[OF h i(2)] h by (simp_all add: P1_def)
    have same: "payload_bytes (mem_of P1) x = payload_bytes (mem_of P) x" using calm_span[OF P1(2) b] by simp
    have big: "16 * j + 16 \<le> payload_bytes (mem_of P1) x"
    proof -
      obtain q where q: "payload_bytes (mem_of P) x = 16 * q" using r(1) by (auto elim: dvdE)
      have "unat bytes \<le> 16 * q" "0 < unat bytes" using n(2) m(2) q \<open>0 < unat bytes\<close> by simp_all
      then have "j < q" by (simp add: j_def less_mult_imp_div_less)
      then show ?thesis using q same by simp
    qed
    have eq1: "sub_deallocate k sys' t handle_default (adr x) n P = tls_push t (adr j) (adr x) (runs_of k s) P1"
      using True i sub_run(5)[OF P1(1) b] by (simp add: eq deallocate_to_tls_run_cache_def Let_def P1_def[symmetric])
    show ?thesis
      unfolding eq1 using sub_push(1,2)[OF P1(1) b i(2) big, where t = t] calm_mono[OF P1(2) Diff_subset]
      by (auto intro: calm_trans)
  qed
  then show "sub_holds k sys D (sub_deallocate k sys' t handle_default (adr x) n P) (L - {?b})"
    "calm k sys (L - {?b}) P (sub_deallocate k sys' t handle_default (adr x) n P)" by blast+
qed

lemma sub_give_back_one:
  assumes h: "sub_holds k sys D P L" and b: "(Nodes s, x) \<in> L"
  shows "sub_holds k sys D (sub_deallocate k sys t handle_default (adr x) 1 P) (L - {(Nodes s, x)})"
    and "calm k sys (L - {(Nodes s, x)}) P (sub_deallocate k sys t handle_default (adr x) 1 P)"
proof -
  have "adr x \<noteq> nullptr" using sub_range(2,3)[OF h b] by (simp add: adr_eq_0_iff)
  then have "sub_deallocate k sys t handle_default (adr x) 1 P = free_node_routed k sys t handle_default (adr x) P"
    by (simp add: sub_deallocate_def handle_default_def)
  then show "sub_holds k sys D (sub_deallocate k sys t handle_default (adr x) 1 P) (L - {(Nodes s, x)})"
    "calm k sys (L - {(Nodes s, x)}) P (sub_deallocate k sys t handle_default (adr x) 1 P)"
    using sub_free_node[OF h b, of t] by simp_all
qed

end
