(* ===== verification/Thread_Exit.thy ===== *)
theory Thread_Exit
  imports Sub_Cache
begin

text \<open>
  The end of a thread: the destructor of its cache walks every list and sends each run home, also
  the runs of other threads' states that it has collected.
\<close>

section \<open>The walk over one list\<close>

lemma send_all:
  assumes "estates k sys D P B" "slist (mem_of P) p (map snd xs)" "distinct (map snd xs)"
    and "\<forall>b \<in> set xs. b \<in> B \<and> (\<exists>s. fst b = Runs s \<and> mem_of P (node_owner (adr (snd b))) = runs_of k s)"
  shows "\<exists>P'. tls_send_all k local p P = Some P' \<and> estates k sys D P' (B - set xs) \<and>
    calm k sys (B - set xs) P P' \<and> pr_cache P' = pr_cache P"
  using assms
proof (induction xs arbitrary: p P B)
  case Nil
  then show ?case by (simp add: tls_send_all.simps)
next
  case (Cons b ys)
  obtain s x where b: "b = (Runs s, x)" "(Runs s, x) \<in> B" "mem_of P (node_owner (adr x)) = runs_of k s"
    using Cons.prems(4) by (cases b) auto
  let ?P1 = "send_home k local (runs_of k s) (adr x) P" and ?B1 = "B - {(Runs s, x)}"
  note r = run_return[OF Cons.prems(1) b(2), where local = local]
  have p: "p = adr x" "p \<noteq> nullptr" using Cons.prems(2) b(1) by (auto simp: adr_eq_0_iff)
  have "Runs s \<in> D" using estatesD(3)[OF Cons.prems(1) b(2)] by simp
  then have own: "runs_of k s \<noteq> nullptr" using estatesD(7)[OF Cons.prems(1)] by fastforce
  have nb: "(Runs s, x) \<notin> set ys" using Cons.prems(3) b(1) by force
  have u: "undisturbed k ?B1 (mem_of P) (mem_of ?P1)" using r(2) by (simp add: calm_def)
  have w: "mem_of ?P1 (adr (snd d)) = mem_of P (adr (snd d)) \<and>
      mem_of ?P1 (node_owner (adr (snd d))) = mem_of P (node_owner (adr (snd d)))" if d: "d \<in> set ys" for d
  proof -
    obtain s' y where d': "d = (Runs s', y)" "(Runs s', y) \<in> B" using Cons.prems(4) d by (cases d) auto
    have "(Runs s', y) \<in> ?B1" using d d' nb by auto
    from undisturbedD(2)[OF u this, of 0] undisturbedD(2)[OF u this, of 8] show ?thesis
      using run_block(2)[OF Cons.prems(1) d'(2)] d'(1) by (simp add: node_owner_def sizeof_ptr_def adr_plus_numeral)
  qed
  have "slist (mem_of ?P1) (mem_of P p) (map snd ys) = slist (mem_of P) (mem_of P p) (map snd ys)"
    using w by (intro slist_cong) auto
  then have "slist (mem_of ?P1) (mem_of P p) (map snd ys)" using Cons.prems(2) b(1) p(1) by simp
  moreover have "\<forall>d \<in> set ys. d \<in> ?B1 \<and> (\<exists>s. fst d = Runs s \<and> mem_of ?P1 (node_owner (adr (snd d))) = runs_of k s)"
    using Cons.prems(4) w nb by auto
  moreover have "distinct (map snd ys)" using Cons.prems(3) by simp
  ultimately obtain P' where P': "tls_send_all k local (mem_of P p) ?P1 = Some P'"
    "estates k sys D P' (?B1 - set ys)" "calm k sys (?B1 - set ys) ?P1 P'" "pr_cache P' = pr_cache ?P1"
    using Cons.IH[OF r(1)] by blast
  have "tls_send_all k local p P = Some P'"
    unfolding p(1) using P'(1) p b(3) own by (subst tls_send_all.simps) (simp add: Let_def)
  moreover have "?B1 - set ys = B - set (b # ys)" using b(1) by auto
  moreover have "calm k sys (?B1 - set ys) P ?P1" by (rule calm_mono[OF r(2) Diff_subset])
  ultimately show ?case using P'(2-4) calm_trans[of k sys "?B1 - set ys" P ?P1 P'] by simp
qed

lemma class_destroyed:
  assumes e: "estates k sys D P B" and st: "stocked k (mem_of P) B (pr_cache P) C" and i: "i < 256"
  shows "\<exists>P'. tls_destroy_class k t local (adr i) P = Some P' \<and> estates k sys D P' (B - set (C t i)) \<and>
    stocked k (mem_of P') (B - set (C t i)) (pr_cache P') (with_class t i [] C) \<and> calm k sys (B - set (C t i)) P P' \<and>
    pr_cache P' = with_class t i \<lparr>tc_head = nullptr, tc_count = 0\<rparr> (pr_cache P)"
proof -
  let ?e = "\<lparr>tc_head = nullptr, tc_count = 0\<rparr>" and ?B = "B - set (C t i)"
  have ci: "class_ok k (mem_of P) B i (pr_cache P t i) (C t i)" by (rule stockedD(1)[OF st i])
  then have "slist (mem_of P) (tc_head (pr_cache P t i)) (map snd (C t i))" "distinct (map snd (C t i))"
    "\<forall>b \<in> set (C t i). b \<in> B \<and> (\<exists>s. fst b = Runs s \<and> mem_of P (node_owner (adr (snd b))) = runs_of k s)"
    by (simp_all add: class_ok_def)
  from send_all[OF e this, of local] obtain P1 where P1: "tls_send_all k local (tc_head (pr_cache P t i)) P = Some P1"
    "estates k sys D P1 ?B" "calm k sys ?B P P1" "pr_cache P1 = pr_cache P" by blast
  define P' where "P' = set_class t (adr i) ?e P1"
  have eq: "tls_destroy_class k t local (adr i) P = Some P'" using P1(1) i by (simp add: tls_destroy_class_def P'_def)
  have P': "mem_of P' = mem_of P1" "\<And>B. estates k sys D P' B = estates k sys D P1 B" "\<And>A. calm k sys A P P' = calm k sys A P P1"
    "pr_cache P' = with_class t i ?e (pr_cache P)"
    using set_class_cache[OF i, of t ?e P1] P1(4) by (simp_all add: P'_def set_class_def calm_def)
  have e0: "class_ok k (mem_of P) B i ?e []" by (simp add: class_ok_def)
  have no: "(set [] - set (C t i)) \<inter> cached C = {}" by simp
  note s0 = stocked_class[OF st i e0 no]
  have sub: "cached (with_class t i [] C) \<subseteq> ?B" unfolding s0(2) using cached_lent[OF st] by auto
  then have "undisturbed k (cached (with_class t i [] C)) (mem_of P) (mem_of P1)"
    using calm_mono[OF P1(3) sub] by (simp add: calm_def)
  from stocked_kept[OF e s0(1) this sub] show ?thesis using eq P1(2,3) P' by auto
qed

section \<open>All classes\<close>

definition no_cached :: "nat \<Rightarrow> process \<Rightarrow> bool" where
  "no_cached t P \<longleftrightarrow> (\<forall>i < 256. pr_cache P t i = \<lparr>tc_head = nullptr, tc_count = 0\<rparr>)"

definition cleared :: "nat \<Rightarrow> nat set \<Rightarrow> 'a \<Rightarrow> (nat \<Rightarrow> nat \<Rightarrow> 'a) \<Rightarrow> nat \<Rightarrow> nat \<Rightarrow> 'a" where
  "cleared t I e K u j = (if u = t \<and> j \<in> I then e else K u j)"

lemma cleared_with_class [simp]: "cleared t I e (with_class t i e K) = cleared t (insert i I) e K"
  by (auto simp: cleared_def with_class_def fun_eq_iff)

lemma cache_destroyed:
  assumes "estates k sys D P B" "stocked k (mem_of P) B (pr_cache P) C" "set is \<subseteq> {..<256}"
  shows "\<exists>P'. foldl (\<lambda>Q i. Option.bind Q (tls_destroy_class k t local (adr i))) (Some P) is = Some P' \<and>
    estates k sys D P' (B - (\<Union>i \<in> set is. set (C t i))) \<and>
    stocked k (mem_of P') (B - (\<Union>i \<in> set is. set (C t i))) (pr_cache P') (cleared t (set is) [] C) \<and>
    calm k sys (B - (\<Union>i \<in> set is. set (C t i))) P P' \<and>
    pr_cache P' = cleared t (set is) \<lparr>tc_head = nullptr, tc_count = 0\<rparr> (pr_cache P)"
  using assms
proof (induction "is" arbitrary: P B C)
  case Nil
  have "cleared t {} a K = K" for a :: 'a and K by (simp add: cleared_def fun_eq_iff)
  moreover have "cleared t {} a K = K" for a :: "block list" and K by (simp add: cleared_def fun_eq_iff)
  moreover have "cleared t {} a K = K" for a :: tls_class and K by (simp add: cleared_def fun_eq_iff)
  ultimately show ?case using Nil by simp
next
  case (Cons i js)
  have i: "i < 256" "set js \<subseteq> {..<256}" using Cons.prems(3) by simp_all
  obtain P1 where P1: "tls_destroy_class k t local (adr i) P = Some P1" "estates k sys D P1 (B - set (C t i))"
    "stocked k (mem_of P1) (B - set (C t i)) (pr_cache P1) (with_class t i [] C)" "calm k sys (B - set (C t i)) P P1"
    "pr_cache P1 = with_class t i \<lparr>tc_head = nullptr, tc_count = 0\<rparr> (pr_cache P)"
    using class_destroyed[OF Cons.prems(1,2) i(1)] by blast
  have "set (with_class t i [] C t j) = (if j = i then {} else set (C t j))" for j by (simp add: with_class_def)
  then have B: "B - set (C t i) - (\<Union>j \<in> set js. set (with_class t i [] C t j)) = B - (\<Union>j \<in> set (i # js). set (C t j))"
    by (auto split: if_splits)
  have sub: "B - (\<Union>j \<in> set (i # js). set (C t j)) \<subseteq> B - set (C t i)" by auto
  show ?case
    using Cons.IH[OF P1(2,3) i(2)] P1(1,5) calm_trans[OF calm_mono[OF P1(4) sub]] unfolding B
    by (auto simp: cleared_with_class)
qed

lemma thread_exit:
  fixes t :: nat
  assumes "estates k sys D P B" "stocked k (mem_of P) B (pr_cache P) C"
  defines "G \<equiv> \<Union>i \<in> {..<256}. set (C t i)"
  shows "\<exists>P' C'. tls_cache_destroy k t P = Some P' \<and> no_cached t P' \<and> estates k sys D P' (B - G) \<and>
    stocked k (mem_of P') (B - G) (pr_cache P') C' \<and> (\<forall>u. u \<noteq> t \<longrightarrow> C' u = C u \<and> pr_cache P' u = pr_cache P u) \<and>
    calm k sys (B - G) P P'"
proof -
  let ?s = "local_state_or_null k t P"
  let ?local = "if ?s \<noteq> nullptr then runs_of k ?s else nullptr"
  have ivl: "set [0..<256] = {..<256 :: nat}" by auto
  then have "set [0..<256] \<subseteq> {..<256 :: nat}" by simp
  from cache_destroyed[OF assms(1,2) this, of t ?local] obtain P' where P':
    "foldl (\<lambda>Q i. Option.bind Q (tls_destroy_class k t ?local (adr i))) (Some P) [0..<256] = Some P'"
    "estates k sys D P' (B - G)" "stocked k (mem_of P') (B - G) (pr_cache P') (cleared t {..<256} [] C)"
    "calm k sys (B - G) P P'" "pr_cache P' = cleared t {..<256} \<lparr>tc_head = nullptr, tc_count = 0\<rparr> (pr_cache P)"
    unfolding ivl G_def by blast
  have "tls_cache_destroy k t P = Some P'" using P'(1) by (simp add: tls_cache_destroy_def Let_def tls_constants)
  moreover have "no_cached t P'" by (simp add: no_cached_def P'(5) cleared_def)
  moreover have "\<forall>u. u \<noteq> t \<longrightarrow> cleared t {..<256} [] C u = C u \<and> pr_cache P' u = pr_cache P u"
    by (simp add: P'(5) cleared_def fun_eq_iff)
  ultimately show ?thesis using P'(2-4) by blast
qed

lemma sub_exit:
  assumes h: "sub_holds k sys D P L"
  shows "\<exists>P'. tls_cache_destroy k t P = Some P' \<and> no_cached t P' \<and> sub_holds k sys D P' L \<and> calm k sys L P P'"
proof -
  obtain B C where hs: "estates k sys D P B" "stocked k (mem_of P) B (pr_cache P) C" "L \<subseteq> B" "L \<inter> cached C = {}"
    using h by (rule sub_holdsE)
  let ?G = "\<Union>i \<in> {..<256}. set (C t i)"
  obtain P' C' where P': "tls_cache_destroy k t P = Some P'" "no_cached t P'" "estates k sys D P' (B - ?G)"
    "stocked k (mem_of P') (B - ?G) (pr_cache P') C'" "\<forall>u. u \<noteq> t \<longrightarrow> C' u = C u \<and> pr_cache P' u = pr_cache P u"
    "calm k sys (B - ?G) P P'"
    using thread_exit[OF hs(1,2), of t] by blast
  have L: "L \<subseteq> B - ?G" using hs(3,4) by (auto simp: cached_def)
  have "C' t i = []" if i: "i < 256" for i
    using stockedD(1)[OF P'(4) i, of t] P'(2) i by (simp add: class_ok_def no_cached_def)
  then have "cached C' \<subseteq> cached C" using P'(5) unfolding cached_def
    by (intro UN_mono subset_refl) (metis empty_set empty_subsetI lessThan_iff subset_refl)
  then have "L \<inter> cached C' = {}" using hs(4) by blast
  then show ?thesis using P'(1-4) L calm_mono[OF P'(6) L] by (auto simp: sub_holds_def)
qed

text \<open>
  C13. At thread exit the destructor of the cache ends, and leaves every class of the thread empty:
  each run that lay there has gone home, to whichever runner owns it, and nothing else has - every
  other lent block, in the hands of clients or in the caches of other threads, stays lent with its
  size and contents.
\<close>

theorem tls_exit_correct:
  fixes t :: nat
  assumes "estates k sys D P B" "stocked k (mem_of P) B (pr_cache P) C"
  defines "G \<equiv> \<Union>i \<in> {..<256}. set (C t i)"
  shows "\<exists>P' C'. tls_cache_destroy k t P = Some P' \<and> no_cached t P' \<and> estates k sys D P' (B - G) \<and>
    stocked k (mem_of P') (B - G) (pr_cache P') C' \<and> (\<forall>u. u \<noteq> t \<longrightarrow> C' u = C u \<and> pr_cache P' u = pr_cache P u) \<and>
    calm k sys (B - G) P P'"
  unfolding G_def by (rule thread_exit[OF assms(1,2)])

end
