(* ===== verification/Expansion.thy ===== *)
theory Expansion
  imports Thread_Exit
begin

text \<open>
  Expansion in place among all the states of a process: which part claims an address as its own, and
  what \<open>expand\<close> does to a block that is held.
\<close>

text \<open>The parts of every thread that has a state are among \<open>D\<close>.\<close>

definition settled :: "part set \<Rightarrow> process \<Rightarrow> bool" where
  "settled D P \<longleftrightarrow> (\<forall>t. pr_tls P t \<noteq> nullptr \<longrightarrow> Nodes (pr_tls P t) \<in> D \<and> Runs (pr_tls P t) \<in> D)"

lemma settled_calm: "settled D P \<Longrightarrow> calm k sys B P P' \<Longrightarrow> settled D P'"
  by (simp add: settled_def calm_def)

section \<open>Expansion\<close>

text \<open>An address a part claims as its own lies in its memory, and every block it has lent is claimed.\<close>

lemma pool_claims:
  assumes "estates k sys D P B" "Nodes s \<in> D" "pool_owns (node_pool_cfg k) (pr_pools P s) (adr x)" "x < 2 ^ 64"
  shows "x \<in> part_area k P (Nodes s)"
proof -
  obtain fl rl where inv: "pool_inv (node_pool_cfg k) (pr_pools P s) (pr_world P) fl rl"
    using estatesD(4)[OF assms(1,2)] by (auto simp: pool_holds_def)
  have x: "x \<in> set (pool_slots (node_pool_cfg k) (pr_pools P s))"
    using owns_headered_only_slots[OF inv _ _ assms(4)] assms(3) estatesD(1)[OF assms(1)] by (simp add: pool_owns_def)
  have "0 < node_bytes (node_pool_cfg k)" using pool_inv_slots(2)[OF inv x] by simp
  from slot_area[OF inv x this] show ?thesis by simp
qed

lemma pool_claims_own:
  assumes "estates k sys D P B" "(Nodes s, x) \<in> B"
  shows "pool_owns (node_pool_cfg k) (pr_pools P s) (adr x)"
proof -
  note l = lent_node[OF assms]
  obtain fl rl where inv: "pool_inv (node_pool_cfg k) (pr_pools P s) (pr_world P) fl rl"
    and "x \<in> lent (node_pool_cfg k) (pr_pools P s) fl rl" using l(2,3) by (auto simp: pool_holds_def)
  from lent_slot[OF this] owns_slot[OF inv] show ?thesis by (simp add: pool_owns_def)
qed

lemma runner_claims:
  assumes "estates k sys D P B" "(p, x) \<in> B" "Runs s \<in> D"
  shows "owns_run (pr_runs P (runs_of k s)) (adr x) \<longleftrightarrow> p = Runs s"
proof -
  have b: "0 < span_of k (mem_of P) (p, x)" "x < 2 ^ 64" using block_range[OF assms(1,2)] by simp_all
  have a: "x \<in> part_area k P p" using block_area[OF assms(1,2) b(1)] by simp
  show ?thesis
  proof (cases "p = Runs s")
    case True
    then show ?thesis using a by (simp add: runner_area_def)
  next
    case False
    have "p \<in> D" using estatesD(3)[OF assms(1,2)] by simp
    then have "x \<notin> part_area k P (Runs s)" using estatesD(6)[OF assms(1) _ assms(3) False a] by blast
    then show ?thesis using False b(2) by (simp add: runner_area_def)
  qed
qed

lemma expand_held:
  fixes n :: u64
  assumes h: "sub_holds k sys D P L" and b: "(Runs s, x) \<in> L"
  obtains bytes P' where
    "sub_expand_in k (runs_of k s) (adr x) n P = (bytes, P')" "sub_holds k sys D P' L" "calm k sys (L - {(Runs s, x)}) P P'"
    "unat bytes = payload_bytes (mem_of P') x" "payload_bytes (mem_of P) x \<le> payload_bytes (mem_of P') x"
    "\<forall>i < payload_bytes (mem_of P) x. mem_of P' (adr (x + i)) = mem_of P (adr (x + i))"
    "n \<le> bytes \<or> P' = P"
proof -
  obtain B C where hs: "estates k sys D P B" "stocked k (mem_of P) B (pr_cache P) C" "L \<subseteq> B" "L \<inter> cached C = {}"
    "cached C \<subseteq> B" using h by (rule sub_holdsE)
  have bB: "(Runs s, x) \<in> B" using b hs(3) by blast
  obtain bytes st where e: "runner_expand (runs_cfg k) (adr x) n (pr_runs P (runs_of k s), mem_of P) = (bytes, st)"
    "estates k sys D (on_runs (runs_of k s) (\<lambda>_. st) P) B"
    "calm k sys (B - {(Runs s, x)}) P (on_runs (runs_of k s) (\<lambda>_. st) P)"
    "unat bytes = payload_bytes (snd st) x" "payload_bytes (mem_of P) x \<le> payload_bytes (snd st) x"
    "\<And>i. i < payload_bytes (mem_of P) x \<Longrightarrow> snd st (adr (x + i)) = mem_of P (adr (x + i))"
    "n \<le> bytes \<or> on_runs (runs_of k s) (\<lambda>_. st) P = P"
    by (rule run_expand_step[OF hs(1) bB, where n = n]) blast
  define P' where "P' = on_runs (runs_of k s) (\<lambda>_. st) P"
  have m: "mem_of P' = snd st" "pr_cache P' = pr_cache P" by (simp_all add: P'_def on_runs_def split: prod.split)
  have c: "cached C \<subseteq> B - {(Runs s, x)}" using hs(4,5) b by blast
  show thesis
  proof (rule that[of bytes P'])
    show "sub_expand_in k (runs_of k s) (adr x) n P = (bytes, P')" by (simp add: sub_expand_in_def e(1) P'_def)
    show "sub_holds k sys D P' L"
      by (rule sub_holds_step[OF hs(1,2) e(2,3)[folded P'_def] c hs(5,3,4) m(2)])
    show "calm k sys (L - {(Runs s, x)}) P P'"
      by (rule calm_mono[OF e(3)[folded P'_def] Diff_mono[OF hs(3) subset_refl]])
  qed (use e(4-7) m(1) in \<open>simp_all add: P'_def\<close>)
qed

lemma sub_expand_step:
  fixes n :: u64 and t :: nat
  assumes h: "sub_holds k sys D P L" and st: "settled D P" and b: "(p, x) \<in> L"
  shows "\<exists>bytes P'. sub_expand k t handle_default (adr x) n P = (bytes, P') \<and> sub_holds k sys D P' L \<and>
    calm k sys (L - {(p, x)}) P P' \<and>
    (if pr_tls P t \<noteq> nullptr \<and> p = Runs (pr_tls P t)
     then unat bytes = payload_bytes (mem_of P') x \<and> payload_bytes (mem_of P) x \<le> payload_bytes (mem_of P') x \<and>
       (\<forall>i < payload_bytes (mem_of P) x. mem_of P' (adr (x + i)) = mem_of P (adr (x + i))) \<and> (n \<le> bytes \<or> P' = P)
     else P' = P \<and> bytes = (if pr_tls P t \<noteq> nullptr \<and> p = Nodes (pr_tls P t) then sizeof (sc_ty k) else 0))"
proof -
  let ?s = "pr_tls P t"
  obtain B where e: "estates k sys D P B" "L \<subseteq> B" using h by (rule sub_holdsE)
  then have bB: "(p, x) \<in> B" using b by blast
  note r = block_range[OF e(1) bB]
  have nn: "adr x \<noteq> nullptr" "x < 2 ^ 64" using r by (simp_all add: adr_eq_0_iff)
  have th: "local_state_or_null k t P = ?s" using estatesD(1)[OF e(1)] by (simp add: local_state_or_null_def)
  show ?thesis
  proof (cases "?s = nullptr")
    case True
    then show ?thesis using nn(1) th h
      by (intro exI[of _ 0] exI[of _ P]) (simp add: sub_expand_def handle_default_def)
  next
    case False
    have D: "Nodes ?s \<in> D" "Runs ?s \<in> D" using st False by (simp_all add: settled_def)
    have own: "pool_owns (node_pool_cfg k) (pr_pools P ?s) (adr x) \<longleftrightarrow> p = Nodes ?s"
    proof
      assume "pool_owns (node_pool_cfg k) (pr_pools P ?s) (adr x)"
      from pool_claims[OF e(1) D(1) this nn(2)] show "p = Nodes ?s"
        using estatesD(6)[OF e(1) _ D(1), of p x] block_area[OF e(1) bB, of 0] r(1) estatesD(3)[OF e(1) bB] by auto
    qed (use pool_claims_own[OF e(1)] bB in blast)
    have eq: "sub_expand k t handle_default (adr x) n P =
        (if p = Nodes ?s then (sizeof (sc_ty k), P)
         else if owner_of (adr x) (mem_of P) = runs_of k ?s \<and> p = Runs ?s then sub_expand_in k (runs_of k ?s) (adr x) n P
         else (0, P))"
      using nn(1) th False own runner_claims[OF e(1) bB D(2)]
      by (simp add: sub_expand_def handle_default_def Let_def sub_expand_in_def)
    show ?thesis
    proof (cases "p = Runs ?s")
      case True
      have "owner_of (adr x) (mem_of P) = runs_of k ?s" using run_block(5)[OF e(1)] bB True by simp
      moreover obtain bytes P' where
        "sub_expand_in k (runs_of k ?s) (adr x) n P = (bytes, P')" "sub_holds k sys D P' L" "calm k sys (L - {(Runs ?s, x)}) P P'"
        "unat bytes = payload_bytes (mem_of P') x" "payload_bytes (mem_of P) x \<le> payload_bytes (mem_of P') x"
        "\<forall>i < payload_bytes (mem_of P) x. mem_of P' (adr (x + i)) = mem_of P (adr (x + i))"
        "n \<le> bytes \<or> P' = P"
        by (rule expand_held[OF h b[unfolded True], where n = n]) blast
      ultimately show ?thesis using True False by (simp add: eq)
    next
      case no: False
      then show ?thesis using h False by (simp add: eq)
    qed
  qed
qed

end
