(* ===== verification/Bound_State.thy ===== *)
theory Bound_State
  imports Sub_Construct Expansion
begin

text \<open>
  States that the client creates for itself: an object in dynamic storage, and the handles bound to
  it.  Such a handle never touches the thread-local cache: single elements come from the pool of the
  state, runs from its runner, and a rebound handle, for another element type, draws on the runner alone.
\<close>

section \<open>Creating a state\<close>

text \<open>\<open>new allocazam_std_state\<close>: the memory of the object goes back when its constructor throws.\<close>

definition bound_state_new :: "sub_cfg \<Rightarrow> sys \<Rightarrow> ptr \<Rightarrow> u64 \<Rightarrow> u64 \<Rightarrow> world \<Rightarrow> ((exn + std_state) \<times> world) option" where
  "bound_state_new k sys self pool_size runner_bytes w =
     (if dynamic_mode (sc_mode k) then dynamic_state_new k sys self pool_size runner_bytes w
      else fixed_state_new k sys self pool_size w)"

definition create_state :: "sub_cfg \<Rightarrow> sys \<Rightarrow> u64 \<Rightarrow> u64 \<Rightarrow> ptr act" where
  "create_state k sys pool_size runner_bytes P =
     (case op_new sys (sc_state_bytes k) (cache_line_size sys) (pr_world P) of
        (fresh, w) \<Rightarrow>
          if fresh = nullptr then throw Bad_alloc (P\<lparr>pr_world := w\<rparr>)
          else case bound_state_new k sys fresh pool_size runner_bytes w of
            None \<Rightarrow> None
          | Some (Inl e, w') \<Rightarrow> throw e (P\<lparr>pr_world := op_delete fresh (cache_line_size sys) w'\<rparr>)
          | Some (Inr st, w') \<Rightarrow>
              ret fresh (P\<lparr>pr_world := w', pr_pools := (pr_pools P)(fresh := ss_pool st),
                pr_runs := (pr_runs P)(runs_of k fresh := ss_runs st), pr_next := (pr_next P)(fresh := nullptr)\<rparr>))"

lemma bound_state_new_eq: "\<exists>b. bound_state_new k sys self n bytes w = state_new k sys self n b w"
  by (auto simp: bound_state_new_def dynamic_state_new_def fixed_state_new_def)

lemma create_state_step:
  assumes e: "estates k sys D P B" and f: "founded_on k sys" and steady: "sys_steady sys (pr_world P)"
  shows "\<exists>ans P'. create_state k sys n bytes P = Some (ans, P') \<and> calm k sys B P P' \<and> pr_cache P' = pr_cache P \<and>
    (case ans of
       Inl _ \<Rightarrow> estates k sys D P' B
     | Inr s \<Rightarrow> s \<noteq> nullptr \<and> Nodes s \<notin> D \<and> Runs s \<notin> D \<and>
         estates k sys (insert (Nodes s) (insert (Runs s) D)) P' B)"
proof -
  obtain fresh w1 where nw: "op_new sys (sc_state_bytes k) (cache_line_size sys) (pr_world P) = (fresh, w1)" by fastforce
  have l1: "later sys (pr_world P) w1" using op_new_later[OF nw] .
  have wok: "world_ok (pr_world P)" by (rule estatesD(2)[OF e])
  have calmI: "calm k sys B P P'"
    if "undisturbed k B (mem_of P) (mem_of P')" "later sys (pr_world P) (pr_world P')" "pr_tls P' = pr_tls P" for P'
    using that by (simp add: calm_def)
  have plain: "estates k sys D (P\<lparr>pr_world := w'\<rparr>) B \<and> calm k sys B P (P\<lparr>pr_world := w'\<rparr>)"
    if kept: "live_kept (pr_world P) w'" "world_ok w'" and l: "later sys (pr_world P) w'" for w'
    using estates_live[OF e, of "P\<lparr>pr_world := w'\<rparr>"] kept l calmI by (simp add: part_of_world)
  show ?thesis
  proof (cases "fresh = nullptr")
    case True
    then have lc: "live w1 = live (pr_world P)" "cells w1 = mem_of P" using nw by (auto simp: op_new_def Let_def split: if_splits)
    then show ?thesis using plain[OF live_kept_same _ l1] wok nw True by (simp add: create_state_def world_ok_def)
  next
    case False
    note o = op_new_found[OF nw False f sys_steady_honest[OF steady] wok]
    have cfg: "layout_ok (sc_ty k)" "heap_backed_mode (sc_mode k)"
      "has_single_bit (detect_page_size (sys_sysconf sys))" "16 \<le> unat (detect_page_size (sys_sysconf sys))"
      using f estatesD(1)[OF e] by (simp_all add: founded_on_def has_thread_state_def)
    obtain b where b: "bound_state_new k sys fresh n bytes w1 = state_new k sys fresh n b w1" using bound_state_new_eq by blast
    obtain res w2 where st: "state_new k sys fresh n b w1 = Some (res, w2)" "later sys w1 w2" "live_kept w1 w2" "world_ok w2"
      "case res of
       Inl e \<Rightarrow> live w2 = live w1
     | Inr st \<Rightarrow> \<exists>fl b' s. pool_inv (node_pool_cfg k) (ss_pool st) w2 fl [] \<and> length fl = unat n \<and>
         set fl = set (pool_slots (node_pool_cfg k) (ss_pool st)) \<and>
         p_self (ss_pool st) = fresh \<and> p_page_size (ss_pool st) = detect_page_size (sys_sysconf sys) \<and>
         runner_inv (runs_cfg k) (ss_runs st) w2 [(b', [(s, True)])] [] \<and> unat b \<le> s + 16 \<and>
         rn_self (ss_runs st) = runs_of k fresh \<and>
         pool_area (node_pool_cfg k) (ss_pool st) \<inter> runner_area (ss_runs st) = {} \<and>
         (\<forall>a < 2 ^ 64. live_at w1 a \<longrightarrow> a \<notin> pool_area (node_pool_cfg k) (ss_pool st) \<union> runner_area (ss_runs st))"
      using state_new_step[OF cfg o(1) sys_steady_later[OF steady l1], of fresh n b] by blast
    have l2: "later sys (pr_world P) w2" by (rule later_trans[OF st(2) l1])
    have up: "live_at w1 a" if "live_at (pr_world P) a" for a
      by (rule live_at_mono[OF _ that]) (simp add: o(2) subset_insertI)
    have kept: "live_kept (pr_world P) w2"
      using st(3) o(2,3) up by (auto simp: live_kept_def)
    show ?thesis
    proof (cases res)
      case (Inl ex)
      let ?w = "op_delete fresh (cache_line_size sys) w2"
      have "live ?w = live (pr_world P)" using st(5) Inl by (simp add: op_delete_def o(2))
      then have "live_kept (pr_world P) ?w" "world_ok ?w" using kept wok by (simp_all add: live_kept_def op_delete_def world_ok_def)
      from plain[OF this later.returned[OF l2]] show ?thesis
        using nw False b st(1) Inl by (simp add: create_state_def)
    next
      case (Inr s)
      define P' where "P' = P\<lparr>pr_world := w2, pr_pools := (pr_pools P)(fresh := ss_pool s),
                pr_runs := (pr_runs P)(runs_of k fresh := ss_runs s), pr_next := (pr_next P)(fresh := nullptr)\<rparr>"
      have eq: "create_state k sys n bytes P = Some (Inr fresh, P')"
        using nw False b st(1) Inr by (simp add: create_state_def P'_def)
      obtain fl b' z where s: "pool_inv (node_pool_cfg k) (ss_pool s) w2 fl []"
        "set fl = set (pool_slots (node_pool_cfg k) (ss_pool s))"
        "p_self (ss_pool s) = fresh" "p_page_size (ss_pool s) = detect_page_size (sys_sysconf sys)"
        "runner_inv (runs_cfg k) (ss_runs s) w2 [(b', [(z, True)])] []" "rn_self (ss_runs s) = runs_of k fresh"
        "pool_area (node_pool_cfg k) (ss_pool s) \<inter> runner_area (ss_runs s) = {}"
        "\<And>a. a < 2 ^ 64 \<Longrightarrow> live_at w1 a \<Longrightarrow> a \<notin> pool_area (node_pool_cfg k) (ss_pool s) \<union> runner_area (ss_runs s)"
        using st(5) Inr by auto
      have ph: "pool_holds (node_pool_cfg k) (ss_pool s, w2) {}"
        unfolding pool_holds_def using s(1,2) by (intro exI[of _ fl] exI[of _ "[]"]) (simp add: lent_def)
      have rh: "runner_holds (runs_cfg k) (ss_runs s, w2) {}"
        unfolding runner_holds_def using s(5)
        by (intro exI[of _ "[(b', [(z, True)])]"] exI[of _ "[]"]) (auto simp: lent_runs_def useds_def payloads_def)
      have home: "part_home q \<noteq> fresh" if "q \<in> D" for q using estatesD(5)[OF e that] o(5) by auto
      have base: "fresh \<in> r_base ` set (live w2)" using st(3) by (force simp: live_kept_def o(2))
      have j: "estates k sys (insert (Nodes fresh) (insert (Runs fresh) D)) P' B" "undisturbed k B (mem_of P) (mem_of P')"
        "Nodes fresh \<notin> D" "Runs fresh \<notin> D"
        by (rule estates_join[OF e, where P' = P' and s = fresh and p = "ss_pool s" and r = "ss_runs s"];
            use kept st(4) home base o(4) ph rh s(3,4,6,7,8) up in \<open>simp add: P'_def\<close>)+
      have "calm k sys B P P'" by (rule calmI[OF j(2)]) (use l2 in \<open>simp_all add: P'_def\<close>)
      then show ?thesis using eq False j by (simp add: P'_def)
    qed
  qed
qed

lemma sub_create:
  assumes h: "sub_holds k sys D P L" and f: "founded_on k sys" and steady: "sys_steady sys (pr_world P)"
  shows "\<exists>ans P'. create_state k sys n bytes P = Some (ans, P') \<and> calm k sys L P P' \<and>
    (case ans of
       Inl _ \<Rightarrow> sub_holds k sys D P' L
     | Inr s \<Rightarrow> s \<noteq> nullptr \<and> Nodes s \<notin> D \<and> Runs s \<notin> D \<and>
         sub_holds k sys (insert (Nodes s) (insert (Runs s) D)) P' L)"
proof -
  obtain B C where hs: "estates k sys D P B" "stocked k (mem_of P) B (pr_cache P) C" "L \<subseteq> B" "L \<inter> cached C = {}"
    "cached C \<subseteq> B" using h by (rule sub_holdsE)
  obtain ans P' where a: "create_state k sys n bytes P = Some (ans, P')" "calm k sys B P P'" "pr_cache P' = pr_cache P"
    "case ans of
       Inl _ \<Rightarrow> estates k sys D P' B
     | Inr s \<Rightarrow> s \<noteq> nullptr \<and> Nodes s \<notin> D \<and> Runs s \<notin> D \<and>
         estates k sys (insert (Nodes s) (insert (Runs s) D)) P' B"
    using create_state_step[OF hs(1) f steady] by blast
  have "sub_holds k sys E P' L" if "estates k sys E P' B" for E
    by (rule sub_holds_step[OF hs(1,2) that a(2) hs(5,5,3,4) a(3)])
  moreover have "calm k sys L P P'" by (rule calm_mono[OF a(2) hs(3)])
  ultimately show ?thesis using a(1,4) by (intro exI[of _ ans] exI[of _ P']) (simp split: sum.splits)
qed

section \<open>The handles of a client\<close>

text \<open>
  A client calls through a default handle, through a handle bound to a state of its own, or through
  one rebound from that to another element type.
\<close>

datatype who = Own | Bound ptr | Rebound ptr ty

primrec handle_of :: "sub_cfg \<Rightarrow> who \<Rightarrow> handle" where
  "handle_of k Own = handle_default"
| "handle_of k (Bound s) = handle_explicit s"
| "handle_of k (Rebound s u) = handle_rebind k (handle_explicit s)"

primrec cfg_of :: "sub_cfg \<Rightarrow> who \<Rightarrow> sub_cfg" where
  "cfg_of k Own = k"
| "cfg_of k (Bound s) = k"
| "cfg_of k (Rebound s u) = k\<lparr>sc_ty := u\<rparr>"

text \<open>The part that serves \<open>n\<close> elements.\<close>

primrec lent_from :: "who \<Rightarrow> u64 \<Rightarrow> part \<Rightarrow> bool" where
  "lent_from Own n p = (case p of Nodes _ \<Rightarrow> n = 1 | Runs _ \<Rightarrow> n \<noteq> 1)"
| "lent_from (Bound s) n p = (p = (if n = 1 then Nodes s else Runs s))"
| "lent_from (Rebound s u) n p = (p = Runs s)"

text \<open>A state that a handle is bound to is among the parts.\<close>

definition at_home :: "part set \<Rightarrow> who \<Rightarrow> bool" where
  "at_home D w = (case w of
     Own \<Rightarrow> True
   | Bound s \<Rightarrow> s \<noteq> nullptr \<and> Nodes s \<in> D \<and> Runs s \<in> D
   | Rebound s u \<Rightarrow> s \<noteq> nullptr \<and> Nodes s \<in> D \<and> Runs s \<in> D \<and> ty_ok u)"

lemma rebound_cfg [simp]:
  "runs_cfg (k\<lparr>sc_ty := u\<rparr>) = runs_cfg k" "runs_of (k\<lparr>sc_ty := u\<rparr>) s = runs_of k s"
  "runs_allocate (k\<lparr>sc_ty := u\<rparr>) sys o' b al = runs_allocate k sys o' b al"
  "sub_expand_in (k\<lparr>sc_ty := u\<rparr>) o' p n = sub_expand_in k o' p n"
  by (auto simp: runs_cfg_def runs_of_def runs_allocate_def sub_expand_in_def)

lemma bound_handle [simp]:
  "ah_mode (handle_explicit s) = Explicit_state" "ah_state (handle_explicit s) = s"
  "s \<noteq> nullptr \<Longrightarrow> confined_runs k (handle_explicit s) = runs_of k s"
  "ah_mode (handle_rebind k (handle_explicit s)) = Runs_override" "ah_state (handle_rebind k (handle_explicit s)) = nullptr"
  "s \<noteq> nullptr \<Longrightarrow> confined_runs k' (handle_rebind k (handle_explicit s)) = runs_of k s"
  by (simp_all add: handle_explicit_def handle_rebind_def confined_runs_def)

lemma runs_ptr_bound: "ah_mode h \<noteq> Default_state \<Longrightarrow> runs_ptr k sys t h = ret (confined_runs k h)"
  by (simp add: runs_ptr_def confined_runs_def)

lemma cache_bound: "ah_mode h \<noteq> Default_state \<Longrightarrow> \<not> can_use_tls_run_cache k h b"
  by (simp add: can_use_tls_run_cache_def)

section \<open>Allocation through a bound handle\<close>

lemma bound_runs_or_throw:
  assumes h: "sub_holds k sys D P L" "Runs s \<in> D" "sys_steady sys (pr_world P)"
    and k': "\<And>b al. runs_allocate k' sys (runs_of k s) b al P = runs_allocate k sys (runs_of k s) b al P"
    and q: "ah_mode q \<noteq> Default_state" "confined_runs k' q = runs_of k s"
  shows "granting k sys D (Runs s) (unat bytes) L P (runs_or_throw k' sys t q bytes P)"
proof -
  have g: "granting k sys D (Runs s) (unat bytes) L P (runs_allocate k' sys (runs_of k s) bytes al P)" for al
    using sub_request[OF h, of bytes al] k' by (auto simp: granting_def)
  from g[of "alignof (sc_ty k')"] show ?thesis
    by (cases rule: grantingE)
      (simp_all add: runs_or_throw_def runs_ptr_bound[OF q(1)] q(2) andthen_eq granting_thrown granting_block)
qed

lemma bound_allocate:
  assumes h: "sub_holds k sys D P L" "sys_steady sys (pr_world P)" and w: "at_home D w" "w \<noteq> Own"
    and ty: "ty_ok (sc_ty k)"
  obtains p where "lent_from w n p"
    "granting k sys D p (unat n * unat (sizeof (sc_ty (cfg_of k w)))) L P (sub_allocate (cfg_of k w) sys t (handle_of k w) n P)"
proof -
  let ?k = "cfg_of k w" and ?h = "handle_of k w"
  obtain s where s: "s \<noteq> nullptr" "Nodes s \<in> D" "Runs s \<in> D" "w = Bound s \<or> (\<exists>u. w = Rebound s u \<and> ty_ok u)"
    using w by (cases w) (auto simp: at_home_def)
  have tk: "ty_ok (sc_ty ?k)" using s(4) ty by auto
  have hd: "ah_mode ?h \<noteq> Default_state" "confined_runs ?k ?h = runs_of k s" using s(1,4) by auto
  have r: "granting k sys D (Runs s) (unat b) L P (runs_or_throw ?k sys t ?h b P)" for b
    by (rule bound_runs_or_throw[OF h(1) s(3) h(2) _ hd]) (use s(4) in auto)
  show thesis
  proof (cases "n = 1 \<and> w = Bound s")
    case True
    have g: "granting k sys D (Nodes s) (unat (sizeof (sc_ty k))) L P (nodes_allocate k sys s P)"
      using sub_node_request[OF h(1) s(2) h(2)] by (auto simp: granting_def)
    have eq: "sub_allocate ?k sys t ?h 1 P =
        andthen (nodes_allocate k sys s) (\<lambda>p. if p = nullptr then throw Bad_alloc else ret p) P"
      using True s(1) max_size_pos[OF ty] by (simp add: sub_allocate_def allocate_one_def alloc_state_def)
    from g have "granting k sys D (Nodes s) (unat (sizeof (sc_ty k))) L P (sub_allocate ?k sys t ?h 1 P)"
      by (cases rule: grantingE) (simp_all add: eq andthen_eq granting_thrown granting_block)
    then show thesis using True by (intro that[of "Nodes s"]) auto
  next
    case many: False
    have lf: "lent_from w n (Runs s)" using many s(4) by auto
    consider "n = 0" | "n \<noteq> 0" "n > sub_max_size ?k" | "n = 1" "w \<noteq> Bound s"
      | "n \<noteq> 0" "\<not> n > sub_max_size ?k" "n \<noteq> 1" "checked_mul n (sizeof (sc_ty ?k)) = None"
      | b where "n \<noteq> 0" "\<not> n > sub_max_size ?k" "n \<noteq> 1" "checked_mul n (sizeof (sc_ty ?k)) = Some b"
      using many by fastforce
    then have "granting k sys D (Runs s) (unat n * unat (sizeof (sc_ty ?k))) L P (sub_allocate ?k sys t ?h n P)"
    proof cases
      case 1
      then show ?thesis by (simp add: sub_allocate_def granting_null h)
    next
      case 2
      then show ?thesis by (simp add: sub_allocate_def granting_thrown h)
    next
      case 3
      then obtain u where u: "w = Rebound s u" using s(4) by blast
      have "sub_allocate ?k sys t ?h n P = runs_or_throw ?k sys t ?h (sizeof (sc_ty ?k)) P"
        using 3(1) max_size_pos[OF tk] by (simp add: sub_allocate_def allocate_one_def alloc_state_def u)
      then show ?thesis using r[of "sizeof (sc_ty ?k)"] 3(1) by simp
    next
      case 4
      then show ?thesis by (simp add: sub_allocate_def allocate_many_def granting_thrown h)
    next
      case (5 b)
      have "sub_allocate ?k sys t ?h n P = runs_or_throw ?k sys t ?h b P"
        using 5 cache_bound[OF hd(1)] by (simp add: sub_allocate_def allocate_many_def)
      then show ?thesis using r[of b] checked_mul_SomeD(2)[OF 5(4)] by simp
    qed
    then show thesis by (rule that[OF lf])
  qed
qed

section \<open>Deallocation and expansion through a bound handle\<close>

lemma bound_deallocate:
  assumes h: "sub_holds k sys D P L" and b: "(p, x) \<in> L" and w: "at_home D w" "w \<noteq> Own" "lent_from w n p" "n \<noteq> 0"
  shows "sub_holds k sys D (sub_deallocate (cfg_of k w) sys t (handle_of k w) (adr x) n P) (L - {(p, x)})"
    and "calm k sys (L - {(p, x)}) P (sub_deallocate (cfg_of k w) sys t (handle_of k w) (adr x) n P)"
proof -
  let ?P = "sub_deallocate (cfg_of k w) sys t (handle_of k w) (adr x) n P"
  have x: "adr x \<noteq> nullptr" using sub_range(2,3)[OF h b] by (simp add: adr_eq_0_iff)
  obtain s where s: "s \<noteq> nullptr" "w = Bound s \<or> (\<exists>u. w = Rebound s u)" using w(1,2) by (cases w) (auto simp: at_home_def)
  have hd: "ah_mode (handle_of k w) \<noteq> Default_state" "confined_runs (cfg_of k w) (handle_of k w) = runs_of k s"
    "runs_cfg (cfg_of k w) = runs_cfg k" using s by auto
  have "sub_holds k sys D ?P (L - {(p, x)}) \<and> calm k sys (L - {(p, x)}) P ?P"
  proof (cases "p = Nodes s")
    case True
    then have bound: "w = Bound s" "n = 1" using w(3) s(2) by (auto split: if_splits)
    then have eq: "?P = on_pool s (pool_deallocate (adr x)) P"
      using x s(1) by (simp add: sub_deallocate_def free_node_routed_def)
    show ?thesis unfolding eq True
      using sub_returned[OF h b[unfolded True], where P' = "on_pool s (pool_deallocate (adr x)) P"] node_home_step by auto
  next
    case False
    then have p: "p = Runs s" "w = Bound s \<longrightarrow> n \<noteq> 1" using w(3) s(2) by (auto split: if_splits)
    have route: "free_run_routed (cfg_of k w) t (handle_of k w) (adr x) P = send_home k (runs_of k s) (runs_of k s) (adr x) P"
      using hd by (simp add: free_run_routed_def send_home_def)
    have "?P = free_run_routed (cfg_of k w) t (handle_of k w) (adr x) P"
      using x w(4) p(2) s hd(1) cache_bound[OF hd(1)]
      by (auto simp: sub_deallocate_def deallocate_many_def split: option.splits)
    then have "?P = send_home k (runs_of k s) (runs_of k s) (adr x) P" using route by simp
    then show ?thesis using sub_send_home[OF h b[unfolded p(1)], where local = "runs_of k s"] p(1) by simp
  qed
  then show "sub_holds k sys D ?P (L - {(p, x)})" "calm k sys (L - {(p, x)}) P ?P" by blast+
qed

text \<open>What expansion does to a block, through any handle that owns it.\<close>

definition resized :: "part \<Rightarrow> nat \<Rightarrow> process \<Rightarrow> u64 \<Rightarrow> process \<Rightarrow> bool" where
  "resized p x P bytes P' \<longleftrightarrow> P' = P \<and> ((\<exists>s. p = Runs s) \<longrightarrow> bytes = 0) \<or>
     (\<exists>s. p = Runs s) \<and> unat bytes = payload_bytes (mem_of P') x \<and> payload_bytes (mem_of P) x \<le> payload_bytes (mem_of P') x \<and>
     (\<forall>i < payload_bytes (mem_of P) x. mem_of P' (adr (x + i)) = mem_of P (adr (x + i)))"

lemma held_claim:
  assumes h: "sub_holds k sys D P L" and b: "(p, x) \<in> L" and s: "Nodes s \<in> D"
  shows "pool_owns (node_pool_cfg k) (pr_pools P s) (adr x) \<longleftrightarrow> p = Nodes s"
proof -
  obtain B where e: "estates k sys D P B" "L \<subseteq> B" using h by (rule sub_holdsE)
  then have bB: "(p, x) \<in> B" using b by blast
  note r = block_range[OF e(1) bB]
  then have x: "x < 2 ^ 64" by simp
  show ?thesis
  proof
    assume "pool_owns (node_pool_cfg k) (pr_pools P s) (adr x)"
    from pool_claims[OF e(1) s this x] show "p = Nodes s"
      using estatesD(6)[OF e(1) _ s, of p x] block_area[OF e(1) bB, of 0] r(1) estatesD(3)[OF e(1) bB] by auto
  qed (use pool_claims_own[OF e(1)] bB in blast)
qed

lemma any_expand:
  fixes n :: u64 and t :: nat
  assumes h: "sub_holds k sys D P L" and st: "settled D P" and b: "(p, x) \<in> L"
    and w: "at_home D w" "lent_from w c p"
  obtains bytes P' where "sub_expand (cfg_of k w) t (handle_of k w) (adr x) n P = (bytes, P')" "sub_holds k sys D P' L"
    "calm k sys (L - {(p, x)}) P P'" "resized p x P bytes P'"
proof -
  note res = that
  have nn: "adr x \<noteq> nullptr" using sub_range(2,3)[OF h b] by (simp add: adr_eq_0_iff)
  have in_runner: thesis
    if r: "p = Runs s" and eq: "sub_expand (cfg_of k w) t (handle_of k w) (adr x) n P = sub_expand_in k (runs_of k s) (adr x) n P" for s
  proof -
    obtain bytes P' where
      "sub_expand_in k (runs_of k s) (adr x) n P = (bytes, P')" "sub_holds k sys D P' L" "calm k sys (L - {(Runs s, x)}) P P'"
      "unat bytes = payload_bytes (mem_of P') x" "payload_bytes (mem_of P) x \<le> payload_bytes (mem_of P') x"
      "\<forall>i < payload_bytes (mem_of P) x. mem_of P' (adr (x + i)) = mem_of P (adr (x + i))"
      by (rule expand_held[OF h b[unfolded r], where n = n]) blast
    then show thesis using eq r by (intro res[of bytes P']) (simp_all add: resized_def)
  qed
  show thesis
  proof (cases w)
    case Own
    obtain bytes P' where e: "sub_expand k t handle_default (adr x) n P = (bytes, P')" "sub_holds k sys D P' L"
      "calm k sys (L - {(p, x)}) P P'"
      "if pr_tls P t \<noteq> nullptr \<and> p = Runs (pr_tls P t)
       then unat bytes = payload_bytes (mem_of P') x \<and> payload_bytes (mem_of P) x \<le> payload_bytes (mem_of P') x \<and>
         (\<forall>i < payload_bytes (mem_of P) x. mem_of P' (adr (x + i)) = mem_of P (adr (x + i))) \<and> (n \<le> bytes \<or> P' = P)
       else P' = P \<and> bytes = (if pr_tls P t \<noteq> nullptr \<and> p = Nodes (pr_tls P t) then sizeof (sc_ty k) else 0)"
      using sub_expand_step[OF h st b, of t n] by blast
    then show thesis using Own by (intro res[of bytes P']) (auto simp: resized_def split: if_splits)
  next
    case (Bound s)
    have D: "s \<noteq> nullptr" "Nodes s \<in> D" "Runs s \<in> D" and p: "p = (if c = 1 then Nodes s else Runs s)"
      using w Bound by (simp_all add: at_home_def)
    have own: "pool_owns (node_pool_cfg k) (pr_pools P s) (adr x) \<longleftrightarrow> p = Nodes s" by (rule held_claim[OF h b D(2)])
    show thesis
    proof (cases "p = Nodes s")
      case True
      then have "sub_expand k t (handle_explicit s) (adr x) n P = (sizeof (sc_ty k), P)" using own D(1) nn by (simp add: sub_expand_def)
      then show thesis using True Bound h by (intro res[of "sizeof (sc_ty k)" P]) (simp_all add: resized_def)
    next
      case False
      then have r: "p = Runs s" using p by (simp split: if_splits)
      have "sub_expand k t (handle_explicit s) (adr x) n P = sub_expand_in k (runs_of k s) (adr x) n P"
        using own False D(1) nn by (simp add: sub_expand_def)
      then show thesis by (intro in_runner[OF r]) (simp add: Bound)
    qed
  next
    case (Rebound s u)
    then have D: "s \<noteq> nullptr" and r: "p = Runs s" using w by (simp_all add: at_home_def)
    then show thesis using nn by (intro in_runner[OF r]) (simp add: Rebound sub_expand_def)
  qed
qed

end
