(* ===== verification/Sub_Session.thy ===== *)
theory Sub_Session
  imports Bound_State Block_Source
begin

text \<open>
  The whole process as one source of blocks: any number of threads allocate through default handles,
  one element or several, the first call of a thread creating its state; clients create states of
  their own and allocate through handles bound to them, also rebound ones; any thread gives any block
  back or expands it, through a handle that may; threads exit.  The process is an instance of the interface \<open>block_source\<close>, so that what is
  proved there of all sessions holds of every interleaving of these calls, from a process in which
  nothing has been allocated yet.
\<close>

section \<open>The first call of a thread\<close>

lemma andthen_cong: "f P = f P1 \<Longrightarrow> andthen f g P = andthen f g P1"
  by (simp add: andthen_def)

lemma touch_eqs:
  assumes "has_thread_state k" "thread_state k sys t P = thread_state k sys t P1"
  shows "alloc_state k sys t handle_default P = alloc_state k sys t handle_default P1"
    and "runs_ptr k sys t handle_default P = runs_ptr k sys t handle_default P1"
  using assms andthen_cong[of "thread_state k sys t" P P1]
  by (simp_all add: alloc_state_def runs_ptr_def handle_default_def)

text \<open>A count that reaches the state of the thread at all.\<close>

definition reaches_state :: "sub_cfg \<Rightarrow> u64 \<Rightarrow> bool" where
  "reaches_state k n \<longleftrightarrow> n \<noteq> 0 \<and> \<not> n > sub_max_size k \<and> (n = 1 \<or> checked_mul n (sizeof (sc_ty k)) \<noteq> None)"

lemma allocate_unreached:
  "\<not> reaches_state k n \<Longrightarrow> sub_allocate k sys t h n P = Some (Inr nullptr, P) \<or>
     sub_allocate k sys t h n P = Some (Inl Bad_array_new_length, P)"
  by (auto simp: reaches_state_def sub_allocate_def allocate_many_def)

lemma allocate_touch:
  assumes th: "has_thread_state k" and eq: "thread_state k sys t P = thread_state k sys t P1" and n: "reaches_state k n"
  shows "sub_allocate k sys t handle_default n P = sub_allocate k sys t handle_default n P1"
proof -
  note e = touch_eqs[OF th eq]
  have one: "allocate_one k sys t handle_default P = allocate_one k sys t handle_default P1"
    unfolding allocate_one_def by (rule andthen_cong[OF e(1)])
  have runs: "runs_or_throw k sys t handle_default b P = runs_or_throw k sys t handle_default b P1" for b
    unfolding runs_or_throw_def by (rule andthen_cong[OF e(2)])
  have "allocate_from_tls_run_cache k sys t handle_default b P = allocate_from_tls_run_cache k sys t handle_default b P1" for b
    unfolding allocate_from_tls_run_cache_def Let_def by (rule andthen_cong[OF e(2)])
  then have cache: "andthen (allocate_from_tls_run_cache k sys t handle_default b) g P =
      andthen (allocate_from_tls_run_cache k sys t handle_default b) g P1" for b g
    by (rule andthen_cong)
  show ?thesis
    using n one runs cache by (auto simp: reaches_state_def sub_allocate_def allocate_many_def)
qed

lemma allocate_touch_throws:
  assumes th: "has_thread_state k" and e: "thread_state k sys t P = Some (Inl e, P1)" and n: "reaches_state k n"
  shows "sub_allocate k sys t handle_default n P = Some (Inl e, P1)"
proof -
  have s: "alloc_state k sys t handle_default P = Some (Inl e, P1)"
    using th e by (simp add: alloc_state_def handle_default_def)
  have "runs_ptr k sys t handle_default P = andthen (thread_state k sys t) (\<lambda>s. ret (runs_of k s)) P"
    using th by (simp add: runs_ptr_def handle_default_def)
  then have r: "runs_ptr k sys t handle_default P = Some (Inl e, P1)" using andthen_eq(2)[of "thread_state k sys t", OF e] by simp
  have one: "allocate_one k sys t handle_default P = Some (Inl e, P1)"
    unfolding allocate_one_def by (rule andthen_eq(2)) (rule s)
  have runs: "runs_or_throw k sys t handle_default b P = Some (Inl e, P1)" for b
    unfolding runs_or_throw_def by (rule andthen_eq(2)) (rule r)
  have "allocate_from_tls_run_cache k sys t handle_default b P = Some (Inl e, P1)" for b
    unfolding allocate_from_tls_run_cache_def Let_def by (rule andthen_eq(2)) (rule r)
  then have cache: "andthen (allocate_from_tls_run_cache k sys t handle_default b) g P = Some (Inl e, P1)" for b g
    by (rule andthen_eq(2))
  show ?thesis using n one runs cache by (auto simp: reaches_state_def sub_allocate_def allocate_many_def)
qed

lemma sub_found:
  assumes h: "sub_holds k sys D P L" and f: "founded_on k sys" and honest: "sys_honest sys (pr_world P)"
    and t: "pr_tls P t = nullptr"
  shows "\<exists>ans P'. thread_state k sys t P = Some (ans, P') \<and> mem_of P' = mem_of P \<and> later sys (pr_world P) (pr_world P') \<and>
    (case ans of
       Inl _ \<Rightarrow> sub_holds k sys D P' L \<and> pr_tls P' = pr_tls P
     | Inr s \<Rightarrow> s \<noteq> nullptr \<and> pr_tls P' = (pr_tls P)(t := s) \<and>
         sub_holds k sys (insert (Nodes s) (insert (Runs s) D)) P' L)"
proof -
  obtain B C where hs: "estates k sys D P B" "stocked k (mem_of P) B (pr_cache P) C" "L \<subseteq> B" "L \<inter> cached C = {}"
    using h by (rule sub_holdsE)
  obtain ans P' where a: "thread_state k sys t P = Some (ans, P')" "mem_of P' = mem_of P" "pr_cache P' = pr_cache P"
    "later sys (pr_world P) (pr_world P')"
    "case ans of Inl _ \<Rightarrow> estates k sys D P' B \<and> pr_tls P' = pr_tls P
     | Inr s \<Rightarrow> s \<noteq> nullptr \<and> Nodes s \<notin> D \<and> Runs s \<notin> D \<and> pr_tls P' = (pr_tls P)(t := s) \<and>
         estates k sys (insert (Nodes s) (insert (Runs s) D)) P' B"
    using found_state[OF hs(1) f honest t] by blast
  have "sub_holds k sys E P' L" if "estates k sys E P' B" for E
    unfolding sub_holds_def using that hs(2-4) a(2,3) by (intro exI[of _ B] exI[of _ C]) simp
  then show ?thesis using a by (intro exI[of _ ans] exI[of _ P']) (simp split: sum.splits)
qed

section \<open>Allocation on any thread\<close>

text \<open>A request for \<open>n\<close> bytes that is served by a part as \<open>home\<close> demands; parts may have been added.\<close>

definition served ::
    "sub_cfg \<Rightarrow> sys \<Rightarrow> part set \<Rightarrow> nat \<Rightarrow> (part \<Rightarrow> bool) \<Rightarrow> block set \<Rightarrow> process \<Rightarrow> ((exn + ptr) \<times> process) option \<Rightarrow> bool" where
  "served k sys D n home L P res \<longleftrightarrow> (\<exists>ans P' E p. res = Some (ans, P') \<and> D \<subseteq> E \<and> settled E P' \<and>
     later sys (pr_world P) (pr_world P') \<and> undisturbed k L (mem_of P) (mem_of P') \<and>
     granted (sub_holds k sys E) k p n L ans P' \<and> home p)"

lemma served_granting:
  assumes "granting k sys D p n L P res" "settled D P" "home p"
  shows "served k sys D n home L P res"
proof -
  obtain ans P' where a: "res = Some (ans, P')" "calm k sys L P P'" "granted (sub_holds k sys D) k p n L ans P'"
    using assms(1) by (auto simp: granting_def)
  have "settled D P'" by (rule settled_calm[OF assms(2) a(2)])
  then show ?thesis unfolding served_def
    using a assms(3) by (intro exI[of _ ans] exI[of _ P'] exI[of _ D] exI[of _ p]) (simp add: calm_def)
qed

lemma served_same:
  assumes "sub_holds k sys D P L" "settled D P" "res = Some (Inl e, P) \<or> res = Some (Inr nullptr, P)" "home p"
  shows "served k sys D n home L P res"
  using assms unfolding served_def
  by (intro exI[of _ "fst (the res)"] exI[of _ P] exI[of _ D] exI[of _ p]) (auto simp: granted_def later.now)

lemma served_after:
  assumes "served k sys E n home L P1 res" "D \<subseteq> E" "mem_of P1 = mem_of P" "later sys (pr_world P) (pr_world P1)"
  shows "served k sys D n home L P res"
proof -
  obtain ans P' F p where a: "res = Some (ans, P')" "E \<subseteq> F" "settled F P'" "later sys (pr_world P1) (pr_world P')"
    "undisturbed k L (mem_of P1) (mem_of P')" "granted (sub_holds k sys F) k p n L ans P'" "home p"
    using assms(1) by (auto simp: served_def)
  have "D \<subseteq> F" "later sys (pr_world P) (pr_world P')" using a(2,4) assms(2,4) later_trans by blast+
  then show ?thesis using a unfolding served_def assms(3)[symmetric] by blast
qed

lemma lent_from_own: "lent_from Own n (if n = 1 then Nodes s else Runs s)"
  by simp

lemma served_housed:
  assumes h: "sub_holds k sys D P L" and st: "settled D P" and f: "founded_on k sys" and steady: "sys_steady sys (pr_world P)"
    and t: "pr_tls P t \<noteq> nullptr"
  shows "served k sys D (unat n * unat (sizeof (sc_ty k))) (lent_from Own n) L P (sub_allocate k sys t handle_default n P)"
proof -
  let ?s = "pr_tls P t"
  have D: "Nodes ?s \<in> D" "Runs ?s \<in> D" and hs: "house D t ?s P" using st t by (simp_all add: settled_def house_def)
  have ty: "ty_ok (sc_ty k)" using f by (simp add: founded_on_def layout_ok_def)
  show ?thesis
    by (rule served_granting[where home = "lent_from Own n" and p = "if n = 1 then Nodes ?s else Runs ?s", OF _ st lent_from_own])
      (use sub_allocate_one[OF h hs D(1) steady ty] sub_allocate_many[OF h hs steady] in \<open>cases "n = 1"; simp\<close>)
qed

lemma served_own:
  assumes h: "sub_holds k sys D P L" and st: "settled D P" and f: "founded_on k sys" and steady: "sys_steady sys (pr_world P)"
  shows "served k sys D (unat n * unat (sizeof (sc_ty k))) (lent_from Own n) L P (sub_allocate k sys t handle_default n P)"
proof -
  have th: "has_thread_state k" by (rule sub_holds_thread[OF h])
  note same = served_same[where home = "lent_from Own n" and p = "if n = 1 then Nodes nullptr else Runs nullptr", OF _ _ _ lent_from_own]
  consider "pr_tls P t \<noteq> nullptr" | "\<not> reaches_state k n" | "pr_tls P t = nullptr" "reaches_state k n" by blast
  then show ?thesis
  proof cases
    case 1
    then show ?thesis by (rule served_housed[OF h st f steady])
  next
    case 2
    then show ?thesis using allocate_unreached[OF 2, of sys t handle_default P]
      by (intro same[OF h st, where e = Bad_array_new_length]) blast
  next
    case 3
    obtain ans P1 where a: "thread_state k sys t P = Some (ans, P1)" "mem_of P1 = mem_of P" "later sys (pr_world P) (pr_world P1)"
      "case ans of Inl _ \<Rightarrow> sub_holds k sys D P1 L \<and> pr_tls P1 = pr_tls P
       | Inr s \<Rightarrow> s \<noteq> nullptr \<and> pr_tls P1 = (pr_tls P)(t := s) \<and>
           sub_holds k sys (insert (Nodes s) (insert (Runs s) D)) P1 L"
      using sub_found[OF h f sys_steady_honest[OF steady] 3(1)] by blast
    show ?thesis
    proof (cases ans)
      case (Inl e)
      have "settled D P1" using st a(4) Inl by (simp add: settled_def)
      then have "served k sys D (unat n * unat (sizeof (sc_ty k))) (lent_from Own n) L P1 (Some (Inl e, P1))"
        using a(4) Inl by (intro same[where e = e]) simp_all
      then show ?thesis
        unfolding allocate_touch_throws[OF th a(1)[unfolded Inl] 3(2)] by (rule served_after[OF _ order_refl a(2,3)])
    next
      case (Inr s)
      let ?E = "insert (Nodes s) (insert (Runs s) D)"
      have s: "s \<noteq> nullptr" "pr_tls P1 t = s" "sub_holds k sys ?E P1 L" and st1: "settled ?E P1"
        using a(4) st Inr by (auto simp: settled_def)
      have "thread_state k sys t P1 = Some (Inr s, P1)" using s(1,2) by (simp add: thread_state_def)
      then have eq: "sub_allocate k sys t handle_default n P = sub_allocate k sys t handle_default n P1"
        using a(1) Inr by (intro allocate_touch[OF th _ 3(2)]) simp
      have "served k sys ?E (unat n * unat (sizeof (sc_ty k))) (lent_from Own n) L P1 (sub_allocate k sys t handle_default n P1)"
        using s by (intro served_housed[OF s(3) st1 f sys_steady_later[OF steady a(3)]]) simp
      then show ?thesis unfolding eq by (rule served_after[OF _ _ a(2,3)]) blast
    qed
  qed
qed

lemma served_any:
  assumes h: "sub_holds k sys D P L" and st: "settled D P" and f: "founded_on k sys" and steady: "sys_steady sys (pr_world P)"
    and w: "at_home D w"
  shows "served k sys D (unat n * unat (sizeof (sc_ty (cfg_of k w)))) (lent_from w n) L P
    (sub_allocate (cfg_of k w) sys t (handle_of k w) n P)"
proof (cases "w = Own")
  case True
  then show ?thesis using served_own[OF h st f steady] by simp
next
  case False
  have "ty_ok (sc_ty k)" using f by (simp add: founded_on_def layout_ok_def)
  then show ?thesis using bound_allocate[OF h steady w False] served_granting[OF _ st] by metis
qed

section \<open>The process as a source of blocks\<close>

text \<open>
  The state is the process with the client's ledger: for each block it holds the count it was asked
  with or has been expanded to and the handle it was asked through, and the states it has created.  It
  has handles bound to these states only.  A thread exits through the destructor of its cache; its
  state stays registered, and blocks may still come home to it.
\<close>

type_synonym lease = "u64 \<times> who"

record ledger =
  leases :: "nat \<Rightarrow> lease"
  created :: "ptr list"

type_synonym tenancy = "process \<times> ledger"

datatype call =
    Allocate nat who u64
  | Allocate_at_least nat who u64
  | Create_state u64 u64
  | Exit_thread nat

definition usable :: "ledger \<Rightarrow> who \<Rightarrow> bool" where
  "usable N w = (case w of Own \<Rightarrow> True | Bound s \<Rightarrow> s \<in> set (created N) | Rebound s u \<Rightarrow> s \<in> set (created N) \<and> ty_ok u)"

definition lease_to :: "ptr \<Rightarrow> lease \<Rightarrow> ledger \<Rightarrow> ledger" where
  "lease_to a l N = N\<lparr>leases := (leases N)(unat a := l)\<rparr>"

definition process_request :: "sub_cfg \<Rightarrow> sys \<Rightarrow> call \<Rightarrow> tenancy \<Rightarrow> ((exn + ptr) \<times> tenancy) option" where
  "process_request k sys q s =
     (case q of
        Allocate t w n \<Rightarrow>
          if \<not> usable (snd s) w then Some (Inr nullptr, s)
          else (case sub_allocate (cfg_of k w) sys t (handle_of k w) n (fst s) of
             None \<Rightarrow> None
           | Some (Inl e, P) \<Rightarrow> Some (Inl e, P, snd s)
           | Some (Inr a, P) \<Rightarrow> Some (Inr a, P, lease_to a (n, w) (snd s)))
      | Allocate_at_least t w n \<Rightarrow>
          if \<not> usable (snd s) w then Some (Inr nullptr, s)
          else (case sub_allocate_at_least (cfg_of k w) sys t (handle_of k w) n (fst s) of
             None \<Rightarrow> None
           | Some (Inl e, P) \<Rightarrow> Some (Inl e, P, snd s)
           | Some (Inr (a, c), P) \<Rightarrow> Some (Inr a, P, lease_to a (c, w) (snd s)))
      | Create_state n b \<Rightarrow>
          (case create_state k sys n b (fst s) of
             None \<Rightarrow> None
           | Some (Inl e, P) \<Rightarrow> Some (Inl e, P, snd s)
           | Some (Inr f, P) \<Rightarrow> Some (Inr nullptr, P, (snd s)\<lparr>created := f # created (snd s)\<rparr>))
      | Exit_thread t \<Rightarrow> map_option (\<lambda>P. (Inr nullptr, P, snd s)) (tls_cache_destroy k t (fst s)))"

definition call_bytes :: "sub_cfg \<Rightarrow> call \<Rightarrow> nat" where
  "call_bytes k q =
     (case q of
        Allocate t w n \<Rightarrow> unat n * unat (sizeof (sc_ty (cfg_of k w)))
      | Allocate_at_least t w n \<Rightarrow>
          unat (if n = 0 then 0 else at_least_count (cfg_of k w) n) * unat (sizeof (sc_ty (cfg_of k w)))
      | _ \<Rightarrow> 0)"

definition process_return :: "sub_cfg \<Rightarrow> sys \<Rightarrow> nat \<Rightarrow> ptr \<Rightarrow> tenancy \<Rightarrow> tenancy option" where
  "process_return k sys t p s =
     (let (c, w) = leases (snd s) (unat p)
      in Some (sub_deallocate (cfg_of k w) sys t (handle_of k w) p c (fst s), snd s))"

text \<open>A single element is a node, unless it was asked for through a rebound handle.\<close>

definition single :: "lease \<Rightarrow> bool" where
  "single l \<longleftrightarrow> fst l = 1 \<and> (case snd l of Rebound _ _ \<Rightarrow> False | _ \<Rightarrow> True)"

text \<open>
  Thread \<open>t\<close> asks for \<open>b\<close> bytes in place; where the answer is large enough, the run counts as many
  elements as fit into it.
\<close>

definition process_resize :: "sub_cfg \<Rightarrow> nat \<times> u64 \<Rightarrow> ptr \<Rightarrow> tenancy \<Rightarrow> tenancy option" where
  "process_resize k q p s =
     (let (c, w) = leases (snd s) (unat p);
          (bytes, P) = sub_expand (cfg_of k w) (fst q) (handle_of k w) p (snd q) (fst s)
      in Some (P, if \<not> single (c, w) \<and> bytes \<noteq> 0 \<and> snd q \<le> bytes
                  then lease_to p (bytes div sizeof (sc_ty (cfg_of k w)), w) (snd s) else snd s))"

lemma process_resize_total: "\<exists>s'. process_resize k q p s = Some s'"
  by (simp add: process_resize_def split: prod.split)

definition process_store :: "nat \<Rightarrow> u64 \<Rightarrow> tenancy \<Rightarrow> tenancy" where
  "process_store a b s = (set_mem ((mem_of (fst s))(adr a := b)) (fst s), snd s)"

text \<open>A node has the size of a node, a run the size in its header.\<close>

definition process_bytes :: "sub_cfg \<Rightarrow> tenancy \<Rightarrow> nat \<Rightarrow> nat" where
  "process_bytes k s x =
     (if single (leases (snd s) x) then node_bytes (node_pool_cfg k) else payload_bytes (mem_of (fst s)) x)"

definition lease_ok :: "sub_cfg \<Rightarrow> memory \<Rightarrow> lease \<Rightarrow> block \<Rightarrow> bool" where
  "lease_ok k m l b \<longleftrightarrow> lent_from (snd l) (fst l) (fst b) \<and> fst l \<noteq> 0 \<and>
     unat (fst l) * unat (sizeof (sc_ty (cfg_of k (snd l)))) \<le> span_of k m b"

definition fits :: "sub_cfg \<Rightarrow> memory \<Rightarrow> ledger \<Rightarrow> block \<Rightarrow> bool" where
  "fits k m N b \<longleftrightarrow> lease_ok k m (leases N (snd b)) b"

definition tenants :: "sub_cfg \<Rightarrow> sys \<Rightarrow> part set \<Rightarrow> tenancy \<Rightarrow> block set \<Rightarrow> bool" where
  "tenants k sys D s L \<longleftrightarrow> founded_on k sys \<and> sub_holds k sys D (fst s) L \<and> settled D (fst s) \<and>
     (\<forall>b \<in> L. fits k (mem_of (fst s)) (snd s) b) \<and>
     (\<forall>b \<in> L. at_home D (snd (leases (snd s) (snd b)))) \<and> (\<forall>q \<in> set (created (snd s)). at_home D (Bound q))"

definition process_holds :: "sub_cfg \<Rightarrow> sys \<Rightarrow> tenancy \<Rightarrow> nat set \<Rightarrow> bool" where
  "process_holds k sys s X \<longleftrightarrow> (\<exists>D L. tenants k sys D s L \<and> X = snd ` L)"

lemma tenantsD:
  assumes "tenants k sys D (P, N) L"
  shows "founded_on k sys" "sub_holds k sys D P L" "settled D P" "b \<in> L \<Longrightarrow> fits k (mem_of P) N b"
    "b \<in> L \<Longrightarrow> at_home D (snd (leases N (snd b)))" "q \<in> set (created N) \<Longrightarrow> at_home D (Bound q)"
  using assms by (simp_all add: tenants_def)

lemma at_home_mono: "at_home D w \<Longrightarrow> D \<subseteq> E \<Longrightarrow> at_home E w"
  by (auto simp: at_home_def split: who.splits)

lemma usable_at_home: "tenants k sys D (P, N) L \<Longrightarrow> usable N w \<Longrightarrow> at_home D w"
  by (cases w) (auto simp: usable_def at_home_def tenants_def)

lemma single_node: "lent_from w c p \<Longrightarrow> single (c, w) \<longleftrightarrow> (\<exists>s. p = Nodes s)"
  by (cases w; cases p) (auto simp: single_def split: if_splits)

lemma fits_span: "fits k (mem_of P) N (p, x) \<Longrightarrow> process_bytes k (P, N) x = span_of k (mem_of P) (p, x)"
  by (cases p) (auto simp: fits_def lease_ok_def process_bytes_def dest: single_node)

lemma fits_undisturbed:
  assumes "fits k m N b" "undisturbed k L m m'" "b \<in> L" "leases N' (snd b) = leases N (snd b)"
  shows "fits k m' N' b"
  using assms(1,4) undisturbedD(1)[OF assms(2,3)] by (simp add: fits_def lease_ok_def)

lemma tenants_undisturbed:
  assumes "tenants k sys D (P, N) L" "A \<subseteq> L" "undisturbed k A (mem_of P) (mem_of P')"
    and "\<And>b. b \<in> A \<Longrightarrow> leases N' (snd b) = leases N (snd b)"
  shows "\<And>b. b \<in> A \<Longrightarrow> fits k (mem_of P') N' b"
    and "keeps (process_bytes k) (\<lambda>s. mem_of (fst s)) (snd ` A) (P, N) (P', N')"
proof -
  have f: "fits k (mem_of P) N b" if "b \<in> A" for b using assms(1,2) that by (auto simp: tenants_def)
  show f': "\<And>b. b \<in> A \<Longrightarrow> fits k (mem_of P') N' b" using f assms(3,4) fits_undisturbed by blast
  have "process_bytes k (P', N') x = process_bytes k (P, N) x \<and>
      (\<forall>i < process_bytes k (P, N) x. mem_of P' (adr (x + i)) = mem_of P (adr (x + i)))" if b: "(p, x) \<in> A" for p x
    using fits_span[OF f[OF b]] fits_span[OF f'[OF b]] undisturbedD[OF assms(3) b] by simp
  then show "keeps (process_bytes k) (\<lambda>s. mem_of (fst s)) (snd ` A) (P, N) (P', N')" unfolding keeps_def by auto
qed

lemma more_than_one:
  assumes "n \<noteq> 0" "n \<noteq> 1"
  shows "(1 :: u64) < n"
proof -
  have "unat n \<noteq> 0" using assms(1) by (simp add: unat_eq_0)
  moreover have "unat n \<noteq> 1" using assms(2) by (metis unat_1 word_unat_eq_iff)
  ultimately show ?thesis by (simp add: word_less_nat_alt)
qed

text \<open>A step that keeps the ledger as far as it matters for the blocks that are still held.\<close>

lemma tenants_step:
  assumes t: "tenants k sys D (P, N) L" and A: "A \<subseteq> L" and D: "D \<subseteq> E"
    and h: "sub_holds k sys E P' B" and st: "settled E P'"
    and B: "B \<subseteq> insert b A" "b \<in> B \<Longrightarrow> fits k (mem_of P') N' b \<and> at_home E (snd (leases N' (snd b)))"
    and u: "undisturbed k A (mem_of P) (mem_of P')" and N': "\<And>b. b \<in> A \<Longrightarrow> leases N' (snd b) = leases N (snd b)"
    and c: "\<And>q. q \<in> set (created N') \<Longrightarrow> q \<in> set (created N) \<or> at_home E (Bound q)"
  shows "tenants k sys E (P', N') B"
proof -
  have "at_home E (snd (leases N' (snd a)))" if "a \<in> A" for a
    using at_home_mono[OF tenantsD(5)[OF t, of a] D] that A N'[OF that] by auto
  moreover have "at_home E (Bound q)" if "q \<in> set (created N')" for q
    using c[OF that] at_home_mono[OF tenantsD(6)[OF t] D] by blast
  ultimately show ?thesis
    using tenants_undisturbed(1)[OF t A u N'] tenantsD(1)[OF t] h st B unfolding tenants_def fst_conv snd_conv by blast
qed

lemma served_answer:
  assumes t: "tenants k sys D (P, N) L"
    and sv: "served k sys D (unat n * unat (sizeof (sc_ty (cfg_of k w)))) (lent_from w n) L P (Some (ans, P'))"
    and w: "at_home D w" and n: "\<And>a. ans = Inr a \<Longrightarrow> n = 0 \<Longrightarrow> a = nullptr"
  defines "N' \<equiv> case ans of Inl e \<Rightarrow> N | Inr a \<Rightarrow> lease_to a (n, w) N"
  shows "alloc_answer (process_holds k sys) (process_bytes k) (unat n * unat (sizeof (sc_ty (cfg_of k w)))) (snd ` L) ans (P', N')"
    and "keeps (process_bytes k) (\<lambda>s. mem_of (fst s)) (snd ` L) (P, N) (P', N')"
proof -
  let ?n = "unat n * unat (sizeof (sc_ty (cfg_of k w)))"
  obtain E p where s: "D \<subseteq> E" "settled E P'" "undisturbed k L (mem_of P) (mem_of P')"
    "granted (sub_holds k sys E) k p ?n L ans P'" "lent_from w n p"
    using sv by (auto simp: served_def)
  have c: "created N' = created N" by (simp add: N'_def lease_to_def split: sum.split)
  have fresh: "b \<notin> L" if a: "ans = Inr a" "a \<noteq> nullptr" "snd b = unat a" for a b
  proof
    assume "b \<in> L"
    moreover have "(p, unat a) \<notin> L" "sub_holds k sys E P' (insert (p, unat a) L)" using s(4) a by (simp_all add: granted_def)
    ultimately show False using sub_same[of k sys E P' "insert (p, unat a) L" "fst b" "unat a" p] a(3) by (cases b) auto
  qed
  have N': "leases N' (snd b) = leases N (snd b)" if "b \<in> L" for b
  proof (cases ans)
    case (Inr a)
    have "snd b \<noteq> 0" using sub_range(2)[OF tenantsD(2)[OF t], of "fst b" "snd b"] that by simp
    then have "snd b \<noteq> unat a" using fresh[OF Inr, of b] that by (cases "a = nullptr") (simp, blast)
    then show ?thesis by (simp add: N'_def Inr lease_to_def)
  qed (simp add: N'_def)
  show "keeps (process_bytes k) (\<lambda>s. mem_of (fst s)) (snd ` L) (P, N) (P', N')"
    by (rule tenants_undisturbed(2)[OF t subset_refl s(3) N'])
  note step = tenants_step[OF t subset_refl s(1) _ s(2) _ _ s(3) N']
  show "alloc_answer (process_holds k sys) (process_bytes k) ?n (snd ` L) ans (P', N')"
  proof (cases "\<exists>a. ans = Inr a \<and> a \<noteq> nullptr")
    case False
    then have "sub_holds k sys E P' L" using s(4) by (auto simp: granted_def split: sum.splits)
    then have "tenants k sys E (P', N') L" by (rule step[where b = "(p, 0)"])
      (use N' c tenants_undisturbed(1)[OF t subset_refl s(3) N'] tenantsD(5)[OF t] at_home_mono[OF _ s(1)] in auto)
    then have "process_holds k sys (P', N') (snd ` L)" unfolding process_holds_def by blast
    then show ?thesis using False by (auto simp: alloc_answer_def split: sum.splits)
  next
    case True
    then obtain a where a: "ans = Inr a" "a \<noteq> nullptr" by blast
    let ?b = "(p, unat a)"
    have g: "sub_holds k sys E P' (insert ?b L)" "?n \<le> span_of k (mem_of P') ?b"
      using s(4) a by (simp_all add: granted_def)
    have l: "leases N' (unat a) = (n, w)" by (simp add: N'_def a(1) lease_to_def)
    have "n \<noteq> 0" using n[OF a(1)] a(2) by blast
    then have fb: "fits k (mem_of P') N' ?b" using s(5) g(2) l by (simp add: fits_def lease_ok_def)
    have "tenants k sys E (P', N') (insert ?b L)"
      by (rule step[OF g(1) subset_refl]) (use fb l w at_home_mono[OF _ s(1)] N' c in auto)
    then have "process_holds k sys (P', N') (snd ` insert ?b L)" unfolding process_holds_def by blast
    moreover have "unat a \<notin> snd ` L" using fresh[OF a] by (auto simp del: prod.collapse)
    ultimately show ?thesis using a g(2) fits_span[OF fb] by (simp add: alloc_answer_def)
  qed
qed

lemma allocate_zero: "sub_allocate k sys t h 0 P = Some (Inr nullptr, P)"
  by (simp add: sub_allocate_def)

lemma process_unusable:
  assumes "tenants k sys D (P, N) L"
  shows "\<exists>r s'. Some (Inr nullptr, P, N) = Some (r, s') \<and>
    alloc_answer (process_holds k sys) (process_bytes k) n (snd ` L) r s' \<and>
    keeps (process_bytes k) (\<lambda>s. mem_of (fst s)) (snd ` L) (P, N) s'"
  using assms by (auto simp: alloc_answer_def process_holds_def)

lemma process_allocates:
  assumes t: "tenants k sys D (P, N) L" and steady: "sys_steady sys (pr_world P)"
  shows "\<exists>r s'. process_request k sys (Allocate u w n) (P, N) = Some (r, s') \<and>
    alloc_answer (process_holds k sys) (process_bytes k) (unat n * unat (sizeof (sc_ty (cfg_of k w)))) (snd ` L) r s' \<and>
    keeps (process_bytes k) (\<lambda>s. mem_of (fst s)) (snd ` L) (P, N) s'"
proof (cases "usable N w")
  case False
  then show ?thesis using process_unusable[OF t] by (simp add: process_request_def)
next
  case True
  note home = usable_at_home[OF t True]
  have "served k sys D (unat n * unat (sizeof (sc_ty (cfg_of k w)))) (lent_from w n) L P
      (sub_allocate (cfg_of k w) sys u (handle_of k w) n P)"
    by (rule served_any[OF tenantsD(2,3,1)[OF t] steady home])
  then obtain ans P' where a: "sub_allocate (cfg_of k w) sys u (handle_of k w) n P = Some (ans, P')"
    "served k sys D (unat n * unat (sizeof (sc_ty (cfg_of k w)))) (lent_from w n) L P (Some (ans, P'))"
    by (auto simp: served_def)
  have "process_request k sys (Allocate u w n) (P, N) =
      Some (ans, P', case ans of Inl e \<Rightarrow> N | Inr a \<Rightarrow> lease_to a (n, w) N)"
    using True by (simp add: process_request_def a(1) split: sum.split)
  moreover have "ans = Inr b \<Longrightarrow> n = 0 \<Longrightarrow> b = nullptr" for b using a(1) by (simp add: allocate_zero)
  ultimately show ?thesis using served_answer[OF t a(2) home] by blast
qed

lemma process_at_least:
  "n \<noteq> 0 \<Longrightarrow> process_request k sys (Allocate_at_least t w n) s =
     process_request k sys (Allocate t w (at_least_count (cfg_of k w) n)) s"
  "process_request k sys (Allocate_at_least t w 0) s = process_request k sys (Allocate t w 0) s"
  by (simp_all add: process_request_def sub_allocate_at_least_def allocate_zero Let_def andthen_def
      split: option.splits sum.splits)

lemma process_creates:
  assumes t: "tenants k sys D (P, N) L" and steady: "sys_steady sys (pr_world P)"
  shows "\<exists>r s'. process_request k sys (Create_state n b) (P, N) = Some (r, s') \<and>
    alloc_answer (process_holds k sys) (process_bytes k) 0 (snd ` L) r s' \<and>
    keeps (process_bytes k) (\<lambda>s. mem_of (fst s)) (snd ` L) (P, N) s'"
proof -
  obtain ans P' where a: "create_state k sys n b P = Some (ans, P')" "calm k sys L P P'"
    "case ans of
       Inl _ \<Rightarrow> sub_holds k sys D P' L
     | Inr s \<Rightarrow> s \<noteq> nullptr \<and> Nodes s \<notin> D \<and> Runs s \<notin> D \<and>
         sub_holds k sys (insert (Nodes s) (insert (Runs s) D)) P' L"
    using sub_create[OF tenantsD(2,1)[OF t] steady] by blast
  have u: "undisturbed k L (mem_of P) (mem_of P')" using a(2) by (simp add: calm_def)
  define N' where "N' = (case ans of Inl e \<Rightarrow> N | Inr f \<Rightarrow> N\<lparr>created := f # created N\<rparr>)"
  have N': "leases N' x = leases N x" for x by (simp add: N'_def split: sum.split)
  define E where "E = (case ans of Inl e \<Rightarrow> D | Inr s \<Rightarrow> insert (Nodes s) (insert (Runs s) D))"
  have DE: "D \<subseteq> E" and h: "sub_holds k sys E P' L" using a(3) by (auto simp: E_def split: sum.splits)
  have "settled E P" using tenantsD(3)[OF t] DE by (auto simp: settled_def)
  then have st: "settled E P'" by (rule settled_calm[OF _ a(2)])
  have "tenants k sys E (P', N') L"
  proof (rule tenants_step[OF t subset_refl DE h st _ _ u N', where b = "(Nodes 0, 0)"])
    show "fits k (mem_of P') N' (Nodes 0, 0) \<and> at_home E (snd (leases N' (snd (Nodes 0, 0))))" if "(Nodes 0, 0) \<in> L"
      using tenants_undisturbed(1)[OF t subset_refl u N' that] tenantsD(5)[OF t that] at_home_mono[OF _ DE] N' by simp
    show "q \<in> set (created N) \<or> at_home E (Bound q)" if "q \<in> set (created N')" for q
      using that a(3) by (auto simp: N'_def E_def at_home_def split: sum.splits)
  qed blast
  then have "process_holds k sys (P', N') (snd ` L)" unfolding process_holds_def by blast
  moreover have "process_request k sys (Create_state n b) (P, N) =
      Some (case ans of Inl e \<Rightarrow> Inl e | Inr f \<Rightarrow> Inr nullptr, P', N')"
    by (simp add: process_request_def a(1) N'_def split: sum.split)
  ultimately show ?thesis using tenants_undisturbed(2)[OF t subset_refl u N']
    by (auto simp: alloc_answer_def split: sum.splits)
qed

lemma process_exits:
  assumes t: "tenants k sys D (P, N) L"
  shows "\<exists>r s'. process_request k sys (Exit_thread u) (P, N) = Some (r, s') \<and>
    alloc_answer (process_holds k sys) (process_bytes k) 0 (snd ` L) r s' \<and>
    keeps (process_bytes k) (\<lambda>s. mem_of (fst s)) (snd ` L) (P, N) s'"
proof -
  obtain P' where P': "tls_cache_destroy k u P = Some P'" "sub_holds k sys D P' L" "calm k sys L P P'"
    using sub_exit[OF tenantsD(2)[OF t], of u] by blast
  have u: "undisturbed k L (mem_of P) (mem_of P')" using P'(3) by (simp add: calm_def)
  have "tenants k sys D (P', N) L"
    by (rule tenants_step[OF t subset_refl subset_refl P'(2) settled_calm[OF tenantsD(3)[OF t] P'(3)] _ _ u,
          where b = "(Nodes 0, 0)"])
      (use tenants_undisturbed(1)[OF t subset_refl u refl] tenantsD(5)[OF t] in auto)
  then have "process_holds k sys (P', N) (snd ` L)" unfolding process_holds_def by blast
  then show ?thesis using P'(1) tenants_undisturbed(2)[OF t subset_refl u refl]
    by (simp add: process_request_def alloc_answer_def)
qed

lemma tenants_return:
  fixes u :: nat
  assumes t: "tenants k sys D (P, N) L" and b: "(p, x) \<in> L"
  obtains P' where "process_return k sys u (adr x) (P, N) = Some (P', N)" "tenants k sys D (P', N) (L - {(p, x)})"
    "keeps (process_bytes k) (\<lambda>s. mem_of (fst s)) (snd ` (L - {(p, x)})) (P, N) (P', N)"
proof -
  have h: "sub_holds k sys D P L" and f: "fits k (mem_of P) N (p, x)" using tenantsD(2,4)[OF t] b by blast+
  have x: "unat (adr x) = x" using sub_range(3)[OF h b] by (simp add: unat_adr)
  obtain c w where l: "leases N x = (c, w)" by fastforce
  have lf: "lent_from w c p" "c \<noteq> 0" "unat c * unat (sizeof (sc_ty (cfg_of k w))) \<le> span_of k (mem_of P) (p, x)"
    using f l by (simp_all add: fits_def lease_ok_def)
  have w: "at_home D w" using tenantsD(5)[OF t b] l by simp
  define P' where "P' = sub_deallocate (cfg_of k w) sys u (handle_of k w) (adr x) c P"
  have "sub_holds k sys D P' (L - {(p, x)}) \<and> calm k sys (L - {(p, x)}) P P'"
  proof (cases "w = Own")
    case False
    then show ?thesis using bound_deallocate[OF h b w False lf(1,2), of u] by (simp add: P'_def)
  next
    case own: True
    show ?thesis
    proof (cases p)
      case (Nodes s)
      then show ?thesis using sub_give_back_one[OF h b[unfolded Nodes]] lf(1) own by (simp add: P'_def)
    next
      case (Runs s)
      then have "1 < c" "unat c * unat (sizeof (sc_ty k)) \<le> payload_bytes (mem_of P) x"
        using lf own more_than_one by simp_all
      from sub_give_back_many[OF h b[unfolded Runs] this] Runs own show ?thesis by (simp add: P'_def)
    qed
  qed
  then have r: "sub_holds k sys D P' (L - {(p, x)})" "calm k sys (L - {(p, x)}) P P'" by blast+
  have u: "undisturbed k (L - {(p, x)}) (mem_of P) (mem_of P')" using r(2) by (simp add: calm_def)
  show thesis
  proof (rule that)
    show "process_return k sys u (adr x) (P, N) = Some (P', N)" by (simp add: process_return_def x l P'_def)
    show "tenants k sys D (P', N) (L - {(p, x)})"
      by (rule tenants_step[OF t Diff_subset subset_refl r(1) settled_calm[OF tenantsD(3)[OF t] r(2)] _ _ u,
            where b = "(p, x)"]) auto
    show "keeps (process_bytes k) (\<lambda>s. mem_of (fst s)) (snd ` (L - {(p, x)})) (P, N) (P', N)"
      by (rule tenants_undisturbed(2)[OF t Diff_subset u refl])
  qed
qed

lemma tenants_minus:
  assumes "tenants k sys D (P, N) L" "(p, x) \<in> L"
  shows "snd ` (L - {(p, x)}) = snd ` L - {x}"
proof -
  have one: "b = (p, x)" if "b \<in> L" "snd b = x" for b
    using sub_same[OF tenantsD(2)[OF assms(1)], of "fst b" x p] assms(2) that by (cases b) simp
  show ?thesis
  proof (intro set_eqI iffI)
    fix y assume "y \<in> snd ` (L - {(p, x)})"
    then obtain b where "b \<in> L" "b \<noteq> (p, x)" "snd b = y" by blast
    then show "y \<in> snd ` L - {x}" using one[of b] by blast
  next
    fix y assume "y \<in> snd ` L - {x}"
    then obtain b where "b \<in> L" "snd b = y" "y \<noteq> x" by blast
    moreover have "b \<noteq> (p, x)" using calculation by auto
    ultimately show "y \<in> snd ` (L - {(p, x)})" by blast
  qed
qed

lemma run_count:
  fixes sz c bytes :: u64
  assumes "c \<noteq> 0" "unat c * unat sz \<le> unat bytes" "0 < unat sz"
  shows "c \<le> bytes div sz" "bytes div sz \<noteq> 0" "unat (bytes div sz) * unat sz \<le> unat bytes"
proof -
  have "unat c \<le> unat bytes div unat sz" using assms(2,3) by (simp add: less_eq_div_iff_mult_less_eq)
  then show c: "c \<le> bytes div sz" by (simp add: word_le_nat_alt unat_div)
  show "bytes div sz \<noteq> 0" using c assms(1) by auto
  show "unat (bytes div sz) * unat sz \<le> unat bytes" by (simp add: unat_div)
qed

lemma recounted:
  assumes "lent_from w c (Runs s)" "c \<noteq> 0" "c \<le> d"
  shows "lent_from w d (Runs s)" "\<not> single (c, w)"
proof -
  have "d \<noteq> 1" if "c \<noteq> 1" using that assms(2,3) more_than_one[of c] by auto
  then show "lent_from w d (Runs s)" using assms(1) by (cases w) (auto split: if_splits)
  show "\<not> single (c, w)" using single_node[OF assms(1)] by simp
qed

lemma tenants_resize:
  assumes t: "tenants k sys D (P, N) L" and b: "(p, x) \<in> L" and r: "process_resize k (u, n) (adr x) (P, N) = Some s'"
  shows "tenants k sys D s' L"
    and "extended (process_bytes k) (\<lambda>s. mem_of (fst s)) (snd ` L) x (P, N) s'"
proof -
  have h: "sub_holds k sys D P L" and f: "fits k (mem_of P) N (p, x)" using tenantsD(2,4)[OF t] b by blast+
  have x: "unat (adr x) = x" using sub_range(3)[OF h b] by (simp add: unat_adr)
  obtain c w where l: "leases N x = (c, w)" by fastforce
  let ?sz = "sizeof (sc_ty (cfg_of k w))"
  have lf: "lent_from w c p" "c \<noteq> 0" "unat c * unat ?sz \<le> span_of k (mem_of P) (p, x)"
    using f l by (simp_all add: fits_def lease_ok_def)
  have w: "at_home D w" using tenantsD(5)[OF t b] l by simp
  have sz: "0 < unat ?sz"
    using tenantsD(1)[OF t] w ty_ok_pos by (cases w) (auto simp: founded_on_def layout_ok_def at_home_def)
  obtain bytes P' where e: "sub_expand (cfg_of k w) u (handle_of k w) (adr x) n P = (bytes, P')" "sub_holds k sys D P' L"
    "calm k sys (L - {(p, x)}) P P'" "resized p x P bytes P'"
    by (rule any_expand[OF h tenantsD(3)[OF t] b w lf(1)])
  define N' where "N' = (if \<not> single (c, w) \<and> bytes \<noteq> 0 \<and> n \<le> bytes then lease_to (adr x) (bytes div ?sz, w) N else N)"
  have s': "s' = (P', N')" using r e(1) by (auto simp: process_resize_def x l N'_def split: if_splits)
  have other: "leases N' y = leases N y" if "y \<noteq> x" for y using that by (simp add: N'_def lease_to_def x)
  have g: "fits k (mem_of P') N' (p, x) \<and> snd (leases N' x) = w \<and>
      process_bytes k (P, N) x \<le> process_bytes k (P', N') x \<and>
      (\<forall>i < process_bytes k (P, N) x. mem_of P' (adr (x + i)) = mem_of P (adr (x + i)))"
  proof (cases p)
    case (Nodes s)
    then have "single (c, w)" "P' = P" using single_node[OF lf(1)] e(4) by (auto simp: resized_def)
    then show ?thesis using f l by (simp add: N'_def)
  next
    case (Runs s)
    show ?thesis
    proof (cases "P' = P \<and> bytes = 0")
      case True
      then show ?thesis using f l by (simp add: N'_def)
    next
      case False
      then have q: "unat bytes = payload_bytes (mem_of P') x" "payload_bytes (mem_of P) x \<le> payload_bytes (mem_of P') x"
        "\<forall>i < payload_bytes (mem_of P) x. mem_of P' (adr (x + i)) = mem_of P (adr (x + i))"
        using e(4) Runs by (auto simp: resized_def)
      have "unat c * unat ?sz \<le> unat bytes" using lf(3) q(1,2) Runs by simp
      note c' = run_count[OF lf(2) this sz]
      note rc = recounted[OF lf(1)[unfolded Runs] lf(2)]
      have "lease_ok k (mem_of P') (c, w) (p, x)" "lease_ok k (mem_of P') (bytes div ?sz, w) (p, x)"
        using lf c' rc(1)[OF c'(1)] q(1,2) Runs by (simp_all add: lease_ok_def)
      moreover have "\<not> single (bytes div ?sz, w)" using single_node[OF rc(1)[OF c'(1)]] by simp
      ultimately show ?thesis
        using q l rc(2)[OF order_refl] by (simp add: fits_def N'_def process_bytes_def lease_to_def x)
    qed
  qed
  have u: "undisturbed k (L - {(p, x)}) (mem_of P) (mem_of P')" using e(3) by (simp add: calm_def)
  have same: "leases N' (snd a) = leases N (snd a)" if "a \<in> L - {(p, x)}" for a
    using sub_same[OF h, of "fst a" "snd a" p] that b by (intro other) (cases a, auto)
  have c: "created N' = created N" by (simp add: N'_def lease_to_def)
  have "tenants k sys D (P', N') L"
    by (rule tenants_step[OF t Diff_subset subset_refl e(2) settled_calm[OF tenantsD(3)[OF t] e(3)] _ _ u same,
          where b = "(p, x)"]) (use g w b c in auto)
  then show "tenants k sys D s' L" by (simp add: s')
  show "extended (process_bytes k) (\<lambda>s. mem_of (fst s)) (snd ` L) x (P, N) s'"
    unfolding s' extended_def tenants_minus[OF t b, symmetric] using tenants_undisturbed(2)[OF t Diff_subset u same] g by simp
qed

lemma tenants_store:
  assumes t: "tenants k sys D (P, N) L" and b: "(p, x) \<in> L" and i: "i < process_bytes k (P, N) x"
  shows "tenants k sys D (process_store (x + i) v (P, N)) L"
proof -
  have h: "sub_holds k sys D P L" and f: "fits k (mem_of P) N (p, x)" using tenantsD(2,4)[OF t] b by blast+
  have j: "i < span_of k (mem_of P) (p, x)" using i fits_span[OF f] by simp
  define P' where "P' = set_mem ((mem_of P)(adr (x + i) := v)) P"
  note s = sub_store[OF h b j, of v, folded P'_def]
  have u: "undisturbed k (L - {(p, x)}) (mem_of P) (mem_of P')" using s(2) by (simp add: calm_def)
  have "fits k (mem_of P') N (p, x)" using f s(3) by (simp add: fits_def lease_ok_def)
  then have "tenants k sys D (P', N) L"
    by (intro tenants_step[OF t Diff_subset subset_refl s(1) settled_calm[OF tenantsD(3)[OF t] s(2)] _ _ u,
          where b = "(p, x)"]) (use tenantsD(5)[OF t b] b in auto)
  then show ?thesis by (simp add: process_store_def P'_def)
qed

interpretation process_source: block_source "process_request k sys" "process_return k sys" "process_resize k" process_store
    "\<lambda>s. mem_of (fst s)" "process_holds k sys" "process_bytes k" "call_bytes k"
    "\<lambda>s. sys_steady sys (pr_world (fst s))" UNIV
  for k sys
proof unfold_locales
  fix s :: tenancy and X q
  assume "process_holds k sys s X" and steady: "sys_steady sys (pr_world (fst s))"
  then obtain P N D L where s: "s = (P, N)" and t: "tenants k sys D (P, N) L" and X: "X = snd ` L"
    by (cases s) (auto simp: process_holds_def)
  have P: "sys_steady sys (pr_world P)" using steady s by simp
  show "\<exists>r s'. process_request k sys q s = Some (r, s') \<and>
      alloc_answer (process_holds k sys) (process_bytes k) (call_bytes k q) X r s' \<and>
      keeps (process_bytes k) (\<lambda>s. mem_of (fst s)) X s s'"
  proof (cases q)
    case (Allocate_at_least u w n)
    define c where "c = (if n = 0 then 0 else at_least_count (cfg_of k w) n)"
    have "process_request k sys q s = process_request k sys (Allocate u w c) s"
      using process_at_least by (simp add: c_def Allocate_at_least)
    moreover have "call_bytes k q = unat c * unat (sizeof (sc_ty (cfg_of k w)))"
      by (simp add: c_def Allocate_at_least call_bytes_def)
    ultimately show ?thesis using process_allocates[OF t P, of u w c] unfolding s X by (simp only:)
  qed (use process_allocates[OF t P] process_creates[OF t P] process_exits[OF t] in \<open>simp_all add: s X call_bytes_def\<close>)
next
  fix s :: tenancy and X x v
  assume "process_holds k sys s X" and x: "x \<in> X"
  then obtain P N D L p where s: "s = (P, N)" and t: "tenants k sys D (P, N) L" and X: "X = snd ` L" and b: "(p, x) \<in> L"
    by (cases s) (auto simp: process_holds_def)
  show "\<exists>s'. process_return k sys v (adr x) s = Some s' \<and> process_holds k sys s' (X - {x}) \<and>
      keeps (process_bytes k) (\<lambda>s. mem_of (fst s)) (X - {x}) s s'"
    unfolding X s process_holds_def tenants_minus[OF t b, symmetric]
    by (rule tenants_return[OF t b, of v]) blast
next
  fix s s' :: tenancy and X x q
  assume "process_holds k sys s X" "x \<in> X" and r: "process_resize k q (adr x) s = Some s'"
  then obtain P N D L p t n where s: "s = (P, N)" and q: "q = (t, n)"
    and h: "tenants k sys D (P, N) L" and X: "X = snd ` L" and b: "(p, x) \<in> L"
    by (cases s; cases q) (auto simp: process_holds_def)
  note t = tenants_resize[OF h b r[unfolded s q]]
  show "process_holds k sys s' X \<and> extended (process_bytes k) (\<lambda>s. mem_of (fst s)) X x s s'"
    using t X s unfolding process_holds_def by blast
next
  fix s :: tenancy and X x i b
  assume "process_holds k sys s X" "x \<in> X" and i: "i < process_bytes k s x"
  then obtain P N D L p where s: "s = (P, N)" and h: "tenants k sys D (P, N) L" and X: "X = snd ` L" and b: "(p, x) \<in> L"
    by (cases s) (auto simp: process_holds_def)
  show "process_holds k sys (process_store (x + i) b s) X"
    using tenants_store[OF h b, of i] i X by (auto simp: s process_holds_def)
next
  fix s :: tenancy and X x y
  assume "process_holds k sys s X" and xy: "x \<in> X" "y \<in> X" "x \<noteq> y"
  then obtain P N D L p q where s: "s = (P, N)" and t: "tenants k sys D (P, N) L" and b: "(p, x) \<in> L" "(q, y) \<in> L"
    by (cases s) (auto simp: process_holds_def)
  have "process_bytes k s x = span_of k (mem_of P) (p, x)" "process_bytes k s y = span_of k (mem_of P) (q, y)"
    unfolding s by (rule fits_span[OF tenantsD(4)[OF t b(1)]], rule fits_span[OF tenantsD(4)[OF t b(2)]])
  then show "x + process_bytes k s x \<le> y \<or> y + process_bytes k s y \<le> x"
    using sub_apart[OF tenantsD(2)[OF t] b] xy(3) by simp
qed

section \<open>Where it starts\<close>

text \<open>A process in which nothing has been allocated: no thread has a state, no cache holds a run.\<close>

definition fresh_process :: "process \<Rightarrow> bool" where
  "fresh_process P \<longleftrightarrow> world_ok (pr_world P) \<and> (\<forall>t. pr_tls P t = nullptr \<and> no_cached t P)"

lemma fresh_holds:
  assumes "fresh_process P" "has_thread_state k"
  shows "sub_holds k sys {} P {}"
proof -
  have "estates k sys {} P {}" using assms by (simp add: estates_def fresh_process_def)
  moreover have "stocked k (mem_of P) {} (pr_cache P) (\<lambda>_ _. [])"
    using assms(1) by (simp add: stocked_def class_ok_def fresh_process_def no_cached_def)
  ultimately show ?thesis unfolding sub_holds_def by blast
qed

lemma fresh_source:
  assumes "fresh_process P" "has_thread_state k" "founded_on k sys" "created N = []"
  shows "process_holds k sys (P, N) {}"
proof -
  have "settled {} P" using assms(1) by (simp add: settled_def fresh_process_def)
  then have "tenants k sys {} (P, N) {}" using fresh_holds[OF assms(1,2)] assms(3,4) by (simp add: tenants_def)
  then show ?thesis unfolding process_holds_def by blast
qed

end
