(* ===== verification/Sub_Properties.thy ===== *)
theory Sub_Properties
  imports Sub_Session Runner_Properties Pool_Correct
begin

text \<open>
  The properties of the suballocated allocator as a whole: any interleaving of the calls of any
  number of threads is safe, the states of the threads and their registry, the size classes and the
  bound on the caches.
\<close>

section \<open>Every interleaving\<close>

text \<open>
  C1. Start from a process in which no thread has touched the allocator, and let any number of
  threads, in any order, ask for one element or several (the first call of a thread creates its
  state, small requests are served from its cache), create states of their own and ask through
  handles bound to them or rebound to another type, write anywhere in their blocks, give back any
  block on any thread through a handle like the one it came from (which puts it in that thread's
  cache, drains the cache, frees it or parks it with its owner), have a block expanded on any thread, and exit.  Then the next call of any thread is answered; a block that is granted
  is none that is held anywhere, overlaps none, and has room for all its elements; every block that
  is held can be given back on any thread; one that is expanded keeps its contents and does not
  shrink; and none of these changes a byte of the other blocks or their sizes.
\<close>

theorem process_session_safe:
  fixes q :: call and u :: nat
  assumes "session (process_request k sys) (process_return k sys) (process_resize k)
             process_store (process_bytes k) (\<lambda>s. sys_steady sys (pr_world (fst s))) UNIV (P0, N0) s L"
    and "fresh_process P0" "has_thread_state k" "founded_on k sys" "created N0 = []"
  shows "(sys_steady sys (pr_world (fst s)) \<longrightarrow> (\<exists>ans s'. process_request k sys q s = Some (ans, s') \<and>
      (\<forall>y \<in> L. process_bytes k s' y = process_bytes k s y \<and>
         (\<forall>i < process_bytes k s y. mem_of (fst s') (adr (y + i)) = mem_of (fst s) (adr (y + i)))) \<and>
      (\<forall>a. ans = Inr a \<longrightarrow> a \<noteq> nullptr \<longrightarrow>
         unat a \<notin> L \<and> call_bytes k q \<le> process_bytes k s' (unat a) \<and>
         (\<forall>y \<in> L. unat a + process_bytes k s' (unat a) \<le> y \<or> y + process_bytes k s y \<le> unat a)))) \<and>
    (x \<in> L \<longrightarrow> (\<exists>s'. process_return k sys u (adr x) s = Some s' \<and>
      (\<forall>y \<in> L - {x}. process_bytes k s' y = process_bytes k s y \<and>
         (\<forall>i < process_bytes k s y. mem_of (fst s') (adr (y + i)) = mem_of (fst s) (adr (y + i)))))) \<and>
    (x \<in> L \<longrightarrow> (\<exists>s'. process_resize k r (adr x) s = Some s' \<and> process_bytes k s x \<le> process_bytes k s' x \<and>
      (\<forall>i < process_bytes k s x. mem_of (fst s') (adr (x + i)) = mem_of (fst s) (adr (x + i))) \<and>
      (\<forall>y \<in> L - {x}. process_bytes k s' y = process_bytes k s y \<and>
         (\<forall>i < process_bytes k s y. mem_of (fst s') (adr (y + i)) = mem_of (fst s) (adr (y + i))))))"
  using process_source.reached_safe(1)[OF fresh_source[OF assms(2-5)] assms(1), where q = q]
    process_source.reached_safe(2)[OF fresh_source[OF assms(2-5)] assms(1), where x = x and v = u]
    process_source.reached_safe(3)[OF fresh_source[OF assms(2-5)] assms(1), where x = x and n = r]
    process_resize_total[of k r "adr x" s]
  unfolding keeps_def extended_def by blast

section \<open>The state of a thread\<close>

text \<open>The registry is the list \<open>xs\<close> of all states; a thread's state is one of them.\<close>

definition registered :: "process \<Rightarrow> nat list \<Rightarrow> bool" where
  "registered P xs \<longleftrightarrow> slist (pr_next P) (pr_registry P) xs \<and> distinct xs \<and>
     (\<forall>x \<in> set xs. adr x \<in> r_base ` set (live (pr_world P))) \<and>
     (\<forall>u. pr_tls P u \<noteq> nullptr \<longrightarrow> unat (pr_tls P u) \<in> set xs)"

lemma registered_push:
  assumes "registered P xs" "unat s \<notin> set xs" "s \<noteq> nullptr"
    and "pr_next P' = (pr_next P)(s := pr_registry P)" "pr_registry P' = s" "pr_tls P' = (pr_tls P)(t := s)"
    and "s \<in> r_base ` set (live (pr_world P'))" "set (live (pr_world P)) \<subseteq> set (live (pr_world P'))"
  shows "registered P' (unat s # xs)"
proof -
  have "slist ((pr_next P)(adr (unat s) := pr_registry P)) (pr_registry P) xs"
    using assms(1,2) unat_lt_64[of s] by (subst slist_upd) (simp_all add: registered_def)
  moreover have "adr x \<in> r_base ` set (live (pr_world P'))" if "x \<in> set xs" for x
    using assms(1,8) that unfolding registered_def by (meson image_mono subsetD)
  ultimately show ?thesis using assms unat_lt_64[of s] by (auto simp: registered_def unat_gt_0)
qed

text \<open>
  C8. The state of a thread is created once: the first touch throws \<open>bad_alloc\<close> and registers
  nothing, or it creates a state that no other thread has, empty and ready for use beside all the
  others, and puts it at the front of the registry; every later touch finds it and changes nothing.
  The states of the other threads, the blocks they have lent and the memory stay as they are.
\<close>

theorem thread_state_correct:
  assumes "estates k sys D P B" "founded_on k sys" "sys_honest sys (pr_world P)" "registered P xs"
  shows "\<exists>ans P'. thread_state k sys t P = Some (ans, P') \<and> mem_of P' = mem_of P \<and>
    (\<forall>u. u \<noteq> t \<longrightarrow> pr_tls P' u = pr_tls P u) \<and>
    (case ans of
       Inl e \<Rightarrow> e = Bad_alloc \<and> pr_tls P t = nullptr \<and> pr_tls P' t = nullptr \<and> registered P' xs \<and>
                live (pr_world P') = live (pr_world P) \<and> estates k sys D P' B
     | Inr s \<Rightarrow> s \<noteq> nullptr \<and> pr_tls P' t = s \<and> local_state_or_null k t P' = s \<and>
         thread_state k sys t P' = Some (Inr s, P') \<and>
         (if pr_tls P t \<noteq> nullptr then P' = P
          else registered P' (unat s # xs) \<and> (\<forall>u. pr_tls P u \<noteq> s) \<and> Nodes s \<notin> D \<and> Runs s \<notin> D \<and>
               estates k sys (insert (Nodes s) (insert (Runs s) D)) P' B))"
proof (cases "pr_tls P t = nullptr")
  case False
  then show ?thesis using estatesD(1)[OF assms(1)] by (simp add: thread_state_def local_state_or_null_def)
next
  case True
  obtain ans P' where f: "thread_state k sys t P = Some (ans, P')" "mem_of P' = mem_of P"
    "case ans of Inl _ \<Rightarrow> estates k sys D P' B \<and> pr_tls P' = pr_tls P
     | Inr s \<Rightarrow> s \<noteq> nullptr \<and> Nodes s \<notin> D \<and> Runs s \<notin> D \<and> pr_tls P' = (pr_tls P)(t := s) \<and>
         estates k sys (insert (Nodes s) (insert (Runs s) D)) P' B"
    using found_state[OF assms(1-3) True] by blast
  obtain fresh w where n: "op_new sys (sc_state_bytes k) (cache_line_size sys) (pr_world P) = (fresh, w)" by fastforce
  show ?thesis
  proof (cases "fresh = nullptr")
    case null: True
    then have "live w = live (pr_world P)" using n by (auto simp: op_new_def Let_def split: if_splits)
    moreover have "ans = Inl Bad_alloc" "P' = P\<lparr>pr_world := w\<rparr>" using f(1) n null True by (simp_all add: thread_state_def)
    ultimately show ?thesis using assms(4) f True by (simp add: registered_def)
  next
    case False
    let ?reg = "\<lparr>r_base = fresh, r_bytes = sc_state_bytes k, r_align = cache_line_size sys\<rparr>"
    have l: "live w = ?reg # live (pr_world P)" using n False by (auto simp: op_new_def Let_def split: if_splits)
    obtain st where st: "state_new_lazy k sys fresh = Inr st"
      by (simp add: state_new_lazy_def pool_new_lazy_def has_single_bit_4096)
    then have P': "ans = Inr fresh" "pr_next P' = (pr_next P)(fresh := pr_registry P)" "pr_registry P' = fresh"
      "pr_world P' = w" "pr_tls P' = (pr_tls P)(t := fresh)"
      using f(1) n False True by (auto simp: thread_state_def)
    have "world_ok w" using f(3) P'(1,4) estatesD(2) by fastforce
    then have "fresh \<notin> r_base ` set (live (pr_world P))" by (simp add: world_ok_def l)
    then have new: "unat fresh \<notin> set xs" using assms(4) by (auto simp: registered_def)
    then have "\<forall>u. pr_tls P u \<noteq> fresh" using assms(4) False by (auto simp: registered_def)
    moreover have "registered P' (unat fresh # xs)"
      by (rule registered_push[OF assms(4) new False P'(2,3,5)]) (auto simp: P'(4) l)
    moreover have "thread_state k sys t P' = Some (Inr fresh, P')" "local_state_or_null k t P' = fresh"
      using False P'(5) estatesD(1)[OF assms(1)] by (simp_all add: thread_state_def local_state_or_null_def)
    ultimately show ?thesis using f True P'(1,5) by (intro exI[of _ ans] exI[of _ P']) simp
  qed
qed

section \<open>The caches\<close>

text \<open>
  The size classes: a request of 1 to 4096 bytes has a class below 256, the class is the least
  one with enough bytes, and a larger request never has a smaller class.
\<close>

theorem tls_class_correct:
  assumes "0 < unat bytes" "unat bytes \<le> unat bytes'" "unat bytes' \<le> unat tls_run_cutoff"
  defines "idx \<equiv> tls_class_index_for bytes"
  shows "unat idx < unat tls_run_class_count \<and> unat bytes \<le> unat (tls_class_bytes idx) \<and>
    (\<forall>j < unat idx. unat (tls_class_bytes (adr j)) < unat bytes) \<and>
    unat idx \<le> unat (tls_class_index_for bytes')"
proof -
  have c: "unat tls_run_cutoff = 4096" by (simp add: tls_constants)
  have b: "unat bytes \<le> 4096" and b': "0 < unat bytes'" "unat bytes' \<le> 4096"
    using assms(1-3) by (simp_all add: c)
  note i = tls_class_index[OF assms(1) b] and i' = tls_class_index[OF b']
  have "(unat bytes - 1) div 16 \<le> (unat bytes' - 1) div 16" using assms(2) by (intro div_le_mono) simp
  moreover have "unat (tls_class_bytes (adr j)) < unat bytes" if "j < (unat bytes - 1) div 16" for j
  proof -
    have "16 * j + 16 < unat bytes" using that assms(1) by linarith
    then show ?thesis using b by (simp add: tls_class_bytes unat_adr)
  qed
  moreover have "unat bytes \<le> 16 * ((unat bytes - 1) div 16) + 16" using assms(1) by linarith
  ultimately show ?thesis
    using i i' by (simp add: idx_def tls_class_bytes tls_constants unat_adr)
qed

text \<open>
  C14. The cache stays small: a class that holds at most 32 runs still does after a deallocation;
  at 32 the deallocation first drains it to 16.  A drain leaves exactly the smaller of the two
  numbers, and every run it takes out goes back to the runner.
\<close>

theorem tls_cache_bounded:
  fixes t :: nat and own :: ptr
  assumes "sub_holds k sys D P L" "(Runs own, x) \<in> L" "1 < n" "can_use_tls_run_cache k handle_default n"
    and "unat n \<le> payload_bytes (mem_of P) x"
  defines "i \<equiv> unat (tls_class_index_for n)" and "P' \<equiv> sub_deallocate k sys t handle_default (adr x) n P"
  shows "tc_count (pr_cache P' t i) = (if tc_count (pr_cache P t i) \<ge> 32 then 17 else tc_count (pr_cache P t i) + 1) \<and>
    (\<forall>c. tc_count (pr_cache (tls_drain_class k t handle_default (adr i) c P) t i) = min (tc_count (pr_cache P t i)) c \<and>
         sub_holds k sys D (tls_drain_class k t handle_default (adr i) c P) L)"
proof -
  have sz: "sizeof (sc_ty k) = 1" "unat n \<le> 4096"
    using assms(4) by (simp_all add: can_use_tls_run_cache_def tls_constants word_le_nat_alt)
  have n1: "1 < unat n" using assms(3) by (simp add: word_less_nat_alt)
  note ti = tls_class_index[OF order.strict_trans[OF zero_less_one n1] sz(2)]
  have i: "i < 256" "tls_class_index_for n = adr i" using ti by (simp_all add: i_def)
  have d: "sub_holds k sys D (tls_drain_class k t handle_default (adr i) c P) L \<and>
      calm k sys L P (tls_drain_class k t handle_default (adr i) c P) \<and>
      tc_count (pr_cache (tls_drain_class k t handle_default (adr i) c P) t i) = min (tc_count (pr_cache P t i)) c" for c
    by (rule sub_drain[OF assms(1) i(1)])
  define P1 where "P1 = (if tc_count (pr_cache P t i) \<ge> tls_high_watermark
      then tls_drain_class k t handle_default (adr i) tls_drain_low_watermark P else P)"
  have h1: "sub_holds k sys D P1 L" using d assms(1) by (simp add: P1_def)
  have "payload_bytes (mem_of P1) x = payload_bytes (mem_of P) x"
    using d[of tls_drain_low_watermark] calm_span[OF _ assms(2)] by (auto simp: P1_def)
  moreover have "16 * i + 16 \<le> payload_bytes (mem_of P) x"
  proof -
    obtain q where q: "payload_bytes (mem_of P) x = 16 * q" using sub_run(1)[OF assms(1,2)] by (auto elim: dvdE)
    have "i = (unat n - 1) div 16" using ti by (simp add: i_def unat_adr)
    moreover have "unat n \<le> 16 * q" using assms(5) q by simp
    ultimately have "i < q" using n1 by (simp add: less_mult_imp_div_less)
    then show ?thesis using q by simp
  qed
  ultimately have big: "16 * i + 16 \<le> payload_bytes (mem_of P1) x" by simp
  note b = sub_run[OF assms(1,2)]
  have "adr x \<noteq> nullptr" "n \<noteq> 0" "n \<noteq> 1" "checked_mul n 1 = Some n"
    using b(6) n1 unat_lt_64[of n] by (auto simp: adr_eq_0_iff checked_mul_eq)
  then have "P' = tls_push t (adr i) (adr x) (runs_of k own) P1"
    using assms(4) i sz(1) sub_run(5)[OF h1 assms(2)]
    by (simp add: P'_def sub_deallocate_def deallocate_many_def deallocate_to_tls_run_cache_def Let_def P1_def[symmetric])
  then have "tc_count (pr_cache P' t i) = tc_count (pr_cache P1 t i) + 1"
    using sub_push(3)[OF h1 assms(2) i(1) big, of t] by simp
  moreover have "tc_count (pr_cache P1 t i) = (if tc_count (pr_cache P t i) \<ge> 32 then 16 else tc_count (pr_cache P t i))"
  proof (cases "tc_count (pr_cache P t i) \<ge> 32")
    case True
    then have "min (tc_count (pr_cache P t i)) 16 = 16" by (simp add: min_absorb2 word_le_nat_alt)
    then show ?thesis using True d[of 16] by (simp add: P1_def tls_high_watermark_def tls_drain_low_watermark_def)
  next
    case False
    then show ?thesis by (simp add: P1_def tls_high_watermark_def)
  qed
  ultimately show ?thesis using d by simp
qed

end
