(* ===== verification/Sub_Ownership.thy ===== *)
theory Sub_Ownership
  imports Sub_Session
begin

text \<open>
  Who owns a block: single elements live in the node pool of the thread that allocated them, runs in
  its runner, and a free on any thread finds the owner through the block - the header of the granule
  for a node, the word before the payload for a run.  Expansion in place is for own blocks only.
\<close>

section \<open>Single elements\<close>

text \<open>
  C10. One element comes from the node pool of the calling thread: the call always ends and never
  returns null; an element that is granted was not lent before and is lent now; when the pool can
  give none the call throws and no element is lent or taken.  No runner and no other pool changes.
\<close>

theorem single_allocate_correct:
  assumes "has_thread_state k" "pr_tls P t = s" "s \<noteq> nullptr" "ty_ok (sc_ty k)"
    and "pool_inv (node_pool_cfg k) (pr_pools P s) (pr_world P) fl rl" "sys_honest sys (pr_world P)"
  shows "\<exists>ans P' fl' rl'. sub_allocate k sys t handle_default 1 P = Some (ans, P') \<and>
    pool_inv (node_pool_cfg k) (pr_pools P' s) (pr_world P') fl' rl' \<and> pr_runs P' = pr_runs P \<and>
    (\<forall>q. q \<noteq> s \<longrightarrow> pr_pools P' q = pr_pools P q) \<and>
    (case ans of
       Inl e \<Rightarrow> lent (node_pool_cfg k) (pr_pools P' s) fl' rl' = lent (node_pool_cfg k) (pr_pools P s) fl rl
     | Inr a \<Rightarrow> a \<noteq> nullptr \<and> unat a \<notin> lent (node_pool_cfg k) (pr_pools P s) fl rl \<and>
         lent (node_pool_cfg k) (pr_pools P' s) fl' rl' = insert (unat a) (lent (node_pool_cfg k) (pr_pools P s) fl rl))"
proof -
  obtain r p' w' where a: "pool_allocate (node_pool_cfg k) sys (pr_pools P s) (pr_world P) = Some (r, p', w')"
    "alloc_post (node_pool_cfg k) (pr_pools P s) (pr_world P) fl rl (r, p', w')"
    using pool_allocate_post[OF assms(5,6)] by (metis prod_cases3)
  then obtain fl' rl' where post: "pool_inv (node_pool_cfg k) p' w' fl' rl'"
    "alloc_outcome (node_pool_cfg k) (pr_pools P s) fl rl r p' (lent (node_pool_cfg k) p' fl' rl')"
    by (auto simp: alloc_post_def)
  define P' where "P' = P\<lparr>pr_pools := (pr_pools P)(s := p'), pr_world := w'\<rparr>"
  have n: "nodes_allocate k sys s P = Some (r, P')" by (simp add: nodes_allocate_def a(1) P'_def)
  have ts: "alloc_state k sys t handle_default P = Some (Inr s, P)"
    using assms(1-3) by (simp add: alloc_state_def handle_default_def thread_state_def)
  have "sub_max_size k \<noteq> 0"
  proof -
    have "0 < unat (sizeof (sc_ty k))" by (rule ty_ok_pos[OF assms(4)])
    moreover have "unat (sizeof (sc_ty k)) \<le> unat size_max" using unat_lt_64[of "sizeof (sc_ty k)"] by (simp add: unat_size_max)
    ultimately have "0 < unat size_max div unat (sizeof (sc_ty k))" by (simp add: div_greater_zero_iff)
    then have "0 < unat (sub_max_size k)" by (simp add: sub_max_size_def unat_div del: unat_size_max)
    then show ?thesis by (simp add: unat_gt_0)
  qed
  then have al: "sub_allocate k sys t handle_default 1 P =
      andthen (nodes_allocate k sys s) (\<lambda>p. if p = nullptr then throw Bad_alloc else ret p) P"
    using assms(3) by (simp add: sub_allocate_def allocate_one_def andthen_eq(1)[of "alloc_state k sys t handle_default", OF ts])
  have inv': "pool_inv (node_pool_cfg k) (pr_pools P' s) (pr_world P') fl' rl'" "pr_runs P' = pr_runs P"
    "\<forall>q. q \<noteq> s \<longrightarrow> pr_pools P' q = pr_pools P q" "pr_pools P' s = p'"
    using post(1) by (simp_all add: P'_def)
  show ?thesis
  proof (cases r)
    case (Inl e)
    then have "sub_allocate k sys t handle_default 1 P = Some (Inl e, P')" using n by (simp add: al andthen_eq)
    then show ?thesis using inv' post(2) Inl
      by (intro exI[of _ "Inl e"] exI[of _ P'] exI[of _ fl'] exI[of _ rl']) (simp add: alloc_outcome_def)
  next
    case (Inr a)
    show ?thesis
    proof (cases "a = nullptr")
      case True
      then have "sub_allocate k sys t handle_default 1 P = Some (Inl Bad_alloc, P')"
        using n Inr by (simp add: al andthen_eq)
      then show ?thesis using inv' post(2) Inr True
        by (intro exI[of _ "Inl Bad_alloc"] exI[of _ P'] exI[of _ fl'] exI[of _ rl']) (simp add: alloc_outcome_def)
    next
      case False
      then have "sub_allocate k sys t handle_default 1 P = Some (Inr a, P')"
        using n Inr by (simp add: al andthen_eq)
      moreover obtain x where "a = adr x" "x < 2 ^ 64" "x \<notin> lent (node_pool_cfg k) (pr_pools P s) fl rl"
        "lent (node_pool_cfg k) p' fl' rl' = insert x (lent (node_pool_cfg k) (pr_pools P s) fl rl)"
        using post(2) Inr False by (auto simp: alloc_outcome_def)
      ultimately show ?thesis using inv' False
        by (intro exI[of _ "Inr a"] exI[of _ P'] exI[of _ fl'] exI[of _ rl']) (simp add: unat_adr)
    qed
  qed
qed

text \<open>
  C4. A single element goes back to the pool that lent it, whichever thread frees it: masking its
  address reaches the owner.  The owner's thread puts the element on the free list; any other
  thread, also one that has no state, parks it on the owner's remote stack and changes nothing else
  of the owner.  No other pool and no runner changes, and no other word of memory.
\<close>

theorem single_free_routed:
  fixes t :: nat and sys :: sys
  assumes "has_thread_state k" "s \<noteq> nullptr"
    and "pool_inv (node_pool_cfg k) (pr_pools P s) (pr_world P) fl rl" "p_self (pr_pools P s) = s"
    and "p_page_size (pr_pools P s) = detect_page_size (sys_sysconf sys)"
    and "x \<in> lent (node_pool_cfg k) (pr_pools P s) fl rl"
  defines "P' \<equiv> sub_deallocate k sys t handle_default (adr x) 1 P"
  shows "(if pr_tls P t = s
     then pool_inv (node_pool_cfg k) (pr_pools P' s) (pr_world P') (x # fl) rl \<and>
       lent (node_pool_cfg k) (pr_pools P' s) (x # fl) rl = lent (node_pool_cfg k) (pr_pools P s) fl rl - {x}
     else pool_inv (node_pool_cfg k) (pr_pools P' s) (pr_world P') fl (x # rl) \<and>
       lent (node_pool_cfg k) (pr_pools P' s) fl (x # rl) = lent (node_pool_cfg k) (pr_pools P s) fl rl - {x} \<and>
       pr_pools P' s = (pr_pools P s)\<lparr>p_remote := adr x\<rparr>) \<and>
    (\<forall>q. q \<noteq> s \<longrightarrow> pr_pools P' q = pr_pools P q) \<and> pr_runs P' = pr_runs P \<and>
    (\<forall>y. y \<noteq> adr x \<longrightarrow> mem_of P' y = mem_of P y)"
proof -
  have hb: "heap_backed_mode (sc_mode k)" "cfg_headers (node_pool_cfg k)" "cfg_ty (node_pool_cfg k) = sc_ty k"
    using assms(1) by (simp_all add: has_thread_state_def node_pool_cfg_def)
  note l = lent_slot[OF assms(3,6)]
  have own: "mem_of P (granule_of (granule_for (sc_ty k) (detect_page_size (sys_sysconf sys))) (adr x)) = s"
    using owner_word_of_slot[OF assms(3) hb(2) l(1)] assms(4,5) hb(3) by simp
  have "adr x \<noteq> nullptr" using l(4,5) by (simp add: adr_eq_0_iff)
  then have P': "P' = (if pr_tls P t = s then on_pool s (pool_deallocate (adr x)) P else on_pool s (pool_remote_push (adr x)) P)"
    using assms(1,2) hb(1) own
    by (auto simp: P'_def sub_deallocate_def free_node_routed_def handle_default_def local_state_or_null_def Let_def)
  obtain p1 m1 where d: "pool_deallocate (adr x) (pr_pools P s, mem_of P) = (p1, m1)" by fastforce
  obtain p2 m2 where r: "pool_remote_push (adr x) (pr_pools P s, mem_of P) = (p2, m2)" by fastforce
  note dd = pool_deallocate_inv[OF assms(3,6) d] and rr = pool_remote_push_inv[OF assms(3,6) hb(2) r]
  show ?thesis using dd rr by (simp add: P' on_pool_def d r)
qed

section \<open>Runs\<close>

text \<open>
  C9. The same for runs: a free on any thread reaches the runner whose address lies before the
  payload.  On its own thread the run is freed and merged; on another it is parked, and only the
  head of the owner's remote stack and the first word of the payload change.  No other runner and
  no pool changes, and the other blocks that are lent keep their sizes and contents.
\<close>

theorem run_free_routed:
  fixes t :: nat
  assumes "has_thread_state k" "runner_inv (runs_cfg k) (pr_runs P o') (pr_world P) G rl" "rn_self (pr_runs P o') = o'"
    and "(x, s) \<in> lent_runs G rl"
  defines "P' \<equiv> free_run_routed k t handle_default (adr (x + 16)) P"
  shows "\<exists>G' rl'. runner_inv (runs_cfg k) (pr_runs P' o') (pr_world P') G' rl' \<and>
    lent_runs G' rl' = lent_runs G rl - {(x, s)} \<and> quiet (lent_runs G rl - {(x, s)}) (mem_of P) (mem_of P') \<and>
    (if local_runs_or_null k t handle_default P = o' then rl' = rl
     else G' = G \<and> rl' = (x + 16) # rl \<and> pr_runs P' o' = (pr_runs P o')\<lparr>rn_remote := adr (x + 16)\<rparr> \<and>
       mem_of P' = (mem_of P)(adr (x + 16) := rn_remote (pr_runs P o'))) \<and>
    (\<forall>q. q \<noteq> o' \<longrightarrow> pr_runs P' q = pr_runs P q) \<and> pr_pools P' = pr_pools P"
proof -
  note u = lent_used[OF assms(4), THEN conjunct1]
  have own: "owner_of (adr (x + 16)) (mem_of P) = o'" using owner_of_used[OF assms(2) u] assms(3) by simp
  have P': "P' = send_home k (local_runs_or_null k t handle_default P) o' (adr (x + 16)) P"
    using own by (simp add: P'_def free_run_routed_def handle_default_def)
  show ?thesis
  proof (cases "local_runs_or_null k t handle_default P = o'")
    case True
    obtain r' m' G' where d: "deallocate_bytes (runs_cfg k) (adr (x + 16)) (pr_runs P o', mem_of P) = (r', m')"
      "runner_inv (runs_cfg k) r' ((pr_world P)\<lparr>cells := m'\<rparr>) G' rl" "lent_runs G' rl = lent_runs G rl - {(x, s)}"
      "quiet (used_runs G - {(x, s)}) (mem_of P) m'"
      using runner_deallocate_step[OF assms(2,4)] by blast
    have "quiet (lent_runs G rl - {(x, s)}) (mem_of P) m'"
      using quiet_mono[OF d(4)] lent_sub[of G rl] by (simp add: Diff_mono)
    then show ?thesis using d True
      by (intro exI[of _ G'] exI[of _ rl]) (simp add: P' send_home_def on_runs_def)
  next
    case False
    note p = runner_push_step[OF assms(2,4)]
    have "quiet (lent_runs G rl - {(x, s)}) (mem_of P) ((mem_of P)(adr (x + 16) := rn_remote (pr_runs P o')))"
      using quiet_mono[OF p(3)] lent_sub[of G rl] p(4) by (simp add: Diff_mono)
    then show ?thesis using p False
      by (intro exI[of _ G] exI[of _ "(x + 16) # rl"]) (simp add: P' send_home_def on_runs_def)
  qed
qed

section \<open>Expansion\<close>

text \<open>
  C15. \<open>expand\<close> on a block that is held, by any thread.  A run of the thread's own runner stays in
  place with its contents, the result is its size afterwards, and it is at least the size asked for
  or else nothing has changed; a node of the thread's own pool has the size of its element; every
  other block, a run or a node of another thread, is refused with 0; the last two leave the process
  as it is.  All other blocks keep their sizes and
  contents.
\<close>

theorem sub_expand_correct:
  fixes n :: u64 and t :: nat
  assumes h: "sub_holds k sys D P L" and st: "settled D P" and b: "(p, x) \<in> L"
  shows "\<exists>bytes P'. sub_expand k t handle_default (adr x) n P = (bytes, P') \<and> sub_holds k sys D P' L \<and>
    calm k sys (L - {(p, x)}) P P' \<and>
    (if pr_tls P t \<noteq> nullptr \<and> p = Runs (pr_tls P t)
     then unat bytes = payload_bytes (mem_of P') x \<and> payload_bytes (mem_of P) x \<le> payload_bytes (mem_of P') x \<and>
       (\<forall>i < payload_bytes (mem_of P) x. mem_of P' (adr (x + i)) = mem_of P (adr (x + i))) \<and> (n \<le> bytes \<or> P' = P)
     else P' = P \<and> bytes = (if pr_tls P t \<noteq> nullptr \<and> p = Nodes (pr_tls P t) then sizeof (sc_ty k) else 0))"
  by (rule sub_expand_step[OF assms])

end
