(* ===== verification/Sub_Contract.thy ===== *)
theory Sub_Contract
  imports Sub_Session
begin

text \<open>
  The contract of the suballocated allocator towards containers: which counts it returns, when it
  throws, what a rebound handle is bound to; and three places where the code does less than it
  means to: counts beyond \<open>max_size\<close>, the equality of handles rebound away and back, and an
  exception in the refill of the cache.
\<close>

section \<open>Counts and errors\<close>

text \<open>
  C18. \<open>allocate_at_least\<close> for a count that can be allocated at all: it asks for half as many more in
  dynamic mode, never for fewer than \<open>n\<close> and never for more than \<open>max_size\<close>, and returns exactly
  the count it has asked \<open>allocate\<close> for.
\<close>

theorem at_least_count_correct:
  assumes "n \<le> sub_max_size k"
  shows "unat (at_least_count k n) =
      (if dynamic_mode (sc_mode k) \<and> 1 < n then min (unat n + unat n div 2) (unat (sub_max_size k)) else unat n) \<and>
    n \<le> at_least_count k n \<and> at_least_count k n \<le> sub_max_size k \<and>
    sub_allocate_at_least k sys t h n P =
      (if n = 0 then Some (Inr (nullptr, 0), P)
       else case sub_allocate k sys t h (at_least_count k n) P of
         None \<Rightarrow> None
       | Some (Inl e, P') \<Rightarrow> Some (Inl e, P')
       | Some (Inr p, P') \<Rightarrow> Some (Inr (p, at_least_count k n), P'))"
proof -
  have le: "unat n \<le> unat (sub_max_size k)" using assms by (simp add: word_le_nat_alt)
  have half: "unat (n div 2) = unat n div 2" by (simp add: unat_div)
  have sub: "unat (sub_max_size k - n div 2) = unat (sub_max_size k) - unat n div 2"
    using le half by (subst unat_sub) (simp_all add: word_le_nat_alt)
  have more: "n > sub_max_size k - n div 2 \<longleftrightarrow> unat (sub_max_size k) < unat n + unat n div 2"
    using le by (simp add: word_less_nat_alt sub) linarith
  have plus: "unat (n + n div 2) = unat n + unat n div 2" if "unat n + unat n div 2 \<le> unat (sub_max_size k)"
    using that half unat_lt_64[of "sub_max_size k"] by (simp add: unat_plus_le)
  have count: "unat (at_least_count k n) =
      (if dynamic_mode (sc_mode k) \<and> 1 < n then min (unat n + unat n div 2) (unat (sub_max_size k)) else unat n)"
    using more plus by (auto simp: at_least_count_def Let_def min_def)
  moreover have "n \<le> at_least_count k n" "at_least_count k n \<le> sub_max_size k"
    using count le by (auto simp: word_le_nat_alt)
  ultimately show ?thesis
    by (auto simp: sub_allocate_at_least_def Let_def andthen_def ret_def split: option.splits sum.splits)
qed

text \<open>
  C39. Beyond \<open>max_size\<close> the computation of \<open>allocate_at_least\<close> wraps: for 16-byte elements a
  request for 12297829382473034412 of them, which \<open>allocate\<close> refuses with
  \<open>bad_array_new_length\<close>, is turned into one for two, and succeeds with a count of two.
\<close>

theorem at_least_count_wraps:
  assumes "dynamic_mode (sc_mode k)" "sizeof (sc_ty k) = 16" "sub_allocate k sys t h 2 P = Some (Inr p, P')"
  defines "n \<equiv> 12297829382473034412 :: u64"
  shows "sub_max_size k < n \<and> sub_allocate k sys t h n P = Some (Inl Bad_array_new_length, P) \<and>
    sub_allocate_at_least k sys t h n P = Some (Inr (p, 2), P')"
proof -
  have m: "sub_max_size k = 1152921504606846975" by (simp add: sub_max_size_def assms(2) size_max_def)
  have "at_least_count k n = 2" by (simp add: at_least_count_def m n_def Let_def assms(1))
  moreover have n: "sub_max_size k < n" "n \<noteq> 0" by (simp_all add: m n_def)
  ultimately have "sub_allocate_at_least k sys t h n P = Some (Inr (p, 2), P')"
    by (simp add: sub_allocate_at_least_def Let_def andthen_eq(1)[of "sub_allocate k sys t h 2", OF assms(3)])
  then show ?thesis using n by (simp add: sub_allocate_def)
qed

text \<open>
  \<open>allocate\<close> answers with null exactly for the count zero: more than \<open>max_size\<close> elements throw
  \<open>bad_array_new_length\<close> before anything has changed, and whenever memory cannot be had it throws.
\<close>

theorem sub_allocate_errors:
  shows "sub_allocate k sys t h 0 P = Some (Inr nullptr, P) \<and>
    (n > sub_max_size k \<longrightarrow> sub_allocate k sys t h n P = Some (Inl Bad_array_new_length, P)) \<and>
    (n \<noteq> 0 \<longrightarrow> sub_allocate k sys t h n P \<noteq> Some (Inr nullptr, P'))"
proof -
  have runs: "runs_or_throw k sys t h b P \<noteq> Some (Inr nullptr, P')" for b P
    by (auto simp: runs_or_throw_def andthen_def throw_def ret_def split: option.splits sum.splits if_splits)
  have "allocate_one k sys t h P \<noteq> Some (Inr nullptr, P')"
    using runs by (auto simp: allocate_one_def andthen_def throw_def ret_def split: option.splits sum.splits if_splits)
  moreover have "allocate_many k sys t h n P \<noteq> Some (Inr nullptr, P')"
    using runs by (auto simp: allocate_many_def andthen_def throw_def ret_def split: option.splits sum.splits if_splits)
  ultimately show ?thesis by (auto simp: sub_allocate_def)
qed

section \<open>Handles\<close>

text \<open>
  C17. Rebinding keeps a handle confined: a default handle stays one, and an explicit handle that is
  rebound, any number of times, draws from the runner of the state it was bound to and creates no
  other.  But rebinding an explicit handle away and back gives a handle that compares unequal to the
  first, although it draws on the same runner.
\<close>

theorem handle_rebind_correct:
  fixes k' :: sub_cfg
  assumes "s \<noteq> nullptr" "runs_of k s \<noteq> nullptr"
  defines "away \<equiv> handle_rebind k (handle_explicit s)"
  defines "back \<equiv> handle_rebind k' away"
  shows "handle_rebind k handle_default = handle_default \<and>
    confined_runs k' away = runs_of k s \<and> confined_runs k'' back = runs_of k s \<and>
    runs_ptr k' sys t away P = Some (Inr (runs_of k s), P) \<and> local_runs_or_null k' t away P = runs_of k s \<and>
    has_allocation_resource away \<and> handle_state k' sys t away P = Some (Inr nullptr, P) \<and>
    handle_eq away back \<and> handle_neq back (handle_explicit s)"
  using assms(1,2)
  by (simp add: away_def back_def handle_rebind_def handle_explicit_def handle_default_def confined_runs_def
      runs_ptr_def local_runs_or_null_def has_allocation_resource_def handle_state_def handle_eq_def handle_neq_def)

section \<open>An exception in the refill\<close>

text \<open>
  C40. In dynamic mode the refill of the cache may throw after the first run of the class has been
  granted.  The exception reaches the caller, and the run is lost: it stays lent, no client has it
  and it is in no list of the cache, although it would have answered the request.
\<close>

theorem refill_throw_leaks:
  fixes s :: ptr and t :: nat
  assumes h: "sub_holds k sys D P L" and hs: "house D t s P" and steady: "sys_steady sys (pr_world P)"
    and dyn: "dynamic_mode (sc_mode k)" and bytes: "0 < unat bytes" "unat bytes \<le> 4096"
    and empty: "tc_count (pr_cache P t (unat (tls_class_index_for bytes))) = 0"
    and one: "runs_allocate k sys (runs_of k s) (tls_class_bytes (tls_class_index_for bytes)) (alignof (sc_ty k)) P = Some (Inr raw, P1)"
    and raw: "raw \<noteq> nullptr"
    and two: "runs_allocate k sys (runs_of k s) (tls_class_bytes (tls_class_index_for bytes)) (alignof (sc_ty k)) P1 = Some (Inl e, P2)"
  shows "allocate_from_tls_run_cache k sys t handle_default bytes P = Some (Inl e, P2) \<and>
    (Runs s, unat raw) \<notin> L \<and> sub_holds k sys D P2 (insert (Runs s, unat raw) L) \<and>
    tc_count (pr_cache P2 t (unat (tls_class_index_for bytes))) = 0"
proof -
  define i where "i = (unat bytes - 1) div 16"
  have idx: "tls_class_index_for bytes = adr i" "i < 256" using tls_class_index[OF bytes] by (simp_all add: i_def)
  let ?b = "(Runs s, unat raw)"
  have D: "Runs s \<in> D" using hs by (simp add: house_def)
  have P1': "?b \<notin> L" "sub_holds k sys D P1 (insert ?b L)" "calm k sys L P P1"
    using sub_request[OF h D steady, of "tls_class_bytes (tls_class_index_for bytes)" "alignof (sc_ty k)"] one raw
    by (auto simp: granted_def)
  have st1: "sys_steady sys (pr_world P1)" using calm_steady[OF P1'(3) steady] .
  have h2: "sub_holds k sys D P2 (insert ?b L)"
    using sub_request[OF P1'(2) D st1, of "tls_class_bytes (tls_class_index_for bytes)" "alignof (sc_ty k)"] two
    by (auto simp: granted_def)
  have cache: "pr_cache P1 = pr_cache P" "pr_cache P2 = pr_cache P1"
    using one two by (auto simp: runs_allocate_def split: option.splits prod.splits)
  have zero: "tc_count (pr_cache P t i) = 0" using empty idx by simp
  from h idx(2) have pop: "tls_pop_for_owner t (adr i) (runs_of k s) P = Some (nullptr, P)"
    by (cases rule: sub_pop_for[where t = t and s = s]) (use zero in simp_all)
  note a = house_runs(3)[OF hs h] house_runs(3)[OF house_calm[OF hs P1'(3)] P1'(2)]
  let ?one = "runs_allocate k sys (runs_of k s) (tls_class_bytes (adr i)) (alignof (sc_ty k))"
  have r: "andthen ?one g P = g raw P1" "andthen ?one g' P1 = Some (Inl e, P2)" for g g'
    using andthen_eq(1)[of ?one P raw P1 g] andthen_eq(2)[of ?one P1 e P2 g'] one two idx(1) by simp_all
  have "tls_refill k sys t handle_default (adr i) (runs_of k s) (Suc n) P1 = Some (Inl e, P2)" for n
    by (simp add: a r(2))
  then have "tls_refill k sys t handle_default (adr i) (runs_of k s) (tls_refill_batch - 1) P1 = Some (Inl e, P2)"
    by (simp add: tls_refill_batch_def numeral_3_eq_3)
  then have "tls_fresh k sys t handle_default (adr i) (runs_of k s) raw P1 = Some (Inl e, P2)"
    using dyn by (simp add: tls_fresh_def andthen_eq)
  moreover have more: "andthen (andthen (runs_ptr k sys t handle_default)
      (\<lambda>o'. runs_allocate k sys o' (tls_class_bytes (adr i)) (alignof (sc_ty k)))) g P = g raw P1" for g
    by (rule andthen_eq(1)) (use one idx(1) in \<open>simp add: a\<close>)
  ultimately have "allocate_from_tls_run_cache k sys t handle_default bytes P = Some (Inl e, P2)"
    unfolding allocate_from_tls_run_cache_def Let_def idx(1) by (simp add: a(1) pop more raw)
  then show ?thesis using P1'(1) h2 zero idx cache by simp
qed

end
