(* ===== verification/Object_Life.thy ===== *)
theory Object_Life
  imports Sub_Session
begin

text \<open>
  Objects in the blocks: \<open>construct\<close> and \<open>destroy\<close>, with the constructors and the destructor of the
  user's type as parameters.  A client of the process constructs and destroys objects in the blocks
  it holds; whatever the allocator does in between, every object that lives keeps the representation
  its constructor has left.
\<close>

section \<open>Construction and destruction\<close>

text \<open>A constructor takes its arguments and the place of the object, and may throw.\<close>

type_synonym ('c, 'e) ctor = "'c \<Rightarrow> ptr \<Rightarrow> memory \<Rightarrow> ('e + unit) \<times> memory"
type_synonym dtor = "ptr \<Rightarrow> memory \<Rightarrow> memory"

definition pool_construct :: "('c, 'e) ctor \<Rightarrow> ptr \<Rightarrow> 'c \<Rightarrow> pool_mem \<Rightarrow> ('e + ptr) \<times> pool_mem" where
  "pool_construct ctor p args s =
     (case ctor args p (snd s) of
        (Inl e, m) \<Rightarrow> (Inl e, (fst s, m))
      | (Inr _, m) \<Rightarrow> (Inr p, (fst s, m)))"

definition pool_destroy_object :: "dtor \<Rightarrow> ptr \<Rightarrow> pool_mem \<Rightarrow> pool_mem" where
  "pool_destroy_object dtor p s = (if p = nullptr then s else (fst s, dtor p (snd s)))"

definition sub_construct :: "('c, 'e) ctor \<Rightarrow> ptr \<Rightarrow> 'c \<Rightarrow> process \<Rightarrow> ('e + unit) \<times> process" where
  "sub_construct ctor p args P = (case ctor args p (mem_of P) of (r, m) \<Rightarrow> (r, set_mem m P))"

definition sub_destroy :: "dtor \<Rightarrow> ptr \<Rightarrow> process \<Rightarrow> process" where
  "sub_destroy dtor p P = set_mem (dtor p (mem_of P)) P"

definition excl_construct :: "('c, 'e) ctor \<Rightarrow> ptr \<Rightarrow> 'c \<Rightarrow> world \<Rightarrow> ('e + unit) \<times> world" where
  "excl_construct ctor p args w = (case ctor args p (cells w) of (r, m) \<Rightarrow> (r, w\<lparr>cells := m\<rparr>))"

definition excl_destroy :: "dtor \<Rightarrow> ptr \<Rightarrow> world \<Rightarrow> world" where
  "excl_destroy dtor p w = w\<lparr>cells := dtor p (cells w)\<rparr>"

text \<open>
  What a user's type of \<open>sz\<close> bytes owes: constructor and destructor write only into the object, a
  constructor that returns leaves a good representation, and goodness depends on the object's bytes.
\<close>

definition writes_within :: "ptr \<Rightarrow> nat \<Rightarrow> memory \<Rightarrow> memory \<Rightarrow> bool" where
  "writes_within p n m m' \<longleftrightarrow> (\<forall>a. m' a \<noteq> m a \<longrightarrow> unat p \<le> unat a \<and> unat a < unat p + n)"

definition user_type :: "nat \<Rightarrow> ('c, 'e) ctor \<Rightarrow> dtor \<Rightarrow> (memory \<Rightarrow> ptr \<Rightarrow> bool) \<Rightarrow> bool" where
  "user_type sz ctor dtor rep \<longleftrightarrow>
     (\<forall>args p m. writes_within p sz m (snd (ctor args p m)) \<and>
        (\<forall>u. fst (ctor args p m) = Inr u \<longrightarrow> rep (snd (ctor args p m)) p)) \<and>
     (\<forall>p m. writes_within p sz m (dtor p m)) \<and>
     (\<forall>p m m'. rep m p \<longrightarrow> (\<forall>i < sz. m' (adr (unat p + i)) = m (adr (unat p + i))) \<longrightarrow> rep m' p)"

lemma user_typeD:
  assumes "user_type sz ctor dtor rep"
  shows "ctor args p m = (r, m') \<Longrightarrow> writes_within p sz m m'" "ctor args p m = (Inr u, m') \<Longrightarrow> rep m' p"
    and "writes_within p sz m (dtor p m)"
    and "rep m p \<Longrightarrow> (\<And>i. i < sz \<Longrightarrow> m' (adr (unat p + i)) = m (adr (unat p + i))) \<Longrightarrow> rep m' p"
proof -
  show "ctor args p m = (r, m') \<Longrightarrow> writes_within p sz m m'" using assms unfolding user_type_def by (metis snd_conv)
  show "ctor args p m = (Inr u, m') \<Longrightarrow> rep m' p" using assms unfolding user_type_def by (metis fst_conv snd_conv)
  show "writes_within p sz m (dtor p m)"
    "rep m p \<Longrightarrow> (\<And>i. i < sz \<Longrightarrow> m' (adr (unat p + i)) = m (adr (unat p + i))) \<Longrightarrow> rep m' p"
    using assms unfolding user_type_def by blast+
qed

section \<open>Writing all over a block\<close>

text \<open>Any write inside a block is a sequence of stores.\<close>

lemma sub_overwrite:
  assumes "sub_holds k sys D P L" "(p, x) \<in> L" "n \<le> span_of k (mem_of P) (p, x)"
    and "\<And>a. m' a \<noteq> mem_of P a \<Longrightarrow> x \<le> unat a \<and> unat a < x + n"
  shows "sub_holds k sys D (set_mem m' P) L \<and> calm k sys (L - {(p, x)}) P (set_mem m' P) \<and>
    span_of k m' (p, x) = span_of k (mem_of P) (p, x)"
  using assms(3,4)
proof (induction n arbitrary: m')
  case 0
  then have "m' a = mem_of P a" for a by fastforce
  then have "m' = mem_of P" by blast
  then have "set_mem m' P = P" by (simp add: set_mem_def)
  then show ?case using assms(1) \<open>m' = mem_of P\<close> by simp
next
  case (Suc n)
  let ?a = "adr (x + n)"
  define m1 where "m1 = m'(?a := mem_of P ?a)"
  have x: "x + n < 2 ^ 64" using sub_range(3)[OF assms(1,2)] Suc.prems(1) by linarith
  have "x \<le> unat a \<and> unat a < x + n" if "m1 a \<noteq> mem_of P a" for a
  proof -
    have a: "a \<noteq> ?a" "m' a \<noteq> mem_of P a" using that by (auto simp: m1_def split: if_splits)
    have "unat a \<noteq> x + n" using a(1) x by (metis adr_unat)
    then show ?thesis using Suc.prems(2)[OF a(2)] by simp
  qed
  with Suc.IH[of m1] Suc.prems(1) have IH: "sub_holds k sys D (set_mem m1 P) L" "calm k sys (L - {(p, x)}) P (set_mem m1 P)"
    "span_of k m1 (p, x) = span_of k (mem_of P) (p, x)" by simp_all
  have i: "n < span_of k (mem_of (set_mem m1 P)) (p, x)" using Suc.prems(1) IH(3) by (simp add: set_mem_def)
  note st = sub_store[OF IH(1) assms(2) i, of "m' ?a"]
  have "set_mem ((mem_of (set_mem m1 P))(?a := m' ?a)) (set_mem m1 P) = set_mem m' P"
    by (simp add: set_mem_def m1_def)
  then show ?case using st IH(2,3) calm_trans[OF IH(2)] by (simp add: set_mem_def)
qed

lemma tenants_overwrite:
  assumes h: "tenants k sys D (P, N) L" and b: "(p, x) \<in> L" and n: "n \<le> process_bytes k (P, N) x"
    and w: "\<And>a. m' a \<noteq> mem_of P a \<Longrightarrow> x \<le> unat a \<and> unat a < x + n"
  shows "tenants k sys D (set_mem m' P, N) L"
    and "\<And>y. y \<in> snd ` L \<Longrightarrow> process_bytes k (set_mem m' P, N) y = process_bytes k (P, N) y"
proof -
  have hs: "sub_holds k sys D P L" and f: "\<And>b. b \<in> L \<Longrightarrow> fits k (mem_of P) N b" using tenantsD(2,4)[OF h] by blast+
  have "process_bytes k (P, N) x = span_of k (mem_of P) (p, x)" by (rule fits_span[OF f[OF b]])
  then have "n \<le> span_of k (mem_of P) (p, x)" using n by simp
  note o = sub_overwrite[OF hs b this w, of m']
  have u: "undisturbed k (L - {(p, x)}) (mem_of P) (mem_of (set_mem m' P))" using o by (simp add: calm_def)
  have "mem_of (set_mem m' P) = m'" by (simp add: set_mem_def)
  then have fx: "fits k (mem_of (set_mem m' P)) N (p, x)" using f[OF b] o by (simp add: fits_def lease_ok_def)
  then have fits: "\<forall>b \<in> L. fits k (mem_of (set_mem m' P)) N b"
    using tenants_undisturbed(1)[OF h Diff_subset u refl] by blast
  show "tenants k sys D (set_mem m' P, N) L"
    by (rule tenants_step[OF h Diff_subset subset_refl _ settled_calm[OF tenantsD(3)[OF h]] _ _ u, where b = "(p, x)"])
      (use o fx tenantsD(5)[OF h b] b in auto)
  show "process_bytes k (set_mem m' P, N) y = process_bytes k (P, N) y" if y: "y \<in> snd ` L" for y
  proof -
    obtain q where q: "(q, y) \<in> L" using y by force
    have "span_of k (mem_of (set_mem m' P)) (q, y) = span_of k (mem_of P) (q, y)"
      using o undisturbedD(1)[OF u, of "(q, y)"] q by (cases "(q, y) = (p, x)") (simp_all add: set_mem_def)
    moreover have "process_bytes k (set_mem m' P, N) y = span_of k (mem_of (set_mem m' P)) (q, y)"
      by (rule fits_span) (use fits q in blast)
    moreover have "process_bytes k (P, N) y = span_of k (mem_of P) (q, y)" by (rule fits_span[OF f[OF q]])
    ultimately show ?thesis by simp
  qed
qed

section \<open>Clients that construct and destroy\<close>

text \<open>
  A session of calls in which the client constructs and destroys objects of \<open>sz\<close> bytes in the elements
  of its blocks; \<open>X\<close> is the set of the objects that live.  A block may be given back when no object lives
  in it.
\<close>

inductive object_session ::
    "sub_cfg \<Rightarrow> sys \<Rightarrow> nat \<Rightarrow> ('c, 'e) ctor \<Rightarrow> dtor \<Rightarrow> tenancy \<Rightarrow> tenancy \<Rightarrow> nat set \<Rightarrow> nat set \<Rightarrow> bool"
  for k sys sz ctor dtor s0 where
  start: "object_session k sys sz ctor dtor s0 s0 {} {}"
| granted: "object_session k sys sz ctor dtor s0 s L X \<Longrightarrow> sys_steady sys (pr_world (fst s)) \<Longrightarrow>
    process_request k sys q s = Some (Inr a, s') \<Longrightarrow> a \<noteq> nullptr \<Longrightarrow>
    object_session k sys sz ctor dtor s0 s' (insert (unat a) L) X"
| nothing: "object_session k sys sz ctor dtor s0 s L X \<Longrightarrow> sys_steady sys (pr_world (fst s)) \<Longrightarrow>
    process_request k sys q s = Some (r, s') \<Longrightarrow> (\<And>a. r = Inr a \<Longrightarrow> a = nullptr) \<Longrightarrow>
    object_session k sys sz ctor dtor s0 s' L X"
| construct: "object_session k sys sz ctor dtor s0 s L X \<Longrightarrow> x \<in> L \<Longrightarrow> j * sz + sz \<le> process_bytes k s x \<Longrightarrow>
    x + j * sz \<notin> X \<Longrightarrow> sub_construct ctor (adr (x + j * sz)) args (fst s) = (r, P) \<Longrightarrow>
    object_session k sys sz ctor dtor s0 (P, snd s) L (case r of Inl _ \<Rightarrow> X | Inr _ \<Rightarrow> insert (x + j * sz) X)"
| destroy: "object_session k sys sz ctor dtor s0 s L X \<Longrightarrow> y \<in> X \<Longrightarrow>
    object_session k sys sz ctor dtor s0 (sub_destroy dtor (adr y) (fst s), snd s) L (X - {y})"
| give_back: "object_session k sys sz ctor dtor s0 s L X \<Longrightarrow> x \<in> L \<Longrightarrow>
    (\<And>y. y \<in> X \<Longrightarrow> y < x \<or> x + process_bytes k s x \<le> y) \<Longrightarrow> process_return k sys t (adr x) s = Some s' \<Longrightarrow>
    object_session k sys sz ctor dtor s0 s' (L - {x}) X"
| extend: "object_session k sys sz ctor dtor s0 s L X \<Longrightarrow> x \<in> L \<Longrightarrow>
    process_resize k r (adr x) s = Some s' \<Longrightarrow> object_session k sys sz ctor dtor s0 s' L X"

text \<open>An object lives in an element of a block that is held.\<close>

definition housed :: "sub_cfg \<Rightarrow> nat \<Rightarrow> tenancy \<Rightarrow> nat set \<Rightarrow> nat \<Rightarrow> bool" where
  "housed k sz s L y \<longleftrightarrow> (\<exists>x \<in> L. \<exists>j. y = x + j * sz \<and> j * sz + sz \<le> process_bytes k s x)"

definition objects_ok :: "sub_cfg \<Rightarrow> sys \<Rightarrow> nat \<Rightarrow> (memory \<Rightarrow> ptr \<Rightarrow> bool) \<Rightarrow> tenancy \<Rightarrow> nat set \<Rightarrow> nat set \<Rightarrow> bool" where
  "objects_ok k sys sz rep s L X \<longleftrightarrow> process_holds k sys s L \<and>
     (\<forall>y \<in> X. rep (mem_of (fst s)) (adr y) \<and> housed k sz s L y)"

lemma process_range:
  assumes "process_holds k sys s L" "x \<in> L"
  shows "x + process_bytes k s x < 2 ^ 64"
proof -
  obtain P N D B where s: "s = (P, N)" and h: "tenants k sys D (P, N) B" and B: "L = snd ` B"
    using assms(1) by (cases s) (auto simp: process_holds_def)
  obtain p where p: "(p, x) \<in> B" using assms(2) B by force
  have "sub_holds k sys D P B" "fits k (mem_of P) N (p, x)" using h p by (auto simp: tenants_def)
  then show ?thesis using sub_range(3)[of k sys D P B p x] p fits_span[of k P N p x] s by simp
qed

lemma housed_bytes:
  assumes "process_holds k sys s L" "housed k sz s L y"
  shows "y + sz < 2 ^ 64"
  using assms process_range[OF assms(1)] by (fastforce simp: housed_def)

lemma elements_apart:
  assumes h: "process_holds k sys s L" and y: "housed k sz s L y" "housed k sz s L z" and ne: "y \<noteq> z"
  shows "y + sz \<le> z \<or> z + sz \<le> y"
proof -
  obtain x j where x: "x \<in> L" "y = x + j * sz" "j * sz + sz \<le> process_bytes k s x" using y(1) by (auto simp: housed_def)
  obtain x' i where x': "x' \<in> L" "z = x' + i * sz" "i * sz + sz \<le> process_bytes k s x'" using y(2) by (auto simp: housed_def)
  show ?thesis
  proof (cases "x = x'")
    case True
    then have "j \<noteq> i" using ne x(2) x'(2) by auto
    then have "Suc j * sz \<le> i * sz \<or> Suc i * sz \<le> j * sz" by (metis Suc_leI mult_le_mono1 nat_neq_iff)
    then show ?thesis using True x(2) x'(2) by auto
  next
    case False
    then show ?thesis using process_source.apart_law[OF h x(1) x'(1)] x(2,3) x'(2,3) by linarith
  qed
qed

lemma extended_grows:
  "extended extent peek L x s s' \<Longrightarrow> y \<in> L \<Longrightarrow>
     extent s y \<le> extent s' y \<and> (\<forall>i < extent s y. peek s' (adr (y + i)) = peek s (adr (y + i)))"
  by (cases "y = x") (simp_all add: extended_def keeps_def)

lemma objects_kept:
  assumes ok: "objects_ok k sys sz rep s L X" and ut: "user_type sz ctor dtor rep"
    and h: "process_holds k sys s' L'" and A: "A \<subseteq> L'" "\<And>y. y \<in> X \<Longrightarrow> housed k sz s A y"
    and kp: "\<And>x. x \<in> A \<Longrightarrow> process_bytes k s x \<le> process_bytes k s' x \<and>
      (\<forall>i < process_bytes k s x. mem_of (fst s') (adr (x + i)) = mem_of (fst s) (adr (x + i)))"
  shows "objects_ok k sys sz rep s' L' X"
  unfolding objects_ok_def
proof (intro conjI ballI)
  fix y assume y: "y \<in> X"
  obtain x j where x: "x \<in> A" "y = x + j * sz" "j * sz + sz \<le> process_bytes k s x" using A(2)[OF y] by (auto simp: housed_def)
  have b: "process_bytes k s x \<le> process_bytes k s' x"
    "\<And>i. i < process_bytes k s x \<Longrightarrow> mem_of (fst s') (adr (x + i)) = mem_of (fst s) (adr (x + i))"
    using kp[OF x(1)] by simp_all
  show "housed k sz s' L' y" using x b(1) A(1) unfolding housed_def by (intro bexI[of _ x] exI[of _ j]) auto
  have "y + sz < 2 ^ 64" using housed_bytes[of k sys s L sz y] ok y by (simp add: objects_ok_def)
  then have u: "unat (adr y) = y" by (simp add: unat_adr)
  have "rep (mem_of (fst s)) (adr y)" using ok y by (simp add: objects_ok_def)
  then show "rep (mem_of (fst s')) (adr y)"
  proof (rule user_typeD(4)[OF ut])
    fix i assume "i < sz"
    moreover have "unat (adr y) + i = x + (j * sz + i)" using u x(2) by simp
    ultimately show "mem_of (fst s') (adr (unat (adr y) + i)) = mem_of (fst s) (adr (unat (adr y) + i))"
      using b(2)[of "j * sz + i"] x(3) by (simp only:)
  qed
qed (rule h)

text \<open>Writing one element leaves the objects in all others.\<close>

lemma objects_written:
  assumes ok: "objects_ok k sys sz rep (P, N) L X" and ut: "user_type sz ctor dtor rep"
    and y: "housed k sz (P, N) L y" and w: "writes_within (adr y) sz (mem_of P) m'"
  shows "objects_ok k sys sz rep (set_mem m' P, N) L (X - {y})" and "housed k sz (set_mem m' P, N) L y"
    and "\<And>z. z \<in> X - {y} \<Longrightarrow> i < sz \<Longrightarrow> m' (adr (z + i)) = mem_of P (adr (z + i))"
proof -
  have ph: "process_holds k sys (P, N) L" using ok by (simp add: objects_ok_def)
  obtain x j where x: "x \<in> L" "y = x + j * sz" "j * sz + sz \<le> process_bytes k (P, N) x" using y by (auto simp: housed_def)
  have uy: "unat (adr y) = y" using housed_bytes[OF ph y] by (simp add: unat_adr)
  obtain D B where h: "tenants k sys D (P, N) B" and B: "L = snd ` B" using ph by (auto simp: process_holds_def)
  obtain p where p: "(p, x) \<in> B" using x(1) B by force
  have "x \<le> unat a \<and> unat a < x + process_bytes k (P, N) x" if "m' a \<noteq> mem_of P a" for a
    using w that x(2,3) uy unfolding writes_within_def by fastforce
  note o = tenants_overwrite[OF h p order_refl this, of m']
  have ph': "process_holds k sys (set_mem m' P, N) L" using o(1) B by (auto simp: process_holds_def)
  have same: "housed k sz (set_mem m' P, N) L z = housed k sz (P, N) L z" for z
    using o(2) B by (auto simp: housed_def)
  show "housed k sz (set_mem m' P, N) L y" using y same by simp
  show unwritten: "m' (adr (z + i)) = mem_of P (adr (z + i))" if z: "z \<in> X - {y}" and i: "i < sz" for z i
  proof -
    have hz: "housed k sz (P, N) L z" using ok z by (simp add: objects_ok_def)
    have "unat (adr (z + i)) = z + i" using housed_bytes[OF ph hz] i by (simp add: unat_adr)
    then have "\<not> (y \<le> unat (adr (z + i)) \<and> unat (adr (z + i)) < y + sz)"
      using elements_apart[OF ph hz y] z i by auto
    then show ?thesis using w uy unfolding writes_within_def by metis
  qed
  have "rep m' (adr z)" if z: "z \<in> X - {y}" for z
  proof -
    have r: "rep (mem_of P) (adr z)" "housed k sz (P, N) L z" using ok z by (simp_all add: objects_ok_def)
    have "unat (adr z) = z" using housed_bytes[OF ph r(2)] by (simp add: unat_adr)
    then show ?thesis using user_typeD(4)[OF ut r(1), of m'] unwritten[OF z] by simp
  qed
  then show "objects_ok k sys sz rep (set_mem m' P, N) L (X - {y})"
    using ok ph' by (simp add: objects_ok_def same) (simp add: set_mem_def)
qed

lemma housed_mono: "housed k sz s A y \<Longrightarrow> A \<subseteq> B \<Longrightarrow> housed k sz s B y"
  by (auto simp: housed_def)

lemma grows:
  "keeps extent peek A s s' \<Longrightarrow> x \<in> A \<Longrightarrow>
     extent s x \<le> extent s' x \<and> (\<forall>i < extent s x. peek s' (adr (x + i)) = peek s (adr (x + i)))"
  by (simp add: keeps_def)

lemma objects_reached:
  assumes "object_session k sys sz ctor dtor s0 s L X" "process_holds k sys s0 {}" "user_type sz ctor dtor rep" "0 < sz"
  shows "objects_ok k sys sz rep s L X"
  using assms(1)
proof (induction rule: object_session.induct)
  case start
  then show ?case using assms(2) by (simp add: objects_ok_def)
next
  case (granted s L X q a s')
  then have ph: "process_holds k sys s L" "\<And>y. y \<in> X \<Longrightarrow> housed k sz s L y" by (simp_all add: objects_ok_def)
  have "process_holds k sys s' (insert (unat a) L)" "keeps (process_bytes k) (\<lambda>s. mem_of (fst s)) L s s'"
    using process_source.alloc_law[OF ph(1) granted.hyps(2), of q] granted.hyps(3,4) by (auto simp: alloc_answer_def)
  from objects_kept[OF granted.IH assms(3) this(1) subset_insertI ph(2) grows[OF this(2)]] show ?case .
next
  case (nothing s L X q r s')
  then have ph: "process_holds k sys s L" "\<And>y. y \<in> X \<Longrightarrow> housed k sz s L y" by (simp_all add: objects_ok_def)
  have "process_holds k sys s' L" "keeps (process_bytes k) (\<lambda>s. mem_of (fst s)) L s s'"
    using process_source.alloc_law[OF ph(1) nothing.hyps(2), of q] nothing.hyps(3,4)
    by (auto simp: alloc_answer_def split: sum.splits)
  from objects_kept[OF nothing.IH assms(3) this(1) subset_refl ph(2) grows[OF this(2)]] show ?case .
next
  case (construct s L X x j args r P)
  obtain P0 N where s: "s = (P0, N)" by (cases s)
  let ?y = "x + j * sz"
  have y: "housed k sz (P0, N) L ?y" using construct.hyps(2,3) s unfolding housed_def by blast
  obtain m' where c: "ctor args (adr ?y) (mem_of P0) = (r, m')" "P = set_mem m' P0"
    using construct.hyps(5) by (auto simp: sub_construct_def s split: prod.splits)
  have w: "writes_within (adr ?y) sz (mem_of P0) m'" using user_typeD(1)[OF assms(3)] c(1) by blast
  have IH: "objects_ok k sys sz rep (P0, N) L X" using construct.IH s by simp
  have "X - {?y} = X" using construct.hyps(4) by blast
  then have ok: "objects_ok k sys sz rep (P, N) L X" using objects_written(1)[OF IH assms(3) y w] c(2) by simp
  have o: "housed k sz (P, N) L ?y" using objects_written(2)[OF IH assms(3) y w] c(2) by simp
  show ?case
  proof (cases r)
    case (Inl e)
    then show ?thesis using ok s by simp
  next
    case (Inr u)
    have "rep m' (adr ?y)" using user_typeD(2)[OF assms(3)] c(1) Inr by blast
    then show ?thesis using ok o Inr s c(2) by (simp add: objects_ok_def) (simp add: set_mem_def)
  qed
next
  case (destroy s L X y)
  obtain P0 N where s: "s = (P0, N)" by (cases s)
  have y: "housed k sz (P0, N) L y" using destroy s by (simp add: objects_ok_def)
  have w: "writes_within (adr y) sz (mem_of P0) (dtor (adr y) (mem_of P0))" by (rule user_typeD(3)[OF assms(3)])
  have "objects_ok k sys sz rep (P0, N) L X" using destroy.IH s by simp
  from objects_written(1)[OF this assms(3) y w] show ?case by (simp add: sub_destroy_def s)
next
  case (give_back s L X x t s')
  then have ph: "process_holds k sys s L" "\<And>y. y \<in> X \<Longrightarrow> housed k sz s L y" by (simp_all add: objects_ok_def)
  have r: "process_holds k sys s' (L - {x})" "keeps (process_bytes k) (\<lambda>s. mem_of (fst s)) (L - {x}) s s'"
    using process_source.give_law[OF ph(1) give_back.hyps(2), of t] give_back.hyps(4) by auto
  have "housed k sz s (L - {x}) y" if y: "y \<in> X" for y
  proof -
    obtain x' j where x: "x' \<in> L" "y = x' + j * sz" "j * sz + sz \<le> process_bytes k s x'"
      using ph(2)[OF y] by (auto simp: housed_def)
    then have "x' \<noteq> x" using give_back.hyps(3)[OF y] assms(4) by auto
    then show ?thesis using x by (auto simp: housed_def)
  qed
  from objects_kept[OF give_back.IH assms(3) r(1) subset_refl this grows[OF r(2)]] show ?case .
next
  case (extend s L X x r s')
  then have ph: "process_holds k sys s L" "\<And>y. y \<in> X \<Longrightarrow> housed k sz s L y" by (simp_all add: objects_ok_def)
  have r: "process_holds k sys s' L" "extended (process_bytes k) (\<lambda>s. mem_of (fst s)) L x s s'"
    using process_source.resize_law[OF ph(1) extend.hyps(2,3)] by simp_all
  from objects_kept[OF extend.IH assms(3) r(1) subset_refl ph(2) extended_grows[OF r(2)]] show ?case .
qed

text \<open>
  C3. Types are kept: in every session of any number of threads, whose clients construct and destroy
  objects in the elements of their blocks - constructors may throw - and have blocks expanded, every object that lives lies in
  a block that is held, overlaps no other, and has the representation its constructor has left, as no
  call of the allocator and no work on another object writes into it; and the next call is answered.
\<close>

theorem objects_survive:
  fixes q :: call
  assumes "object_session k sys sz ctor dtor (P0, N0) s L X" "user_type sz ctor dtor rep" "0 < sz"
    and "fresh_process P0" "has_thread_state k" "founded_on k sys" "created N0 = []"
  shows "(\<forall>y \<in> X. rep (mem_of (fst s)) (adr y) \<and> (\<exists>x \<in> L. x \<le> y \<and> y + sz \<le> x + process_bytes k s x)) \<and>
    (\<forall>y \<in> X. \<forall>z \<in> X. y \<noteq> z \<longrightarrow> y + sz \<le> z \<or> z + sz \<le> y) \<and>
    (sys_steady sys (pr_world (fst s)) \<longrightarrow> (\<exists>ans s'. process_request k sys q s = Some (ans, s')))"
proof -
  have ok: "objects_ok k sys sz rep s L X" by (rule objects_reached[OF assms(1) fresh_source[OF assms(4-7)] assms(2,3)])
  then have ph: "process_holds k sys s L" by (simp add: objects_ok_def)
  show ?thesis
    using ok elements_apart[OF ph, of sz] process_source.alloc_law[OF ph, of q] by (fastforce simp: objects_ok_def housed_def)
qed

section \<open>A pool by itself\<close>

text \<open>
  Objects in the nodes of one pool: whatever constructor and destructor do inside a node that is
  lent, also when the constructor throws, the pool does not notice.
\<close>

lemma node_overwrite:
  assumes "pool_holds k (p, w) H" "x \<in> H" "n \<le> node_bytes k"
    and "\<And>a. m' a \<noteq> cells w a \<Longrightarrow> x \<le> unat a \<and> unat a < x + n"
  shows "pool_holds k (p, w\<lparr>cells := m'\<rparr>) H"
  using assms(3,4)
proof (induction n arbitrary: m')
  case 0
  then have "m' a = cells w a" for a by fastforce
  then have "m' = cells w" by blast
  then show ?case using assms(1) by simp
next
  case (Suc n)
  let ?a = "adr (x + n)"
  define m1 where "m1 = m'(?a := cells w ?a)"
  have x: "x + n < 2 ^ 64" using node_slot(2)[OF assms(1,2)] Suc.prems(1) by linarith
  have "x \<le> unat a \<and> unat a < x + n" if "m1 a \<noteq> cells w a" for a
  proof -
    have a: "a \<noteq> ?a" "m' a \<noteq> cells w a" using that by (auto simp: m1_def split: if_splits)
    have "unat a \<noteq> x + n" using a(1) x by (metis adr_unat)
    then show ?thesis using Suc.prems(2)[OF a(2)] by simp
  qed
  with Suc.IH[of m1] Suc.prems(1) have "pool_holds k (p, w\<lparr>cells := m1\<rparr>) H" by simp
  from node_store(1)[OF this assms(2), of n "m' ?a"] Suc.prems(1) show ?case by (simp add: m1_def)
qed

theorem pool_construct_correct:
  assumes "pool_holds k (p, w) H" "x \<in> H" "sz \<le> node_bytes k" "user_type sz ctor dtor rep"
  shows "(case pool_construct ctor (adr x) args (p, cells w) of (r, p', m') \<Rightarrow>
      p' = p \<and> pool_holds k (p, w\<lparr>cells := m'\<rparr>) H \<and> (r = Inr (adr x) \<longrightarrow> rep m' (adr x)) \<and>
      (\<forall>a. m' a \<noteq> cells w a \<longrightarrow> x \<le> unat a \<and> unat a < x + sz)) \<and>
    (case pool_destroy_object dtor (adr x) (p, cells w) of (p', m') \<Rightarrow>
      p' = p \<and> pool_holds k (p, w\<lparr>cells := m'\<rparr>) H \<and>
      (\<forall>a. m' a \<noteq> cells w a \<longrightarrow> x \<le> unat a \<and> unat a < x + sz))"
proof -
  have ux: "unat (adr x) = x" using node_slot(2)[OF assms(1,2)] by (simp add: unat_adr)
  have within: "pool_holds k (p, w\<lparr>cells := m'\<rparr>) H \<and> (\<forall>a. m' a \<noteq> cells w a \<longrightarrow> x \<le> unat a \<and> unat a < x + sz)"
    if "writes_within (adr x) sz (cells w) m'" for m'
    using that node_overwrite[OF assms(1-3), of m'] by (simp add: writes_within_def ux)
  obtain r m' where c: "ctor args (adr x) (cells w) = (r, m')" by fastforce
  have r: "r = Inr u \<Longrightarrow> rep m' (adr x)" for u using user_typeD(2)[OF assms(4)] c by blast
  have w: "writes_within (adr x) sz (cells w) m'" using user_typeD(1)[OF assms(4)] c by blast
  show ?thesis
    using within[OF w] r within[OF user_typeD(3)[OF assms(4), of "adr x" "cells w"]] c node_slot(4)[OF assms(1,2)]
    by (cases r) (simp_all add: pool_construct_def pool_destroy_object_def)
qed

end
