(* ===== verification/Sub_Witnesses.thy ===== *)
theory Sub_Witnesses
  imports Sub_Properties Sub_Ownership Sub_Construct Sub_Contract Object_Life
begin

text \<open>
  Witnesses for the properties of the suballocated allocator, on small processes that are evaluated.
  In one, thread 0 has a state at address 64 whose runner, at 192, manages a span of memory at
  16384, and the system refuses every request; the other starts with nothing, and the system hands
  out memory.
\<close>

section \<open>A process over a span\<close>

definition demo_sub_cfg :: "memory_mode \<Rightarrow> u64 \<Rightarrow> sub_cfg" where
  "demo_sub_cfg mode bytes = \<lparr>sc_mode = mode, sc_huge = Huge_disabled, sc_ty = \<lparr>sizeof = bytes, alignof = 1\<rparr>,
     sc_runs_offset = 128, sc_state_bytes = 9000\<rparr>"

definition deaf_sys :: sys where
  "deaf_sys = bump_sys\<lparr>sys_new := \<lambda>_ _ _. nullptr, sys_mmap := \<lambda>_ _. None\<rparr>"

definition demo_process :: "sub_cfg \<Rightarrow> u64 \<Rightarrow> process" where
  "demo_process k span =
     (case runner_new_external deaf_sys 192 16384 span (\<lambda>_. 0) of
        Inl _ \<Rightarrow> undefined
      | Inr (r, m) \<Rightarrow>
          \<lparr>pr_world = \<lparr>cells = m, calls = 0, live = [\<lparr>r_base = 16384, r_bytes = span, r_align = 16\<rparr>,
              \<lparr>r_base = 64, r_bytes = 9000, r_align = 64\<rparr>]\<rparr>,
           pr_pools = (\<lambda>_. (pool_members (node_pool_cfg k) deaf_sys 64)\<lparr>p_next_growth := 4096\<rparr>),
           pr_runs = (\<lambda>_. r), pr_next = (\<lambda>_. nullptr), pr_registry = 64,
           pr_tls = (\<lambda>u. if u = 0 then 64 else nullptr),
           pr_cache = (\<lambda>_ _. \<lparr>tc_head = nullptr, tc_count = 0\<rparr>)\<rparr>)"

lemma demo_size: "sizeof (sc_ty (demo_sub_cfg mode bytes)) = bytes"
  by (simp add: demo_sub_cfg_def)

lemma deaf_steady: "sys_steady deaf_sys w"
  by (simp add: sys_steady_def sys_honest_def deaf_sys_def)

lemma deaf_page: "has_single_bit (detect_page_size (sys_sysconf deaf_sys))"
  "16 \<le> unat (detect_page_size (sys_sysconf deaf_sys))"
  using demo_runner_page by (simp_all add: deaf_sys_def)

lemma demo_founded:
  assumes "bytes = 1 \<or> bytes = 16"
  shows "founded_on (demo_sub_cfg mode bytes) deaf_sys" "founded_on (demo_sub_cfg mode bytes) bump_sys"
proof -
  have "has_single_bit 1" unfolding has_single_bit_iff by (rule exI[of _ 0]) simp
  then have "layout_ok (sc_ty (demo_sub_cfg mode bytes))"
    using assms by (auto simp: demo_sub_cfg_def layout_ok_def ty_ok_def)
  moreover have "sc_runs_offset (demo_sub_cfg mode bytes) < sc_state_bytes (demo_sub_cfg mode bytes)"
    by (simp add: demo_sub_cfg_def)
  ultimately show "founded_on (demo_sub_cfg mode bytes) deaf_sys" "founded_on (demo_sub_cfg mode bytes) bump_sys"
    unfolding founded_on_def using deaf_page demo_runner_page by blast+
qed

text \<open>Thread 0 has both parts, and nothing is lent.\<close>

lemma demo_holds:
  assumes mode: "heap_backed_mode mode" and bytes: "bytes = 1 \<or> bytes = 16" and span: "64 \<le> unat span" "unat span < 2 ^ 32"
  defines "k \<equiv> demo_sub_cfg mode bytes"
  shows "sub_holds k deaf_sys {Nodes 64, Runs 64} (demo_process k span) {}"
    and "settled {Nodes 64, Runs 64} (demo_process k span)" and "house {Nodes 64, Runs 64} 0 64 (demo_process k span)"
proof -
  let ?w = "\<lparr>cells = \<lambda>_. 0, calls = 0, live = [\<lparr>r_base = 16384, r_bytes = span, r_align = 16\<rparr>,
      \<lparr>r_base = 64, r_bytes = 9000, r_align = 64\<rparr>]\<rparr>"
  let ?reg = "\<lparr>r_base = 16384, r_bytes = span, r_align = 16\<rparr>"
  have th: "has_thread_state k" and off: "runs_of k 64 = 192"
    using mode by (simp_all add: k_def has_thread_state_def demo_sub_cfg_def runs_of_def)
  have wok: "world_ok ?w" using span(1) by (simp add: world_ok_def)
  have reg: "region_ok ?reg" using span(2) has_single_bit_16 by (simp add: region_ok_def region_end_def is_aligned_iff)
  have "?reg \<in> set (live ?w)" "unat (r_base ?reg) \<le> unat (16384 :: u64)"
    "unat (16384 :: u64) + unat span \<le> region_end ?reg" by (simp_all add: region_end_def)
  note step = runner_new_external_step[OF deaf_page wok this reg, where k = "runs_cfg k" and self = 192]
  have "\<exists>b. 16 dvd b \<and> 16384 \<le> b \<and> b + 64 \<le> 16384 + unat span" using span(1) by (intro exI[of _ 16384]) simp
  then obtain r m where rm: "runner_new_external deaf_sys 192 16384 span (\<lambda>_. 0) = Inr (r, m)"
    using step by (cases "runner_new_external deaf_sys 192 16384 span (\<lambda>_. 0)") auto
  then obtain b s where inv: "runner_inv (runs_cfg k) r (?w\<lparr>cells := m\<rparr>) [(b, [(s, True)])] []"
    "rn_self r = 192" using step by auto
  have runs: "runner_holds (runs_cfg k) (r, ?w\<lparr>cells := m\<rparr>) {}"
    using inv(1) unfolding runner_holds_def
    by (intro exI[of _ "[(b, [(s, True)])]"] exI[of _ "[]"]) (simp add: lent_runs_def)
  have wok': "world_ok (?w\<lparr>cells := m\<rparr>)" using wok by (simp add: world_ok_def)
  obtain st where st: "state_new_lazy k deaf_sys 64 = Inr st" "pool_inv (node_pool_cfg k) (ss_pool st) (?w\<lparr>cells := m\<rparr>) [] []"
    "runner_holds (runs_cfg k) (ss_runs st, ?w\<lparr>cells := m\<rparr>) {}" "rn_self (ss_runs st) = runs_of k 64"
    "pool_holds (node_pool_cfg k) (ss_pool st, ?w\<lparr>cells := m\<rparr>) {}"
    "p_self (ss_pool st) = 64" "p_page_size (ss_pool st) = detect_page_size (sys_sysconf deaf_sys)"
    "pool_area (node_pool_cfg k) (ss_pool st) = {}" "runner_area (ss_runs st) = {}"
    by (rule lazy_state[OF th demo_founded(1)[OF bytes, of mode, folded k_def] wok'])
  then have pool: "ss_pool st = (pool_members (node_pool_cfg k) deaf_sys 64)\<lparr>p_next_growth := 4096\<rparr>"
    by (auto simp: state_new_lazy_def pool_new_lazy_def has_single_bit_4096)
  have P: "pr_world (demo_process k span) = ?w\<lparr>cells := m\<rparr>" "pr_runs (demo_process k span) 192 = r"
    "pr_pools (demo_process k span) 64 = ss_pool st" "pr_tls (demo_process k span) = (\<lambda>u. if u = 0 then 64 else nullptr)"
    "pr_cache (demo_process k span) = (\<lambda>_ _. \<lparr>tc_head = nullptr, tc_count = 0\<rparr>)"
    by (simp_all add: demo_process_def rm pool)
  have "estates k deaf_sys {Nodes 64, Runs 64} (demo_process k span) {}"
    unfolding estates_def using th wok' runs inv(2) st(5-8) off by (simp add: P)
  moreover have "stocked k (mem_of (demo_process k span)) {} (pr_cache (demo_process k span)) (\<lambda>_ _. [])"
    by (simp add: stocked_def class_ok_def P(5))
  ultimately show "sub_holds k deaf_sys {Nodes 64, Runs 64} (demo_process k span) {}" unfolding sub_holds_def by blast
  show "settled {Nodes 64, Runs 64} (demo_process k span)" "house {Nodes 64, Runs 64} 0 64 (demo_process k span)"
    by (simp_all add: settled_def house_def P(4))
qed

text \<open>Some runs of the model.\<close>

lemma case_someE:
  assumes "case m of None \<Rightarrow> False | Some (r, P) \<Rightarrow> Q r P"
  obtains r P where "m = Some (r, P)" "Q r P"
  using assms by (cases m) auto

lemma demo_run_buffer:
  "case sub_allocate (demo_sub_cfg Fixed 1) deaf_sys 0 handle_default 20 (demo_process (demo_sub_cfg Fixed 1) 2000) of
     Some (Inr a, P) \<Rightarrow> a \<noteq> nullptr \<and>
       tc_count (pr_cache (sub_deallocate (demo_sub_cfg Fixed 1) deaf_sys 0 handle_default a 20 P) 0 1) = 1 | _ \<Rightarrow> False"
  by code_simp

lemma demo_run_pair:
  "case sub_allocate (demo_sub_cfg Dynamic 16) deaf_sys 0 handle_default 2 (demo_process (demo_sub_cfg Dynamic 16) 2000) of
     Some (Inr a, P) \<Rightarrow> a \<noteq> nullptr | _ \<Rightarrow> False"
  by code_simp

lemma demo_run_tight:
  "case runs_allocate (demo_sub_cfg Dynamic 1) deaf_sys 192 32 1 (demo_process (demo_sub_cfg Dynamic 1) 64) of
     Some (Inr a, P) \<Rightarrow> a \<noteq> nullptr \<and>
       (case runs_allocate (demo_sub_cfg Dynamic 1) deaf_sys 192 32 1 P of Some (Inl e, P2) \<Rightarrow> True | _ \<Rightarrow> False)
   | _ \<Rightarrow> False"
  by code_simp

text \<open>A buffer of 20 bytes is granted; given back it goes to the cache.\<close>

lemma demo_buffer:
  defines "k \<equiv> demo_sub_cfg Fixed 1"
  obtains a P where "sub_allocate k deaf_sys 0 handle_default 20 (demo_process k 2000) = Some (Inr a, P)" "a \<noteq> nullptr"
    "sub_holds k deaf_sys {Nodes 64, Runs 64} P {(Runs 64, unat a)}" "20 \<le> payload_bytes (mem_of P) (unat a)"
    "settled {Nodes 64, Runs 64} P" "pr_tls P 0 = 64"
    "tc_count (pr_cache (sub_deallocate k deaf_sys 0 handle_default a 20 P) 0 1) = 1"
proof -
  obtain r P where rP: "sub_allocate k deaf_sys 0 handle_default 20 (demo_process k 2000) = Some (r, P)"
    "case r of Inl _ \<Rightarrow> False | Inr a \<Rightarrow> a \<noteq> nullptr \<and>
       tc_count (pr_cache (sub_deallocate k deaf_sys 0 handle_default a 20 P) 0 1) = 1"
    using demo_run_buffer unfolding k_def by (elim case_someE) (auto split: sum.splits)
  then obtain a where a: "r = Inr a" "a \<noteq> nullptr"
    "tc_count (pr_cache (sub_deallocate k deaf_sys 0 handle_default a 20 P) 0 1) = 1" by (cases r) auto
  have s: "64 \<le> unat (2000 :: u64)" "unat (2000 :: u64) < 2 ^ 32" by simp_all
  note h = demo_holds[OF _ _ s, of Fixed 1, folded k_def]
  have h: "sub_holds k deaf_sys {Nodes 64, Runs 64} (demo_process k 2000) {}" "settled {Nodes 64, Runs 64} (demo_process k 2000)"
    "house {Nodes 64, Runs 64} 0 64 (demo_process k 2000)" using h by (simp_all add: mode_defs)
  have "granting k deaf_sys {Nodes 64, Runs 64} (Runs 64) 20 {} (demo_process k 2000) (Some (Inr a, P))"
    using sub_allocate_many[OF h(1,3) deaf_steady, of 20] rP(1) a(1) by (simp add: k_def demo_size)
  then have g: "calm k deaf_sys {} (demo_process k 2000) P" "sub_holds k deaf_sys {Nodes 64, Runs 64} P {(Runs 64, unat a)}"
    "20 \<le> payload_bytes (mem_of P) (unat a)"
    using a(2) by (auto simp: granting_def granted_def)
  have "pr_tls P 0 = 64" using house_calm[OF h(3) g(1)] by (simp add: house_def)
  from that[OF rP(1)[unfolded a(1)] a(2) g(2,3) settled_calm[OF h(2) g(1)] this a(3)] show thesis .
qed

section \<open>A process from the start\<close>

definition demo_fresh :: process where
  "demo_fresh =
     \<lparr>pr_world = empty_world,
      pr_pools = (\<lambda>_. pool_members (node_pool_cfg (demo_sub_cfg Fixed 1)) bump_sys nullptr),
      pr_runs = (\<lambda>_. runner_new_lazy bump_sys nullptr 0), pr_next = (\<lambda>_. nullptr), pr_registry = nullptr,
      pr_tls = (\<lambda>_. nullptr), pr_cache = (\<lambda>_ _. \<lparr>tc_head = nullptr, tc_count = 0\<rparr>)\<rparr>"

lemma demo_fresh_fresh: "fresh_process demo_fresh" "sys_steady bump_sys (pr_world demo_fresh)" "registered demo_fresh []"
  using demo_steady empty_world_ok
  by (simp_all add: fresh_process_def no_cached_def demo_fresh_def registered_def)

lemma bump_sys_words [code]:
  "bump_sys =
     \<lparr>sys_new = (\<lambda>n bytes al. if n < 1000 \<and> bytes < 4294967296 \<and> al \<le> 2097152
                             then (of_nat n + 1) * 4294967296 else nullptr),
      sys_mmap = (\<lambda>n bytes. if n < 1000 \<and> bytes < 4294967296 then Some ((of_nat n + 1) * 4294967296) else None),
      sys_linux = True,
      sys_sysconf = 4096,
      sys_interference = Some 64\<rparr>"
proof -
  have "unat b < 2 ^ 32 \<longleftrightarrow> b < 4294967296" for b :: u64
    using word_less_nat_alt[of b 4294967296] by simp
  moreover have "adr ((n + 1) * 2 ^ 32) = (of_nat n + 1) * 4294967296" for n
    by (simp add: adr_def algebra_simps)
  ultimately show ?thesis unfolding bump_sys_def by (simp only:)
qed

lemma demo_run_state:
  "case thread_state (demo_sub_cfg Fixed 1) bump_sys 3 demo_fresh of
     Some (Inr s, P) \<Rightarrow> s = 4294967296 | _ \<Rightarrow> False"
  by code_simp

lemma demo_run_fresh:
  "case sub_allocate (demo_sub_cfg Fixed 1) bump_sys 3 handle_default 20 demo_fresh of
     Some (Inr a, P) \<Rightarrow> a \<noteq> nullptr | _ \<Rightarrow> False"
  by code_simp

section \<open>The witnesses\<close>

theorem thread_state_correct_witness:
  "\<exists>s P. thread_state (demo_sub_cfg Fixed 1) bump_sys 3 demo_fresh = Some (Inr s, P) \<and> s = 4294967296 \<and>
     registered P [4294967296] \<and> estates (demo_sub_cfg Fixed 1) bump_sys {Nodes s, Runs s} P {}"
proof -
  let ?k = "demo_sub_cfg Fixed 1"
  have "estates ?k bump_sys {} demo_fresh {}"
    using demo_fresh_fresh(1) by (simp add: estates_def fresh_process_def has_thread_state_def demo_sub_cfg_def mode_defs)
  moreover have "founded_on ?k bump_sys" by (rule demo_founded(2)) simp
  moreover obtain P' where P': "thread_state ?k bump_sys 3 demo_fresh = Some (Inr 4294967296, P')"
    using demo_run_state by (elim case_someE) (auto split: sum.splits)
  ultimately show ?thesis
    using thread_state_correct[OF _ _ sys_steady_honest[OF demo_fresh_fresh(2)] demo_fresh_fresh(3), of ?k "{}" "{}" 3]
    by (auto simp: demo_fresh_def)
qed

lemma demo_thread_founded: "has_thread_state (demo_sub_cfg Fixed 1)" "founded_on (demo_sub_cfg Fixed 1) bump_sys"
  using demo_founded(2)[of 1 Fixed] by (simp_all add: has_thread_state_def demo_sub_cfg_def mode_defs)

text \<open>The empty ledger, and one block in it.\<close>

definition demo_ledger :: ledger where
  "demo_ledger = \<lparr>leases = \<lambda>_. (0, Own), created = []\<rparr>"

lemma demo_first_block:
  obtains a P where "sub_allocate (demo_sub_cfg Fixed 1) bump_sys 3 handle_default 20 demo_fresh = Some (Inr a, P)" "a \<noteq> nullptr"
    "process_request (demo_sub_cfg Fixed 1) bump_sys (Allocate 3 Own 20) (demo_fresh, demo_ledger) =
       Some (Inr a, P, lease_to a (20, Own) demo_ledger)"
    "20 \<le> process_bytes (demo_sub_cfg Fixed 1) (P, lease_to a (20, Own) demo_ledger) (unat a)"
proof -
  let ?k = "demo_sub_cfg Fixed 1" and ?s0 = "(demo_fresh, demo_ledger)" and ?q = "Allocate 3 Own 20"
  obtain a P where a: "sub_allocate ?k bump_sys 3 handle_default 20 demo_fresh = Some (Inr a, P)" "a \<noteq> nullptr"
    using demo_run_fresh by (elim case_someE) (auto split: sum.splits)
  let ?s1 = "(P, lease_to a (20, Own) demo_ledger)"
  have r: "process_request ?k bump_sys ?q ?s0 = Some (Inr a, ?s1)"
    using a(1) by (simp add: process_request_def usable_def)
  have "sys_steady bump_sys (pr_world (fst ?s0))" using demo_fresh_fresh(2) by simp
  from process_source.alloc_law[OF fresh_source[OF demo_fresh_fresh(1) demo_thread_founded] this, of ?q]
  have "call_bytes ?k ?q \<le> process_bytes ?k ?s1 (unat a)" using r a(2) by (auto simp: alloc_answer_def demo_ledger_def)
  moreover have "call_bytes ?k ?q = 20" by (simp add: call_bytes_def demo_sub_cfg_def)
  ultimately show thesis using that a r by simp
qed

text \<open>A client that creates a state of its own and takes a run from it.\<close>

lemma demo_bound_run:
  "case create_state (demo_sub_cfg Fixed 1) bump_sys 4 128 demo_fresh of
     Some (Inr f, P) \<Rightarrow>
       (case sub_allocate (demo_sub_cfg Fixed 1) bump_sys 5 (handle_explicit f) 20 P of
          Some (Inr a, P2) \<Rightarrow> a \<noteq> nullptr | _ \<Rightarrow> False)
   | _ \<Rightarrow> False"
  by code_simp

theorem process_session_safe_witness:
  "\<exists>f P1 a s2. fresh_process demo_fresh \<and> a \<noteq> nullptr \<and>
     create_state (demo_sub_cfg Fixed 1) bump_sys 4 128 demo_fresh = Some (Inr f, P1) \<and>
     process_request (demo_sub_cfg Fixed 1) bump_sys (Allocate 5 (Bound f) 20)
       (P1, demo_ledger\<lparr>created := [f]\<rparr>) = Some (Inr a, s2) \<and>
     (\<exists>s3. process_return (demo_sub_cfg Fixed 1) bump_sys 7 a s2 = Some s3) \<and>
     (\<exists>s3. process_resize (demo_sub_cfg Fixed 1) (7, 64) a s2 = Some s3 \<and>
        process_bytes (demo_sub_cfg Fixed 1) s2 (unat a) \<le> process_bytes (demo_sub_cfg Fixed 1) s3 (unat a))"
proof -
  let ?k = "demo_sub_cfg Fixed 1" and ?s0 = "(demo_fresh, demo_ledger)"
  note k = demo_thread_founded
  obtain f P1 a P2 where c: "create_state ?k bump_sys 4 128 demo_fresh = Some (Inr f, P1)"
    "sub_allocate ?k bump_sys 5 (handle_explicit f) 20 P1 = Some (Inr a, P2)" "a \<noteq> nullptr"
    using demo_bound_run by (elim case_someE) (auto split: sum.splits elim!: case_someE)
  let ?s1 = "(P1, demo_ledger\<lparr>created := [f]\<rparr>)"
  let ?s2 = "(P2, lease_to a (20, Bound f) (demo_ledger\<lparr>created := [f]\<rparr>))"
  have r: "process_request ?k bump_sys (Create_state 4 128) ?s0 = Some (Inr nullptr, ?s1)"
    "process_request ?k bump_sys (Allocate 5 (Bound f) 20) ?s1 = Some (Inr a, ?s2)"
    using c(1,2) by (simp_all add: process_request_def usable_def demo_ledger_def)
  have steady: "sys_steady bump_sys (pr_world (fst ?s0))" using demo_fresh_fresh(2) by simp
  have "later bump_sys (pr_world demo_fresh) (pr_world P1)"
    using sub_create[OF fresh_holds[OF demo_fresh_fresh(1) k(1)] k(2) demo_fresh_fresh(2), of 4 128] c(1)
    by (auto simp: calm_def)
  then have steady1: "sys_steady bump_sys (pr_world (fst ?s1))" using sys_steady_later[OF demo_fresh_fresh(2)] by simp
  note st = session.start[of "process_request ?k bump_sys" "process_return ?k bump_sys" "process_resize ?k" process_store "process_bytes ?k"
      "\<lambda>s. sys_steady bump_sys (pr_world (fst s))" UNIV ?s0]
  from session.grant[OF session.refuse[OF st steady r(1)] steady1 r(2) c(3)]
  have ss: "session (process_request ?k bump_sys) (process_return ?k bump_sys) (process_resize ?k) process_store (process_bytes ?k)
      (\<lambda>s. sys_steady bump_sys (pr_world (fst s))) UNIV ?s0 ?s2 {unat a}" by simp
  have "created demo_ledger = []" by (simp add: demo_ledger_def)
  note safe = process_session_safe[OF ss demo_fresh_fresh(1) k this, where x = "unat a" and u = 7 and r = "(7, 64)", unfolded adr_unat]
  have "\<exists>s3. process_return ?k bump_sys 7 a ?s2 = Some s3" using conjunct1[OF conjunct2[OF safe]] by blast
  moreover have "\<exists>s3. process_resize ?k (7, 64) a ?s2 = Some s3 \<and> process_bytes ?k ?s2 (unat a) \<le> process_bytes ?k s3 (unat a)"
    using conjunct2[OF conjunct2[OF safe]] by blast
  ultimately show ?thesis using demo_fresh_fresh(1) c(1,3) r(2) by blast
qed

text \<open>A type of one word: the constructor stores its argument and throws on 0; good is what is not 0.\<close>

definition demo_ctor :: "(u64, unit) ctor" where
  "demo_ctor v p m = (if v = 0 then (Inl (), m) else (Inr (), m(p := v)))"

definition demo_dtor :: dtor where
  "demo_dtor p m = m(p := 0)"

lemma demo_type: "user_type 1 demo_ctor demo_dtor (\<lambda>m p. m p \<noteq> 0)"
  by (auto simp: user_type_def demo_ctor_def demo_dtor_def writes_within_def)

theorem objects_survive_witness:
  "\<exists>a P. a \<noteq> nullptr \<and>
     sub_allocate (demo_sub_cfg Fixed 1) bump_sys 3 handle_default 20 demo_fresh = Some (Inr a, P) \<and>
     mem_of (snd (sub_construct demo_ctor a 7 P)) a \<noteq> 0 \<and> fst (sub_construct demo_ctor a 7 P) = Inr () \<and>
     fst (sub_construct demo_ctor a 0 P) = Inl ()"
proof -
  let ?k = "demo_sub_cfg Fixed 1" and ?s0 = "(demo_fresh, demo_ledger)"
  obtain a P where a: "sub_allocate ?k bump_sys 3 handle_default 20 demo_fresh = Some (Inr a, P)" "a \<noteq> nullptr"
    and r: "process_request ?k bump_sys (Allocate 3 Own 20) ?s0 = Some (Inr a, P, lease_to a (20, Own) demo_ledger)"
    and n: "20 \<le> process_bytes ?k (P, lease_to a (20, Own) demo_ledger) (unat a)"
    by (rule demo_first_block)
  let ?s1 = "(P, lease_to a (20, Own) demo_ledger)"
  have steady: "sys_steady bump_sys (pr_world (fst ?s0))" using demo_fresh_fresh(2) by simp
  have o: "object_session ?k bump_sys 1 demo_ctor demo_dtor ?s0 ?s1 {unat a} {}"
    using object_session.granted[OF object_session.start steady r a(2)] by simp
  obtain P2 where c: "sub_construct demo_ctor a 7 P = (Inr (), P2)"
    by (simp add: sub_construct_def demo_ctor_def)
  have "object_session ?k bump_sys 1 demo_ctor demo_dtor ?s0 (P2, snd ?s1) {unat a} {unat a}"
    using object_session.construct[OF o, of "unat a" 0 7 "Inr ()" P2] n c by simp
  from objects_survive[OF this demo_type _ demo_fresh_fresh(1) demo_thread_founded]
  have "mem_of P2 a \<noteq> 0" by (simp add: demo_ledger_def)
  moreover have "fst (sub_construct demo_ctor a 0 P) = Inl ()" by (simp add: sub_construct_def demo_ctor_def)
  ultimately show ?thesis using a c by auto
qed

theorem tls_class_correct_witness:
  "tls_class_index_for 20 = 1 \<and> tls_class_bytes 1 = 32 \<and>
   unat (20 :: u64) \<le> unat (tls_class_bytes (tls_class_index_for 20)) \<and>
   unat (tls_class_index_for 20) \<le> unat (tls_class_index_for 4096)"
proof -
  have h: "0 < unat (20 :: u64)" "unat (20 :: u64) \<le> unat (4096 :: u64)" "unat (4096 :: u64) \<le> unat tls_run_cutoff"
    by (simp_all add: tls_constants)
  have "tls_class_index_for 20 = 1" "tls_class_bytes 1 = 32" by code_simp+
  then show ?thesis using tls_class_correct[OF h] by blast
qed

theorem tls_cache_bounded_witness:
  "\<exists>a P. a \<noteq> nullptr \<and> sub_holds (demo_sub_cfg Fixed 1) deaf_sys {Nodes 64, Runs 64} P {(Runs 64, unat a)} \<and>
     tc_count (pr_cache (sub_deallocate (demo_sub_cfg Fixed 1) deaf_sys 0 handle_default a 20 P) 0 1) = 1 \<and>
     tc_count (pr_cache P 0 1) + 1 = 1"
proof -
  let ?k = "demo_sub_cfg Fixed 1"
  obtain a P where a: "sub_allocate ?k deaf_sys 0 handle_default 20 (demo_process ?k 2000) = Some (Inr a, P)" "a \<noteq> nullptr"
    "sub_holds ?k deaf_sys {Nodes 64, Runs 64} P {(Runs 64, unat a)}" "20 \<le> payload_bytes (mem_of P) (unat a)"
    "settled {Nodes 64, Runs 64} P" "pr_tls P 0 = 64"
    "tc_count (pr_cache (sub_deallocate ?k deaf_sys 0 handle_default a 20 P) 0 1) = 1" by (rule demo_buffer)
  have c: "can_use_tls_run_cache ?k handle_default 20"
    by (simp add: can_use_tls_run_cache_def demo_sub_cfg_def handle_default_def tls_constants mode_defs)
  have i: "unat (tls_class_index_for 20) = 1" by code_simp
  have b: "unat (20 :: u64) \<le> payload_bytes (mem_of P) (unat a)" using a(4) by simp
  have "(1 :: u64) < 20" by simp
  from conjunct1[OF tls_cache_bounded[OF a(3) singletonI this c b, where t = 0, unfolded i adr_unat]] a(7)
  have "tc_count (pr_cache P 0 1) + 1 = 1" by (simp split: if_splits)
  then show ?thesis using a(2,3,7) by blast
qed

theorem tls_exit_correct_witness:
  "\<exists>P P'. tc_count (pr_cache P 0 1) = 1 \<and> tls_cache_destroy (demo_sub_cfg Fixed 1) 0 P = Some P' \<and> no_cached 0 P'"
proof -
  let ?k = "demo_sub_cfg Fixed 1"
  obtain a P where a: "sub_allocate ?k deaf_sys 0 handle_default 20 (demo_process ?k 2000) = Some (Inr a, P)" "a \<noteq> nullptr"
    "sub_holds ?k deaf_sys {Nodes 64, Runs 64} P {(Runs 64, unat a)}" "20 \<le> payload_bytes (mem_of P) (unat a)"
    "settled {Nodes 64, Runs 64} P" "pr_tls P 0 = 64"
    "tc_count (pr_cache (sub_deallocate ?k deaf_sys 0 handle_default a 20 P) 0 1) = 1" by (rule demo_buffer)
  let ?P = "sub_deallocate ?k deaf_sys 0 handle_default a 20 P"
  have n: "(1 :: u64) < 20" "unat (20 :: u64) * unat (sizeof (sc_ty ?k)) \<le> payload_bytes (mem_of P) (unat a)"
    using a(4) by (simp_all add: demo_size)
  have "sub_holds ?k deaf_sys {Nodes 64, Runs 64} ?P ({(Runs 64, unat a)} - {(Runs 64, unat a)})"
    using sub_give_back_many(1)[OF a(3) singletonI n, of deaf_sys 0] unfolding adr_unat .
  then obtain B C where "estates ?k deaf_sys {Nodes 64, Runs 64} ?P B" "stocked ?k (mem_of ?P) B (pr_cache ?P) C"
    by (rule sub_holdsE)
  from tls_exit_correct[OF this, of 0] a(7) show ?thesis by blast
qed

text \<open>A state with a pool of four nodes, and one node lent.\<close>

definition demo_node_cfg :: sub_cfg where
  "demo_node_cfg = \<lparr>sc_mode = Fixed, sc_huge = Huge_disabled, sc_ty = node_ty, sc_runs_offset = 128, sc_state_bytes = 9000\<rparr>"

lemma demo_node_pool_cfg: "node_pool_cfg demo_node_cfg = demo_cfg Fixed"
  by (simp add: node_pool_cfg_def demo_node_cfg_def demo_cfg_def mode_defs)

lemma demo_node_process:
  obtains P :: process and fl x where "pool_inv (demo_cfg Fixed) (pr_pools P 77) (pr_world P) fl []"
    "lent (demo_cfg Fixed) (pr_pools P 77) fl [] = {x}" "p_self (pr_pools P 77) = 77"
    "p_page_size (pr_pools P 77) = 4096" "sys_honest bump_sys (pr_world P)" "pr_tls P 0 = 77" "pr_tls P 1 = 99" "length fl = 3"
proof -
  obtain p w where p: "pool_new (demo_cfg Fixed) bump_sys 77 4 empty_world = (Inr p, w)" "sys_honest bump_sys w"
    using demo_pool_new[OF demo_modes(1)] by auto
  have "heap_backed_mode (cfg_mode (demo_cfg Fixed))" "has_single_bit (detect_page_size (sys_sysconf bump_sys))"
    using has_single_bit_4096 by (simp_all add: demo_sizes demo_page mode_defs)
  from pool_new_inv[OF demo_sizes(1) this empty_world_ok bump_sys_honest_empty p(1)]
  obtain fl where fl: "pool_inv (demo_cfg Fixed) p w fl []" "p_capacity p = 4" "p_size p = 0"
    "set fl = set (pool_slots (demo_cfg Fixed) p)" "p_self p = 77" "p_page_size p = 4096"
    using demo_page by auto
  then have "length fl = 4" by (simp add: pool_inv_def)
  then obtain x fl1 where x: "fl = x # fl1" "length fl1 = 3" by (cases fl) auto
  note pop = pop_free_inv[OF fl(1)[unfolded x(1)]]
  let ?p = "p\<lparr>p_free_head := cells w (adr x), p_size := p_size p + 1\<rparr>"
  have l: "lent (demo_cfg Fixed) ?p fl1 [] = {x}"
    using fl(4) pop(3,4) unfolding x(1) by (auto simp: lent_def pool_slots_def)
  let ?P = "(demo_process demo_node_cfg 64)\<lparr>pr_world := w, pr_pools := \<lambda>_. ?p, pr_tls := \<lambda>u. if u = 0 then 77 else 99\<rparr>"
  show thesis by (rule that[of ?P fl1 x]) (use pop(2) l fl(5,6) p(2) x(2) in simp_all)
qed

theorem single_allocate_correct_witness:
  "\<exists>(P :: process) fl x a P'. lent (demo_cfg Fixed) (pr_pools P 77) fl [] = {x} \<and> a \<noteq> nullptr \<and> unat a \<noteq> x \<and>
     sub_allocate demo_node_cfg bump_sys 0 handle_default 1 P = Some (Inr a, P')"
proof -
  obtain P :: process and fl x where d: "pool_inv (demo_cfg Fixed) (pr_pools P 77) (pr_world P) fl []"
    "lent (demo_cfg Fixed) (pr_pools P 77) fl [] = {x}" "p_self (pr_pools P 77) = 77"
    "p_page_size (pr_pools P 77) = 4096" "sys_honest bump_sys (pr_world P)" "pr_tls P 0 = 77" "pr_tls P 1 = 99" "length fl = 3"
    by (rule demo_node_process)
  have k: "has_thread_state demo_node_cfg" "(77 :: ptr) \<noteq> nullptr" "ty_ok (sc_ty demo_node_cfg)"
    using node_ty_layout by (simp_all add: demo_node_cfg_def has_thread_state_def mode_defs layout_ok_def)
  obtain y fl1 where fl: "fl = y # fl1" using d(8) by (cases fl) auto
  note pop = pop_free_inv[OF d(1)[unfolded fl]]
  have "\<exists>a P'. sub_allocate demo_node_cfg bump_sys 0 handle_default 1 P = Some (Inr a, P')"
  proof -
    have "\<exists>p w. pool_allocate (demo_cfg Fixed) bump_sys (pr_pools P 77) (pr_world P) = Some (Inr (adr y), p, w)"
      using pop(1,8) by (simp add: pool_allocate_def pool_take_node_def)
    then obtain P' where n: "nodes_allocate demo_node_cfg bump_sys 77 P = Some (Inr (adr y), P')"
      by (auto simp: nodes_allocate_def demo_node_pool_cfg)
    have s: "alloc_state demo_node_cfg bump_sys 0 handle_default P = Some (Inr 77, P)"
      using k(1) d(6) by (simp add: alloc_state_def handle_default_def thread_state_def)
    have "\<not> sub_max_size demo_node_cfg < 1"
      by (simp add: sub_max_size_def demo_node_cfg_def node_ty_def size_max_def)
    then show ?thesis
      using pop(8) by (simp add: sub_allocate_def allocate_one_def
          andthen_eq(1)[of "alloc_state demo_node_cfg bump_sys 0 handle_default", OF s]
          andthen_eq(1)[of "nodes_allocate demo_node_cfg bump_sys 77", OF n])
  qed
  then obtain a P' where a: "sub_allocate demo_node_cfg bump_sys 0 handle_default 1 P = Some (Inr a, P')" by blast
  have "a \<noteq> nullptr \<and> unat a \<noteq> x"
    using single_allocate_correct[OF k(1) d(6) k(2,3) d(1)[folded demo_node_pool_cfg] d(5)] a d(2)
    by (auto simp: demo_node_pool_cfg)
  then show ?thesis using d(2) a by blast
qed

theorem single_free_routed_witness:
  "\<exists>(P :: process) fl x. lent (demo_cfg Fixed) (pr_pools P 77) fl [] = {x} \<and> pr_tls P 1 = 99 \<and>
     pr_pools (sub_deallocate demo_node_cfg bump_sys 1 handle_default (adr x) 1 P) 77 = (pr_pools P 77)\<lparr>p_remote := adr x\<rparr>"
proof -
  obtain P :: process and fl x where d: "pool_inv (demo_cfg Fixed) (pr_pools P 77) (pr_world P) fl []"
    "lent (demo_cfg Fixed) (pr_pools P 77) fl [] = {x}" "p_self (pr_pools P 77) = 77"
    "p_page_size (pr_pools P 77) = 4096" "sys_honest bump_sys (pr_world P)" "pr_tls P 0 = 77" "pr_tls P 1 = 99" "length fl = 3"
    by (rule demo_node_process)
  have k: "has_thread_state demo_node_cfg" "(77 :: ptr) \<noteq> nullptr"
    by (simp_all add: demo_node_cfg_def has_thread_state_def mode_defs)
  have page: "p_page_size (pr_pools P 77) = detect_page_size (sys_sysconf bump_sys)" using d(4) demo_page by simp
  have x: "x \<in> lent (node_pool_cfg demo_node_cfg) (pr_pools P 77) fl []" using d(2) demo_node_pool_cfg by simp
  note f = single_free_routed[OF k d(1)[folded demo_node_pool_cfg] d(3) page x, of 1]
  have "pr_pools (sub_deallocate demo_node_cfg bump_sys 1 handle_default (adr x) 1 P) 77 = (pr_pools P 77)\<lparr>p_remote := adr x\<rparr>"
    using conjunct1[OF f] d(7) by simp
  then show ?thesis using d(2,7) by blast
qed

theorem run_free_routed_witness:
  "\<exists>(P :: process) G rl x s. runner_inv (runs_cfg (demo_sub_cfg Fixed 1)) (pr_runs P 192) (pr_world P) G rl \<and> (x, s) \<in> lent_runs G rl \<and>
     pr_runs (free_run_routed (demo_sub_cfg Fixed 1) 5 handle_default (adr (x + 16)) P) 192 =
       (pr_runs P 192)\<lparr>rn_remote := adr (x + 16)\<rparr>"
proof -
  let ?k = "demo_sub_cfg Fixed 1"
  obtain a P where a: "sub_allocate ?k deaf_sys 0 handle_default 20 (demo_process ?k 2000) = Some (Inr a, P)" "a \<noteq> nullptr"
    "sub_holds ?k deaf_sys {Nodes 64, Runs 64} P {(Runs 64, unat a)}" "20 \<le> payload_bytes (mem_of P) (unat a)"
    "settled {Nodes 64, Runs 64} P" "pr_tls P 0 = 64"
    "tc_count (pr_cache (sub_deallocate ?k deaf_sys 0 handle_default a 20 P) 0 1) = 1" by (rule demo_buffer)
  obtain B where e: "estates ?k deaf_sys {Nodes 64, Runs 64} P B" "{(Runs 64, unat a)} \<subseteq> B" using a(3) by (rule sub_holdsE)
  have off: "runs_of ?k 64 = 192" by (simp add: runs_of_def demo_sub_cfg_def)
  from e(2) have "(Runs 64, unat a) \<in> B" by simp
  note l = lent_run[OF e(1) this, unfolded off]
  obtain G rl where inv: "runner_inv (runs_cfg ?k) (pr_runs P 192) (pr_world P) G rl" "B `` {Runs 64} = payloads (lent_runs G rl)"
    using l(2) by (auto simp: runner_holds_def)
  then obtain x s where x: "(x, s) \<in> lent_runs G rl" using l(3) by (auto simp: payloads_def)
  let ?P = "P\<lparr>pr_tls := \<lambda>_. nullptr\<rparr>"
  have n: "local_runs_or_null ?k 5 handle_default ?P \<noteq> 192"
    by (simp add: local_runs_or_null_def handle_default_def local_state_or_null_def)
  have "runner_inv (runs_cfg ?k) (pr_runs ?P 192) (pr_world ?P) G rl" "rn_self (pr_runs ?P 192) = 192"
    using inv(1) l(4) by simp_all
  from run_free_routed[OF estatesD(1)[OF e(1)] this x, of 5] n
  have "pr_runs (free_run_routed ?k 5 handle_default (adr (x + 16)) ?P) 192 = (pr_runs ?P 192)\<lparr>rn_remote := adr (x + 16)\<rparr>"
    by auto
  moreover have "runner_inv (runs_cfg ?k) (pr_runs ?P 192) (pr_world ?P) G rl" using inv(1) by simp
  ultimately show ?thesis using x by blast
qed

theorem sub_expand_correct_witness:
  "\<exists>a P bytes P'. a \<noteq> nullptr \<and> sub_holds (demo_sub_cfg Fixed 1) deaf_sys {Nodes 64, Runs 64} P {(Runs 64, unat a)} \<and>
     sub_expand (demo_sub_cfg Fixed 1) 0 handle_default a 100 P = (bytes, P') \<and> (100 \<le> bytes \<or> P' = P) \<and>
     sub_expand (demo_sub_cfg Fixed 1) 5 handle_default a 100 P = (0, P)"
proof -
  let ?k = "demo_sub_cfg Fixed 1"
  obtain a P where a: "sub_allocate ?k deaf_sys 0 handle_default 20 (demo_process ?k 2000) = Some (Inr a, P)" "a \<noteq> nullptr"
    "sub_holds ?k deaf_sys {Nodes 64, Runs 64} P {(Runs 64, unat a)}" "20 \<le> payload_bytes (mem_of P) (unat a)"
    "settled {Nodes 64, Runs 64} P" "pr_tls P 0 = 64"
    "tc_count (pr_cache (sub_deallocate ?k deaf_sys 0 handle_default a 20 P) 0 1) = 1" by (rule demo_buffer)
  let ?P = "P\<lparr>pr_tls := (\<lambda>_. nullptr)(0 := 64)\<rparr>"
  obtain B C where "estates ?k deaf_sys {Nodes 64, Runs 64} P B" "stocked ?k (mem_of P) B (pr_cache P) C"
    "{(Runs 64, unat a)} \<subseteq> B" "{(Runs 64, unat a)} \<inter> cached C = {}" using a(3) by (rule sub_holdsE)
  moreover have "estates ?k deaf_sys D ?P B = estates ?k deaf_sys D P B" for D B
  proof -
    have "part_holds ?k deaf_sys ?P p H = part_holds ?k deaf_sys P p H" "part_area ?k ?P p = part_area ?k P p" for p H
      by (cases p; simp)+
    then show ?thesis by (simp add: estates_def)
  qed
  ultimately have h: "sub_holds ?k deaf_sys {Nodes 64, Runs 64} ?P {(Runs 64, unat a)}"
    unfolding sub_holds_def by (intro exI[of _ B] exI[of _ C]) simp
  have "settled {Nodes 64, Runs 64} ?P" by (simp add: settled_def)
  note x = sub_expand_correct[OF h this singletonI, where n = 100, unfolded adr_unat]
  from x[of 0] obtain bytes P' where "sub_expand ?k 0 handle_default a 100 ?P = (bytes, P')" "100 \<le> bytes \<or> P' = ?P"
    by auto
  moreover have "sub_expand ?k 5 handle_default a 100 ?P = (0, ?P)" using x[of 5] by auto
  ultimately show ?thesis using h a(2) by blast
qed

theorem state_new_correct_witness:
  "case state_new demo_node_cfg bump_sys 64 4 4096 empty_world of
     None \<Rightarrow> False
   | Some (res, w') \<Rightarrow> (case res of Inl e \<Rightarrow> live w' = [] | Inr st \<Rightarrow> p_self (ss_pool st) = 64 \<and> rn_self (ss_runs st) = 192)"
proof -
  have k: "layout_ok (sc_ty demo_node_cfg)" "heap_backed_mode (sc_mode demo_node_cfg)" "runs_of demo_node_cfg 64 = 192"
    using node_ty_layout by (simp_all add: demo_node_cfg_def mode_defs runs_of_def)
  have l: "live empty_world = []" by (simp add: empty_world_def)
  from state_new_correct[OF k(1,2) demo_runner_page empty_world_ok demo_steady, of 64 4 4096]
  obtain res w' where n: "state_new demo_node_cfg bump_sys 64 4 4096 empty_world = Some (res, w')"
    and r: "case res of Inl e \<Rightarrow> live w' = [] | Inr st \<Rightarrow> \<exists>fl b s.
      pool_inv (node_pool_cfg demo_node_cfg) (ss_pool st) w' fl [] \<and> length fl = unat (4 :: u64) \<and> p_self (ss_pool st) = 64 \<and>
      runner_inv (runs_cfg demo_node_cfg) (ss_runs st) w' [(b, [(s, True)])] [] \<and> unat (4096 :: u64) \<le> s + 16 \<and>
      rn_self (ss_runs st) = 192" unfolding l k(3) by blast
  show ?thesis using r by (cases res) (auto simp: n)
qed

theorem at_least_count_correct_witness:
  "at_least_count (demo_sub_cfg Dynamic 16) 10 = 15 \<and> (10 :: u64) \<le> at_least_count (demo_sub_cfg Dynamic 16) 10"
proof -
  have "10 \<le> sub_max_size (demo_sub_cfg Dynamic 16)" by code_simp
  moreover have "at_least_count (demo_sub_cfg Dynamic 16) 10 = 15" by code_simp
  ultimately show ?thesis using at_least_count_correct[of 10 "demo_sub_cfg Dynamic 16"] by blast
qed

theorem at_least_count_wraps_witness:
  "\<exists>p P. p \<noteq> nullptr \<and> sub_allocate_at_least (demo_sub_cfg Dynamic 16) deaf_sys 0 handle_default 12297829382473034412
     (demo_process (demo_sub_cfg Dynamic 16) 2000) = Some (Inr (p, 2), P)"
proof -
  obtain p P where p: "sub_allocate (demo_sub_cfg Dynamic 16) deaf_sys 0 handle_default 2 (demo_process (demo_sub_cfg Dynamic 16) 2000) = Some (Inr p, P)"
    "p \<noteq> nullptr"
    using demo_run_pair by (auto split: option.splits prod.splits sum.splits)
  have "dynamic_mode (sc_mode (demo_sub_cfg Dynamic 16))" by (simp add: demo_sub_cfg_def mode_defs)
  from at_least_count_wraps[OF this demo_size p(1)] p(2) show ?thesis by blast
qed

theorem sub_allocate_errors_witness:
  "sub_allocate (demo_sub_cfg Dynamic 16) deaf_sys 0 handle_default 1152921504606846976 demo_fresh =
     Some (Inl Bad_array_new_length, demo_fresh)"
proof -
  have "sub_max_size (demo_sub_cfg Dynamic 16) < 1152921504606846976" by code_simp
  then show ?thesis using sub_allocate_errors by blast
qed

theorem handle_rebind_correct_witness:
  "let k = demo_sub_cfg Dynamic 1; away = handle_rebind k (handle_explicit 64); back = handle_rebind k away
   in confined_runs k back = 192 \<and> handle_neq back (handle_explicit 64)"
proof -
  have r: "runs_of (demo_sub_cfg Dynamic 1) 64 = 192" by (simp add: runs_of_def demo_sub_cfg_def)
  then have "(64 :: ptr) \<noteq> nullptr" "runs_of (demo_sub_cfg Dynamic 1) 64 \<noteq> nullptr" by simp_all
  from handle_rebind_correct[OF this] r show ?thesis unfolding Let_def by metis
qed

theorem refill_throw_leaks_witness:
  "\<exists>raw e P2. raw \<noteq> nullptr \<and>
     allocate_from_tls_run_cache (demo_sub_cfg Dynamic 1) deaf_sys 0 handle_default 20 (demo_process (demo_sub_cfg Dynamic 1) 64) = Some (Inl e, P2) \<and>
     sub_holds (demo_sub_cfg Dynamic 1) deaf_sys {Nodes 64, Runs 64} P2 {(Runs 64, unat raw)}"
proof -
  let ?k = "demo_sub_cfg Dynamic 1"
  have sp: "64 \<le> unat (64 :: u64)" "unat (64 :: u64) < 2 ^ 32" by simp_all
  have h: "sub_holds ?k deaf_sys {Nodes 64, Runs 64} (demo_process ?k 64) {}" "house {Nodes 64, Runs 64} 0 64 (demo_process ?k 64)"
    using demo_holds[OF _ _ sp, of Dynamic 1] by (simp_all add: mode_defs)
  have off: "runs_of ?k 64 = 192" by (simp add: runs_of_def demo_sub_cfg_def)
  have idx: "tls_class_index_for 20 = adr 1" "tls_class_bytes (tls_class_index_for 20) = 32"
    by (simp add: adr_def) (code_simp, code_simp)
  obtain raw P1 where r1: "runs_allocate ?k deaf_sys 192 32 1 (demo_process ?k 64) = Some (Inr raw, P1)" "raw \<noteq> nullptr"
    "case runs_allocate ?k deaf_sys 192 32 1 P1 of Some (Inl e, P2) \<Rightarrow> True | _ \<Rightarrow> False"
    using demo_run_tight by (elim case_someE) (simp split: sum.splits)
  from r1(3) obtain e P2 where r2: "runs_allocate ?k deaf_sys 192 32 1 P1 = Some (Inl e, P2)"
    by (elim case_someE) (simp split: sum.splits)
  note r = r1(1,2) r2
  have al: "alignof (sc_ty ?k) = 1" by (simp add: demo_sub_cfg_def)
  have z: "tc_count (pr_cache (demo_process ?k 64) 0 (unat (tls_class_index_for 20))) = 0"
    by code_simp
  have d: "dynamic_mode (sc_mode ?k)" "0 < unat (20 :: u64)" "unat (20 :: u64) \<le> 4096"
    by (simp_all add: demo_sub_cfg_def mode_defs)
  show ?thesis
    using refill_throw_leaks[OF h deaf_steady d z, unfolded idx(2) al off, OF r(1,2,3)] r(2) by auto
qed

end
