(* ===== verification/Runner_Lifetime.thy ===== *)
theory Runner_Lifetime
  imports Held_Runs Runner_Properties
begin

text \<open>
  The runner from its constructor to its destructor.  Whatever a client does in between, what the
  runner takes from the system is recorded in its chunks, so that the release gives exactly that
  back; and the runner and its client write only memory that was taken for them.
\<close>

section \<open>One operation\<close>

lemma request_acquires:
  assumes h: "runner_holds k (r, w) H" and steady: "sys_steady sys w"
    and a: "allocate_bytes k sys b al r w = Some (ans, r', w')"
  shows "acquires r w r' w'"
proof -
  obtain G rl where inv: "runner_inv k r w G rl" using h by (auto simp: runner_holds_def)
  show ?thesis
  proof (cases "request_ok b al")
    case True
    then show ?thesis using allocate_bytes_post[OF inv steady True] a by (auto simp: runner_post_def)
  next
    case False
    then have "stats_only r r'" "w' = w" using allocate_bytes_refused[OF inv False, of sys] a by auto
    then show ?thesis using stats_only_fields(4-6) by (intro acquires_same) simp_all
  qed
qed

lemma deallocate_acquires:
  assumes h: "runner_holds k (r, w) H" and x: "x \<in> H" and d: "deallocate_bytes k (adr x) (r, cells w) = (r', m')"
  shows "acquires r w r' (w\<lparr>cells := m'\<rparr>)"
proof -
  obtain G rl where inv: "runner_inv k r w G rl" and H: "H = payloads (lent_runs G rl)"
    using h by (auto simp: runner_holds_def)
  then obtain y t where y: "(y, t) \<in> lent_runs G rl" "x = y + 16" using x by (auto simp: payloads_def)
  have rc: "runner_core r (cells w) G" using inv by (simp add: runner_inv_def)
  have "core_only r r'" using deallocate_core[OF rc lent_used[OF y(1), THEN conjunct1], of k] d y(2) by auto
  then show ?thesis using core_only_fields(2-4) by (intro acquires_same) simp_all
qed

lemma expand_acquires:
  assumes h: "runner_holds k (r, w) H" and x: "x \<in> H" and e: "runner_expand k (adr x) n (r, cells w) = (n', r', m')"
  shows "acquires r w r' (w\<lparr>cells := m'\<rparr>)"
proof -
  obtain G rl where inv: "runner_inv k r w G rl" and H: "H = payloads (lent_runs G rl)"
    using h by (auto simp: runner_holds_def)
  then obtain y t where y: "(y, t) \<in> lent_runs G rl" "x = y + 16" using x by (auto simp: payloads_def)
  have rc: "runner_core r (cells w) G" using inv by (simp add: runner_inv_def)
  have "core_only r r'" using runner_expand_core[OF rc lent_used[OF y(1), THEN conjunct1], of k n] e y(2) by auto
  then show ?thesis using core_only_fields(2-4) by (intro acquires_same) simp_all
qed

section \<open>The whole life\<close>

text \<open>The regions since the construction are those of the runner, and nothing else has changed.\<close>

definition of_its_own :: "world \<Rightarrow> runner \<times> world \<Rightarrow> bool" where
  "of_its_own w0 s \<longleftrightarrow> confined {} w0 (runner_area (fst s)) (snd s) \<and>
     (\<exists>new. live (snd s) = new @ live w0 \<and> owned_bases (fst s) = map r_base new)"

lemma of_its_own_step:
  assumes "of_its_own w0 (r, w)" "confined (runner_area r) w (runner_area r') w'"
    and "\<exists>new. live w' = new @ live w \<and> owned_bases r' = map r_base new @ owned_bases r"
  shows "of_its_own w0 (r', w')"
  using assms confined_trans[of "{}" w0 "runner_area r" w "runner_area r'" w'] by (auto simp: of_its_own_def)

lemma session_of_its_own:
  assumes "runner_source.reached k sys s0 s L" and h0: "runner_holds k s0 {}" and o0: "of_its_own w0 s0"
  shows "of_its_own w0 s"
  using assms(1)
proof (induction rule: session.induct)
  case start
  then show ?case by (rule o0)
next
  have request: "of_its_own w0 s'" if "runner_source.reached k sys s0 s L" "of_its_own w0 s" "sys_steady sys (snd s)"
    "runner_request k sys q s = Some (ans, s')" for s L q ans s'
  proof -
    obtain r w r' w' where s: "s = (r, w)" "s' = (r', w')" by (cases s, cases s')
    have h: "runner_holds k (r, w) L" using runner_source.reached_holds[OF that(1) h0] s by simp
    have a: "allocate_bytes k sys (fst q) (snd q) r w = Some (ans, r', w')" and st: "sys_steady sys w"
      using that(3,4) s by (simp_all add: runner_request_def)
    have "confined (runner_area r) w (runner_area r') w'" using held_request[OF h st, of "fst q" "snd q"] a by auto
    then show ?thesis
      using of_its_own_step[OF that(2)[unfolded s(1)]] request_acquires[OF h st a] by (simp add: s(2) acquires_def)
  qed
  {
    case (grant s L q a s')
    then show ?case using request by blast
  next
    case (refuse s L q s')
    then show ?case using request by blast
  next
    case (throw s L q e s')
    then show ?case using request by blast
  }
next
  case (give_back s L x v s')
  obtain r w where s: "s = (r, w)" by (cases s)
  have h: "runner_holds k (r, w) L" using runner_source.reached_holds[OF give_back.hyps(1) h0] s by simp
  show ?case
  proof (cases v)
    case Local
    obtain r' m' where d: "deallocate_bytes k (adr x) (r, cells w) = (r', m')"
      "confined (runner_area r) w (runner_area r') (w\<lparr>cells := m'\<rparr>)"
      using held_return(1)[OF h give_back.hyps(2)] by blast
    have "s' = (r', w\<lparr>cells := m'\<rparr>)" using give_back.hyps(4) d(1) by (simp add: runner_return_def Local s)
    then show ?thesis
      using of_its_own_step[OF give_back.IH[unfolded s] d(2)] deallocate_acquires[OF h give_back.hyps(2) d(1)]
      by (simp add: acquires_def)
  next
    case Parked
    obtain r' m' where d: "runner_remote_push (adr x) (r, cells w) = (r', m')"
      "confined (runner_area r) w (runner_area r') (w\<lparr>cells := m'\<rparr>)"
      using held_return(2)[OF h give_back.hyps(2)] by blast
    have "s' = (r', w\<lparr>cells := m'\<rparr>)" using give_back.hyps(4) d(1) by (simp add: runner_return_def Parked s)
    moreover have "owned_bases r' = owned_bases r"
      using d(1) by (auto simp: runner_remote_push_def owned_bases_def)
    ultimately show ?thesis using of_its_own_step[OF give_back.IH[unfolded s] d(2)] by simp
  qed
next
  case (extend s L x n s')
  obtain r w where s: "s = (r, w)" by (cases s)
  have h: "runner_holds k (r, w) L" using runner_source.reached_holds[OF extend.hyps(1) h0] s by simp
  obtain n' r' m' where e: "runner_expand k (adr x) n (r, cells w) = (n', r', m')"
    "confined (runner_area r) w (runner_area r') (w\<lparr>cells := m'\<rparr>)"
    using held_expand[OF h extend.hyps(2), where n = n] by metis
  have "s' = (r', w\<lparr>cells := m'\<rparr>)" using extend.hyps(3) e(1) by (simp add: runner_resize_def s)
  then show ?case
    using of_its_own_step[OF extend.IH[unfolded s] e(2)] expand_acquires[OF h extend.hyps(2) e(1)]
    by (simp add: acquires_def)
next
  case (client_write s L x i b)
  obtain r w where s: "s = (r, w)" by (cases s)
  have h: "runner_holds k (r, w) L" using runner_source.reached_holds[OF client_write.hyps(1) h0] s by simp
  have "confined (runner_area r) w (runner_area r) (w\<lparr>cells := (cells w)(adr (x + i) := b)\<rparr>)"
    using held_store(4)[OF h client_write.hyps(2)] client_write.hyps(3) s by simp
  then show ?case
    using of_its_own_step[OF client_write.IH[unfolded s]] by (simp add: client_store_def s)
qed

lemma release_of_its_own:
  assumes "runner_holds k s L" "of_its_own w0 s" and linux: "rg_huge k = Huge_enabled \<longrightarrow> sys_linux sys"
  shows "live (release_owned_chunks k sys (fst s) (snd s)) = live w0"
    and "cells (release_owned_chunks k sys (fst s) (snd s)) = cells (snd s)"
    and "a < 2 ^ 64 \<Longrightarrow> live_at w0 a \<Longrightarrow> cells (snd s) (adr a) = cells w0 (adr a)"
proof -
  obtain G rl where inv: "runner_inv k (fst s) (snd s) G rl" using assms(1) by (auto simp: runner_holds_def)
  obtain new where new: "live (snd s) = new @ live w0" "owned_bases (fst s) = map r_base new"
    and c: "confined {} w0 (runner_area (fst s)) (snd s)"
    using assms(2) by (auto simp: of_its_own_def)
  have "distinct (map r_base (live (snd s)))" using inv by (simp add: runner_inv_def world_ok_def)
  then have dis: "r_base reg \<notin> r_base ` set new" if "reg \<in> set (live w0)" for reg
    using that by (auto simp: new(1))
  note rel = release_owned_live[OF inv linux]
  show "live (release_owned_chunks k sys (fst s) (snd s)) = live w0"
    unfolding rel(1) using dis by (simp add: new cong: filter_cong)
  show "cells (release_owned_chunks k sys (fst s) (snd s)) = cells (snd s)" by (rule rel(2))
  show "a < 2 ^ 64 \<Longrightarrow> live_at w0 a \<Longrightarrow> cells (snd s) (adr a) = cells w0 (adr a)"
    using c by (simp add: confined_def)
qed

text \<open>Both constructors with memory of their own.\<close>

lemma runner_new_own:
  assumes page: "has_single_bit (detect_page_size (sys_sysconf sys))" "16 \<le> unat (detect_page_size (sys_sysconf sys))"
    and wok: "world_ok w" and steady: "sys_steady sys w" and n: "runner_new k sys self n w = (Inr r, w0)"
  shows "runner_holds k (r, w0) {}" "of_its_own w (r, w0)" "sys_steady sys w0" "rn_remote r = nullptr" "rn_deferred_bytes r = 0"
proof -
  obtain b s node where i: "runner_inv k r w0 [(b, [(s, True)])] []" "later sys w w0" "confined {} w (runner_area r) w0"
    "owned_bases r = [adr b, node]"
    "live w0 = \<lparr>r_base = adr b, r_bytes = adr (s + 16), r_align = owned_alignment k\<rparr> #
               \<lparr>r_base = node, r_bytes = sizeof_chunk_node, r_align = alignof_max_align\<rparr> # live w"
    using runner_new_step[OF page wok steady, where k = k and self = self and n = n] n by auto
  have "lent_runs [(b, [(s, True)])] [] = {}" by (simp add: lent_runs_def)
  then show "runner_holds k (r, w0) {}" using i(1) by (auto simp: runner_holds_def payloads_def)
  show "of_its_own w (r, w0)"
    unfolding of_its_own_def using i(3-5)
    by (intro conjI exI[of _ "[\<lparr>r_base = adr b, r_bytes = adr (s + 16), r_align = owned_alignment k\<rparr>,
          \<lparr>r_base = node, r_bytes = sizeof_chunk_node, r_align = alignof_max_align\<rparr>]"]) simp_all
  show "sys_steady sys w0" by (rule sys_steady_later[OF steady i(2)])
  obtain res r1 w1 where add: "add_owned_chunk k sys n (runner_members sys self (max n 65536)) w = (res, r1, w1)"
    by (metis prod_cases3)
  have "chunk_outcome k n [] [] (runner_members sys self (max n 65536)) w (res, r1, w1)"
    using add_owned_chunk_outcome[OF runner_members_inv[OF page wok] steady, where k = k and bytes = n] add by metis
  then have "\<forall>c. res = Inr c \<longrightarrow> rn_deferred_bytes r1 = rn_deferred_bytes (runner_members sys self (max n 65536))"
    by (auto simp: chunk_outcome_def)
  then show "rn_deferred_bytes r = 0"
    using n[unfolded runner_new_def add prod.case] by (cases res) (auto simp: runner_members_def)
  show "rn_remote r = nullptr" using i(1) by (simp add: runner_inv_def parked_ok_def)
qed

lemma runner_new_lazy_own:
  assumes page: "has_single_bit (detect_page_size (sys_sysconf sys))" "16 \<le> unat (detect_page_size (sys_sysconf sys))"
    and wok: "world_ok w"
  shows "runner_holds k (runner_new_lazy sys self n, w) {}" "of_its_own w (runner_new_lazy sys self n, w)"
proof -
  have "runner_inv k (runner_new_lazy sys self n) w [] []" by (rule runner_new_lazy_inv[OF page wok])
  moreover have "lent_runs [] [] = {}" by (simp add: lent_runs_def)
  ultimately show "runner_holds k (runner_new_lazy sys self n, w) {}" by (auto simp: runner_holds_def payloads_def)
  show "of_its_own w (runner_new_lazy sys self n, w)"
    by (simp add: of_its_own_def runner_new_lazy_def runner_members_def owned_bases_def runner_area_def owns_run_def)
qed

text \<open>
  C29. However a client used the runner - after either constructor with memory of its own, any mix of
  requests, blocks given back on either path, expansions and stores, with blocks still lent or
  not - the destructor gives back exactly what was taken since the construction: the system
  holds the regions it held before.  All along neither the runner nor its client has changed a word
  of memory that was out before.
\<close>

theorem runner_lifetime_correct:
  assumes page: "has_single_bit (detect_page_size (sys_sysconf sys))" "16 \<le> unat (detect_page_size (sys_sysconf sys))"
    and world: "world_ok w" "sys_steady sys w" and linux: "rg_huge k = Huge_enabled \<longrightarrow> sys_linux sys"
    and new: "runner_new k sys self n w = (Inr r0, w0) \<or> r0 = runner_new_lazy sys self n \<and> w0 = w"
    and used: "session (runner_request k sys) (runner_return k) (runner_resize k) client_store
       (\<lambda>s. payload_bytes (cells (snd s))) (\<lambda>s. sys_steady sys (snd s)) {Local, Parked} (r0, w0) (r, w1) L"
  shows "live (release_owned_chunks k sys r w1) = live w \<and>
    (\<forall>a < 2 ^ 64. live_at w a \<longrightarrow> cells (release_owned_chunks k sys r w1) (adr a) = cells w (adr a))"
proof -
  have start: "runner_holds k (r0, w0) {}" "of_its_own w (r0, w0)"
    using new runner_new_own[OF page world] runner_new_lazy_own[OF page world(1)] by auto
  have "runner_holds k (r, w1) L" by (rule runner_source.reached_holds[OF used start(1)])
  from release_of_its_own[OF this session_of_its_own[OF used start] linux] show ?thesis by simp
qed

theorem runner_lifetime_correct_witness:
  "\<exists>r0 w0 a r w. runner_new demo_run_cfg bump_sys 77 65536 empty_world = (Inr r0, w0) \<and>
     allocate_bytes demo_run_cfg bump_sys 100 8 r0 w0 = Some (Inr a, r, w) \<and> a \<noteq> nullptr \<and> live w \<noteq> [] \<and>
     live (release_owned_chunks demo_run_cfg bump_sys r w) = []"
proof -
  obtain r0 w0 b s where d: "runner_new demo_run_cfg bump_sys 77 65536 empty_world = (Inr r0, w0)"
    "runner_inv demo_run_cfg r0 w0 [(b, [(s, True)])] []" "65520 \<le> s" "sys_steady bump_sys w0"
    by (rule demo_runner)
  obtain a r w where a: "allocate_bytes demo_run_cfg bump_sys 100 8 r0 w0 = Some (Inr a, r, w)" "a \<noteq> nullptr"
    using allocate_bytes_post[OF d(2,4) demo_request(1)] demo_fit[OF d(3)] by (metis prod_cases3 fst_conv)
  note st = session.start[of "runner_request demo_run_cfg bump_sys" "runner_return demo_run_cfg" "runner_resize demo_run_cfg"
    client_store "\<lambda>s. payload_bytes (cells (snd s))" "\<lambda>s. sys_steady bump_sys (snd s)" "{Local, Parked}" "(r0, w0)"]
  have "sys_steady bump_sys (snd (r0, w0))" "runner_request demo_run_cfg bump_sys (100, 8) (r0, w0) = Some (Inr a, r, w)"
    using d(4) a(1) by (simp_all add: runner_request_def)
  note used = session.grant[OF st this a(2)]
  have linux: "rg_huge demo_run_cfg = Huge_enabled \<longrightarrow> sys_linux bump_sys" by (simp add: demo_run_cfg_def)
  have "live (release_owned_chunks demo_run_cfg bump_sys r w) = []"
    using runner_lifetime_correct[OF demo_runner_page empty_world_ok demo_steady linux disjI1[OF d(1)] used]
    by (simp add: empty_world_def)
  moreover have "live w \<noteq> []"
  proof -
    have "of_its_own empty_world (r0, w0)" by (rule runner_new_own(2)[OF demo_runner_page empty_world_ok demo_steady d(1)])
    moreover have "live w0 \<noteq> []"
      using d(2) by (auto simp: runner_inv_def chunks_match_def extents_def chunk_backed_def split: if_splits)
    moreover have "acquires r0 w0 r w"
    proof (rule request_acquires[OF _ d(4) a(1)])
      show "runner_holds demo_run_cfg (r0, w0) {}" by (rule runner_new_own(1)[OF demo_runner_page empty_world_ok demo_steady d(1)])
    qed
    ultimately show ?thesis by (auto simp: acquires_def)
  qed
  ultimately show ?thesis using d(1) a by blast
qed

end
