(* ===== verification/Trace_Bench.thy ===== *)
theory Trace_Bench
  imports Runner_Lifetime Complex_Main
begin

text \<open>
  The workloads of the runner benchmark (\<open>bench/runner_benchmark.cpp\<close>): a client that draws a trace
  of allocations and deallocations at random and plays it against a pool.  The random engine and the
  distributions of the standard library are a parameter; a double is a real number.
\<close>

section \<open>Traces\<close>

datatype op_kind = Op_allocate | Op_deallocate

record trace_op =
  to_kind :: op_kind
  to_slot :: u64
  to_bytes :: u64

record trace_case =
  tc_name :: string
  tc_ops :: "trace_op list"
  tc_slot_count :: u64

text \<open>
  The engine made from a seed, one draw of \<open>uniform_real_distribution (0, 1)\<close>, and one draw of
  \<open>uniform_int_distribution (lo, hi)\<close>, each with the engine that is left.
\<close>

record 'g random =
  new_engine :: "u64 \<Rightarrow> 'g"
  uniform_real :: "'g \<Rightarrow> real \<times> 'g"
  uniform_int :: "u64 \<Rightarrow> u64 \<Rightarrow> 'g \<Rightarrow> u64 \<times> 'g"

definition in_range :: "'g random \<Rightarrow> bool" where
  "in_range R \<longleftrightarrow> (\<forall>lo hi g. lo \<le> hi \<longrightarrow> lo \<le> fst (uniform_int R lo hi g) \<and> fst (uniform_int R lo hi g) \<le> hi)"

text \<open>What \<open>make_trace\<close> works on: the engine, the two stacks of slots, the next slot, and the trace.\<close>

record 'g trace_state =
  ts_rng :: 'g
  ts_live :: "u64 list"
  ts_free :: "u64 list"
  ts_next :: u64
  ts_ops :: "trace_op list"

abbreviation list_size :: "'a list \<Rightarrow> u64" where
  "list_size xs \<equiv> adr (length xs)"

definition coin_toss :: "'g random \<Rightarrow> u64 \<Rightarrow> real \<Rightarrow> 'g trace_state \<Rightarrow> bool \<times> 'g" where
  "coin_toss R max_live alloc_bias ts =
     (if ts_live ts = [] then (True, ts_rng ts)
      else if list_size (ts_live ts) < max_live
      then (case uniform_real R (ts_rng ts) of (c, g) \<Rightarrow> (c < alloc_bias, g))
      else (False, ts_rng ts))"

definition trace_step ::
    "'g random \<Rightarrow> u64 \<Rightarrow> real \<Rightarrow> ('g \<Rightarrow> u64 \<Rightarrow> u64 \<times> 'g) \<Rightarrow> u64 \<Rightarrow> 'g trace_state \<Rightarrow> 'g trace_state" where
  "trace_step R max_live alloc_bias size_fn step ts =
     (case coin_toss R max_live alloc_bias ts of (do_alloc, g) \<Rightarrow>
        if do_alloc
        then let (slot, free, next) = (if ts_free ts \<noteq> [] then (last (ts_free ts), butlast (ts_free ts), ts_next ts)
                                       else (ts_next ts, [], ts_next ts + 1));
                 (bytes, g') = size_fn g step
             in \<lparr>ts_rng = g', ts_live = ts_live ts @ [slot], ts_free = free, ts_next = next,
                 ts_ops = ts_ops ts @ [\<lparr>to_kind = Op_allocate, to_slot = slot, to_bytes = bytes\<rparr>]\<rparr>
        else let (idx, g') = uniform_int R 0 (list_size (ts_live ts) - 1) g;
                 slot = ts_live ts ! unat idx
             in \<lparr>ts_rng = g', ts_live = butlast ((ts_live ts)[unat idx := last (ts_live ts)]),
                 ts_free = ts_free ts @ [slot], ts_next = ts_next ts,
                 ts_ops = ts_ops ts @ [\<lparr>to_kind = Op_deallocate, to_slot = slot, to_bytes = 0\<rparr>]\<rparr>)"

fun trace_flush :: "u64 list \<Rightarrow> trace_op list \<Rightarrow> trace_op list" where
  "trace_flush live_slots ops =
     (if live_slots = [] then ops
      else trace_flush (butlast live_slots)
             (ops @ [\<lparr>to_kind = Op_deallocate, to_slot = last live_slots, to_bytes = 0\<rparr>]))"

declare trace_flush.simps [simp del]

definition make_trace ::
    "'g random \<Rightarrow> string \<Rightarrow> u64 \<Rightarrow> u64 \<Rightarrow> real \<Rightarrow> u64 \<Rightarrow> ('g \<Rightarrow> u64 \<Rightarrow> u64 \<times> 'g) \<Rightarrow> trace_case" where
  "make_trace R name steps max_live alloc_bias seed size_fn =
     (let ts = fold (\<lambda>i. trace_step R max_live alloc_bias size_fn (adr i)) [0..<unat steps]
                 \<lparr>ts_rng = new_engine R seed, ts_live = [], ts_free = [], ts_next = 0, ts_ops = []\<rparr>
      in \<lparr>tc_name = name, tc_ops = trace_flush (ts_live ts) (ts_ops ts), tc_slot_count = ts_next ts\<rparr>)"

section \<open>The sizes\<close>

definition aligned_random_to :: "'g random \<Rightarrow> 'g \<Rightarrow> u64 \<Rightarrow> u64 \<Rightarrow> u64 \<Rightarrow> u64 \<times> 'g" where
  "aligned_random_to R rng lo hi multiple =
     (case uniform_int R lo hi rng of (value, rng') \<Rightarrow>
        let rem = value mod multiple
        in (if rem = 0 then value else value + (multiple - rem), rng'))"

definition aligned_random :: "'g random \<Rightarrow> 'g \<Rightarrow> u64 \<Rightarrow> u64 \<Rightarrow> u64 \<times> 'g" where
  "aligned_random R rng lo hi =
     (case uniform_int R lo hi rng of (value, rng') \<Rightarrow>
        let rem = value mod 16
        in (if rem = 0 then value else value + (16 - rem), rng'))"

definition pick_from :: "'g random \<Rightarrow> u64 list \<Rightarrow> 'g \<Rightarrow> u64 \<times> 'g" where
  "pick_from R xs rng = (case uniform_int R 0 (list_size xs - 1) rng of (i, rng') \<Rightarrow> (xs ! unat i, rng'))"

definition small_classes :: "u64 list" where
  "small_classes = [16, 32, 48, 64, 80, 96, 112, 128, 144, 160, 176, 192, 208, 224, 240, 256]"

definition fragmentation_sizes :: "u64 list" where
  "fragmentation_sizes = [16, 32, 48, 64, 80, 96, 128, 160, 192, 256, 320, 384, 512, 768, 1024, 1536, 2048]"

definition small_steady_trace :: "'g random \<Rightarrow> trace_case" where
  "small_steady_trace R = make_trace R ''small_steady'' 220000 2048 0.62 0xA11CE (\<lambda>rng _. pick_from R small_classes rng)"

definition medium_mixed_trace :: "'g random \<Rightarrow> trace_case" where
  "medium_mixed_trace R = make_trace R ''medium_mixed'' 180000 1400 0.58 0xBADA55 (\<lambda>rng _. aligned_random R rng 272 4096)"

definition mid_band_trace :: "'g random \<Rightarrow> string \<Rightarrow> u64 \<Rightarrow> u64 \<Rightarrow> u64 \<Rightarrow> trace_case" where
  "mid_band_trace R name lo hi seed = make_trace R name 180000 1400 0.58 seed (\<lambda>rng _. aligned_random R rng lo hi)"

definition bursty_mixed_trace :: "'g random \<Rightarrow> trace_case" where
  "bursty_mixed_trace R = make_trace R ''bursty_mixed'' 220000 1800 0.60 0xC0FFEE
     (\<lambda>rng step. let phase = step AND 127
                 in if phase < 96 then aligned_random R rng 16 192 else aligned_random R rng 512 3072)"

definition fragmentation_trace :: "'g random \<Rightarrow> trace_case" where
  "fragmentation_trace R = make_trace R ''fragmentation'' 260000 3500 0.50 0xF00D (\<lambda>rng _. pick_from R fragmentation_sizes rng)"

definition growth_trace :: "'g random \<Rightarrow> trace_case" where
  "growth_trace R = make_trace R ''growth'' 240000 5000 0.72 0xDEADBEEF
     (\<lambda>rng step. if step < 80000 then aligned_random R rng 64 512
                 else if step < 160000 then aligned_random R rng 128 1024
                 else aligned_random R rng 256 2048)"

definition large_run_pressure_trace :: "'g random \<Rightarrow> trace_case" where
  "large_run_pressure_trace R = make_trace R ''large_run'' 160000 128 0.64 0x1A6E
     (\<lambda>rng step. if step < 53333 then aligned_random_to R rng 4096 16384 4096
                 else if step < 106666 then aligned_random_to R rng 8192 32768 4096
                 else aligned_random_to R rng 16384 65536 4096)"

text \<open>The traces \<open>main\<close> runs.\<close>

definition trace_cases :: "'g random \<Rightarrow> trace_case list" where
  "trace_cases R =
     [small_steady_trace R, medium_mixed_trace R,
      mid_band_trace R ''low_mid_a1'' 272 704 0xBADA56, mid_band_trace R ''low_mid_a2'' 720 1152 0xBADA57,
      mid_band_trace R ''low_mid_b1'' 1168 1600 0xBADA58, mid_band_trace R ''low_mid_b2'' 1616 2048 0xBADA59,
      mid_band_trace R ''high_mid_a1'' 2048 2560 0xBADA5A, mid_band_trace R ''high_mid_a2'' 2576 3072 0xBADA5B,
      mid_band_trace R ''high_mid_b1'' 3088 3584 0xBADA5C, mid_band_trace R ''high_mid_b2'' 3600 4096 0xBADA5D,
      large_run_pressure_trace R, bursty_mixed_trace R, fragmentation_trace R, growth_trace R]"

section \<open>Playing a trace\<close>

text \<open>
  \<open>execute_trace\<close> is a template over the pool, so its two operations are arguments.  An exception
  of the pool ends it; \<open>sink\<close> is a global variable.
\<close>

primrec play_ops ::
    "(u64 \<Rightarrow> u64 \<Rightarrow> 's \<Rightarrow> ((exn + ptr) \<times> 's) option) \<Rightarrow> (ptr \<Rightarrow> 's \<Rightarrow> 's option) \<Rightarrow>
     trace_op list \<Rightarrow> ptr list \<Rightarrow> u64 \<Rightarrow> 's \<Rightarrow> ((exn + ptr list) \<times> u64 \<times> 's) option" where
  "play_ops alloc dealloc [] slots sink pool = Some (Inr slots, sink, pool)"
| "play_ops alloc dealloc (event # events) slots sink pool =
     (let i = unat (to_slot event)
      in if \<not> i < length slots then None
         else case to_kind event of
           Op_allocate \<Rightarrow>
             (case alloc (to_bytes event) alignof_max_align pool of
                None \<Rightarrow> None
              | Some (Inl e, pool') \<Rightarrow> Some (Inl e, sink, pool')
              | Some (Inr p, pool') \<Rightarrow> play_ops alloc dealloc events (slots[i := p]) (sink XOR p) pool')
         | Op_deallocate \<Rightarrow>
             if slots ! i \<noteq> nullptr
             then case dealloc (slots ! i) pool of
                    None \<Rightarrow> None
                  | Some pool' \<Rightarrow> play_ops alloc dealloc events (slots[i := nullptr]) sink pool'
             else play_ops alloc dealloc events slots sink pool)"

definition execute_trace ::
    "(u64 \<Rightarrow> u64 \<Rightarrow> 's \<Rightarrow> ((exn + ptr) \<times> 's) option) \<Rightarrow> (ptr \<Rightarrow> 's \<Rightarrow> 's option) \<Rightarrow>
     trace_case \<Rightarrow> u64 \<Rightarrow> 's \<Rightarrow> ((exn + ptr list) \<times> u64 \<times> 's) option" where
  "execute_trace alloc dealloc trace sink pool =
     play_ops alloc dealloc (tc_ops trace) (replicate (unat (tc_slot_count trace)) nullptr) sink pool"

text \<open>
  One run of a workload: a pool is constructed, the trace is played, the counters are read, and the
  pool is destroyed, also when an exception passes.  \<open>run_workload\<close> is \<open>run_workload_mode\<close> without
  the clock: the warm-up runs, then the repeats, each with its counters.
\<close>

definition run_once ::
    "bool \<Rightarrow> run_cfg \<Rightarrow> sys \<Rightarrow> ptr \<Rightarrow> u64 \<Rightarrow> trace_case \<Rightarrow> u64 \<Rightarrow> world \<Rightarrow> ((exn + stats) \<times> u64 \<times> world) option" where
  "run_once reset k sys self pool_bytes trace sink w =
     (case runner_new k sys self pool_bytes w of
        (Inl e, w') \<Rightarrow> Some (Inl e, sink, w')
      | (Inr r, w') \<Rightarrow>
          (case execute_trace (\<lambda>bytes al. runner_request k sys (bytes, al)) (runner_return k Local) trace sink
                 (if reset then reset_stats r else r, w') of
             None \<Rightarrow> None
           | Some (res, sink', r', w'') \<Rightarrow>
               Some (map_sum id (\<lambda>_. rn_stats r') res, sink', release_owned_chunks k sys r' w'')))"

primrec run_rounds ::
    "bool \<Rightarrow> run_cfg \<Rightarrow> sys \<Rightarrow> ptr \<Rightarrow> u64 \<Rightarrow> trace_case \<Rightarrow> nat \<Rightarrow> u64 \<Rightarrow> world \<Rightarrow> ((exn + stats list) \<times> u64 \<times> world) option" where
  "run_rounds reset k sys self pool_bytes trace 0 sink w = Some (Inr [], sink, w)"
| "run_rounds reset k sys self pool_bytes trace (Suc n) sink w =
     (case run_once reset k sys self pool_bytes trace sink w of
        None \<Rightarrow> None
      | Some (Inl e, sink', w') \<Rightarrow> Some (Inl e, sink', w')
      | Some (Inr st, sink', w') \<Rightarrow>
          map_option (\<lambda>(res, s). (map_sum id ((#) st) res, s)) (run_rounds reset k sys self pool_bytes trace n sink' w'))"

definition run_workload ::
    "run_cfg \<Rightarrow> sys \<Rightarrow> ptr \<Rightarrow> u64 \<Rightarrow> trace_case \<Rightarrow> u64 \<Rightarrow> u64 \<Rightarrow> u64 \<Rightarrow> world \<Rightarrow> ((exn + stats list) \<times> u64 \<times> world) option" where
  "run_workload k sys self pool_bytes trace warmup_runs repeats sink w =
     (case run_rounds False k sys self pool_bytes trace (unat warmup_runs) sink w of
        None \<Rightarrow> None
      | Some (Inl e, s) \<Rightarrow> Some (Inl e, s)
      | Some (Inr _, sink', w') \<Rightarrow> run_rounds True k sys self pool_bytes trace (unat repeats) sink' w')"

section \<open>A trace is balanced\<close>

text \<open>The slots in use after some operations: one allocates into an empty slot only, and frees a full one.\<close>

primrec slots_after :: "trace_op list \<Rightarrow> u64 set \<Rightarrow> u64 set option" where
  "slots_after [] A = Some A"
| "slots_after (e # es) A =
     (if to_kind e = Op_allocate
      then if to_slot e \<in> A then None else slots_after es (insert (to_slot e) A)
      else if to_slot e \<in> A then slots_after es (A - {to_slot e}) else None)"

lemma slots_after_append:
  "slots_after (es @ fs) A = (case slots_after es A of None \<Rightarrow> None | Some B \<Rightarrow> slots_after fs B)"
  by (induction es arbitrary: A) auto

text \<open>Removal by moving the last element into the gap.\<close>

lemma swap_remove:
  assumes "i < length xs" "distinct xs"
  defines "ys \<equiv> butlast (xs[i := last xs])"
  shows "set ys = set xs - {xs ! i}" "distinct ys" "Suc (length ys) = length xs"
proof -
  obtain zs z where xs: "xs = zs @ [z]" using assms(1) by (cases xs rule: rev_cases) auto
  have "set ys = set xs - {xs ! i} \<and> distinct ys"
  proof (cases "i = length zs")
    case True
    then show ?thesis using assms(2) by (simp add: ys_def xs)
  next
    case False
    then have i: "i < length zs" using assms(1) by (simp add: xs)
    then have "ys = zs[i := z]" by (simp add: ys_def xs list_update_append)
    then show ?thesis
      using i assms(2) nth_mem[OF i] by (auto simp: xs nth_append set_update_distinct intro: distinct_list_update)
  qed
  then show "set ys = set xs - {xs ! i}" "distinct ys" by blast+
  show "Suc (length ys) = length xs" by (simp add: ys_def xs)
qed

lemma unat_list_size: "length xs < 2 ^ 64 \<Longrightarrow> unat (list_size xs) = length xs"
  by (rule unat_adr)

lemma index_drawn:
  assumes "in_range R" "xs \<noteq> []" "length xs < 2 ^ 64" "uniform_int R 0 (list_size xs - 1) g = (i, g')"
  shows "unat i < length xs"
proof -
  have "i \<le> list_size xs - 1" using assms(1,4) by (metis fst_conv in_range_def word_zero_le)
  moreover have "1 \<le> list_size xs" using assms(2) by (simp add: word_le_nat_alt unat_list_size[OF assms(3)] Suc_le_eq)
  then have "unat (list_size xs - 1) = length xs - 1" by (simp add: unat_minus_le unat_list_size[OF assms(3)])
  ultimately show ?thesis using assms(2) by (cases xs) (auto simp: word_le_nat_alt)
qed

text \<open>The invariant of \<open>make_trace\<close>; \<open>P\<close> is what the sizes satisfy.\<close>

definition trace_ok :: "(u64 \<Rightarrow> bool) \<Rightarrow> u64 \<Rightarrow> 'g trace_state \<Rightarrow> bool" where
  "trace_ok P max_live ts \<longleftrightarrow>
     distinct (ts_live ts @ ts_free ts) \<and> set (ts_live ts) \<union> set (ts_free ts) = {s. s < ts_next ts} \<and>
     unat (ts_next ts) = length (ts_live ts) + length (ts_free ts) \<and> unat (ts_next ts) \<le> max 1 (unat max_live) \<and>
     slots_after (ts_ops ts) {} = Some (set (ts_live ts)) \<and>
     (\<forall>e \<in> set (ts_ops ts). to_slot e < ts_next ts \<and> (to_kind e = Op_allocate \<longrightarrow> P (to_bytes e)))"

lemma trace_ok_alloc:
  assumes ok: "trace_ok P max_live ts" and room: "ts_live ts = [] \<or> list_size (ts_live ts) < max_live" and b: "P bytes"
    and nx: "(slot, free, next) = (if ts_free ts \<noteq> [] then (last (ts_free ts), butlast (ts_free ts), ts_next ts)
                                  else (ts_next ts, [], ts_next ts + 1))"
  shows "trace_ok P max_live \<lparr>ts_rng = g, ts_live = ts_live ts @ [slot], ts_free = free, ts_next = next,
           ts_ops = ts_ops ts @ [\<lparr>to_kind = Op_allocate, to_slot = slot, to_bytes = bytes\<rparr>]\<rparr>"
proof (cases "ts_free ts" rule: rev_cases)
  case (snoc fs f)
  then have "slot = f" "free = fs" "next = ts_next ts" using nx by simp_all
  then show ?thesis using ok b snoc by (auto simp: trace_ok_def slots_after_append)
next
  case Nil
  then have eq: "slot = ts_next ts" "free = []" "next = ts_next ts + 1" using nx by simp_all
  have n: "unat (ts_next ts) = length (ts_live ts)" "set (ts_live ts) = {s. s < ts_next ts}"
    using ok Nil by (simp_all add: trace_ok_def)
  have "list_size (ts_live ts) = ts_next ts" by (simp add: n(1)[symmetric])
  then have lim: "unat (ts_next ts) < max 1 (unat max_live)"
    using room n(1) by (auto simp: word_less_nat_alt)
  then have "unat (ts_next ts) + 1 < 2 ^ 64" using unat_lt_64[of max_live] by auto
  then have up: "unat (ts_next ts + 1) = unat (ts_next ts) + 1" by (simp add: unat_plus_le)
  then have below: "s < ts_next ts + 1 \<longleftrightarrow> s = ts_next ts \<or> s < ts_next ts" for s
    by (auto simp: word_less_nat_alt word_unat_eq_iff)
  show ?thesis
    using ok b lim up n below unfolding trace_ok_def eq by (auto simp: slots_after_append Nil)
qed

lemma trace_ok_free:
  assumes ok: "trace_ok P max_live ts" and idx: "unat idx < length (ts_live ts)"
  shows "trace_ok P max_live \<lparr>ts_rng = g, ts_live = butlast ((ts_live ts)[unat idx := last (ts_live ts)]),
           ts_free = ts_free ts @ [ts_live ts ! unat idx], ts_next = ts_next ts,
           ts_ops = ts_ops ts @ [\<lparr>to_kind = Op_deallocate, to_slot = ts_live ts ! unat idx, to_bytes = 0\<rparr>]\<rparr>"
proof -
  have "distinct (ts_live ts)" using ok by (simp add: trace_ok_def)
  note sr = swap_remove[OF idx this]
  have "ts_live ts ! unat idx \<in> set (ts_live ts)" using idx by simp
  then show ?thesis using ok sr unfolding trace_ok_def by (auto simp: slots_after_append)
qed

lemma trace_step_ok:
  assumes ok: "trace_ok P max_live ts" and R: "in_range R" and sz: "\<And>g i. P (fst (size_fn g i))"
  shows "trace_ok P max_live (trace_step R max_live alloc_bias size_fn step ts)"
proof -
  obtain do_alloc g where c: "coin_toss R max_live alloc_bias ts = (do_alloc, g)" by fastforce
  show ?thesis
  proof (cases do_alloc)
    case True
    then have room: "ts_live ts = [] \<or> list_size (ts_live ts) < max_live"
      using c by (auto simp: coin_toss_def split: if_splits)
    obtain slot free nxt where n: "(slot, free, nxt) = (if ts_free ts \<noteq> [] then (last (ts_free ts), butlast (ts_free ts), ts_next ts)
                                  else (ts_next ts, [], ts_next ts + 1))"
      by (metis prod_cases3)
    obtain bytes g' where b: "size_fn g step = (bytes, g')" by fastforce
    then have "P bytes" using sz[of g step] by simp
    from trace_ok_alloc[OF ok room this n] show ?thesis
      using True b unfolding trace_step_def c by (simp add: n[symmetric])
  next
    case False
    then have ne: "ts_live ts \<noteq> []" using c by (auto simp: coin_toss_def)
    have lim: "length (ts_live ts) < 2 ^ 64" using ok unat_lt_64[of "ts_next ts"] by (simp add: trace_ok_def)
    obtain idx g' where i: "uniform_int R 0 (list_size (ts_live ts) - 1) g = (idx, g')" by fastforce
    from trace_ok_free[OF ok index_drawn[OF R ne lim i]] show ?thesis using False i unfolding trace_step_def c by (simp add: Let_def)
  qed
qed

lemma trace_flush_eq:
  "trace_flush xs ops = ops @ map (\<lambda>s. \<lparr>to_kind = Op_deallocate, to_slot = s, to_bytes = 0\<rparr>) (rev xs)"
  by (induction xs arbitrary: ops rule: rev_induct) (simp_all add: trace_flush.simps)

lemma slots_after_flush:
  "distinct xs \<Longrightarrow> slots_after (map (\<lambda>s. \<lparr>to_kind = Op_deallocate, to_slot = s, to_bytes = 0\<rparr>) (rev xs)) (set xs) = Some {}"
proof (induction xs rule: rev_induct)
  case (snoc x xs)
  then have "set (xs @ [x]) - {x} = set xs" by auto
  then show ?case using snoc by simp
qed simp

text \<open>What every trace is like, whatever the engine draws.\<close>

definition balanced_trace :: "(u64 \<Rightarrow> bool) \<Rightarrow> u64 \<Rightarrow> trace_case \<Rightarrow> bool" where
  "balanced_trace P max_live t \<longleftrightarrow>
     slots_after (tc_ops t) {} = Some {} \<and> unat (tc_slot_count t) \<le> max 1 (unat max_live) \<and>
     (\<forall>e \<in> set (tc_ops t). to_slot e < tc_slot_count t \<and> (to_kind e = Op_allocate \<longrightarrow> P (to_bytes e)))"

lemma make_trace_balanced:
  assumes R: "in_range R" and sz: "\<And>g i. P (fst (size_fn g i))"
  shows "balanced_trace P max_live (make_trace R name steps max_live alloc_bias seed size_fn)"
proof -
  define ts where "ts = fold (\<lambda>i. trace_step R max_live alloc_bias size_fn (adr i)) [0..<unat steps]
      \<lparr>ts_rng = new_engine R seed, ts_live = [], ts_free = [], ts_next = 0, ts_ops = []\<rparr>"
  have loop: "trace_ok P max_live (fold (\<lambda>i. trace_step R max_live alloc_bias size_fn (adr i)) is ts0)"
    if "trace_ok P max_live ts0" for "is" ts0
    using that by (induction "is" arbitrary: ts0) (simp_all add: trace_step_ok R sz)
  have ok: "trace_ok P max_live ts" unfolding ts_def by (rule loop) (simp add: trace_ok_def)
  then have d: "distinct (ts_live ts)" by (simp add: trace_ok_def)
  show ?thesis
    using ok slots_after_flush[OF d]
    by (auto simp: balanced_trace_def make_trace_def ts_def[symmetric] trace_ok_def trace_flush_eq slots_after_append)
qed

text \<open>The sizes are multiples of 16 within the bounds of the workload.\<close>

definition run_sized :: "u64 \<Rightarrow> u64 \<Rightarrow> u64 \<Rightarrow> bool" where
  "run_sized lo hi b \<longleftrightarrow> lo \<le> b \<and> b \<le> hi \<and> 16 dvd unat b"

lemma round_up_word:
  fixes lo v hi m :: u64
  assumes "lo \<le> v" "v \<le> hi" "unat m dvd unat hi" "0 < unat m"
  defines "b \<equiv> if v mod m = 0 then v else v + (m - v mod m)"
  shows "lo \<le> b \<and> b \<le> hi \<and> unat m dvd unat b"
proof (cases "v mod m = 0")
  case True
  then have "unat v mod unat m = 0" by (metis unat_0 unat_mod)
  then show ?thesis using assms True by (simp add: b_def mod_eq_0_iff_dvd)
next
  case False
  let ?r = "unat v mod unat m"
  have r: "unat (v mod m) = ?r" "?r < unat m" "0 < ?r"
    using False assms(4) by (simp_all add: unat_mod) (metis gr0I unat_eq_zero unat_mod)
  define d where "d = unat v div unat m"
  have v: "unat v = unat m * d + ?r" by (simp add: d_def)
  obtain q where q: "unat hi = unat m * q" using assms(3) by blast
  have "unat m * d < unat m * q" using assms(2) r(3) v q unfolding word_le_nat_alt by linarith
  then have "unat m * Suc d \<le> unat m * q" by (intro mult_le_mono2) simp
  then have le: "unat v + (unat m - ?r) \<le> unat hi" using v r(2) q by simp
  have sub: "unat (m - v mod m) = unat m - ?r" using r by (simp add: unat_minus_le word_le_nat_alt)
  have "unat b = unat v + (unat m - ?r)"
    using False le unat_lt_64[of hi] by (simp add: b_def unat_plus_le sub)
  moreover have "unat v + (unat m - ?r) = unat m * Suc d" using v r(2) by simp
  ultimately show ?thesis using le assms(1) by (simp add: word_le_nat_alt)
qed

lemma aligned_random_sized:
  assumes "in_range R" "lo \<le> hi"
  shows "16 dvd unat hi \<Longrightarrow> run_sized lo hi (fst (aligned_random R g lo hi))"
    and "unat m dvd unat hi \<Longrightarrow> 0 < unat m \<Longrightarrow> 16 dvd unat m \<Longrightarrow> run_sized lo hi (fst (aligned_random_to R g lo hi m))"
proof -
  obtain v g' where v: "uniform_int R lo hi g = (v, g')" by fastforce
  have "lo \<le> v" "v \<le> hi" using assms v by (metis fst_conv in_range_def)+
  note r = round_up_word[OF this]
  show "16 dvd unat hi \<Longrightarrow> run_sized lo hi (fst (aligned_random R g lo hi))"
    using r[of 16] by (simp add: aligned_random_def v Let_def run_sized_def)
  show "unat m dvd unat hi \<Longrightarrow> 0 < unat m \<Longrightarrow> 16 dvd unat m \<Longrightarrow> run_sized lo hi (fst (aligned_random_to R g lo hi m))"
    using r[of m] dvd_trans[of 16 "unat m"] unfolding aligned_random_to_def v Let_def run_sized_def prod.case fst_conv by blast
qed

lemma pick_from_mem:
  assumes "in_range R" "xs \<noteq> []" "length xs < 2 ^ 64"
  shows "fst (pick_from R xs g) \<in> set xs"
proof -
  obtain i g' where i: "uniform_int R 0 (list_size xs - 1) g = (i, g')" by fastforce
  show ?thesis using index_drawn[OF assms i] by (simp add: pick_from_def i)
qed

lemma aligned_balanced:
  assumes "in_range R" "\<And>g i. run_sized 16 65536 (fst (size_fn g i))" "max_live \<le> 5000"
  shows "balanced_trace (run_sized 16 65536) 5000 (make_trace R name steps max_live alloc_bias seed size_fn)"
  using make_trace_balanced[OF assms(1), of "run_sized 16 65536" size_fn max_live name steps alloc_bias seed] assms(2,3)
  by (auto simp: balanced_trace_def word_le_nat_alt max_def split: if_splits)

lemma run_sized_mono: "run_sized lo hi b \<Longrightarrow> lo' \<le> lo \<Longrightarrow> hi \<le> hi' \<Longrightarrow> run_sized lo' hi' b"
  by (auto simp: run_sized_def)

lemma trace_cases_balanced:
  assumes R: "in_range R" and t: "t \<in> set (trace_cases R)"
  shows "balanced_trace (run_sized 16 65536) 5000 t"
proof -
  have a: "run_sized 16 65536 (fst (aligned_random R g lo hi))" if "16 \<le> lo" "lo \<le> hi" "hi \<le> 65536" "16 dvd unat hi" for g lo hi
    by (rule run_sized_mono[OF aligned_random_sized(1)[OF R that(2,4)] that(1,3)])
  have a4: "run_sized 16 65536 (fst (aligned_random_to R g lo hi 4096))"
    if "16 \<le> lo" "lo \<le> hi" "hi \<le> 65536" "4096 dvd unat hi" for g lo hi
    by (rule run_sized_mono[OF aligned_random_sized(2)[OF R that(2)] that(1,3)]) (use that(4) in simp_all)
  have p: "run_sized 16 65536 (fst (pick_from R xs g))"
    if "list_all (run_sized 16 65536) xs" "xs \<noteq> []" "length xs < 2 ^ 64" for xs g
    using pick_from_mem[OF R that(2,3), of g] that(1) by (simp add: list_all_iff)
  have "list_all (run_sized 16 65536) small_classes" "list_all (run_sized 16 65536) fragmentation_sizes"
    by (simp_all add: small_classes_def fragmentation_sizes_def run_sized_def)
  note p1 = p[OF this(1)] p[OF this(2)]
  have small: "balanced_trace (run_sized 16 65536) 5000 (small_steady_trace R)"
    unfolding small_steady_trace_def by (rule aligned_balanced[OF R p1(1)]) (simp_all add: small_classes_def)
  have frag: "balanced_trace (run_sized 16 65536) 5000 (fragmentation_trace R)"
    unfolding fragmentation_trace_def by (rule aligned_balanced[OF R p1(2)]) (simp_all add: fragmentation_sizes_def)
  have band: "balanced_trace (run_sized 16 65536) 5000 (mid_band_trace R name lo hi seed)"
    if "16 \<le> lo" "lo \<le> hi" "hi \<le> 65536" "16 dvd unat hi" for name lo hi seed
    unfolding mid_band_trace_def by (rule aligned_balanced[OF R a[OF that]]) simp
  have medium: "balanced_trace (run_sized 16 65536) 5000 (medium_mixed_trace R)"
    unfolding medium_mixed_trace_def by (rule aligned_balanced[OF R a]) simp_all
  have bursty: "balanced_trace (run_sized 16 65536) 5000 (bursty_mixed_trace R)"
    unfolding bursty_mixed_trace_def by (rule aligned_balanced[OF R]) (simp_all add: Let_def a)
  have growth: "balanced_trace (run_sized 16 65536) 5000 (growth_trace R)"
    unfolding growth_trace_def by (rule aligned_balanced[OF R]) (simp_all add: a)
  have large: "balanced_trace (run_sized 16 65536) 5000 (large_run_pressure_trace R)"
    unfolding large_run_pressure_trace_def by (rule aligned_balanced[OF R]) (simp_all add: a4)
  show ?thesis
    using t unfolding trace_cases_def by (auto intro: small frag band medium bursty growth large)
qed

end
