(* ===== verification/Trace_Play.thy ===== *)
theory Trace_Play
  imports Trace_Bench
begin

text \<open>
  What the traces of the runner benchmark do to the pool they are played against: to any source of
  blocks, to the runner, and from the construction of a pool to its destruction.
\<close>

section \<open>A balanced trace on any source of blocks\<close>

text \<open>The blocks the slots hold; a slot is empty when its request was refused.\<close>

definition slots_hold :: "ptr list \<Rightarrow> u64 set \<Rightarrow> nat set \<Rightarrow> bool" where
  "slots_hold slots A L \<longleftrightarrow> length slots < 2 ^ 64 \<and>
     L = (\<lambda>i. unat (slots ! i)) ` {i. i < length slots \<and> slots ! i \<noteq> nullptr} \<and>
     (\<forall>i < length slots. slots ! i \<noteq> nullptr \<longrightarrow> adr i \<in> A) \<and>
     (\<forall>i < length slots. \<forall>j < length slots. slots ! i = slots ! j \<longrightarrow> slots ! i \<noteq> nullptr \<longrightarrow> i = j)"

lemma slots_hold_start: "length slots < 2 ^ 64 \<Longrightarrow> set slots \<subseteq> {nullptr} \<Longrightarrow> slots_hold slots A {}"
  using nth_mem by (fastforce simp: slots_hold_def)

lemma slots_hold_empty:
  assumes "slots_hold slots {} L"
  shows "set slots \<subseteq> {nullptr}" "L = {}"
proof -
  have z: "slots ! i = nullptr" if "i < length slots" for i using assms that by (auto simp: slots_hold_def)
  then show "set slots \<subseteq> {nullptr}" by (auto simp: in_set_conv_nth)
  show "L = {}" using assms z by (auto simp: slots_hold_def)
qed

lemma slots_holdI:
  assumes "length slots < 2 ^ 64" "\<And>x. x \<in> L \<longleftrightarrow> (\<exists>i < length slots. slots ! i \<noteq> nullptr \<and> x = unat (slots ! i))"
    and "\<And>i. i < length slots \<Longrightarrow> slots ! i \<noteq> nullptr \<Longrightarrow> adr i \<in> A"
    and "\<And>i j. i < length slots \<Longrightarrow> j < length slots \<Longrightarrow> slots ! i = slots ! j \<Longrightarrow> slots ! i \<noteq> nullptr \<Longrightarrow> i = j"
  shows "slots_hold slots A L"
  using assms by (auto simp: slots_hold_def)

lemma slots_holdD:
  assumes "slots_hold slots A L"
  shows "length slots < 2 ^ 64" "x \<in> L \<longleftrightarrow> (\<exists>i < length slots. slots ! i \<noteq> nullptr \<and> x = unat (slots ! i))"
    and "i < length slots \<Longrightarrow> slots ! i \<noteq> nullptr \<Longrightarrow> adr i \<in> A"
    and "i < length slots \<Longrightarrow> j < length slots \<Longrightarrow> slots ! i = slots ! j \<Longrightarrow> slots ! i \<noteq> nullptr \<Longrightarrow> i = j"
  using assms by (auto simp: slots_hold_def)

lemma slots_hold_fill:
  assumes h: "slots_hold slots A L" and i: "i < length slots" "adr i \<notin> A"
  shows "slots_hold (slots[i := nullptr]) (insert (adr i) A) L"
    and "p \<noteq> nullptr \<Longrightarrow> unat p \<notin> L \<Longrightarrow> slots_hold (slots[i := p]) (insert (adr i) A) (insert (unat p) L)"
proof -
  have e: "slots ! i = nullptr" using slots_holdD(3)[OF h i(1)] i(2) by blast
  then have "slots[i := nullptr] = slots" by (metis list_update_id)
  then show "slots_hold (slots[i := nullptr]) (insert (adr i) A) L" using h by (auto simp: slots_hold_def)
  assume p: "p \<noteq> nullptr" "unat p \<notin> L"
  let ?s = "slots[i := p]"
  have new: "slots ! j \<noteq> p" if "j < length slots" for j using p slots_holdD(2)[OF h] that by blast
  have at: "?s ! j = (if j = i then p else slots ! j)" if "j < length slots" for j using that i(1) by simp
  show "slots_hold ?s (insert (adr i) A) (insert (unat p) L)"
  proof (rule slots_holdI)
    fix x
    show "x \<in> insert (unat p) L \<longleftrightarrow> (\<exists>j < length ?s. ?s ! j \<noteq> nullptr \<and> x = unat (?s ! j))"
    proof
      assume "x \<in> insert (unat p) L"
      then consider "x = unat p" | j where "j < length slots" "slots ! j \<noteq> nullptr" "x = unat (slots ! j)"
        using slots_holdD(2)[OF h] by blast
      then show "\<exists>j < length ?s. ?s ! j \<noteq> nullptr \<and> x = unat (?s ! j)"
      proof cases
        case 1
        then show ?thesis using p(1) i(1) by (intro exI[of _ i]) simp
      next
        case (2 j)
        then have "j \<noteq> i" using e by blast
        then show ?thesis using 2 by (intro exI[of _ j]) simp
      qed
    next
      assume "\<exists>j < length ?s. ?s ! j \<noteq> nullptr \<and> x = unat (?s ! j)"
      then obtain j where j: "j < length slots" "?s ! j \<noteq> nullptr" "x = unat (?s ! j)" by auto
      then show "x \<in> insert (unat p) L" using at[OF j(1)] slots_holdD(2)[OF h, of x] by (auto split: if_splits)
    qed
  next
    fix j l assume "j < length ?s" "l < length ?s" "?s ! j = ?s ! l" "?s ! j \<noteq> nullptr"
    then show "j = l" using at[of j] at[of l] new[of j] new[of l] slots_holdD(4)[OF h, of j l] by (auto split: if_splits)
  next
    fix j assume "j < length ?s" "?s ! j \<noteq> nullptr"
    then show "adr j \<in> insert (adr i) A" using at[of j] slots_holdD(3)[OF h, of j] by (auto split: if_splits)
  qed (use slots_holdD(1)[OF h] in simp)
qed

lemma slots_hold_clear:
  assumes h: "slots_hold slots A L" and i: "i < length slots"
  shows "slots ! i = nullptr \<Longrightarrow> slots_hold slots (A - {adr i}) L"
    and "slots ! i \<noteq> nullptr \<Longrightarrow> unat (slots ! i) \<in> L"
    and "slots ! i \<noteq> nullptr \<Longrightarrow> slots_hold (slots[i := nullptr]) (A - {adr i}) (L - {unat (slots ! i)})"
proof -
  have ne: "adr j \<noteq> adr i" if "j < length slots" "j \<noteq> i" for j
    using that i slots_holdD(1)[OF h] by (simp add: adr_eq_iff)
  show "slots ! i = nullptr \<Longrightarrow> slots_hold slots (A - {adr i}) L"
    using h ne unfolding slots_hold_def by (metis DiffI singletonD)
  assume p: "slots ! i \<noteq> nullptr"
  then show "unat (slots ! i) \<in> L" unfolding slots_holdD(2)[OF h] using i by blast
  let ?s = "slots[i := nullptr]"
  have inj: "slots ! j \<noteq> slots ! i" if "j < length slots" "j \<noteq> i" for j
    using slots_holdD(4)[OF h i that(1)] p that(2) by metis
  have at: "?s ! j = (if j = i then nullptr else slots ! j)" if "j < length slots" for j using that i by simp
  show "slots_hold ?s (A - {adr i}) (L - {unat (slots ! i)})"
  proof (rule slots_holdI)
    fix x
    show "x \<in> L - {unat (slots ! i)} \<longleftrightarrow> (\<exists>j < length ?s. ?s ! j \<noteq> nullptr \<and> x = unat (?s ! j))"
    proof
      assume "x \<in> L - {unat (slots ! i)}"
      then obtain j where j: "j < length slots" "slots ! j \<noteq> nullptr" "x = unat (slots ! j)" "x \<noteq> unat (slots ! i)"
        using slots_holdD(2)[OF h] by blast
      then have "j \<noteq> i" by blast
      then show "\<exists>j < length ?s. ?s ! j \<noteq> nullptr \<and> x = unat (?s ! j)" using j(1-3) by (intro exI[of _ j]) simp
    next
      assume "\<exists>j < length ?s. ?s ! j \<noteq> nullptr \<and> x = unat (?s ! j)"
      then obtain j where j: "j < length slots" "?s ! j \<noteq> nullptr" "x = unat (?s ! j)" by auto
      then have ji: "j \<noteq> i" using at[of j] by auto
      then have "?s ! j = slots ! j" by simp
      moreover have "unat (slots ! j) \<noteq> unat (slots ! i)" using inj[OF j(1) ji] by (simp add: word_unat_eq_iff)
      ultimately show "x \<in> L - {unat (slots ! i)}" using j slots_holdD(2)[OF h, of x] by auto
    qed
  next
    fix j l assume "j < length ?s" "l < length ?s" "?s ! j = ?s ! l" "?s ! j \<noteq> nullptr"
    then show "j = l" using at[of j] at[of l] slots_holdD(4)[OF h, of j l] by (auto split: if_splits)
  next
    fix j assume "j < length ?s" "?s ! j \<noteq> nullptr"
    then show "adr j \<in> A - {adr i}" using at[of j] ne[of j] slots_holdD(3)[OF h, of j] by (auto split: if_splits)
  qed (use slots_holdD(1)[OF h] in simp)
qed

text \<open>
  A trace is a session of the source: it is never stuck, and where it ends the blocks in the slots are
  those the client holds.  \<open>J\<close> is what the operations keep, and what makes the environment sound.
\<close>

context block_source
begin

lemma play_ops_session:
  assumes "holds s0 {}" and v: "v \<in> ways" and J_env: "\<And>s. J s \<Longrightarrow> env s"
    and J_alloc: "\<And>s L q r s'. holds s L \<Longrightarrow> J s \<Longrightarrow> alloc q s = Some (r, s') \<Longrightarrow> J s'"
    and J_give: "\<And>s L x s'. holds s L \<Longrightarrow> J s \<Longrightarrow> x \<in> L \<Longrightarrow> give v (adr x) s = Some s' \<Longrightarrow> J s'"
    and J_throw: "\<And>s L q e s'. holds s L \<Longrightarrow> J s \<Longrightarrow> alloc q s = Some (Inl e, s') \<Longrightarrow> bad e"
    and "reached s0 s L" "J s" "slots_hold slots A L" "slots_after es A = Some B"
    and "\<And>e. e \<in> set es \<Longrightarrow> unat (to_slot e) < length slots"
  shows "\<exists>res sink' s' L'. play_ops (\<lambda>b al. alloc (req b al)) (give v) es slots sink s = Some (res, sink', s') \<and>
    reached s0 s' L' \<and> J s' \<and> (case res of Inl e \<Rightarrow> bad e | Inr slots' \<Rightarrow> slots_hold slots' B L')"
  using assms(7-11)
proof (induction es arbitrary: s L slots A sink)
  case Nil
  then show ?case by auto
next
  case (Cons e es)
  let ?i = "unat (to_slot e)" and ?run = "play_ops (\<lambda>b al. alloc (req b al)) (give v)"
  have h: "holds s L" by (rule reached_holds[OF Cons.prems(1) assms(1)])
  have env: "env s" by (rule J_env[OF Cons.prems(2)])
  have i: "?i < length slots" using Cons.prems(5) by simp
  have rest: "unat (to_slot f) < length (slots[?i := p])" if "f \<in> set es" for f p using Cons.prems(5) that by simp
  show ?case
  proof (cases "to_kind e")
    case Op_allocate
    then have A: "adr ?i \<notin> A" "slots_after es (insert (adr ?i) A) = Some B"
      using Cons.prems(4) by (simp_all split: if_splits)
    note fill = slots_hold_fill[OF Cons.prems(3) i A(1)]
    obtain r s' where a: "alloc (req (to_bytes e) alignof_max_align) s = Some (r, s')"
      "alloc_answer holds extent (bytes (req (to_bytes e) alignof_max_align)) L r s'"
      using alloc_law[OF h env] by blast
    have J': "J s'" by (rule J_alloc[OF h Cons.prems(2) a(1)])
    show ?thesis
    proof (cases r)
      case (Inl x)
      have "reached s0 s' L" by (rule session.throw[OF Cons.prems(1) env a(1)[unfolded Inl]])
      moreover have "bad x" by (rule J_throw[OF h Cons.prems(2) a(1)[unfolded Inl]])
      ultimately show ?thesis using Op_allocate i a(1) Inl J' by (simp add: Let_def) blast
    next
      case (Inr p)
      have step: "?run (e # es) slots sink s = ?run es (slots[?i := p]) (sink XOR p) s'"
        using Op_allocate i a(1) Inr by (simp add: Let_def)
      show ?thesis
      proof (cases "p = nullptr")
        case True
        have "reached s0 s' L" using session.refuse[OF Cons.prems(1) env] a(1) Inr True by blast
        from Cons.IH[OF this J' fill(1) A(2) rest] show ?thesis unfolding step True by simp
      next
        case False
        then have new: "unat p \<notin> L" using a(2) Inr by (simp add: alloc_answer_def)
        have "reached s0 s' (insert (unat p) L)" by (rule session.grant[OF Cons.prems(1) env a(1)[unfolded Inr] False])
        from Cons.IH[OF this J' fill(2)[OF False new] A(2) rest] show ?thesis unfolding step by simp
      qed
    qed
  next
    case Op_deallocate
    then have A: "slots_after es (A - {adr ?i}) = Some B"
      using Cons.prems(4) by (simp split: if_splits)
    note clear = slots_hold_clear[OF Cons.prems(3) i]
    show ?thesis
    proof (cases "slots ! ?i = nullptr")
      case True
      have "?run (e # es) slots sink s = ?run es slots sink s" using Op_deallocate i True by (simp add: Let_def)
      moreover have "unat (to_slot f) < length slots" if "f \<in> set es" for f using Cons.prems(5) that by simp
      ultimately show ?thesis using Cons.IH[OF Cons.prems(1,2) clear(1)[OF True] A] by simp
    next
      case False
      note mem = clear(2)[OF False]
      obtain s' where g: "give v (adr (unat (slots ! ?i))) s = Some s'" using give_law[OF h mem v] by blast
      have "?run (e # es) slots sink s = ?run es (slots[?i := nullptr]) sink s'"
        using Op_deallocate i False g by (simp add: Let_def)
      moreover have "reached s0 s' (L - {unat (slots ! ?i)})" by (rule session.give_back[OF Cons.prems(1) mem v g])
      moreover have "J s'" by (rule J_give[OF h Cons.prems(2) mem g])
      ultimately show ?thesis using Cons.IH[OF _ _ clear(3)[OF False] A rest] by simp
    qed
  qed
qed

text \<open>A balanced trace that is not cut short gives every block back.\<close>

lemma execute_trace_session:
  assumes "holds s {}" "v \<in> ways" "\<And>s. J s \<Longrightarrow> env s"
    and "\<And>s L q r s'. holds s L \<Longrightarrow> J s \<Longrightarrow> alloc q s = Some (r, s') \<Longrightarrow> J s'"
    and "\<And>s L x s'. holds s L \<Longrightarrow> J s \<Longrightarrow> x \<in> L \<Longrightarrow> give v (adr x) s = Some s' \<Longrightarrow> J s'"
    and "\<And>s L q e s'. holds s L \<Longrightarrow> J s \<Longrightarrow> alloc q s = Some (Inl e, s') \<Longrightarrow> bad e"
    and "J s" and t: "balanced_trace P m t"
  shows "\<exists>res sink' s' L. execute_trace (\<lambda>b al. alloc (req b al)) (give v) t sink s = Some (res, sink', s') \<and>
    reached s s' L \<and> J s' \<and> (case res of Inl e \<Rightarrow> bad e | Inr slots \<Rightarrow> L = {} \<and> set slots \<subseteq> {nullptr})"
proof -
  let ?slots = "replicate (unat (tc_slot_count t)) nullptr"
  have len: "length ?slots < 2 ^ 64" using unat_lt_64[of "tc_slot_count t"] by simp
  have start: "slots_hold ?slots {} {}" by (rule slots_hold_start[OF len]) auto
  have after: "slots_after (tc_ops t) {} = Some {}"
    and idx: "\<And>e. e \<in> set (tc_ops t) \<Longrightarrow> unat (to_slot e) < length ?slots"
    using t by (auto simp: balanced_trace_def word_less_nat_alt)
  have fresh: "reached s s {}" by (rule session.start)
  have run: "\<exists>res sink' s' L. play_ops (\<lambda>b al. alloc (req b al)) (give v) (tc_ops t) ?slots sink s = Some (res, sink', s') \<and>
      reached s s' L \<and> J s' \<and> (case res of Inl e \<Rightarrow> bad e | Inr slots' \<Rightarrow> slots_hold slots' {} L)"
    by (rule play_ops_session[where A = "{}" and L = "{}" and J = J and bad = bad and B = "{}"])
      (fact assms fresh start after idx)+
  obtain res sink' s' L where r: "execute_trace (\<lambda>b al. alloc (req b al)) (give v) t sink s = Some (res, sink', s')"
    "reached s s' L" "J s'" "case res of Inl e \<Rightarrow> bad e | Inr slots' \<Rightarrow> slots_hold slots' {} L"
    using run unfolding execute_trace_def by blast
  moreover have "case res of Inl e \<Rightarrow> bad e | Inr slots \<Rightarrow> L = {} \<and> set slots \<subseteq> {nullptr}"
    using r(4) slots_hold_empty by (cases res) auto
  ultimately show ?thesis by blast
qed

end

section \<open>On the runner\<close>

text \<open>A runner with nothing lent and nothing parked has coalesced: every chunk is one free run.\<close>

definition all_free :: "layout \<Rightarrow> bool" where
  "all_free G \<longleftrightarrow> (\<forall>(b, rs) \<in> set G. \<exists>s. rs = [(s, True)])"

lemma runner_all_free:
  assumes inv: "runner_inv k r w G []" and none: "lent_runs G [] = {}"
  shows "all_free G"
  unfolding all_free_def
proof (clarify)
  fix b rs assume c: "(b, rs) \<in> set G"
  have laid: "laid (cells w) b rs" using runner_inv_tiled[OF inv] c by (auto simp: tiled_def)
  have free: "f" if "(s, f) \<in> set rs" for s f
  proof (rule ccontr)
    assume "\<not> f"
    obtain us vs where "rs = us @ (s, f) # vs" using \<open>(s, f) \<in> set rs\<close> by (meson split_list)
    then have "(b + run_total us, s) \<in> used_runs G" using c \<open>\<not> f\<close> by (force simp: useds_def runs_def)
    then show False using none by (simp add: lent_runs_def)
  qed
  obtain s f rest where rs: "rs = (s, f) # rest" using laid by (cases rs) (auto simp: laid_def)
  have "rest = []"
  proof (cases rest)
    case (Cons q rest')
    obtain s' f' where q: "q = (s', f')" by (cases q)
    have "f" "f'" using free by (auto simp: rs Cons q)
    then show ?thesis using laid by (simp add: rs Cons q laid_def)
  qed simp
  then show "\<exists>s. rs = [(s, True)]" using free by (simp add: rs)
qed

text \<open>A runner between two operations of a client that parks nothing.\<close>

definition runner_quiet :: "sys \<Rightarrow> runner \<times> world \<Rightarrow> bool" where
  "runner_quiet sys s \<longleftrightarrow> sys_steady sys (snd s) \<and> rn_remote (fst s) = nullptr \<and> rn_deferred_bytes (fst s) = 0"

lemma runner_quiet_request:
  assumes h: "runner_holds k s L" and q: "runner_quiet sys s" and a: "runner_request k sys p s = Some (ans, s')"
  shows "runner_quiet sys s'" "ans = Inl e \<Longrightarrow> e = Bad_alloc \<and> rg_can_grow k"
proof -
  obtain r w r' w' where s: "s = (r, w)" "s' = (r', w')" by (cases s, cases s')
  have st: "sys_steady sys w" using q by (simp add: runner_quiet_def s)
  have al: "allocate_bytes k sys (fst p) (snd p) r w = Some (ans, r', w')" using a by (simp add: runner_request_def s)
  have "acquires r w r' w'" by (rule request_acquires[OF h[unfolded s(1)] st al])
  moreover have "sys_steady sys w'" using sys_steady_later[OF st allocate_bytes_later[OF al]] by simp
  ultimately show "runner_quiet sys s'" using q by (simp add: runner_quiet_def s acquires_def)
  assume e: "ans = Inl e"
  obtain G rl where inv: "runner_inv k r w G rl" using h s by (auto simp: runner_holds_def)
  have ok: "request_ok (fst p) (snd p)"
    using allocate_bytes_refused[OF inv, of "fst p" "snd p" sys] al e by (cases "request_ok (fst p) (snd p)") auto
  have "rn_deferred_bytes r = 0" using q by (simp add: runner_quiet_def s)
  then show "e = Bad_alloc \<and> rg_can_grow k"
    using allocate_bytes_post[OF inv st ok] al e by (auto simp: runner_post_def answer_ok_def)
qed

lemma runner_quiet_return:
  assumes h: "runner_holds k s L" and q: "runner_quiet sys s" and x: "x \<in> L" and g: "runner_return k Local (adr x) s = Some s'"
  shows "runner_quiet sys s'"
proof -
  obtain r w where s: "s = (r, w)" by (cases s)
  obtain r' m' where d: "deallocate_bytes k (adr x) (r, cells w) = (r', m')" by fastforce
  have s': "s' = (r', w\<lparr>cells := m'\<rparr>)" using g d by (simp add: runner_return_def s)
  have "acquires r w r' (w\<lparr>cells := m'\<rparr>)" by (rule deallocate_acquires[OF h[unfolded s] x d])
  moreover have "sys_steady sys (w\<lparr>cells := m'\<rparr>)"
    using q sys_steady_later[OF _ later.written[OF later.now]] by (simp add: runner_quiet_def s)
  ultimately show ?thesis using q by (simp add: runner_quiet_def s s' acquires_def)
qed

lemma execute_trace_runner:
  assumes h: "runner_holds k s {}" and q: "runner_quiet sys s" and t: "balanced_trace P m t"
  shows "\<exists>res sink' s' L. execute_trace (\<lambda>b al. runner_request k sys (b, al)) (runner_return k Local) t sink s = Some (res, sink', s') \<and>
    runner_source.reached k sys s s' L \<and> runner_quiet sys s' \<and>
    (case res of
       Inl e \<Rightarrow> e = Bad_alloc \<and> rg_can_grow k
     | Inr slots \<Rightarrow> set slots \<subseteq> {nullptr} \<and> (\<exists>G. runner_inv k (fst s') (snd s') G [] \<and> all_free G))"
proof -
  have way: "Local \<in> {Local, Parked}" by simp
  have env: "\<And>s. runner_quiet sys s \<Longrightarrow> sys_steady sys (snd s)" by (simp add: runner_quiet_def)
  have throw: "\<And>s L p e s'. runner_holds k s L \<Longrightarrow> runner_quiet sys s \<Longrightarrow> runner_request k sys p s = Some (Inl e, s') \<Longrightarrow>
      e = Bad_alloc \<and> rg_can_grow k"
    using runner_quiet_request(2) by blast
  have "\<exists>res sink' s' L. execute_trace (\<lambda>b al. runner_request k sys (b, al)) (runner_return k Local) t sink s = Some (res, sink', s') \<and>
      runner_source.reached k sys s s' L \<and> runner_quiet sys s' \<and>
      (case res of Inl e \<Rightarrow> e = Bad_alloc \<and> rg_can_grow k | Inr slots \<Rightarrow> L = {} \<and> set slots \<subseteq> {nullptr})"
    by (rule runner_source.execute_trace_session[where J = "runner_quiet sys" and P = P and m = m])
      (fact h way env runner_quiet_request(1) runner_quiet_return throw q t)+
  then obtain res sink' s' L where r:
    "execute_trace (\<lambda>b al. runner_request k sys (b, al)) (runner_return k Local) t sink s = Some (res, sink', s')"
    "runner_source.reached k sys s s' L" "runner_quiet sys s'"
    "case res of Inl e \<Rightarrow> e = Bad_alloc \<and> rg_can_grow k | Inr slots \<Rightarrow> L = {} \<and> set slots \<subseteq> {nullptr}"
    by blast
  have "\<exists>G. runner_inv k (fst s') (snd s') G [] \<and> all_free G" if "L = {}"
  proof -
    have "runner_holds k s' {}" using runner_source.reached_holds[OF r(2) h] that by simp
    then obtain G rl where inv: "runner_inv k (fst s') (snd s') G rl" and none: "lent_runs G rl = {}"
      by (auto simp: runner_holds_def payloads_def)
    have "slist (cells (snd s')) nullptr rl" using inv r(3) by (simp add: runner_inv_def parked_ok_def runner_quiet_def)
    then have "rl = []" by (cases rl) (auto simp: adr_eq_0_iff)
    then show ?thesis using inv none runner_all_free by blast
  qed
  then show ?thesis using r by (cases res) auto
qed

section \<open>From the constructor to the destructor\<close>

lemma release_owned_later: "later sys w (release_owned_chunks k sys r w)"
proof -
  have "later sys w (foldl (\<lambda>w c. release_chunk k sys c w) w cs)" for cs
  proof (induction cs rule: rev_induct)
    case (snoc c cs)
    let ?w = "foldl (\<lambda>w c. release_chunk k sys c w) w cs"
    have "later sys w (release_owned_memory sys (rg_huge k) om ?w)" for om
      using snoc by (simp add: release_owned_memory_def later.returned later.unmapped)
    then show ?case using snoc by (simp add: release_chunk_def later.returned)
  qed (simp add: later.now)
  then show ?thesis by (simp add: release_owned_chunks_def)
qed

lemma runner_ctor_later: "later sys w (snd (runner_new k sys self n w))"
  using add_owned_chunk_later[of sys w k n "runner_members sys self (max n 65536)"]
  by (auto simp: runner_new_def split: sum.split prod.split)

text \<open>What a run leaves: the regions of before, with what was in them.\<close>

definition world_restored :: "sys \<Rightarrow> world \<Rightarrow> world \<Rightarrow> bool" where
  "world_restored sys w w' \<longleftrightarrow> live w' = live w \<and> (\<forall>a < 2 ^ 64. live_at w a \<longrightarrow> cells w' (adr a) = cells w (adr a)) \<and>
     (sys_steady sys w \<longrightarrow> sys_steady sys w')"

lemma world_restored_refl [simp]: "world_restored sys w w"
  by (simp add: world_restored_def)

lemma world_restored_trans: "world_restored sys w w1 \<Longrightarrow> world_restored sys w1 w2 \<Longrightarrow> world_restored sys w w2"
  by (simp add: world_restored_def live_at_def)

lemma run_once_restores:
  assumes page: "has_single_bit (detect_page_size (sys_sysconf sys))" "16 \<le> unat (detect_page_size (sys_sysconf sys))"
    and world: "world_ok w" "sys_steady sys w" and linux: "rg_huge k = Huge_enabled \<longrightarrow> sys_linux sys"
    and t: "balanced_trace P m t"
  shows "\<exists>res sink' w'. run_once reset k sys self n t sink w = Some (res, sink', w') \<and> world_restored sys w w' \<and>
    (\<forall>e. res = Inl e \<longrightarrow> e = Bad_alloc)"
proof -
  obtain res w0 where new: "runner_new k sys self n w = (res, w0)" by fastforce
  show ?thesis
  proof (cases res)
    case (Inl e)
    have "e = Bad_alloc" "live w0 = live w" "cells w0 = cells w"
      using runner_new_step[OF page world, where k = k and self = self and n = n] by (simp_all add: new Inl)
    moreover have "sys_steady sys w0"
      using sys_steady_later[OF world(2)] runner_ctor_later[of sys w k self n] by (simp add: new)
    ultimately show ?thesis by (simp add: run_once_def new Inl world_restored_def)
  next
    case (Inr r)
    let ?r = "if reset then reset_stats r else r"
    note own = runner_new_own[OF page world new[unfolded Inr]]
    have so: "stats_only r ?r" by (simp add: stats_only_def reset_stats_def)
    note f = stats_only_fields[OF so]
    have h: "runner_holds k (?r, w0) {}"
      using own(1) runner_inv_stats[OF _ so] unfolding runner_holds_def fst_conv snd_conv by blast
    have o0: "of_its_own w (?r, w0)"
      using own(2) runner_area_stats[OF so] f(4) by (simp add: of_its_own_def owned_bases_def)
    have q: "runner_quiet sys (?r, w0)" using own(3-5) f(5,6) by (simp add: runner_quiet_def)
    obtain res' sink' s' L where x: "execute_trace (\<lambda>b al. runner_request k sys (b, al)) (runner_return k Local) t sink (?r, w0) =
        Some (res', sink', s')" "runner_source.reached k sys (?r, w0) s' L" "runner_quiet sys s'"
      "case res' of Inl e \<Rightarrow> e = Bad_alloc \<and> rg_can_grow k
         | Inr slots \<Rightarrow> set slots \<subseteq> {nullptr} \<and> (\<exists>G. runner_inv k (fst s') (snd s') G [] \<and> all_free G)"
      using execute_trace_runner[OF h q t, of sink] by blast
    obtain r' w' where s': "s' = (r', w')" by (cases s')
    note e = x(1-3)[unfolded s']
    have only: "\<forall>e. res' = Inl e \<longrightarrow> e = Bad_alloc" using x(4) by auto
    have h': "runner_holds k (r', w') L" by (rule runner_source.reached_holds[OF e(2) h])
    note rel = release_of_its_own[OF h' session_of_its_own[OF e(2) h o0] linux, unfolded fst_conv snd_conv]
    have "sys_steady sys w'" using e(3) by (simp add: runner_quiet_def)
    then have "sys_steady sys (release_owned_chunks k sys r' w')" by (rule sys_steady_later[OF _ release_owned_later])
    then have "world_restored sys w (release_owned_chunks k sys r' w')" using rel by (simp add: world_restored_def)
    moreover have "run_once reset k sys self n t sink w =
        Some (map_sum id (\<lambda>_. rn_stats r') res', sink', release_owned_chunks k sys r' w')"
      using e(1) by (simp add: run_once_def new Inr)
    ultimately show ?thesis using only by (cases res') auto
  qed
qed

lemma run_rounds_restores:
  assumes page: "has_single_bit (detect_page_size (sys_sysconf sys))" "16 \<le> unat (detect_page_size (sys_sysconf sys))"
    and world: "world_ok w" "sys_steady sys w" and linux: "rg_huge k = Huge_enabled \<longrightarrow> sys_linux sys"
    and t: "balanced_trace P m t"
  shows "\<exists>res sink' w'. run_rounds reset k sys self n t rounds sink w = Some (res, sink', w') \<and> world_restored sys w w' \<and>
    (case res of Inl e \<Rightarrow> e = Bad_alloc | Inr sts \<Rightarrow> length sts = rounds)"
  using world
proof (induction rounds arbitrary: sink w)
  case (Suc rounds)
  obtain res sink1 w1 where o: "run_once reset k sys self n t sink w = Some (res, sink1, w1)" "world_restored sys w w1"
    "\<forall>e. res = Inl e \<longrightarrow> e = Bad_alloc"
    using run_once_restores[OF page Suc.prems linux t] by blast
  show ?case
  proof (cases res)
    case (Inl e)
    then show ?thesis using o by simp
  next
    case (Inr st)
    have "world_ok w1" "sys_steady sys w1" using o(2) Suc.prems by (simp_all add: world_restored_def world_ok_def)
    from Suc.IH[OF this] obtain res' sink2 w2 where r:
      "run_rounds reset k sys self n t rounds sink1 w1 = Some (res', sink2, w2)" "world_restored sys w1 w2"
      "case res' of Inl e \<Rightarrow> e = Bad_alloc | Inr sts \<Rightarrow> length sts = rounds"
      by blast
    then show ?thesis using o(1,2) Inr world_restored_trans by (cases res') auto
  qed
qed simp

section \<open>The workloads\<close>

text \<open>
  C27. Every workload of the benchmark, whatever its engine draws: no slot is filled twice or freed
  empty, at most 5000 are in use, every request is a multiple of 16 bytes up to 64 KiB, and at the
  end all have been freed.  Played against a runner with nothing lent it always ends.  A pool that
  cannot grow lets no exception through, another only \<open>bad_alloc\<close>; without one, every slot is
  null at the end and every chunk of the runner, old or new, is one free run again.
\<close>

theorem trace_execution_correct:
  assumes R: "in_range R" and t: "t \<in> set (trace_cases R)"
    and inv: "runner_inv k r w G []" "lent_runs G [] = {}" "rn_deferred_bytes r = 0" and steady: "sys_steady sys w"
  shows "slots_after (tc_ops t) {} = Some {} \<and> unat (tc_slot_count t) \<le> 5000 \<and>
    (\<forall>e \<in> set (tc_ops t). to_slot e < tc_slot_count t \<and>
       (to_kind e = Op_allocate \<longrightarrow> 16 \<le> to_bytes e \<and> to_bytes e \<le> 65536 \<and> 16 dvd unat (to_bytes e))) \<and>
    (\<exists>res sink' r' w'.
       execute_trace (\<lambda>bytes al. runner_request k sys (bytes, al)) (runner_return k Local) t sink (r, w) =
         Some (res, sink', r', w') \<and>
       (case res of
          Inl e \<Rightarrow> e = Bad_alloc \<and> rg_can_grow k
        | Inr slots \<Rightarrow> set slots \<subseteq> {nullptr} \<and>
            (\<exists>G'. runner_inv k r' w' G' [] \<and> (\<forall>(b, rs) \<in> set G'. \<exists>s. rs = [(s, True)]))))"
proof -
  note b = trace_cases_balanced[OF R t]
  have h: "runner_holds k (r, w) {}" using inv(1,2) by (auto simp: runner_holds_def payloads_def)
  have "rn_remote r = nullptr" using inv(1) by (simp add: runner_inv_def parked_ok_def)
  then have "runner_quiet sys (r, w)" using inv(3) steady by (simp add: runner_quiet_def)
  from execute_trace_runner[OF h this b, of sink] obtain res sink' s' where
    x: "execute_trace (\<lambda>b al. runner_request k sys (b, al)) (runner_return k Local) t sink (r, w) = Some (res, sink', s')"
      "case res of Inl e \<Rightarrow> e = Bad_alloc \<and> rg_can_grow k
         | Inr slots \<Rightarrow> set slots \<subseteq> {nullptr} \<and> (\<exists>G. runner_inv k (fst s') (snd s') G [] \<and> all_free G)"
    by blast
  obtain r' w' where "s' = (r', w')" by (cases s')
  with x b show ?thesis unfolding balanced_trace_def run_sized_def all_free_def by (cases res) auto
qed

text \<open>
  C28. A workload run as a whole, with its warm-up runs and repeats, each on a pool of its own: it always ends, with
  the counters of every repeat or with \<open>bad_alloc\<close>; and whichever it is, the system holds the
  regions it held before, and no word in them has changed.
\<close>

theorem run_workload_correct:
  assumes R: "in_range R" and t: "t \<in> set (trace_cases R)"
    and page: "has_single_bit (detect_page_size (sys_sysconf sys))" "16 \<le> unat (detect_page_size (sys_sysconf sys))"
    and world: "world_ok w" "sys_steady sys w" and linux: "rg_huge k = Huge_enabled \<longrightarrow> sys_linux sys"
  shows "\<exists>res sink' w'. run_workload k sys self pool_bytes t warmup_runs repeats sink w = Some (res, sink', w') \<and>
    live w' = live w \<and> (\<forall>a < 2 ^ 64. live_at w a \<longrightarrow> cells w' (adr a) = cells w (adr a)) \<and>
    (case res of Inl e \<Rightarrow> e = Bad_alloc | Inr sts \<Rightarrow> length sts = unat repeats)"
proof -
  note b = trace_cases_balanced[OF R t]
  obtain res1 sink1 w1 where r1: "run_rounds False k sys self pool_bytes t (unat warmup_runs) sink w = Some (res1, sink1, w1)"
    "world_restored sys w w1" "case res1 of Inl e \<Rightarrow> e = Bad_alloc | Inr sts \<Rightarrow> length sts = unat warmup_runs"
    using run_rounds_restores[OF page world linux b] by blast
  have world1: "world_ok w1" "sys_steady sys w1" using r1(2) world by (simp_all add: world_restored_def world_ok_def)
  show ?thesis
  proof (cases res1)
    case (Inl e)
    then show ?thesis using r1 by (simp add: run_workload_def world_restored_def)
  next
    case (Inr sts)
    obtain res2 sink2 w2 where r2: "run_rounds True k sys self pool_bytes t (unat repeats) sink1 w1 = Some (res2, sink2, w2)"
      "world_restored sys w1 w2" "case res2 of Inl e \<Rightarrow> e = Bad_alloc | Inr sts \<Rightarrow> length sts = unat repeats"
      using run_rounds_restores[OF page world1 linux b] by blast
    have "world_restored sys w w2" by (rule world_restored_trans[OF r1(2) r2(2)])
    then show ?thesis using r1(1) r2(1,3) Inr by (simp add: run_workload_def world_restored_def)
  qed
qed

section \<open>Witnesses\<close>

text \<open>An engine that always draws the lower end.\<close>

definition low_random :: "unit random" where
  "low_random = \<lparr>new_engine = (\<lambda>_. ()), uniform_real = (\<lambda>g. (0, g)), uniform_int = (\<lambda>lo hi g. (lo, g))\<rparr>"

lemma low_random_range: "in_range low_random"
  by (simp add: in_range_def low_random_def)

lemma small_trace: "small_steady_trace R \<in> set (trace_cases R)"
  by (simp add: trace_cases_def)

text \<open>A trace of three steps with at most two blocks: two allocations, a free of the older one, and the rest at the end.\<close>

lemma make_trace_low:
  "map (\<lambda>e. (to_kind e, to_slot e)) (tc_ops (make_trace low_random ''demo'' 3 2 (1 / 2) 0 (\<lambda>g _. (32, g)))) =
     [(Op_allocate, 0), (Op_allocate, 1), (Op_deallocate, 0), (Op_deallocate, 1)]"
proof -
  have "[0..<unat (3 :: u64)] = [0, 1, 2]" by (simp add: upt_rec)
  then show ?thesis
    by (simp add: make_trace_def trace_step_def coin_toss_def low_random_def trace_flush.simps adr_def)
qed

theorem trace_execution_correct_witness:
  "\<exists>r w res sink' s. rn_self r = 77 \<and>
     execute_trace (\<lambda>bytes al. runner_request demo_run_cfg bump_sys (bytes, al)) (runner_return demo_run_cfg Local)
       (small_steady_trace low_random) 0 (r, w) = Some (res, sink', s)"
proof -
  obtain r w b s where d: "runner_new demo_run_cfg bump_sys 77 65536 empty_world = (Inr r, w)"
    "runner_inv demo_run_cfg r w [(b, [(s, True)])] []" "sys_steady bump_sys w" "rn_self r = 77"
    by (rule demo_runner)
  have none: "lent_runs [(b, [(s, True)])] [] = {}" by (simp add: lent_runs_def)
  have df: "rn_deferred_bytes r = 0" by (rule runner_new_own(5)[OF demo_runner_page empty_world_ok demo_steady d(1)])
  from trace_execution_correct[OF low_random_range small_trace d(2) none df d(3), of 0] d(4) show ?thesis by blast
qed

theorem run_workload_correct_witness:
  "\<exists>res sink' w'. run_workload demo_run_cfg bump_sys 77 65536 (small_steady_trace low_random) 2 7 0 empty_world =
     Some (res, sink', w') \<and> live w' = []"
proof -
  have "rg_huge demo_run_cfg = Huge_enabled \<longrightarrow> sys_linux bump_sys" by (simp add: demo_run_cfg_def)
  from run_workload_correct[OF low_random_range small_trace demo_runner_page empty_world_ok demo_steady this,
      where self = 77 and pool_bytes = 65536 and warmup_runs = 2 and repeats = 7 and sink = 0]
  show ?thesis by (auto simp: empty_world_def)
qed

end
