(* ===== verification/Spec2Isabelle.thy ===== *)
theory Spec2Isabelle
  imports Exclusive_Handle Remote_Stack Sub_Witnesses Trace_Play
begin

text \<open>
  A model of the \<open>allocazam\<close> allocator library (C++23, \<open>lib/\<close>) with the theorems that make it correct.

  \<^bold>\<open>The program.\<close>  \<open>allocazam\<close> hands out memory under two policies.  In the \<^emph>\<open>suballocated\<close> model a state
  (\<open>allocazam_std_state\<close>) owns a node pool (class \<open>allocazam\<close>, single elements of one type) and a runner
  (\<open>runner::allocator\<close>, runs of bytes of any size); each thread creates its own state on first touch, and
  \<open>allocazam_std_allocator\<close> draws from it, with a small thread-local cache of byte runs in between.  A block
  that is freed on another thread finds its owner through the block itself - the header of the granule for a
  node, the word before the payload for a run - and is parked on the owner's remote stack, the only part of
  a state that other threads may write.  In the \<^emph>\<open>exclusive\<close> model a state owns one region that is claimed
  as a whole.  Backing memory comes from \<open>operator new\<close>, from explicit huge pages, or from the caller.

  \<^bold>\<open>The machine.\<close>  \<open>Prelude\<close>: \<open>size_t\<close> and pointers are 64-bit words, memory is a function from addresses
  to words (\<open>cells\<close>); an address stands for the word that begins there, a block of \<open>n\<close> bytes for the
  addresses below its end.  \<open>System\<close>: what the library is given - \<open>operator new\<close>, \<open>mmap\<close>, \<open>munmap\<close>,
  \<open>sysconf\<close>, \<open>std::hardware_destructive_interference_size\<close> are the parameter \<open>sys\<close>, a record; \<open>sys_honest\<close> is what their documentation
  promises (a granted region is aligned, does not wrap, and is apart from every region that is live;
  nothing is promised about \<open>whether\<close> memory is granted), \<open>sys_steady\<close> is the same in every later world.
  The world \<open>world\<close> holds the cells and the list of regions that are live, so that a leak or a double
  release shows.  Exceptions are values: every fallible operation returns \<open>exn + 'a\<close>.

  \<^bold>\<open>Theories and code.\<close>
  \<^item> \<open>Types_Arith\<close>, \<open>Std_Align\<close>: \<open>lib/types.hpp\<close> (namespace \<open>detail\<close>), \<open>lib/allocazam.cpp\<close>, the modes and
    configuration concepts, \<open>std::align\<close>.
  \<^item> \<open>Owned_Memory\<close>: \<open>lib/owned_memory.hpp\<close>.
  \<^item> \<open>Exclusive_Resource\<close>, \<open>Exclusive_Allocator\<close>: \<open>lib/exclusive_resource.hpp\<close> and the exclusive part of
    \<open>lib/allocazam.hpp\<close>.  \<open>Exclusive_Handle\<close>: the handles over such states, rebound and compared.
  \<^item> \<open>Chunk\<close>, \<open>Chunk_Slots\<close>: \<open>node_t\<close>, \<open>granule_header\<close>, \<open>chunk_t\<close> of \<open>lib/types.hpp\<close> and where their nodes lie.
  \<^item> \<open>Memory_Lists\<close>: lists threaded through memory, as the locales \<open>intrusive\<close> and \<open>lifo\<close>, which free list and
    remote stacks interpret.
  \<^item> \<open>Pool\<close>, \<open>Pool_Inv\<close>, \<open>Pool_Ops\<close>, \<open>Pool_Correct\<close>: class \<open>allocazam\<close>: code, invariant \<open>pool_inv\<close> (over the
    ghost lists of free and parked nodes), one lemma per operation, properties.
  \<^item> \<open>Run_Header\<close>, \<open>Runner\<close>: \<open>runner::allocator\<close> of \<open>lib/runner.hpp\<close>, function by function.  \<open>Run_Layout\<close>,
    \<open>Run_Edit\<close>, \<open>Bin_Index\<close>, \<open>Free_Lists\<close>, \<open>Runner_Inv\<close>, \<open>Runner_Ops\<close>, \<open>Runner_State\<close>, \<open>Runner_Alloc\<close>,
    \<open>Runner_Life\<close>: the runs of a chunk as a ghost sequence \<open>(size, free?)\<close>, what rewriting one of them does,
    the bins and their bitmap, the invariant \<open>runner_inv\<close>, one lemma per operation.  \<open>Runner_Refusal\<close>: what
    the system has refused when an allocation throws (\<open>growth_denied\<close>).  \<open>Runner_Correct\<close>,
    \<open>Runner_Properties\<close>: the runner as a source of blocks and its properties.  \<open>Runner_Lifetime\<close>: from the
    constructor to the destructor, over every session of a client.
  \<^item> \<open>Block_Source\<close>: the interface \<open>block_source\<close> between an allocator and its clients, with the sessions of a
    client as a step relation; pool, runner and the whole process interpret it, and the three
    \<open>session_safe\<close> properties are its one lemma read off each.
  \<^item> \<open>Sub_State\<close>, \<open>Std_Suballocated\<close>: the suballocated states, thread states and registry, the handle, the
    thread-local cache, \<open>allocate\<close>, \<open>allocate_at_least\<close>, \<open>deallocate\<close>, \<open>expand\<close>.  A \<open>process\<close> is the world
    with all pools, runners, registry links, thread-local slots and caches, addressed as the code does.
  \<^item> The process put together.  \<open>Held_Nodes\<close>, \<open>Held_Runs\<close>: the laws of pool and runner with their frames:
    each writes only into its \<open>area\<close>, the memory of its chunks, and takes new memory only from the system.
    \<open>Estates\<close>: the invariant \<open>estates\<close> of all pools and runners side by side, their areas apart, with the
    set of blocks that are lent; every step of one part on any thread keeps it, and so does the founding
    of a new state.  \<open>Run_Cache\<close>, \<open>Sub_Cache\<close>, \<open>Thread_Exit\<close>: the caches of all threads (\<open>stocked\<close>), the
    invariant \<open>sub_holds\<close> - every lent block is held by the client or lies in exactly one list of one
    cache, with enough room for its class - and each operation of the allocator on it.  \<open>Expansion\<close>:
    which part claims an address, and \<open>expand\<close> on a held block.  \<open>Bound_State\<close>: states that a client
    creates for itself, and every operation through handles bound to them or rebound from them.
    \<open>Sub_Session\<close>: any number of threads calling in any order through any of these handles, as an
    instance of \<open>block_source\<close>.
  \<^item> \<open>Object_Life\<close>: \<open>construct\<close> and \<open>destroy\<close> of all three allocators, with the constructor and the destructor
    of the user's type as parameters (\<open>user_type\<close>: they write only into the object), and the sessions of
    clients that keep objects in their blocks.
  \<^item> \<open>Sub_Properties\<close>, \<open>Sub_Ownership\<close>, \<open>Sub_Construct\<close>, \<open>Sub_Contract\<close>: the properties of the suballocated
    allocator; \<open>Sub_Witnesses\<close>: each at a concrete process.
  \<^item> \<open>Remote_Stack\<close>: the compare-and-swap loop of \<open>remote_push\<close> (the same in pool and runner) step by step, any
    number of threads (\<open>push_step\<close>), interleaved with the steps of the owner in \<open>_drain_remote\<close> (\<open>drain_step\<close>),
    the reuse of blocks and the writes of clients (\<open>remote_step\<close>); it refines an atomic
    stack, which is what allows the single-step pushes everywhere else.

  \<^item> \<open>Trace_Bench\<close>, \<open>Trace_Play\<close>: a client of the runner, the workloads of \<open>bench/runner_benchmark.cpp\<close>: the
    traces \<open>make_trace\<close> draws (the random engine is a parameter, with the range of a draw as hypothesis), and
    \<open>execute_trace\<close>, a template over the pool, first over \<open>block_source\<close> and then over the runner.

  \<^bold>\<open>What is shown.\<close>  For pool, runner and the whole process with any number of threads: a block that is granted is aligned, large enough and apart from
  every block that is held; operations keep the contents of all held blocks; every held block can be given
  back on either path or expanded in place; objects keep their representation; calls end, and null or an exception comes only where the code cannot do better.
  Free runs are coalesced maximally; the search is best fit in the linear bins; frees are routed to the
  owner; construction and destruction balance, whatever the client of a runner did in between; a workload that
  frees all it was lent leaves every chunk of the runner one free run; a cache is bounded and empty after thread exit; counts and
  errors of the allocator.  Three theorems show where the code does less than it means to
  (\<open>at_least_count_wraps\<close>, \<open>refill_throw_leaks\<close>, \<open>moved_from_pool_shares_nodes\<close>, for pools
  without headers; also the last part of
  \<open>handle_rebind_correct\<close>, and \<open>failed_growth_not_undone\<close>, \<open>scanned_nodes_overcounted\<close>).

  \<^bold>\<open>Loops.\<close>  There is no fuel: loops over memory (drains, bin lists, cache lists) are \<open>partial_function (option)\<close>
  and the theorems give \<open>Some\<close> result; loops over counters are structural or have a measure.

  \<^bold>\<open>Not modelled.\<close>  Assertions (\<open>NDEBUG\<close> semantics; what they check is a theorem, \<open>pool_assertions_exact\<close>, or a
  hypothesis).  The body of the constructors and destructors of user types: parameters.  In the
  sessions of the whole process: the destruction of a bound state (its pool and its runner have
  \<open>pool_destroy_correct\<close> and \<open>runner_release_correct\<close>) and default handles for a second element type,
  which have thread states of their own.  Weak memory:
  atomics are sequentially consistent, except that a relaxed load may return any value.  Of the runner benchmark: the clock, the
  statistics over the repeats, the printing, and the pool over a vector of bytes.  The other
  benchmarks and the tests (\<open>bench/\<close>, \<open>tests/\<close>) use the library and hold no logic of it.
\<close>

end
